(* ===== verification/Prelude.thy ===== *)
theory Prelude
  imports Main "HOL-Library.Word" "HOL-Library.Monad_Syntax" "HOL-Library.Multiset"
    "HOL-Library.List_Lexorder"
begin

unbundle bit_operations_syntax

text \<open>
  Shared vocabulary of the development.

  Go's \<open>byte\<close> is an 8-bit word, so that \<open>b - '0'\<close> and \<open>b + 0x20\<close> wrap as they do in the
  source; a byte slice and a Go string are both byte lists.  \<open>ch\<close> and \<open>bs\<close> write the character
  and string literals of the source.  A Go panic (a slice index out of range, or the process
  exit of \<open>BugExitln\<close>) is the value \<open>None\<close> of an option, threaded by the option monad.
\<close>

type_synonym byte = "8 word"
type_synonym bytes = "byte list"
type_synonym uint8 = "8 word"
type_synonym uint16 = "16 word"
type_synonym uint32 = "32 word"
type_synonym int64 = "64 word"

abbreviation ch :: "char \<Rightarrow> byte" where
  "ch c \<equiv> of_char c"

abbreviation bs :: "string \<Rightarrow> bytes" where
  "bs s \<equiv> map of_char s"

named_theorems panic_simps \<open>evaluation rules for the checked reads and writes\<close>

subsection \<open>Checked slices\<close>

definition idx :: "'a list \<Rightarrow> nat \<Rightarrow> 'a option" where
  "idx xs i = (if i < length xs then Some (xs ! i) else None)"

definition put :: "'a list \<Rightarrow> nat \<Rightarrow> 'a \<Rightarrow> 'a list option" where
  "put xs i x = (if i < length xs then Some (xs[i := x]) else None)"

definition slice :: "'a list \<Rightarrow> nat \<Rightarrow> nat \<Rightarrow> 'a list" where
  "slice xs a b = take (b - a) (drop a xs)"

definition sub :: "'a list \<Rightarrow> nat \<Rightarrow> nat \<Rightarrow> 'a list option" where
  "sub xs a b = (if a \<le> b \<and> b \<le> length xs then Some (slice xs a b) else None)"

text \<open>\<open>copy(dst[at:], src)\<close>: as many bytes as fit.\<close>

definition copyAt :: "'a list \<Rightarrow> nat \<Rightarrow> 'a list \<Rightarrow> 'a list" where
  "copyAt dst at src =
     take at dst @ take (length dst - at) src @ drop (at + length src) dst"

lemma idx_Some [panic_simps]: "i < length xs \<Longrightarrow> idx xs i = Some (xs ! i)"
  by (simp add: idx_def)

lemma idx_eq_Some_iff: "idx xs i = Some x \<longleftrightarrow> i < length xs \<and> xs ! i = x"
  by (auto simp: idx_def)

lemma idx_eq_None_iff: "idx xs i = None \<longleftrightarrow> length xs \<le> i"
  by (auto simp: idx_def)

lemma put_Some [panic_simps]: "i < length xs \<Longrightarrow> put xs i x = Some (xs[i := x])"
  by (simp add: put_def)

lemma sub_Some [panic_simps]: "a \<le> b \<Longrightarrow> b \<le> length xs \<Longrightarrow> sub xs a b = Some (slice xs a b)"
  by (simp add: sub_def)

lemma length_slice [simp]: "length (slice xs a b) = min (b - a) (length xs - a)"
  by (simp add: slice_def)

lemma slice_full [simp]: "slice xs 0 (length xs) = xs"
  by (simp add: slice_def)

lemma slice_empty [simp]: "slice xs a a = []"
  by (simp add: slice_def)

lemma slice_append_left: "b \<le> length xs \<Longrightarrow> slice (xs @ ys) a b = slice xs a b"
  by (simp add: slice_def)

lemma nth_slice: "a + i < b \<Longrightarrow> b \<le> length xs \<Longrightarrow> slice xs a b ! i = xs ! (a + i)"
  by (simp add: slice_def)

lemma slice_Suc: "a < b \<Longrightarrow> b \<le> length xs \<Longrightarrow> slice xs a b = xs ! a # slice xs (Suc a) b"
proof -
  assume "a < b" "b \<le> length xs"
  then have "drop a xs = xs ! a # drop (Suc a) xs"
    by (simp add: Cons_nth_drop_Suc)
  with \<open>a < b\<close> show ?thesis
    by (simp add: slice_def take_Cons' Suc_diff_Suc)
qed

lemma length_copyAt [simp]:
  "at \<le> length dst \<Longrightarrow> length (copyAt dst at src) = length dst"
  by (simp add: copyAt_def)

lemma slice_copyAt_same:
  "at + length src \<le> length dst \<Longrightarrow> slice (copyAt dst at src) at (at + length src) = src"
  by (simp add: copyAt_def slice_def)

lemma slice_copyAt_before:
  assumes "b \<le> at" "at \<le> length dst"
  shows "slice (copyAt dst at src) a b = slice dst a b"
proof -
  have "take b (copyAt dst at src) = take b dst"
    using assms by (simp add: copyAt_def min_def)
  then show ?thesis
    by (metis drop_take slice_def)
qed

lemma copyAt_at_end: "copyAt (dst @ rest) (length dst) src =
   dst @ take (length rest) src @ drop (length src) rest"
  by (simp add: copyAt_def)

lemma nth_copyAt:
  assumes "at + length src \<le> length dst" "i < length dst"
  shows "copyAt dst at src ! i =
    (if i < at then dst ! i else if i < at + length src then src ! (i - at) else dst ! i)"
  using assms by (auto simp: copyAt_def nth_append min_def)

subsection \<open>Searching\<close>

text \<open>\<open>bytes.IndexByte\<close>; no position is \<open>None\<close>.\<close>

fun indexByte :: "bytes \<Rightarrow> byte \<Rightarrow> nat option" where
  "indexByte [] b = None"
| "indexByte (x # xs) b = (if x = b then Some 0 else map_option Suc (indexByte xs b))"

lemma indexByte_Some:
  "indexByte xs b = Some k \<Longrightarrow> k < length xs \<and> xs ! k = b \<and> b \<notin> set (take k xs)"
  by (induction xs arbitrary: k) (auto split: if_splits)

lemma indexByte_None: "indexByte xs b = None \<longleftrightarrow> b \<notin> set xs"
  by (induction xs) auto

lemma indexByte_iff: "indexByte w b = Some p \<longleftrightarrow> p < length w \<and> w ! p = b \<and> b \<notin> set (take p w)"
  by (induction w arbitrary: p) (auto simp: nth_Cons take_Cons split: nat.splits)

subsection \<open>Results\<close>

text \<open>A call returns a value, fails with an error value, or panics.\<close>

datatype ('e, 'a) outcome = Panic | Fail 'e | Done 'a

fun andThen :: "('e, 'a) outcome \<Rightarrow> ('a \<Rightarrow> ('e, 'b) outcome) \<Rightarrow> ('e, 'b) outcome" where
  "andThen Panic g = Panic"
| "andThen (Fail e) g = Fail e"
| "andThen (Done x) g = g x"

definition checked :: "'a option \<Rightarrow> ('e, 'a) outcome" where
  "checked r = (case r of None \<Rightarrow> Panic | Some x \<Rightarrow> Done x)"

definition failUnless :: "bool \<Rightarrow> 'e \<Rightarrow> ('e, unit) outcome" where
  "failUnless c e = (if c then Done () else Fail e)"

lemma checked_simps [simp]: "checked None = Panic" "checked (Some x) = Done x"
  by (simp_all add: checked_def)

lemma andThen_Done_iff: "andThen m g = Done y \<longleftrightarrow> (\<exists>x. m = Done x \<and> g x = Done y)"
  by (cases m) auto

lemma andThen_Fail_iff: "andThen m g = Fail e \<longleftrightarrow> m = Fail e \<or> (\<exists>x. m = Done x \<and> g x = Fail e)"
  by (cases m) auto

lemma andThen_Panic_iff: "andThen m g = Panic \<longleftrightarrow> m = Panic \<or> (\<exists>x. m = Done x \<and> g x = Panic)"
  by (cases m) auto

lemma andThen_assoc: "andThen (andThen m g) h = andThen m (\<lambda>x. andThen (g x) h)"
  by (cases m) auto

lemma andThen_cong [fundef_cong]:
  "m = m' \<Longrightarrow> (\<And>x. m' = Done x \<Longrightarrow> g x = g' x) \<Longrightarrow> andThen m g = andThen m' g'"
  by (cases m') auto

lemma failUnless_iff [simp]:
  "failUnless c e = Done u \<longleftrightarrow> c" "failUnless c e = Fail e' \<longleftrightarrow> \<not> c \<and> e = e'" "failUnless c e \<noteq> Panic"
  by (auto simp: failUnless_def)

lemmas outcome_iffs = andThen_Done_iff andThen_Fail_iff andThen_Panic_iff

subsection \<open>Lists and words\<close>

lemma list_all_take: "list_all P xs \<Longrightarrow> list_all P (take n xs)"
  by (auto simp: list_all_iff dest: in_set_takeD)

lemma word_le_sub_unat: "a \<le> b \<Longrightarrow> unat (b - a) = unat b - unat a"
  for a b :: "'a::len word"
  by (simp add: unat_sub word_le_nat_alt)

text \<open>A digit range test followed by the subtraction of the range's first byte.\<close>

lemma byte_range_sub:
  assumes "lo \<le> b" "b \<le> hi"
  shows "unat (b - lo) = unat b - unat lo" "unat b - unat lo \<le> unat hi - unat lo"
  using assms by (auto simp: word_le_sub_unat word_le_nat_alt)

end
