(* ===== verification/Utilities.thy ===== *)
theory Utilities
  imports Prelude
begin

text \<open>
  The common helpers of \<open>hemi/hemi_utilities.go\<close>: hexadecimal and decimal conversion of
  \<open>int64\<close> values, byte classification, case folding, the additive hash, the insertion sort and
  the binary search on slices of byte slices.

  The decoders work on \<open>64 word\<close> and reject a value as soon as it turns negative, exactly as the
  source does; the encoders get the signed value as an \<open>int\<close>, since they only ever divide it,
  and write into a caller-supplied buffer (\<open>None\<close> is the exit of \<open>BugExitln\<close> or an
  out-of-range write).
\<close>

subsection \<open>Byte classes and case\<close>

definition byteIsBlank :: "byte \<Rightarrow> bool" where
  "byteIsBlank b \<longleftrightarrow> b = ch CHR '' '' \<or> b = 0x09 \<or> b = 0x0D \<or> b = 0x0A"

definition byteIsAlpha :: "byte \<Rightarrow> bool" where
  "byteIsAlpha b \<longleftrightarrow> ch CHR ''A'' \<le> b \<and> b \<le> ch CHR ''Z'' \<or> ch CHR ''a'' \<le> b \<and> b \<le> ch CHR ''z''"

definition byteIsDigit :: "byte \<Rightarrow> bool" where
  "byteIsDigit b \<longleftrightarrow> ch CHR ''0'' \<le> b \<and> b \<le> ch CHR ''9''"

definition byteIsAlnum :: "byte \<Rightarrow> bool" where
  "byteIsAlnum b \<longleftrightarrow> byteIsAlpha b \<or> byteIsDigit b"

definition byteIsIdent :: "byte \<Rightarrow> bool" where
  "byteIsIdent b \<longleftrightarrow> byteIsAlnum b \<or> b = ch CHR ''_''"

definition byteFromHex :: "byte \<Rightarrow> byte \<times> bool" where
  "byteFromHex b =
     (if ch CHR ''0'' \<le> b \<and> b \<le> ch CHR ''9'' then (b - ch CHR ''0'', True)
      else if ch CHR ''A'' \<le> b \<and> b \<le> ch CHR ''F'' then (b - ch CHR ''A'' + 10, True)
      else if ch CHR ''a'' \<le> b \<and> b \<le> ch CHR ''f'' then (b - ch CHR ''a'' + 10, True)
      else (0, False))"

definition bytesToLower :: "bytes \<Rightarrow> bytes" where
  "bytesToLower p =
     map (\<lambda>b. if ch CHR ''A'' \<le> b \<and> b \<le> ch CHR ''Z'' then b + 0x20 else b) p"

definition bytesToUpper :: "bytes \<Rightarrow> bytes" where
  "bytesToUpper p =
     map (\<lambda>b. if ch CHR ''a'' \<le> b \<and> b \<le> ch CHR ''z'' then b - 0x20 else b) p"

definition bytesHash :: "bytes \<Rightarrow> uint16" where
  "bytesHash p = foldl (\<lambda>hash b. hash + ucast b) 0 p"

definition stringHash :: "bytes \<Rightarrow> uint16" where
  "stringHash s = foldl (\<lambda>hash i. hash + ucast (s ! i)) 0 [0..<length s]"

subsection \<open>Decoding numbers\<close>

text \<open>One step of each loop; \<open>None\<close> is the early return of \<open>(0, false)\<close>.\<close>

definition hexStep :: "int64 \<Rightarrow> byte \<Rightarrow> int64 option" where
  "hexStep i64 b = do {
     d \<leftarrow> (if ch CHR ''0'' \<le> b \<and> b \<le> ch CHR ''9'' then Some (b - ch CHR ''0'')
          else if ch CHR ''a'' \<le> b \<and> b \<le> ch CHR ''f'' then Some (b - ch CHR ''a'' + 10)
          else if ch CHR ''A'' \<le> b \<and> b \<le> ch CHR ''F'' then Some (b - ch CHR ''A'' + 10)
          else None);
     let i64 = push_bit 4 i64 + ucast d;
     if i64 <s 0 then None else Some i64
   }"

definition decStep :: "int64 \<Rightarrow> byte \<Rightarrow> int64 option" where
  "decStep i64 b = do {
     d \<leftarrow> (if ch CHR ''0'' \<le> b \<and> b \<le> ch CHR ''9'' then Some (b - ch CHR ''0'') else None);
     let i64 = i64 * 10 + ucast d;
     if i64 <s 0 then None else Some i64
   }"

fun scanDigits :: "(int64 \<Rightarrow> byte \<Rightarrow> int64 option) \<Rightarrow> int64 \<Rightarrow> bytes \<Rightarrow> int64 option" where
  "scanDigits step i64 [] = Some i64"
| "scanDigits step i64 (b # p) =
     (case step i64 b of None \<Rightarrow> None | Some i64' \<Rightarrow> scanDigits step i64' p)"

definition hexToI64 :: "bytes \<Rightarrow> int64 \<times> bool" where
  "hexToI64 hex =
     (if length hex = 0 \<or> length hex > 16 then (0, False)
      else case scanDigits hexStep 0 hex of None \<Rightarrow> (0, False) | Some i64 \<Rightarrow> (i64, True))"

definition decToI64 :: "bytes \<Rightarrow> int64 \<times> bool" where
  "decToI64 dec =
     (if length dec = 0 \<or> length dec > 19 then (0, False)
      else case scanDigits decStep 0 dec of None \<Rightarrow> (0, False) | Some i64 \<Rightarrow> (i64, True))"

subsection \<open>Encoding numbers\<close>

definition hexDigits :: bytes where
  "hexDigits = bs ''0123456789abcdef''"

text \<open>The counting loop \<open>for i := ixx; i >= base; i /= base { n++ }\<close> (\<open>i >>= 4\<close> for base 16).\<close>

function countDigits :: "int \<Rightarrow> int \<Rightarrow> nat \<Rightarrow> nat" where
  "countDigits base i n = (if 2 \<le> base \<and> base \<le> i then countDigits base (i div base) (n + 1) else n)"
  by pat_completeness auto
termination
  by (relation "measure (\<lambda>(base, i, n). nat i)")
    (auto simp: div_less_dividend nat_less_eq_zless zdiv_mono1 int_div_less_self)

declare countDigits.simps [simp del]

text \<open>The writing loop: \<open>t := ixx / base; buf[j] = digit(ixx - t*base); j--; ixx = t\<close>.\<close>

function fillDigits :: "int \<Rightarrow> (int \<Rightarrow> byte) \<Rightarrow> int \<Rightarrow> int \<Rightarrow> bytes \<Rightarrow> bytes option" where
  "fillDigits base digit ixx j buf =
     (if j < 0 then None
      else if 2 \<le> base \<and> base \<le> ixx then do {
        let t = ixx div base;
        buf \<leftarrow> put buf (nat j) (digit (ixx - t * base));
        fillDigits base digit t (j - 1) buf
      } else put buf (nat j) (digit ixx))"
  by pat_completeness auto
termination
  by (relation "measure (\<lambda>(base, digit, ixx, j, buf). nat ixx)")
    (auto simp: nat_less_eq_zless int_div_less_self)

declare fillDigits.simps [simp del]

definition intToHex :: "int \<Rightarrow> bytes \<Rightarrow> nat \<Rightarrow> (bytes \<times> nat) option" where
  "intToHex ixx hex bufSize =
     (if length hex < bufSize then None
      else if ixx < 0 then None
      else do {
        let n = countDigits 0x10 ixx 1;
        hex \<leftarrow> fillDigits 0x10 (\<lambda>d. hexDigits ! nat d) ixx (int n - 1) hex;
        Some (hex, n)
      })"

definition intToDec :: "int \<Rightarrow> bytes \<Rightarrow> nat \<Rightarrow> (bytes \<times> nat) option" where
  "intToDec ixx dec bufSize =
     (if length dec < bufSize then None
      else if ixx < 0 then None
      else do {
        let n = countDigits 10 ixx 1;
        dec \<leftarrow> fillDigits 10 (\<lambda>d. word_of_int d + ch CHR ''0'') ixx (int n - 1) dec;
        Some (dec, n)
      })"

definition i64ToHex :: "int64 \<Rightarrow> bytes \<Rightarrow> (bytes \<times> nat) option" where
  "i64ToHex i64 hex = intToHex (sint i64) hex 16"

definition i32ToHex :: "32 word \<Rightarrow> bytes \<Rightarrow> (bytes \<times> nat) option" where
  "i32ToHex i32 hex = intToHex (sint i32) hex 8"

definition i64ToDec :: "int64 \<Rightarrow> bytes \<Rightarrow> (bytes \<times> nat) option" where
  "i64ToDec i64 dec = intToDec (sint i64) dec 19"

definition i32ToDec :: "32 word \<Rightarrow> bytes \<Rightarrow> (bytes \<times> nat) option" where
  "i32ToDec i32 dec = intToDec (sint i32) dec 10"

subsection \<open>Sorting and searching slices of byte slices\<close>

text \<open>\<open>bytes.Compare\<close>: lexicographic, the shorter of two prefixes first.\<close>

fun bytesCompare :: "bytes \<Rightarrow> bytes \<Rightarrow> int" where
  "bytesCompare [] [] = 0"
| "bytesCompare [] (b # q) = -1"
| "bytesCompare (a # p) [] = 1"
| "bytesCompare (a # p) (b # q) =
     (if a < b then -1 else if b < a then 1 else bytesCompare p q)"

text \<open>The inner loop of the insertion sort moves greater elements one place up.\<close>

fun shiftIn :: "bytes list \<Rightarrow> bytes \<Rightarrow> nat \<Rightarrow> bytes list" where
  "shiftIn byteses elem 0 = byteses[0 := elem]"
| "shiftIn byteses elem (Suc j) =
     (if bytesCompare (byteses ! j) elem > 0
      then shiftIn (byteses[Suc j := byteses ! j]) elem j
      else byteses[Suc j := elem])"

definition bytesesSort :: "bytes list \<Rightarrow> bytes list" where
  "bytesesSort byteses = foldl (\<lambda>bss i. shiftIn bss (bss ! i) i) byteses [1..<length byteses]"

function findFrom :: "bytes list \<Rightarrow> bytes \<Rightarrow> int \<Rightarrow> int \<Rightarrow> bool" where
  "findFrom byteses elem from lst =
     (if from \<le> lst then
        let mid = from + (lst - from) div 2;
            result = bytesCompare (byteses ! nat mid) elem
        in if result = 0 then True
           else if result < 0 then findFrom byteses elem (mid + 1) lst
           else findFrom byteses elem from (mid - 1)
      else False)"
  by pat_completeness auto
termination
  by (relation "measure (\<lambda>(byteses, elem, from, lst). nat (lst + 1 - from))") auto

declare findFrom.simps [simp del]

definition bytesesFind :: "bytes list \<Rightarrow> bytes \<Rightarrow> bool" where
  "bytesesFind byteses elem = findFrom byteses elem 0 (int (length byteses) - 1)"

fun valueOf :: "(byte \<Rightarrow> nat option) \<Rightarrow> nat \<Rightarrow> nat \<Rightarrow> bytes \<Rightarrow> nat option" where
  "valueOf undigit base acc [] = Some acc"
| "valueOf undigit base acc (b # p) =
     (case undigit b of None \<Rightarrow> None | Some d \<Rightarrow> valueOf undigit base (acc * base + d) p)"

fun digitsOf :: "nat \<Rightarrow> nat \<Rightarrow> nat list" where
  "digitsOf base n = (if 2 \<le> base \<and> base \<le> n then digitsOf base (n div base) @ [n mod base] else [n])"

declare digitsOf.simps [simp del]

lemma digitsOf_ne [simp]: "digitsOf base n \<noteq> []"
  by (subst digitsOf.simps) simp

lemma valueOf_append:
  "valueOf u base acc (p @ q) =
     (case valueOf u base acc p of None \<Rightarrow> None | Some v \<Rightarrow> valueOf u base v q)"
  by (induction p arbitrary: acc) (auto split: option.splits)

lemma valueOf_mono: "2 \<le> base \<Longrightarrow> valueOf u base acc p = Some v \<Longrightarrow> acc \<le> v"
proof (induction p arbitrary: acc)
  case Nil
  then show ?case by simp
next
  case (Cons b p)
  then obtain d where "valueOf u base (acc * base + d) p = Some v"
    by (auto split: option.splits)
  then have "acc * base + d \<le> v"
    using Cons by blast
  moreover have "acc \<le> acc * base"
    using Cons.prems(1) by (cases base) auto
  ultimately show ?case by linarith
qed

locale positional =
  fixes base :: nat and digit :: "int \<Rightarrow> byte" and undigit :: "byte \<Rightarrow> nat option"
  assumes base_ge: "2 \<le> base"
    and undigit_digit: "d < base \<Longrightarrow> undigit (digit (int d)) = Some d"
    and undigit_less: "undigit b = Some d \<Longrightarrow> d < base"
begin

lemma countDigits_length:
  "countDigits (int base) (int n) k + 1 = k + length (digitsOf base n)"
proof (induction n arbitrary: k rule: less_induct)
  case (less n)
  show ?case
  proof (cases "base \<le> n")
    case True
    then have "n div base < n" using base_ge by simp
    with less [of "n div base" "k + 1"] True base_ge show ?thesis
      by (subst countDigits.simps, subst digitsOf.simps) (simp flip: zdiv_int)
  next
    case False
    then show ?thesis
      by (subst countDigits.simps, subst digitsOf.simps) simp
  qed
qed

lemma fillDigits_digits:
  "j + 1 = length (digitsOf base n) \<Longrightarrow> length (digitsOf base n) \<le> length buf \<Longrightarrow>
   fillDigits (int base) digit (int n) (int j) buf =
     Some (map (digit \<circ> int) (digitsOf base n) @ drop (j + 1) buf)"
proof (induction n arbitrary: j buf rule: less_induct)
  case (less n)
  show ?case
  proof (cases "base \<le> n")
    case True
    define t where "t = n div base"
    have lt: "t < n" using True base_ge by (simp add: t_def)
    have dn: "digitsOf base n = digitsOf base t @ [n mod base]"
      using True base_ge by (subst digitsOf.simps) (simp add: t_def)
    have md: "int n - int t * int base = int (n mod base)"
      by (simp add: t_def zmod_int minus_div_mult_eq_mod zdiv_int)
    obtain j' where j: "j = Suc j'" "j' + 1 = length (digitsOf base t)"
      using less.prems(1) dn by (cases j) auto
    have "fillDigits (int base) digit (int t) (int j') (buf[j := digit (int (n mod base))])
        = Some (map (digit \<circ> int) (digitsOf base t) @
            drop (j' + 1) (buf[j := digit (int (n mod base))]))"
      using less.IH [OF lt j(2)] less.prems j by simp
    moreover have "drop (j' + 1) (buf[j := x]) = x # drop (j + 1) buf" for x
      using less.prems j by (simp add: drop_update_swap Cons_nth_drop_Suc [symmetric])
    moreover have "j < length buf" using less.prems by simp
    moreover have "nat (1 + int j') = Suc j'" by simp
    ultimately show ?thesis
      using True base_ge
      by (subst fillDigits.simps) (simp add: Let_def put_def dn md j flip: zdiv_int t_def)
  next
    case False
    then have "digitsOf base n = [n]" by (subst digitsOf.simps) simp
    with False less.prems show ?thesis
      by (subst fillDigits.simps) (cases buf; auto simp: put_def)
  qed
qed

lemma digitsOf_less: "d \<in> set (digitsOf base n) \<Longrightarrow> d < base"
proof (induction n rule: less_induct)
  case (less n)
  show ?case
  proof (cases "base \<le> n")
    case True
    with base_ge have "d \<in> set (digitsOf base (n div base)) \<or> d = n mod base"
      using less.prems by (subst (asm) digitsOf.simps) auto
    with less.IH [of "n div base"] True base_ge show ?thesis by auto
  next
    case False
    with less.prems show ?thesis by (subst (asm) digitsOf.simps) auto
  qed
qed

lemma valueOf_digits: "valueOf undigit base 0 (map (digit \<circ> int) (digitsOf base n)) = Some n"
proof (induction n rule: less_induct)
  case (less n)
  show ?case
  proof (cases "base \<le> n")
    case True
    then show ?thesis
      using less.IH [of "n div base"] base_ge
      by (subst digitsOf.simps) (simp add: valueOf_append undigit_digit comp_def)
  next
    case False
    then show ?thesis by (subst digitsOf.simps) (simp add: undigit_digit)
  qed
qed

lemma length_digitsOf: "n < base ^ k \<Longrightarrow> 0 < k \<Longrightarrow> length (digitsOf base n) \<le> k"
proof (induction k arbitrary: n)
  case 0
  then show ?case by simp
next
  case (Suc k)
  show ?case
  proof (cases "base \<le> n")
    case True
    then have k: "0 < k" using Suc.prems by (cases k) auto
    have "n div base < base ^ k"
      using Suc.prems base_ge by (simp add: less_mult_imp_div_less mult.commute)
    with Suc.IH [OF this k] True base_ge show ?thesis by (subst digitsOf.simps) simp
  next
    case False
    then show ?thesis by (subst digitsOf.simps) simp
  qed
qed

end

definition hexVal :: "byte \<Rightarrow> nat option" where
  "hexVal b = (case byteFromHex b of (d, ok) \<Rightarrow> if ok then Some (unat d) else None)"

definition decVal :: "byte \<Rightarrow> nat option" where
  "decVal b = (if byteIsDigit b then Some (unat b - 48) else None)"

lemma hexVal_less: "hexVal b = Some d \<Longrightarrow> d < 16"
  unfolding hexVal_def byteFromHex_def
  by (auto split: if_splits simp: word_le_nat_alt unat_sub unat_word_ariths)

lemma hexDigits_eq:
  "hexDigits = [48, 49, 50, 51, 52, 53, 54, 55, 56, 57, 97, 98, 99, 100, 101, 102]"
  by (simp add: hexDigits_def)

lemma hexVal_table: "map hexVal hexDigits = map Some [0..<16]"
  by (simp add: hexDigits_eq hexVal_def byteFromHex_def upt_rec)

lemma hexVal_digit: "d < 16 \<Longrightarrow> hexVal (hexDigits ! nat (int d)) = Some d"
proof -
  assume "d < 16"
  moreover have "length hexDigits = 16" by (simp add: hexDigits_eq)
  ultimately show ?thesis
    using arg_cong [OF hexVal_table, of "\<lambda>xs. xs ! d"] by simp
qed

interpretation hex: positional 16 "\<lambda>d. hexDigits ! nat d" hexVal
  by unfold_locales (simp, fact hexVal_digit, fact hexVal_less)

lemma decVal_less: "decVal b = Some d \<Longrightarrow> d < 10"
  unfolding decVal_def byteIsDigit_def
  by (auto split: if_splits simp: word_le_nat_alt)

lemma decVal_table: "map (\<lambda>d. decVal (word_of_int (int d) + 48)) [0..<10] = map Some [0..<10]"
  by (simp add: decVal_def byteIsDigit_def upt_rec)

lemma decVal_digit: "d < 10 \<Longrightarrow> decVal (word_of_int (int d) + ch CHR ''0'') = Some d"
  using arg_cong [OF decVal_table, of "\<lambda>xs. xs ! d"] by simp

interpretation dec: positional 10 "\<lambda>d. word_of_int d + ch CHR ''0''" decVal
  by unfold_locales (simp, fact decVal_digit, fact decVal_less)

subsection \<open>The decoders compute the value of the numeral\<close>

lemma sless_0_unat: "(w <s 0) \<longleftrightarrow> 2 ^ 63 \<le> unat w" for w :: int64
proof -
  have "w <s 0 \<longleftrightarrow> bit w 63"
    by (simp add: word_sless_alt sint_uint signed_take_bit_negative_iff bit_uint_iff)
  also have "\<dots> \<longleftrightarrow> bit (unat w) 63"
    by (simp add: bit_unsigned_iff)
  also have "\<dots> \<longleftrightarrow> odd (unat w div 2 ^ 63)"
    by (simp add: bit_iff_odd)
  also have "\<dots> \<longleftrightarrow> 2 ^ 63 \<le> unat w"
  proof -
    have "unat w < 2 * 2 ^ 63" using unsigned_less [of w, where 'a = nat] by simp
    then have "unat w div 2 ^ 63 = (if 2 ^ 63 \<le> unat w then 1 else 0)"
      by (simp add: div_nat_eqI)
    then show ?thesis by simp
  qed
  finally show ?thesis .
qed

lemma unat_word_of_nat_less: "n < 2 ^ LENGTH('a) \<Longrightarrow> unat (word_of_nat n :: 'a::len word) = n"
  by (simp add: unsigned_of_nat take_bit_nat_eq_self)

text \<open>
  A step function reads one digit of a base whose numerals of at most \<open>maxLen\<close> digits fit in
  64 bits: then it never wraps, and its sign test is the test against \<open>2 ^ 63\<close>.
\<close>

locale step_reader = positional base digit undigit
  for base digit undigit +
  fixes step :: "int64 \<Rightarrow> byte \<Rightarrow> int64 option" and maxLen :: nat
  assumes fits: "base ^ maxLen \<le> 2 ^ 64"
    and step_spec: "base * (unat i64 + 1) \<le> 2 ^ 64 \<Longrightarrow> step i64 b =
      (case undigit b of None \<Rightarrow> None
       | Some d \<Rightarrow> if unat i64 * base + d < 2 ^ 63 then Some (of_nat (unat i64 * base + d)) else None)"
begin

lemma scanDigits_value:
  "unat i64 < base ^ k \<Longrightarrow> unat i64 < 2 ^ 63 \<Longrightarrow> k + length p \<le> maxLen \<Longrightarrow>
   scanDigits step i64 p =
     (case valueOf undigit base (unat i64) p of None \<Rightarrow> None
      | Some v \<Rightarrow> if v < 2 ^ 63 then Some (of_nat v) else None)"
proof (induction p arbitrary: i64 k)
  case Nil
  then show ?case by simp
next
  case (Cons b p)
  have up: "base ^ Suc k \<le> 2 ^ 64"
    using fits Cons.prems(3) base_ge power_increasing [of "Suc k" maxLen base] by simp
  have "base * (unat i64 + 1) \<le> base * base ^ k"
    using Cons.prems(1) by (intro mult_le_mono) auto
  with up have st: "base * (unat i64 + 1) \<le> 2 ^ 64" by simp
  show ?case
  proof (cases "undigit b")
    case None
    then show ?thesis by (simp add: step_spec [OF st])
  next
    case (Some d)
    let ?v = "unat i64 * base + d"
    have "d < base" using Some by (rule undigit_less)
    have "?v < base * (unat i64 + 1)"
      using \<open>d < base\<close> by (simp add: algebra_simps)
    also have "\<dots> \<le> base ^ Suc k"
      using Cons.prems(1) by (simp only: power_Suc) (intro mult_le_mono, auto)
    finally have less: "?v < base ^ Suc k" .
    show ?thesis
    proof (cases "?v < 2 ^ 63")
      case True
      then have u: "unat (word_of_nat ?v :: int64) = ?v"
        by (intro unat_word_of_nat_less) simp
      have "scanDigits step (word_of_nat ?v) p =
        (case valueOf undigit base (unat (word_of_nat ?v :: int64)) p of None \<Rightarrow> None
         | Some v \<Rightarrow> if v < 2 ^ 63 then Some (of_nat v) else None)"
        using Cons.prems(3) True less by (intro Cons.IH [of _ "Suc k"]) (simp_all only: u, simp)
      with True Some show ?thesis
        by (simp only: scanDigits.simps valueOf.simps step_spec [OF st] u option.case if_True)
    next
      case False
      then have "\<not> v < 2 ^ 63" if "valueOf undigit base ?v p = Some v" for v
        using valueOf_mono [OF base_ge that] by linarith
      with False Some show ?thesis
        by (simp add: step_spec [OF st] split: option.split)
    qed
  qed
qed

lemma scanDigits_top:
  "length p \<le> maxLen \<Longrightarrow> scanDigits step 0 p =
     (case valueOf undigit base 0 p of None \<Rightarrow> None
      | Some v \<Rightarrow> if v < 2 ^ 63 then Some (of_nat v) else None)"
  using scanDigits_value [of 0 0 p] by simp

end

lemma unat_mult_add:
  assumes "m * (unat i64 + 1) \<le> 2 ^ 64" "unat d < m"
  shows "unat (i64 * word_of_nat m + ucast (d :: byte) :: int64) = unat i64 * m + unat d"
proof -
  have "unat i64 * m + unat d < 2 ^ 64" using assms by (simp add: algebra_simps)
  moreover have "(i64 * word_of_nat m + ucast d :: int64) = word_of_nat (unat i64 * m + unat d)"
    by simp
  ultimately show ?thesis
    using unat_word_of_nat_less [of "unat i64 * m + unat d", where 'a = 64] by (simp del: of_nat_add of_nat_mult)
qed

lemma hexStep_spec:
  assumes "16 * (unat i64 + 1) \<le> 2 ^ 64"
  shows "hexStep i64 b = (case hexVal b of None \<Rightarrow> None
    | Some d \<Rightarrow> if unat i64 * 16 + d < 2 ^ 63 then Some (of_nat (unat i64 * 16 + d)) else None)"
proof -
  have eq: "hexStep i64 b = (case byteFromHex b of (d, ok) \<Rightarrow>
      if \<not> ok then None else if push_bit 4 i64 + ucast d <s 0 then None
      else Some (push_bit 4 i64 + ucast d))"
    by (auto simp: hexStep_def byteFromHex_def Let_def word_le_nat_alt)
  show ?thesis
  proof (cases "hexVal b")
    case None
    then show ?thesis by (auto simp: eq hexVal_def split: prod.splits if_splits)
  next
    case (Some d)
    then obtain w where w: "byteFromHex b = (w, True)" "d = unat w"
      by (auto simp: hexVal_def split: prod.splits if_splits)
    have less: "unat w < 16" using hexVal_less [OF Some] w by simp
    have pb: "push_bit 4 i64 = i64 * word_of_nat 16"
      by (simp add: push_bit_eq_mult)
    have u: "unat (i64 * word_of_nat 16 + ucast w :: int64) = unat i64 * 16 + unat w"
      using assms less by (rule unat_mult_add)
    then have "i64 * word_of_nat 16 + ucast w = word_of_nat (unat i64 * 16 + d)"
      using w by simp
    then show ?thesis
      using u w Some by (simp add: eq pb sless_0_unat not_le)
  qed
qed

interpretation hexReader: step_reader 16 "\<lambda>d. hexDigits ! nat d" hexVal hexStep 16
  by unfold_locales (simp, rule hexStep_spec)

lemma decStep_spec:
  assumes "10 * (unat i64 + 1) \<le> 2 ^ 64"
  shows "decStep i64 b = (case decVal b of None \<Rightarrow> None
    | Some d \<Rightarrow> if unat i64 * 10 + d < 2 ^ 63 then Some (of_nat (unat i64 * 10 + d)) else None)"
proof (cases "byteIsDigit b")
  case False
  then show ?thesis by (auto simp: decVal_def decStep_def byteIsDigit_def)
next
  case True
  define w where "w = b - ch CHR ''0''"
  have dec: "decVal b = Some (unat w)"
    using True by (auto simp: decVal_def byteIsDigit_def w_def word_le_sub_unat)
  have u: "unat (i64 * word_of_nat 10 + ucast w :: int64) = unat i64 * 10 + unat w"
    using assms decVal_less [OF dec] by (rule unat_mult_add)
  have "decStep i64 b = (if i64 * word_of_nat 10 + ucast w <s 0 then None
      else Some (i64 * word_of_nat 10 + ucast w))"
    using True by (simp add: decStep_def byteIsDigit_def w_def Let_def)
  moreover have "i64 * word_of_nat 10 + ucast w = word_of_nat (unat i64 * 10 + unat w)"
    by simp
  ultimately show ?thesis
    using u dec by (simp only: sless_0_unat not_le option.case u) simp
qed

interpretation decReader: step_reader 10 "\<lambda>d. word_of_int d + ch CHR ''0''" decVal decStep 19
  by unfold_locales (simp, rule decStep_spec)

lemma hexToI64_value:
  "hexToI64 hex = (if hex \<noteq> [] \<and> length hex \<le> 16 then
     (case valueOf hexVal 16 0 hex of None \<Rightarrow> (0, False)
      | Some v \<Rightarrow> if v < 2 ^ 63 then (of_nat v, True) else (0, False)) else (0, False))"
  by (auto simp: hexToI64_def hexReader.scanDigits_top split: option.splits)

lemma decToI64_value:
  "decToI64 dec = (if dec \<noteq> [] \<and> length dec \<le> 19 then
     (case valueOf decVal 10 0 dec of None \<Rightarrow> (0, False)
      | Some v \<Rightarrow> if v < 2 ^ 63 then (of_nat v, True) else (0, False)) else (0, False))"
  by (auto simp: decToI64_def decReader.scanDigits_top split: option.splits)

subsection \<open>Encoding then decoding\<close>

lemma sint_unat_nonneg:
  fixes v :: int64
  assumes "0 \<le> sint v"
  shows "unat v < 2 ^ 63" "sint v = int (unat v)"
proof -
  show less: "unat v < 2 ^ 63"
    using assms sless_0_unat [of v] by (simp add: word_sless_alt)
  then have "int (unat v) < int (2 ^ 63)"
    by (simp only: of_nat_less_iff)
  then have "uint v < 2 ^ 63"
    by simp
  moreover have "- (2 ^ 63) \<le> uint v"
    by (rule order_trans [of _ 0]) simp_all
  ultimately have "signed_take_bit 63 (uint v) = uint v"
    by (simp add: signed_take_bit_int_eq_self)
  then show "sint v = int (unat v)"
    by (simp add: sint_uint)
qed


lemma intToHex_spec:
  assumes "n < 16 ^ bufSize" "0 < bufSize" "bufSize \<le> length hex"
  shows "intToHex (int n) hex bufSize =
    Some (map ((\<lambda>d. hexDigits ! nat d) \<circ> int) (digitsOf 16 n) @ drop (length (digitsOf 16 n)) hex,
          length (digitsOf 16 n))"
proof -
  have len: "length (digitsOf 16 n) \<le> length hex"
    using hex.length_digitsOf assms by (meson order_trans)
  obtain j where j: "length (digitsOf 16 n) = Suc j"
    by (cases "digitsOf 16 n") auto
  then have "countDigits 16 (int n) 1 = Suc j"
    using hex.countDigits_length [of n 1] by simp
  with hex.fillDigits_digits [of j n hex] len j assms show ?thesis
    by (simp add: intToHex_def)
qed

lemma intToDec_spec:
  assumes "n < 10 ^ bufSize" "0 < bufSize" "bufSize \<le> length dec"
  shows "intToDec (int n) dec bufSize =
    Some (map ((\<lambda>d. word_of_int d + ch CHR ''0'') \<circ> int) (digitsOf 10 n) @
            drop (length (digitsOf 10 n)) dec, length (digitsOf 10 n))"
proof -
  have len: "length (digitsOf 10 n) \<le> length dec"
    using dec.length_digitsOf assms by (meson order_trans)
  obtain j where j: "length (digitsOf 10 n) = Suc j"
    by (cases "digitsOf 10 n") auto
  then have "countDigits 10 (int n) 1 = Suc j"
    using dec.countDigits_length [of n 1] by simp
  with dec.fillDigits_digits [of j n dec] len j assms show ?thesis
    by (simp add: intToDec_def)
qed

lemma hexToI64_iff:
  "hexToI64 hex = (v, True) \<longleftrightarrow>
     1 \<le> length hex \<and> length hex \<le> 16 \<and> unat v < 2 ^ 63 \<and> valueOf hexVal 16 0 hex = Some (unat v)"
  by (auto simp: hexToI64_value Suc_le_eq unat_word_of_nat_less split: option.splits if_splits)

text \<open>C17: the hexadecimal decoder accepts exactly the non-empty numerals of at most 16 digits
  whose value is a non-negative \<open>int64\<close>, and returns that value.\<close>

theorem hexToI64_exact:
  "hexToI64 hex = (v, True) \<longleftrightarrow>
     1 \<le> length hex \<and> length hex \<le> 16 \<and> unat v < 2 ^ 63 \<and> valueOf hexVal 16 0 hex = Some (unat v)"
  by (rule hexToI64_iff)

text \<open>the decimal decoder accepts exactly the non-empty numerals of at most 19 digits whose
  value is a non-negative \<open>int64\<close>, and returns that value.\<close>

theorem decToI64_exact:
  "decToI64 dec = (v, True) \<longleftrightarrow>
     1 \<le> length dec \<and> length dec \<le> 19 \<and> unat v < 2 ^ 63 \<and> valueOf decVal 10 0 dec = Some (unat v)"
  by (auto simp: decToI64_value Suc_le_eq unat_word_of_nat_less split: option.splits if_splits)

text \<open>C18: every non-negative \<open>int64\<close> written by \<open>i64ToHex\<close> or \<open>i64ToDec\<close> into a
  buffer of the documented size is read back by the decoders, and the rest of the buffer is
  untouched.\<close>

theorem i64_text_roundtrip:
  assumes "0 \<le> sint v" "16 \<le> length hex" "19 \<le> length dec"
  shows "(\<exists>hex' n. i64ToHex v hex = Some (hex', n) \<and> n \<le> 16 \<and>
           hexToI64 (take n hex') = (v, True) \<and> drop n hex' = drop n hex) \<and>
         (\<exists>dec' m. i64ToDec v dec = Some (dec', m) \<and> m \<le> 19 \<and>
           decToI64 (take m dec') = (v, True) \<and> drop m dec' = drop m dec)"
proof (intro conjI)
  note v = sint_unat_nonneg [OF assms(1)]
  have small: "unat v < 16 ^ 16" "unat v < 10 ^ 19" using v(1) by simp_all
  show "\<exists>hex' n. i64ToHex v hex = Some (hex', n) \<and> n \<le> 16 \<and>
           hexToI64 (take n hex') = (v, True) \<and> drop n hex' = drop n hex"
    using hex.length_digitsOf [OF small(1)] hex.valueOf_digits [of "unat v"] v
      intToHex_spec [OF small(1) _ assms(2)]
    by (auto simp: i64ToHex_def hexToI64_iff Suc_le_eq)
  show "\<exists>dec' m. i64ToDec v dec = Some (dec', m) \<and> m \<le> 19 \<and>
           decToI64 (take m dec') = (v, True) \<and> drop m dec' = drop m dec"
    using dec.length_digitsOf [OF small(2)] dec.valueOf_digits [of "unat v"] v
      intToDec_spec [OF small(2) _ assms(3)]
    by (auto simp: i64ToDec_def decToI64_exact Suc_le_eq)
qed

theorem i64_text_roundtrip_witness:
  "\<exists>hex' n. i64ToHex 431 (replicate 16 0) = Some (hex', n) \<and> hexToI64 (take n hex') = (431, True)"
  using i64_text_roundtrip [of 431 "replicate 16 0" "replicate 19 0"] by auto

subsection \<open>Sorting and searching\<close>

lemma bytesCompare_eq_0 [simp]: "bytesCompare p q = 0 \<longleftrightarrow> p = q"
  by (induction p q rule: bytesCompare.induct) auto

lemma bytesCompare_pos [simp]: "0 < bytesCompare p q \<longleftrightarrow> q < p"
  by (induction p q rule: bytesCompare.induct) auto

lemma bytesCompare_neg [simp]: "bytesCompare p q < 0 \<longleftrightarrow> p < q"
  by (induction p q rule: bytesCompare.induct) auto

text \<open>The inner loop inserts the element into the sorted prefix and keeps the rest.\<close>

lemma shiftIn_insort:
  "j < length xs \<Longrightarrow> sorted (take j xs) \<Longrightarrow>
   \<exists>ys. shiftIn xs e j = ys @ drop (Suc j) xs \<and> sorted ys \<and> mset ys = add_mset e (mset (take j xs))"
proof (induction j arbitrary: xs)
  case 0
  then have "xs[0 := e] = [e] @ drop (Suc 0) xs"
    by (cases xs) auto
  then show ?case by (intro exI [of _ "[e]"]) simp
next
  case (Suc j)
  have tk: "take (Suc j) xs = take j xs @ [xs ! j]"
    using Suc.prems by (simp add: take_Suc_conv_app_nth)
  show ?case
  proof (cases "e < xs ! j")
    case True
    have "sorted (take j (xs[Suc j := xs ! j]))"
      using Suc.prems tk by (simp add: sorted_append)
    then obtain ys where ys:
      "shiftIn (xs[Suc j := xs ! j]) e j = ys @ drop (Suc j) (xs[Suc j := xs ! j])"
      "sorted ys" "mset ys = add_mset e (mset (take j (xs[Suc j := xs ! j])))"
      using Suc.IH [of "xs[Suc j := xs ! j]"] Suc.prems by auto
    have "drop (Suc j) (xs[Suc j := xs ! j]) = xs ! j # drop (Suc (Suc j)) xs"
      using Suc.prems by (simp add: drop_update_swap Cons_nth_drop_Suc [symmetric])
    moreover have "y \<le> xs ! j" if "y \<in> set ys" for y
    proof -
      have "y \<in># add_mset e (mset (take j xs))"
        using ys(3) that by (metis set_mset_mset take_update_cancel le_SucI order_refl)
      then show ?thesis using True Suc.prems(2) tk by (auto simp: sorted_append)
    qed
    ultimately show ?thesis
      using True ys tk by (intro exI [of _ "ys @ [xs ! j]"]) (auto simp: sorted_append)
  next
    case False
    then have "sorted (take (Suc j) xs @ [e])"
      using Suc.prems tk by (auto simp: sorted_append)
    moreover have "xs[Suc j := e] = (take (Suc j) xs @ [e]) @ drop (Suc (Suc j)) xs"
      using Suc.prems by (simp add: upd_conv_take_nth_drop)
    ultimately show ?thesis
      using False by (intro exI [of _ "take (Suc j) xs @ [e]"]) simp
  qed
qed

lemma bytesesSort_prefix:
  "k \<le> length xs \<Longrightarrow>
   \<exists>ys. foldl (\<lambda>bss i. shiftIn bss (bss ! i) i) xs [1..<k] = ys @ drop (length ys) xs \<and>
     length ys = k \<and> sorted ys \<and> mset ys = mset (take k xs)"
proof (induction k)
  case 0
  then show ?case by simp
next
  case (Suc k)
  show ?case
  proof (cases "k = 0")
    case True
    with Suc.prems show ?thesis by (intro exI [of _ "take 1 xs"]) (cases xs; simp)
  next
    case False
    obtain ys where ys: "foldl (\<lambda>bss i. shiftIn bss (bss ! i) i) xs [1..<k] = ys @ drop k xs"
      "length ys = k" "sorted ys" "mset ys = mset (take k xs)"
      using Suc by auto
    have nth: "(ys @ drop k xs) ! k = xs ! k" using ys Suc.prems by (simp add: nth_append)
    obtain zs where zs: "shiftIn (ys @ drop k xs) (xs ! k) k = zs @ drop (Suc k) (ys @ drop k xs)"
      "sorted zs" "mset zs = add_mset (xs ! k) (mset ys)"
      using shiftIn_insort [of k "ys @ drop k xs" "xs ! k"] ys Suc.prems by auto
    have "length zs = Suc k" using zs(3) ys(2) by (metis size_mset size_add_mset)
    then show ?thesis
      using False ys zs nth Suc.prems
      by (intro exI [of _ zs]) (simp add: take_Suc_conv_app_nth)
  qed
qed

lemma bytesesSort_sorted: "sorted (bytesesSort xs)"
  and mset_bytesesSort: "mset (bytesesSort xs) = mset xs"
  using bytesesSort_prefix [of "length xs" xs] by (auto simp: bytesesSort_def)

lemma findFrom_correct:
  assumes "sorted xs" "0 \<le> from" "lst < int (length xs)"
    and "\<And>k. k < length xs \<Longrightarrow> xs ! k = e \<Longrightarrow> from \<le> int k \<and> int k \<le> lst"
  shows "findFrom xs e from lst \<longleftrightarrow> e \<in> set xs"
  using assms
proof (induction xs e "from" lst rule: findFrom.induct)
  case (1 xs e "from" lst)
  define mid where "mid = from + (lst - from) div 2"
  show ?case
  proof (cases "from \<le> lst")
    case False
    then have "e \<notin> set xs" using "1.prems"(4) by (force simp: in_set_conv_nth)
    with False show ?thesis by (simp add: findFrom.simps)
  next
    case True
    then have m: "from \<le> mid" "mid \<le> lst" by (auto simp: mid_def)
    then have ml: "nat mid < length xs" "0 \<le> mid" using "1.prems" by auto
    note IH = "1.IH" [OF True mid_def refl]
    consider "xs ! nat mid = e" | "xs ! nat mid < e" | "e < xs ! nat mid"
      by (rule linorder_cases)
    then show ?thesis
    proof cases
      case 1
      then show ?thesis using ml True by (subst findFrom.simps) (auto simp: Let_def mid_def)
    next
      case 2
      have "int k \<ge> mid + 1" if "k < length xs" "xs ! k = e" for k
        using 2 sorted_nth_mono [OF \<open>sorted xs\<close>, of k "nat mid"] that ml by fastforce
      then have "findFrom xs e (mid + 1) lst \<longleftrightarrow> e \<in> set xs"
        using 2 "1.prems" m by (intro IH(1)) auto
      with 2 True show ?thesis by (subst findFrom.simps) (auto simp: Let_def mid_def)
    next
      case 3
      have "int k \<le> mid - 1" if "k < length xs" "xs ! k = e" for k
        using 3 sorted_nth_mono [OF \<open>sorted xs\<close>, of "nat mid" k] that ml by fastforce
      then have "findFrom xs e from (mid - 1) \<longleftrightarrow> e \<in> set xs"
        using 3 "1.prems" m by (intro IH(2)) auto
      with 3 True show ?thesis by (subst findFrom.simps) (auto simp: Let_def mid_def)
    qed
  qed
qed

text \<open>C19: the sort returns the ascending rearrangement of its input, and on the sorted slice
  the binary search finds exactly the elements of the original slice.\<close>

theorem bytesesSort_then_find:
  "sorted (bytesesSort xs) \<and> mset (bytesesSort xs) = mset xs \<and>
   (bytesesFind (bytesesSort xs) e \<longleftrightarrow> e \<in> set xs)"
proof -
  have "set (bytesesSort xs) = set xs"
    by (rule mset_eq_setD [OF mset_bytesesSort])
  moreover have "findFrom (bytesesSort xs) e 0 (int (length (bytesesSort xs)) - 1) \<longleftrightarrow>
      e \<in> set (bytesesSort xs)"
    by (rule findFrom_correct [OF bytesesSort_sorted]) auto
  ultimately show ?thesis
    by (simp add: bytesesFind_def bytesesSort_sorted mset_bytesesSort)
qed

end
