(* ===== verification/Hpack.thy ===== *)
theory Hpack
  imports Utilities
begin

text \<open>
  HPACK (RFC 7541) as \<open>hemi/web_element_http2.go\<close> implements it: the prefixed integers, the
  string literals and the dynamic table, which is a circular buffer of entry descriptors over one
  contiguous byte buffer.

  The integers of the varint codec are 32-bit words.  Of the dynamic table, sizes and positions
  are naturals, with the conversions to \<open>uint8\<close> and \<open>uint16\<close> written out as \<open>mod\<close>; the
  invariant shows that no subtraction goes below zero.  \<open>None\<close> is a Go panic (a slice out of
  range) or the exit of \<open>BugExitln\<close>.  The Huffman coder of the source is a stub and is
  modelled as the stub it is.
\<close>

subsection \<open>Huffman coding (web_element_http.go)\<close>

definition httpHuffmanSizes :: "nat list" where
  "httpHuffmanSizes = [
   13, 23, 28, 28, 28, 28, 28, 28, 28, 24, 30, 28, 28, 30, 28, 28,
   28, 28, 28, 28, 28, 28, 30, 28, 28, 28, 28, 28, 28, 28, 28, 28,
   6, 10, 10, 12, 13, 6, 8, 11, 10, 10, 8, 11, 8, 6, 6, 6,
   5, 5, 5, 6, 6, 6, 6, 6, 6, 6, 7, 8, 15, 6, 12, 10,
   13, 6, 7, 7, 7, 7, 7, 7, 7, 7, 7, 7, 7, 7, 7, 7,
   7, 7, 7, 7, 7, 7, 7, 7, 8, 7, 8, 13, 19, 13, 14, 6,
   15, 5, 6, 5, 6, 5, 6, 6, 6, 5, 7, 7, 6, 6, 6, 5,
   6, 7, 6, 5, 5, 6, 7, 7, 7, 7, 7, 15, 11, 14, 13, 28,
   20, 22, 20, 20, 22, 22, 22, 23, 22, 23, 23, 23, 23, 23, 24, 23,
   24, 24, 22, 23, 24, 23, 23, 23, 23, 21, 22, 23, 22, 23, 23, 24,
   22, 21, 20, 22, 22, 23, 23, 21, 23, 22, 22, 24, 21, 22, 23, 23,
   21, 21, 22, 21, 23, 22, 23, 23, 20, 22, 22, 22, 23, 22, 22, 23,
   26, 26, 20, 19, 22, 23, 22, 25, 26, 26, 26, 27, 27, 26, 24, 25,
   19, 21, 26, 27, 27, 26, 27, 24, 21, 21, 26, 26, 28, 27, 27, 27,
   20, 24, 20, 21, 22, 21, 21, 23, 22, 22, 25, 25, 24, 24, 26, 23,
   26, 27, 26, 26, 27, 27, 27, 27, 27, 28, 27, 27, 27, 27, 27, 26]"

definition httpHuffmanLength :: "bytes \<Rightarrow> nat" where
  "httpHuffmanLength src = ((\<Sum>b\<leftarrow>src. httpHuffmanSizes ! unat b) + 7) div 8"

text \<open>Both coders are unfinished in the source: nothing is written, and decoding fails.\<close>

definition httpHuffmanEncode :: "bytes \<Rightarrow> bytes \<Rightarrow> bytes \<times> nat" where
  "httpHuffmanEncode dst src = (dst, 0)"

definition httpHuffmanDecode :: "bytes \<Rightarrow> bytes \<Rightarrow> nat \<times> bool" where
  "httpHuffmanDecode dst src = (0, False)"

subsection \<open>Prefixed integers\<close>

function decodeVarintLoop :: "bytes \<Rightarrow> uint32 \<Rightarrow> uint32 \<Rightarrow> nat \<Rightarrow> nat \<Rightarrow> uint32 \<times> nat \<times> bool" where
  "decodeVarintLoop fields maxI I j M =
     (if j < length fields then
        let B = fields ! j;
            j' = j + 1;
            I' = I + push_bit M (ucast (B AND 0x7F))
        in if I' > maxI then (I', j', False)
           else if B < 0x80 then (I', j', True)
           else decodeVarintLoop fields maxI I' j' (M + 7)
      else (I, j, False))"
  by pat_completeness auto
termination
  by (relation "measure (\<lambda>(fields, maxI, I, j, M). length fields - j)") auto

declare decodeVarintLoop.simps [simp del]

definition hpackDecodeVarint :: "bytes \<Rightarrow> nat \<Rightarrow> uint32 \<Rightarrow> uint32 \<times> nat \<times> bool" where
  "hpackDecodeVarint fields N maxI =
     (if length fields = 0 then (0, 0, False)
      else let K = push_bit N 1 - 1;
               I = ucast (fields ! 0) AND K
           in if I < K then (I, 1, I \<le> maxI)
              else decodeVarintLoop fields maxI I 1 0)"

function encodeVarintLoop :: "bytes \<Rightarrow> uint32 \<Rightarrow> nat \<Rightarrow> bytes \<times> uint32 \<times> nat" where
  "encodeVarintLoop fields I j =
     (if I \<ge> 0x80 \<and> j < length fields
      then encodeVarintLoop (fields[j := ucast I OR 0x80]) (I div 0x80) (j + 1)
      else (fields, I, j))"
  by pat_completeness auto
termination
  by (relation "measure (\<lambda>(fields, I, j). length fields - j)") auto

declare encodeVarintLoop.simps [simp del]

definition hpackEncodeVarint :: "bytes \<Rightarrow> uint32 \<Rightarrow> nat \<Rightarrow> bytes \<times> nat \<times> bool" where
  "hpackEncodeVarint fields I N =
     (if length fields = 0 then (fields, 0, False)
      else let K = push_bit N 1 - 1
           in if I < K then (fields[0 := ucast I], 1, True)
              else case encodeVarintLoop (fields[0 := ucast K]) (I - K) 1 of
                (fields', I', j) \<Rightarrow>
                  if j = length fields' then (fields', j, False)
                  else (fields'[j := ucast I'], j + 1, True))"

subsection \<open>String literals\<close>

text \<open>The first component is \<open>input\<close> after the \<open>copy\<close>.\<close>

definition hpackDecodeString :: "bytes \<Rightarrow> bytes \<Rightarrow> uint32 \<Rightarrow> bytes \<times> nat \<times> nat \<times> bool" where
  "hpackDecodeString input fields maxI =
     (case hpackDecodeVarint fields 7 maxI of (I, j, ok) \<Rightarrow>
        if \<not> ok then (input, 0, j, False)
        else let H = (fields ! 0 \<ge> 0x80);
                 fields = drop j fields
             in if I > word_of_nat (length fields) then (input, 0, j, False)
                else let j = j + unat I
                     in if H then
                          case httpHuffmanDecode input (take (unat I) fields) of (i, ok) \<Rightarrow> (input, i, j, ok)
                        else (copyAt input 0 (take (unat I) fields), j, j, True))"

definition hpackEncodeString :: "bytes \<Rightarrow> bytes \<Rightarrow> bytes \<times> nat \<times> bool" where
  "hpackEncodeString fields output =
     (let I = length output in
      if I = 0 then (fields, 0, True)
      else let n = httpHuffmanLength output;
               H = (n < I);
               n = (if H then n else I)
           in case hpackEncodeVarint fields (word_of_nat n) 7 of (fields, j, ok) \<Rightarrow>
             if \<not> ok then (fields, j, False)
             else let fields = (if H then fields[0 := fields ! 0 OR 0x80] else fields);
                      rest = drop j fields
                  in if length rest < n then (fields, j, False)
                     else let rest = (if H then fst (httpHuffmanEncode rest output)
                                      else copyAt rest 0 output)
                          in (take j fields @ rest, j + n, True))"

subsection \<open>The dynamic table\<close>

record hpackTableEntry =
  nameFrom :: nat
  nameSize :: nat
  valueEdge :: nat

record hpackTable =
  tableSize :: nat
  freeSize :: nat
  iNewest :: nat
  iOldest :: nat
  numEntries :: nat
  maxEntries :: nat
  entries :: "hpackTableEntry list"
  content :: bytes

definition http2MaxTableSize :: nat where
  "http2MaxTableSize = 4096"

text \<open>\<open>init\<close> leaves the arrays as they are; a fresh table has 124 zero entries.\<close>

definition hpackTable_init :: "hpackTable \<Rightarrow> hpackTable" where
  "hpackTable_init t = t\<lparr>tableSize := http2MaxTableSize, freeSize := http2MaxTableSize,
     iNewest := 0, iOldest := 0, numEntries := 0, maxEntries := length (entries t)\<rparr>"

definition hpackTable_zero :: hpackTable where
  "hpackTable_zero = \<lparr>tableSize = 0, freeSize = 0, iNewest = 0, iOldest = 0, numEntries = 0,
     maxEntries = 0, entries = replicate 124 \<lparr>nameFrom = 0, nameSize = 0, valueEdge = 0\<rparr>,
     content = replicate (http2MaxTableSize - 32) 0\<rparr>"

definition evictOne :: "hpackTable \<Rightarrow> hpackTable option" where
  "evictOne t =
     (if numEntries t = 0 then None
      else do {
        evictee \<leftarrow> idx (entries t) (iOldest t);
        let t = t\<lparr>freeSize := freeSize t + (valueEdge evictee - nameFrom evictee + 32)\<rparr>;
        let t = t\<lparr>iOldest := (if iOldest t + 1 = maxEntries t then 0 else iOldest t + 1)\<rparr>;
        let t = t\<lparr>numEntries := numEntries t - 1\<rparr>;
        Some (if numEntries t = 0 then t\<lparr>iNewest := iOldest t\<rparr> else t)
      })"

lemma evictOne_numEntries: "evictOne t = Some t' \<Longrightarrow> numEntries t' < numEntries t"
  by (auto simp: evictOne_def Let_def split: if_splits bind_splits)

text \<open>The loop \<open>for t.freeSize < entrySize { t._evictOne() }\<close>.\<close>

function evictForSize :: "hpackTable \<Rightarrow> nat \<Rightarrow> hpackTable option" where
  "evictForSize t entrySize =
     (if freeSize t < entrySize
      then (case evictOne t of None \<Rightarrow> None | Some t' \<Rightarrow> evictForSize t' entrySize)
      else Some t)"
  by pat_completeness auto
termination
  by (relation "measure (\<lambda>(t, entrySize). numEntries t)") (auto dest: evictOne_numEntries)

declare evictForSize.simps [simp del]

definition hpackTable_add :: "hpackTable \<Rightarrow> bytes \<Rightarrow> bytes \<Rightarrow> (hpackTable \<times> bool) option" where
  "hpackTable_add t name value =
     (if numEntries t = maxEntries t then Some (t, False)
      else
        let entrySize = length name + length value + 32 in
        if entrySize > tableSize t
        then Some (t\<lparr>freeSize := tableSize t, numEntries := 0, iOldest := iNewest t\<rparr>, True)
        else do {
          t \<leftarrow> evictForSize t entrySize;
          let t = t\<lparr>freeSize := freeSize t - entrySize\<rparr>;
          (from, t) \<leftarrow>
            (if numEntries t > 0 then do {
               newest \<leftarrow> idx (entries t) (iNewest t);
               Some (valueEdge newest,
                 t\<lparr>iNewest := (if iNewest t + 1 = maxEntries t then 0 else iNewest t + 1)\<rparr>)
             } else Some (0, t));
          let nameSize8 = length name mod 256;
          let nameEdge = (from + nameSize8) mod 65536;
          let newEntry = \<lparr>nameFrom = from, nameSize = nameSize8,
                          valueEdge = (nameEdge + length value mod 65536) mod 65536\<rparr>;
          dst \<leftarrow> sub (content t) from nameEdge;
          let t = t\<lparr>content := copyAt (content t) from (take (length dst) name)\<rparr>;
          t \<leftarrow>
            (if length value > 0 then do {
               dst \<leftarrow> sub (content t) nameEdge (valueEdge newEntry);
               Some (t\<lparr>content := copyAt (content t) nameEdge (take (length dst) value)\<rparr>)
             } else Some t);
          let t = t\<lparr>numEntries := numEntries t + 1\<rparr>;
          es \<leftarrow> put (entries t) (iNewest t) newEntry;
          Some (t\<lparr>entries := es\<rparr>, True)
        })"

definition hpackTable_get :: "hpackTable \<Rightarrow> nat \<Rightarrow> (bytes \<times> bytes) option option" where
  "hpackTable_get t index =
     (if index \<ge> numEntries t then Some None
      else do {
        let index = (if iNewest t \<le> iOldest t \<and> index > iNewest t
                     then maxEntries t - (index - iNewest t)
                     else iNewest t - index);
        entry \<leftarrow> idx (entries t) index;
        let nameEdge = (nameFrom entry + nameSize entry) mod 65536;
        name \<leftarrow> sub (content t) (nameFrom entry) nameEdge;
        value \<leftarrow> sub (content t) nameEdge (valueEdge entry);
        Some (Some (name, value))
      })"

text \<open>The loop of \<open>resize\<close> evicts while the used size is above the new maximum.\<close>

function evictToMax :: "hpackTable \<Rightarrow> nat \<Rightarrow> hpackTable option" where
  "evictToMax t newMaxSize =
     (if tableSize t - freeSize t > newMaxSize
      then (case evictOne t of None \<Rightarrow> None | Some t' \<Rightarrow> evictToMax t' newMaxSize)
      else Some t)"
  by pat_completeness auto
termination
  by (relation "measure (\<lambda>(t, newMaxSize). numEntries t)") (auto dest: evictOne_numEntries)

declare evictToMax.simps [simp del]

definition hpackTable_resize :: "hpackTable \<Rightarrow> nat \<Rightarrow> hpackTable option" where
  "hpackTable_resize t newMaxSize =
     (if newMaxSize > http2MaxTableSize then None
      else if newMaxSize \<ge> tableSize t
      then Some (t\<lparr>freeSize := freeSize t + (newMaxSize - tableSize t), tableSize := newMaxSize\<rparr>)
      else do {
        t \<leftarrow> evictToMax t newMaxSize;
        let t = t\<lparr>freeSize := freeSize t - (tableSize t - newMaxSize)\<rparr>;
        Some (t\<lparr>tableSize := newMaxSize\<rparr>)
      })"

subsection \<open>Specification of the prefixed integers\<close>

fun contBytes :: "nat \<Rightarrow> bytes" where
  "contBytes n = (if n \<ge> 128 then (word_of_nat (n mod 128) OR 0x80) # contBytes (n div 128)
                  else [word_of_nat n])"

declare contBytes.simps [simp del]

definition varintBytes :: "nat \<Rightarrow> nat \<Rightarrow> bytes" where
  "varintBytes N n = (if n < 2 ^ N - 1 then [word_of_nat n]
                      else word_of_nat (2 ^ N - 1) # contBytes (n - (2 ^ N - 1)))"

text \<open>The RFC's loop over the continuation octets: value and number of octets.\<close>

fun contValue :: "bytes \<Rightarrow> nat \<Rightarrow> (nat \<times> nat) option" where
  "contValue [] M = None"
| "contValue (B # p) M =
     (let v = (unat B mod 128) * 2 ^ M in
      if unat B < 128 then Some (v, 1)
      else case contValue p (M + 7) of None \<Rightarrow> None | Some (w, k) \<Rightarrow> Some (v + w, k + 1))"

lemma prefix_mask: "push_bit N 1 - 1 = (mask N :: uint32)" "2 ^ N - 1 = (mask N :: uint32)"
  by (simp_all add: mask_eq_exp_minus_1)

lemma unat_mask32: "N \<le> 8 \<Longrightarrow> unat (mask N :: uint32) = 2 ^ N - 1"
proof -
  assume "N \<le> 8"
  then have "(2::nat) ^ N \<le> 2 ^ 8" by (intro power_increasing) auto
  then have "2 ^ N - 1 < (2::nat) ^ LENGTH(32)" by simp
  then have "unat (word_of_nat (mask N) :: uint32) = 2 ^ N - 1"
    unfolding mask_eq_exp_minus_1 by (rule unat_word_of_nat_less)
  then show ?thesis by (simp add: of_nat_mask_eq)
qed

lemma low7: "n < 128 \<Longrightarrow> (word_of_nat n :: byte) AND 0x7F = word_of_nat n"
proof -
  assume "n < 128"
  then have "take_bit 7 n = n" by (simp add: take_bit_nat_eq_self)
  moreover have "(0x7F :: byte) = mask 7"
    by (simp add: mask_eq_exp_minus_1)
  then have "(word_of_nat n :: byte) AND 0x7F = take_bit 7 (word_of_nat n)"
    by (simp only: take_bit_eq_mask)
  then have "(word_of_nat n :: byte) AND 0x7F = word_of_nat (take_bit 7 n)"
    by (simp only: take_bit_of_nat)
  ultimately show ?thesis by simp
qed

lemma cont_low:
  assumes "n < 128"
  shows "((word_of_nat n :: byte) OR 0x80) AND 0x7F = word_of_nat n"
    and "\<not> ((word_of_nat n :: byte) OR 0x80) < 0x80"
    and "(word_of_nat n :: byte) < 0x80"
proof -
  show "((word_of_nat n :: byte) OR 0x80) AND 0x7F = word_of_nat n"
    using low7 [OF assms] by (simp add: bit.conj_disj_distrib2)
  show "\<not> ((word_of_nat n :: byte) OR 0x80) < 0x80"
    using le_word_or1 [of "0x80 :: byte" "word_of_nat n"] by (simp add: not_less)
  show "(word_of_nat n :: byte) < 0x80"
    using assms by (simp add: word_less_nat_alt unat_word_of_nat_less)
qed

lemma push_unat:
  "n < 128 \<Longrightarrow> push_bit M (ucast (word_of_nat n :: byte)) = (word_of_nat (n * 2 ^ M) :: uint32)"
  by (simp add: unsigned_of_nat take_bit_nat_eq_self push_bit_eq_mult)

lemma decodeLoop_step:
  "I + push_bit M (ucast (B AND 0x7F)) = I' \<Longrightarrow> \<not> I' > maxI \<Longrightarrow>
   decodeVarintLoop (pre @ B # tail) maxI I (length pre) M =
     (if B < 0x80 then (I', length pre + 1, True)
      else decodeVarintLoop ((pre @ [B]) @ tail) maxI I' (length (pre @ [B])) (M + 7))"
  by (subst decodeVarintLoop.simps) (simp add: Let_def nth_append)

lemma decodeLoop_cont:
  "unat I + m * 2 ^ M < 2 ^ 32 \<Longrightarrow> unat I + m * 2 ^ M \<le> unat maxI \<Longrightarrow>
   decodeVarintLoop (pre @ contBytes m @ rest) maxI I (length pre) M =
     (word_of_nat (unat I + m * 2 ^ M), length pre + length (contBytes m), True)"
proof (induction m arbitrary: I pre M rule: less_induct)
  case (less m)
  let ?d = "m mod 128"
  have split: "?d * 2 ^ M + (m div 128) * 2 ^ (M + 7) = m * 2 ^ M"
  proof -
    have "m * 2 ^ M = (m mod 128 + 128 * (m div 128)) * 2 ^ M" by simp
    also have "\<dots> = ?d * 2 ^ M + (m div 128) * 2 ^ (M + 7)"
      by (simp only: add_mult_distrib power_add) simp
    finally show ?thesis by simp
  qed
  then have dle: "unat I + ?d * 2 ^ M \<le> unat I + m * 2 ^ M" by linarith
  have d32: "unat I + ?d * 2 ^ M < 2 ^ 32" using dle less.prems(1) by linarith
  define I' :: uint32 where "I' = word_of_nat (unat I + ?d * 2 ^ M)"
  have uI': "unat I' = unat I + ?d * 2 ^ M"
    unfolding I'_def by (rule unat_word_of_nat_less) (use d32 in simp)
  have push: "I + push_bit M (ucast (word_of_nat ?d :: byte)) = I'"
    by (simp add: I'_def push_unat)
  have nmax: "\<not> I' > maxI"
    using dle less.prems(2) by (simp only: word_less_nat_alt uI')
  show ?case
  proof (cases "m \<ge> 128")
    case True
    let ?B = "(word_of_nat ?d :: byte) OR 0x80"
    have hd: "contBytes m = ?B # contBytes (m div 128)"
      using True by (subst contBytes.simps) simp
    have "decodeVarintLoop (pre @ ?B # contBytes (m div 128) @ rest) maxI I (length pre) M =
        decodeVarintLoop ((pre @ [?B]) @ contBytes (m div 128) @ rest) maxI I' (length (pre @ [?B])) (M + 7)"
      using decodeLoop_step [of I M ?B I' maxI pre] nmax push cont_low [of ?d] by simp
    also have "\<dots> = (word_of_nat (unat I' + m div 128 * 2 ^ (M + 7)),
        length (pre @ [?B]) + length (contBytes (m div 128)), True)"
    proof (rule less.IH)
      show "m div 128 < m" using True by simp
      show "unat I' + m div 128 * 2 ^ (M + 7) < 2 ^ 32"
        "unat I' + m div 128 * 2 ^ (M + 7) \<le> unat maxI"
        using split less.prems by (simp_all only: uI' add.assoc)
    qed
    finally show ?thesis
      unfolding hd uI' using split by (simp only: add.assoc) simp
  next
    case False
    then have hd: "contBytes m = [word_of_nat m]" by (subst contBytes.simps) simp
    have d: "m mod 128 = m" using False by simp
    have "decodeVarintLoop (pre @ word_of_nat m # rest) maxI I (length pre) M = (I', length pre + 1, True)"
      using decodeLoop_step [of I M "word_of_nat m" I' maxI pre rest] nmax push False cont_low(3) [of m] low7 [of m]
      by (simp add: d)
    then show ?thesis
      unfolding hd I'_def d by simp
  qed
qed

lemma contBytes_ne [simp]: "contBytes n \<noteq> []"
  by (subst contBytes.simps) simp

lemma byte_or_0x80: "(word_of_nat n :: byte) OR 0x80 = word_of_nat (n mod 128) OR 0x80"
proof -
  have "(word_of_nat n :: byte) OR 0x80 = word_of_nat (take_bit 7 n) OR 0x80"
  proof (rule bit_word_eqI)
    fix i assume "i < LENGTH(8)"
    then have "i = 7 \<or> i < 7" by auto
    then show "bit ((word_of_nat n :: byte) OR 0x80) i \<longleftrightarrow> bit (word_of_nat (take_bit 7 n) OR (0x80 :: byte)) i"
      by (auto simp: bit_or_iff bit_of_nat_iff bit_take_bit_iff)
  qed
  then show ?thesis by (simp add: take_bit_eq_mod)
qed

lemma encodeLoop_cont:
  "length (contBytes (unat I)) \<le> length room \<Longrightarrow>
   \<exists>fs I' j. encodeVarintLoop (pre @ room) I (length pre) = (fs, I', j) \<and>
     j < length fs \<and> j + 1 = length pre + length (contBytes (unat I)) \<and>
     fs[j := ucast I'] = pre @ contBytes (unat I) @ drop (length (contBytes (unat I))) room"
proof (induction "unat I" arbitrary: I pre room rule: less_induct)
  case less
  have low: "(ucast I :: byte) = word_of_nat (unat I)" by simp
  show ?case
  proof (cases "I \<ge> 0x80")
    case True
    then have ge: "unat I \<ge> 128" by (simp add: word_le_nat_alt)
    have dv: "unat (I div 0x80) = unat I div 128" by (simp add: unat_div)
    have cb: "contBytes (unat I) = (ucast I OR 0x80) # contBytes (unat (I div 0x80))"
      using ge by (subst contBytes.simps) (simp only: dv low if_True byte_or_0x80 [of "unat I"])
    obtain r room' where room: "room = r # room'"
      using less.prems by (cases room) (auto simp: cb)
    have lt: "unat (I div 0x80) < unat I" using ge by (simp only: dv)
    obtain fs I' j where loop:
      "encodeVarintLoop ((pre @ [ucast I OR 0x80]) @ room') (I div 0x80) (length (pre @ [ucast I OR (0x80 :: byte)]))
         = (fs, I', j)" "j < length fs"
      "j + 1 = length (pre @ [ucast I OR (0x80 :: byte)]) + length (contBytes (unat (I div 0x80)))"
      "fs[j := ucast I'] = (pre @ [ucast I OR 0x80]) @ contBytes (unat (I div 0x80)) @
         drop (length (contBytes (unat (I div 0x80)))) room'"
      using less.hyps [OF lt, of room' "pre @ [ucast I OR 0x80]"] less.prems cb room by auto
    have "encodeVarintLoop (pre @ room) I (length pre) = (fs, I', j)"
      using True loop(1) room by (subst encodeVarintLoop.simps) simp
    with loop cb room show ?thesis by auto
  next
    case False
    then have lt: "unat I < 128" by (simp add: word_le_nat_alt)
    have cb: "contBytes (unat I) = [ucast I]"
      using lt by (subst contBytes.simps) simp
    obtain r room' where "room = r # room'"
      using less.prems by (cases room) (auto simp: cb)
    moreover have "encodeVarintLoop (pre @ room) I (length pre) = (pre @ room, I, length pre)"
      using False by (subst encodeVarintLoop.simps) auto
    ultimately show ?thesis
      using cb by simp
  qed
qed

lemma hpackEncodeVarint_spec:
  assumes "1 \<le> N" "N \<le> 8" "length (varintBytes N (unat I)) \<le> length buf"
  shows "hpackEncodeVarint buf I N =
    (varintBytes N (unat I) @ drop (length (varintBytes N (unat I))) buf,
     length (varintBytes N (unat I)), True)"
proof -
  let ?K = "mask N :: uint32"
  note K = unat_mask32 [OF assms(2)]
  obtain f fs where buf: "buf = f # fs"
    using assms(3) by (cases buf) (auto simp: varintBytes_def split: if_splits)
  show ?thesis
  proof (cases "I < ?K")
    case True
    then have "unat I < 2 ^ N - 1" by (simp add: word_less_nat_alt K)
    then have "varintBytes N (unat I) = [ucast I]" by (simp add: varintBytes_def)
    with True buf show ?thesis
      by (simp add: hpackEncodeVarint_def Let_def prefix_mask)
  next
    case False
    then have ge: "\<not> unat I < 2 ^ N - 1" and le: "?K \<le> I"
      by (simp_all add: word_less_nat_alt K flip: not_less)
    then have sub: "unat (I - ?K) = unat I - (2 ^ N - 1)"
      by (simp add: word_le_sub_unat K)
    have ucK: "(ucast ?K :: byte) = word_of_nat (2 ^ N - 1)"
      by (simp only: K [symmetric] of_nat_unat)
    have vb: "varintBytes N (unat I) = ucast ?K # contBytes (unat (I - ?K))"
      using ge by (simp only: varintBytes_def sub ucK if_False)
    obtain fs' I' j where loop:
      "encodeVarintLoop ([ucast ?K] @ fs) (I - ?K) (length [ucast ?K :: byte]) = (fs', I', j)"
      "j < length fs'" "j + 1 = length [ucast ?K :: byte] + length (contBytes (unat (I - ?K)))"
      "fs'[j := ucast I'] = [ucast ?K] @ contBytes (unat (I - ?K)) @
         drop (length (contBytes (unat (I - ?K)))) fs"
      using encodeLoop_cont [of "I - ?K" fs "[ucast ?K]"] assms(3) buf vb by auto
    with False buf vb show ?thesis
      by (simp add: hpackEncodeVarint_def Let_def prefix_mask)
  qed
qed

lemma hpackDecodeVarint_spec:
  assumes N: "1 \<le> N" "N \<le> 8" and n: "n < 2 ^ 32" "n \<le> unat maxI"
    and b0: "take_bit N b0 = word_of_nat (min n (2 ^ N - 1))"
    and tl: "rest0 = (if n < 2 ^ N - 1 then rest else contBytes (n - (2 ^ N - 1)) @ rest)"
  shows "hpackDecodeVarint (b0 # rest0) N maxI =
    (word_of_nat n, length (varintBytes N n), True)"
proof -
  let ?K = "mask N :: uint32"
  note K = unat_mask32 [OF N(2)]
  have "(2::nat) ^ N \<le> 2 ^ 8" using N by (intro power_increasing) auto
  then have small: "min n (2 ^ N - 1) < 256" by simp
  have "ucast b0 AND ?K = take_bit N (ucast b0 :: uint32)"
    by (simp add: take_bit_eq_mask)
  also have "\<dots> = ucast (take_bit N b0)"
    using N by (simp add: unsigned_take_bit_eq)
  also have "\<dots> = word_of_nat (min n (2 ^ N - 1))"
    unfolding b0 using small by (simp add: unsigned_of_nat take_bit_nat_eq_self)
  finally have I0: "ucast b0 AND ?K = word_of_nat (min n (2 ^ N - 1))" .
  have uI0: "unat (word_of_nat (min n (2 ^ N - 1)) :: uint32) = min n (2 ^ N - 1)"
    by (rule unat_word_of_nat_less) (use small in simp)
  show ?thesis
  proof (cases "n < 2 ^ N - 1")
    case True
    then have "word_of_nat n < ?K" "(word_of_nat n :: uint32) \<le> maxI"
      using uI0 n by (simp_all add: word_less_nat_alt word_le_nat_alt K)
    then show ?thesis
      using True by (simp add: hpackDecodeVarint_def Let_def prefix_mask I0 varintBytes_def)
  next
    case False
    then have m: "min n (2 ^ N - 1) = 2 ^ N - 1" by simp
    have nK: "\<not> word_of_nat (min n (2 ^ N - 1)) < ?K"
      using uI0 unfolding word_less_nat_alt K m by simp
    have val: "unat (word_of_nat (min n (2 ^ N - 1)) :: uint32) + (n - (2 ^ N - 1)) * 2 ^ 0 = n"
      using uI0 False m by simp
    have "decodeVarintLoop ([b0] @ contBytes (n - (2 ^ N - 1)) @ rest) maxI
        (word_of_nat (min n (2 ^ N - 1))) (length [b0]) 0 =
      (word_of_nat n, length [b0] + length (contBytes (n - (2 ^ N - 1))), True)"
      using decodeLoop_cont [of "word_of_nat (min n (2 ^ N - 1))" "n - (2 ^ N - 1)" 0 maxI "[b0]" rest] n
      unfolding val by blast
    moreover have "hpackDecodeVarint (b0 # rest0) N maxI =
        decodeVarintLoop (b0 # rest0) maxI (word_of_nat (min n (2 ^ N - 1))) 1 0"
      using nK I0 by (simp add: hpackDecodeVarint_def Let_def prefix_mask)
    ultimately show ?thesis
      using False by (simp add: varintBytes_def tl)
  qed
qed

lemma unat_ucast_up:
  fixes w :: "'a::len word"
  assumes "LENGTH('a) \<le> LENGTH('b::len)"
  shows "unat (ucast w :: 'b word) = unat w"
proof -
  have "unat w < 2 ^ LENGTH('b)"
    by (rule less_le_trans [OF unsigned_less power_increasing [OF assms]]) simp
  then show ?thesis by (simp add: unsigned_ucast_eq take_bit_nat_eq_self)
qed

lemma length_contBytes: "n < 128 ^ k \<Longrightarrow> 0 < k \<Longrightarrow> length (contBytes n) \<le> k"
proof (induction k arbitrary: n)
  case 0
  then show ?case by simp
next
  case (Suc k)
  show ?case
  proof (cases "n \<ge> 128")
    case True
    then have k: "0 < k" using Suc.prems by (cases k) auto
    have "n div 128 < 128 ^ k"
      using Suc.prems by (simp add: less_mult_imp_div_less mult.commute)
    with Suc.IH [OF this k] True show ?thesis by (subst contBytes.simps) simp
  next
    case False
    then show ?thesis by (subst contBytes.simps) simp
  qed
qed

lemma length_varintBytes: "n < 2 ^ 32 \<Longrightarrow> length (varintBytes N n) \<le> 6"
  using length_contBytes [of "n - (2 ^ N - 1)" 5] by (auto simp: varintBytes_def)

text \<open>A prefix octet may carry flag bits above the \<open>N\<close> prefix bits.\<close>

lemma decodeVarint_varintBytes:
  assumes "1 \<le> N" "N \<le> 8" "n < 2 ^ 32" "n \<le> unat maxI"
  shows "hpackDecodeVarint (varintBytes N n @ rest) N maxI =
    (word_of_nat n, length (varintBytes N n), True)"
proof -
  have "(2::nat) ^ N \<le> 2 ^ 8" using assms by (intro power_increasing) auto
  then have tb: "take_bit N (word_of_nat (min n (2 ^ N - 1)) :: byte) = word_of_nat (min n (2 ^ N - 1))"
    by (subst take_bit_of_nat, subst take_bit_nat_eq_self)
      (rule le_less_trans [OF min.cobounded2], auto)
  show ?thesis
  proof (cases "n < 2 ^ N - 1")
    case True
    then show ?thesis
      using hpackDecodeVarint_spec [OF assms(1,2,3,4) tb, of rest rest] by (simp add: varintBytes_def)
  next
    case False
    then have "min n (2 ^ N - 1) = 2 ^ N - 1" by simp
    then show ?thesis
      using False hpackDecodeVarint_spec [OF assms(1,2,3,4) tb, of "contBytes (n - (2 ^ N - 1)) @ rest" rest]
      by (simp add: varintBytes_def)
  qed
qed

lemma decodeLoop_bounds:
  "decodeVarintLoop buf maxI I j M = (I', j', True) \<Longrightarrow> I' \<le> maxI \<and> j < j' \<and> j' \<le> length buf"
proof (induction buf maxI I j M rule: decodeVarintLoop.induct)
  case (1 buf maxI I j M)
  note unf = decodeVarintLoop.simps [of buf maxI I j M]
  show ?case
  proof (cases "j < length buf \<and> \<not> maxI < I + push_bit M (ucast (buf ! j AND 127)) \<and> \<not> buf ! j < 128")
    case True
    then have "decodeVarintLoop buf maxI (I + push_bit M (ucast (buf ! j AND 127))) (j + 1) (M + 7) = (I', j', True)"
      using "1.prems" unf by (simp add: Let_def)
    with True "1.IH" show ?thesis by fastforce
  next
    case False
    with "1.prems" unf show ?thesis by (auto simp: Let_def not_less split: if_splits)
  qed
qed

lemma decodeLoop_sound:
  "decodeVarintLoop buf maxI I j (7 * k) = (I', j', True) \<Longrightarrow> j' + k \<le> j + 4 \<Longrightarrow>
   unat I < 2 ^ 8 + 2 ^ (7 * k) \<Longrightarrow>
   unat I \<le> unat I' \<and> contValue (drop j buf) (7 * k) = Some (unat I' - unat I, j' - j)"
proof (induction "length buf - j" arbitrary: I j k rule: less_induct)
  case less
  define B where "B = buf ! j"
  define v where "v = (unat B mod 128) * 2 ^ (7 * k)"
  define I1 where "I1 = I + push_bit (7 * k) (ucast (B AND 0x7F))"
  have j: "j < length buf" "j < j'" using decodeLoop_bounds [OF less.prems(1)] by auto
  then have k: "k \<le> 3" using less.prems(2) by simp
  have dr: "drop j buf = B # drop (j + 1) buf"
    using j by (simp add: B_def Cons_nth_drop_Suc)
  have "B AND 0x7F = word_of_nat (unat B mod 128)"
  proof -
    have "B AND 0x7F = take_bit 7 B" by (simp add: take_bit_eq_mask mask_eq_exp_minus_1)
    also have "\<dots> = take_bit 7 (word_of_nat (unat B))" by simp
    also have "\<dots> = word_of_nat (take_bit 7 (unat B))" by (rule take_bit_of_nat)
    finally show ?thesis by (simp add: take_bit_eq_mod)
  qed
  then have I1: "I1 = word_of_nat (unat I + v)"
    by (simp only: I1_def v_def push_unat mod_less_divisor zero_less_numeral) simp
  have "v \<le> 127 * 2 ^ (7 * k)"
    unfolding v_def by (intro mult_right_mono) (use mod_less_divisor [of 128 "unat B"] in linarith, simp)
  moreover have "(2::nat) ^ (7 * k) \<le> 2 ^ 21" using k by (intro power_increasing) auto
  ultimately have vlt: "unat I + v < 2 ^ 8 + 2 ^ (7 * Suc k)" "unat I + v < 2 ^ 32"
    using less.prems(3) by (simp_all add: power_add)
  then have uI1: "unat I1 = unat I + v"
    unfolding I1 by (intro unat_word_of_nat_less) simp
  have step: "decodeVarintLoop buf maxI I j (7 * k) =
      (if I1 > maxI then (I1, j + 1, False) else if B < 0x80 then (I1, j + 1, True)
       else decodeVarintLoop buf maxI I1 (j + 1) (7 * Suc k))"
    using j by (subst decodeVarintLoop.simps) (simp add: Let_def B_def I1_def add.commute)
  show ?case
  proof (cases "B < 0x80")
    case True
    then show ?thesis
      using less.prems(1) step uI1 by (auto simp: dr Let_def v_def word_less_nat_alt split: if_splits)
  next
    case False
    then have rec: "decodeVarintLoop buf maxI I1 (j + 1) (7 * Suc k) = (I', j', True)"
      using less.prems(1) step by (simp split: if_splits)
    have "unat I1 \<le> unat I' \<and> contValue (drop (j + 1) buf) (7 * Suc k) = Some (unat I' - unat I1, j' - (j + 1))"
      using j less.prems(2) vlt uI1 by (intro less.hyps [OF _ rec]) auto
    then show ?thesis
      using False j uI1 by (auto simp: dr Let_def v_def word_less_nat_alt add.commute [of 7])
  qed
qed

text \<open>C15: an integer of at most 32 bits, written with any prefix of 1 to 8 bits, takes at most
  six octets, leaves the rest of the buffer alone, and is read back exactly, whatever follows.\<close>

theorem hpackVarint_roundtrip:
  assumes "1 \<le> N" "N \<le> 8" "6 \<le> length buf" "I \<le> maxI"
  shows "\<exists>buf' j. hpackEncodeVarint buf I N = (buf', j, True) \<and> 1 \<le> j \<and> j \<le> 6 \<and>
    drop j buf' = drop j buf \<and> hpackDecodeVarint (take j buf' @ rest) N maxI = (I, j, True)"
proof -
  have I32: "unat I < 2 ^ 32" using unsigned_less [of I, where 'a = nat] by simp
  have len: "length (varintBytes N (unat I)) \<le> 6"
    by (rule length_varintBytes [OF I32])
  have "varintBytes N (unat I) \<noteq> []" by (simp add: varintBytes_def)
  moreover have "unat I \<le> unat maxI" using assms(4) by (simp add: word_le_nat_alt)
  ultimately show ?thesis
    using hpackEncodeVarint_spec [of N I buf] decodeVarint_varintBytes [OF assms(1,2) I32, of maxI rest] assms len
    by (auto simp: Suc_le_eq)
qed

theorem hpackVarint_roundtrip_witness:
  "\<exists>buf' j. hpackEncodeVarint (replicate 6 0) 1337 5 = (buf', j, True) \<and>
     hpackDecodeVarint (take j buf' @ [7]) 5 2000 = (1337, j, True)"
  using hpackVarint_roundtrip [of 5 "replicate 6 0" 1337 2000 "[7]"] by auto

text \<open>a successful decoding consumes at least one octet and none past the end, returns a
  value within the limit, and, up to five octets, returns the value that RFC 7541 defines.\<close>

theorem hpackDecodeVarint_sound:
  assumes "hpackDecodeVarint buf N maxI = (I, j, True)" "1 \<le> N" "N \<le> 8" "j \<le> 5"
  shows "I \<le> maxI \<and> 1 \<le> j \<and> j \<le> length buf \<and>
    (let p = unat (take_bit N (hd buf)) in
     if p < 2 ^ N - 1 then unat I = p \<and> j = 1
     else contValue (tl buf) 0 = Some (unat I - p, j - 1) \<and> p \<le> unat I)"
proof -
  obtain b p where buf: "buf = b # p"
    using assms(1) by (cases buf) (auto simp: hpackDecodeVarint_def)
  define I0 where "I0 = (ucast b AND mask N :: uint32)"
  have K: "unat (mask N :: uint32) = 2 ^ N - 1" by (rule unat_mask32 [OF assms(3)])
  have "I0 = ucast (take_bit N b)"
    using assms(3) by (simp add: I0_def flip: take_bit_eq_mask unsigned_take_bit_eq)
  then have uI0: "unat I0 = unat (take_bit N b)"
    by (simp add: unat_ucast_up)
  have lt8: "unat I0 < 2 ^ 8" unfolding uI0 using unsigned_less [of "take_bit N b", where 'a = nat] by simp
  have step: "hpackDecodeVarint buf N maxI =
      (if I0 < mask N then (I0, 1, I0 \<le> maxI) else decodeVarintLoop (b # p) maxI I0 1 (7 * 0))"
    by (simp add: hpackDecodeVarint_def Let_def prefix_mask buf I0_def)
  show ?thesis
  proof (cases "I0 < mask N")
    case True
    then have "unat (take_bit N b) < 2 ^ N - 1" using K uI0 by (simp add: word_less_nat_alt)
    with True show ?thesis
      using assms(1) step uI0 by (simp add: buf Let_def)
  next
    case False
    then have loop: "decodeVarintLoop (b # p) maxI I0 1 (7 * 0) = (I, j, True)"
      using assms(1) step by simp
    have ge: "\<not> unat (take_bit N b) < 2 ^ N - 1" using False K uI0 by (simp add: word_less_nat_alt)
    show ?thesis
      using decodeLoop_sound [OF loop] decodeLoop_bounds [OF loop] ge lt8 uI0 assms(4)
      by (auto simp: buf Let_def)
  qed
qed

theorem hpackDecodeVarint_sound_witness:
  "hpackDecodeVarint [0x1F, 0x9A, 0x0A] 5 2000 = (1337, 3, True) \<and> (1337 :: uint32) \<le> 2000"
proof -
  have eq: "hpackDecodeVarint [0x1F, 0x9A, 0x0A] 5 2000 = (1337, 3, True)"
    by (simp add: hpackDecodeVarint_def Let_def decodeVarintLoop.simps)
  show ?thesis using hpackDecodeVarint_sound [OF eq] eq by simp
qed

text \<open>beyond five octets the 32-bit accumulator wraps, so an encoding of \<open>2 ^ 32 + 127\<close> is
  accepted as 127, and the test against the limit does not see it.\<close>

theorem hpackDecodeVarint_wraps:
  "hpackDecodeVarint [0x7F, 0x80, 0x80, 0x80, 0x80, 0x10] 7 185 = (127, 6, True) \<and>
   contValue [0x80, 0x80, 0x80, 0x80, 0x10] 0 = Some (2 ^ 32, 5)"
  by (simp add: hpackDecodeVarint_def Let_def decodeVarintLoop.simps)

subsection \<open>Specification of the dynamic table\<close>

text \<open>RFC 7541, section 4: a table is the list of its fields, newest first, and the size of a
  field is that of its name and value plus 32.  Eviction keeps the longest newest part that
  fits.\<close>

type_synonym field = "bytes \<times> bytes"

definition fieldSize :: "field \<Rightarrow> nat" where
  "fieldSize f = length (fst f) + length (snd f) + 32"

fun fitPrefix :: "nat \<Rightarrow> field list \<Rightarrow> field list" where
  "fitPrefix room [] = []"
| "fitPrefix room (f # fs) =
     (if fieldSize f \<le> room then f # fitPrefix (room - fieldSize f) fs else [])"

definition tableAdd :: "nat \<Rightarrow> field \<Rightarrow> field list \<Rightarrow> field list" where
  "tableAdd maxSize f fs = (if fieldSize f > maxSize then [] else f # fitPrefix (maxSize - fieldSize f) fs)"

abbreviation fieldsSize :: "field list \<Rightarrow> nat" where
  "fieldsSize fs \<equiv> sum_list (map fieldSize fs)"

lemma fitPrefix_snoc:
  "fitPrefix room (fs @ [f]) = (if fieldsSize (fs @ [f]) \<le> room then fs @ [f] else fitPrefix room fs)"
  by (induction fs arbitrary: room) auto

lemma fitPrefix_all: "fieldsSize fs \<le> room \<Longrightarrow> fitPrefix room fs = fs"
  by (induction fs arbitrary: room) auto

lemma fieldsSize_fitPrefix: "fieldsSize (fitPrefix room fs) \<le> room"
proof (induction fs arbitrary: room)
  case (Cons f fs)
  have "fieldsSize (fitPrefix (room - fieldSize f) fs) \<le> room - fieldSize f"
    by (rule Cons.IH)
  then show ?case by auto
qed simp

lemma fitPrefix_prefix: "fitPrefix room fs = take (length (fitPrefix room fs)) fs"
  by (induction fs arbitrary: room) auto

subsection \<open>Abstraction and invariant\<close>

definition entSize :: "hpackTableEntry \<Rightarrow> nat" where
  "entSize e = valueEdge e - nameFrom e + 32"

definition entField :: "bytes \<Rightarrow> hpackTableEntry \<Rightarrow> field" where
  "entField c e = (slice c (nameFrom e) (nameFrom e + nameSize e),
                   slice c (nameFrom e + nameSize e) (valueEdge e))"

text \<open>The used part of the circular buffer, oldest entry first.\<close>

definition ring :: "hpackTable \<Rightarrow> hpackTableEntry list" where
  "ring t = map (\<lambda>k. entries t ! ((iOldest t + k) mod 124)) [0..<numEntries t]"

definition tableFields :: "hpackTable \<Rightarrow> field list" where
  "tableFields t = rev (map (entField (content t)) (ring t))"

fun chained :: "hpackTableEntry list \<Rightarrow> bool" where
  "chained (a # b # es) = (valueEdge a = nameFrom b \<and> chained (b # es))"
| "chained _ = True"

definition wfEntry :: "hpackTableEntry \<Rightarrow> bool" where
  "wfEntry e \<longleftrightarrow> nameSize e < 256 \<and> nameFrom e + nameSize e \<le> valueEdge e \<and> valueEdge e \<le> 4064"

definition tableInv :: "hpackTable \<Rightarrow> bool" where
  "tableInv t \<longleftrightarrow>
     maxEntries t = 124 \<and> length (entries t) = 124 \<and> length (content t) = 4064 \<and>
     tableSize t \<le> 4096 \<and> numEntries t \<le> 124 \<and> iOldest t < 124 \<and>
     iNewest t = (if numEntries t = 0 then iOldest t else (iOldest t + numEntries t - 1) mod 124) \<and>
     chained (ring t) \<and> (\<forall>e\<in>set (ring t). wfEntry e) \<and>
     freeSize t + sum_list (map entSize (ring t)) = tableSize t"

lemma length_ring [simp]: "length (ring t) = numEntries t"
  by (simp add: ring_def)

lemma fieldSize_entField:
  "wfEntry e \<Longrightarrow> length c = 4064 \<Longrightarrow> fieldSize (entField c e) = entSize e"
  by (auto simp: fieldSize_def entField_def entSize_def wfEntry_def)

lemma fieldsSize_tableFields:
  assumes "tableInv t"
  shows "fieldsSize (tableFields t) = sum_list (map entSize (ring t))"
proof -
  have "sum_list (map (\<lambda>e. fieldSize (entField (content t) e)) (ring t)) = sum_list (map entSize (ring t))"
    using assms by (intro arg_cong [of _ _ sum_list] map_cong) (auto simp: tableInv_def fieldSize_entField)
  then show ?thesis by (simp add: tableFields_def comp_def flip: rev_map)
qed

lemma chained_tl: "chained (e # es) \<Longrightarrow> chained es"
  by (cases es) auto

lemma ring_index_next: "a < 124 \<Longrightarrow> ((if a + 1 = 124 then 0 else a + 1) + k) mod 124 = (a + Suc k) mod 124" for a k :: nat
  by auto

lemma evictOne_ring:
  assumes inv: "tableInv t" and ring: "ring t = e # es"
  shows "\<exists>t'. evictOne t = Some t' \<and> tableInv t' \<and> ring t' = es \<and> content t' = content t \<and>
    tableSize t' = tableSize t \<and> freeSize t' = freeSize t + entSize e"
proof -
  let ?o = "if iOldest t + 1 = 124 then 0 else iOldest t + 1"
  let ?n = "numEntries t - 1"
  have num: "numEntries t = Suc (length es)" using ring by (metis length_ring length_Cons)
  define t' where "t' = t\<lparr>freeSize := freeSize t + entSize e, iOldest := ?o, numEntries := ?n,
     iNewest := (if ?n = 0 then ?o else iNewest t)\<rparr>"
  have e: "entries t ! iOldest t = e"
    using ring inv num by (auto simp: ring_def tableInv_def upt_rec)
  have es: "es = map (\<lambda>k. entries t ! ((iOldest t + Suc k) mod 124)) [0..<?n]"
  proof -
    have "ring t = map (\<lambda>k. entries t ! ((iOldest t + k) mod 124)) (0 # map Suc [0..<?n])"
      using num by (simp add: ring_def map_Suc_upt upt_conv_Cons del: upt_Suc)
    then show ?thesis using ring by (simp add: comp_def)
  qed
  have ring': "ring t' = es"
    using inv unfolding es by (simp add: ring_def t'_def tableInv_def ring_index_next cong: map_cong)
  have "evictOne t = Some t'"
    using inv num e by (simp add: evictOne_def tableInv_def idx_Some Let_def t'_def entSize_def)
  moreover have "tableInv t'"
  proof -
    have "iNewest t' = (if numEntries t' = 0 then iOldest t' else (iOldest t' + numEntries t' - 1) mod 124)"
    proof (cases "length es")
      case 0
      then show ?thesis using num by (simp add: t'_def)
    next
      case (Suc k)
      have "(?o + (numEntries t' - 1)) mod 124 = (iOldest t + Suc k) mod 124"
        using ring_index_next [of "iOldest t" k] inv num Suc by (simp add: t'_def tableInv_def)
      moreover have "iNewest t = (iOldest t + Suc k) mod 124"
        using inv num Suc by (simp add: tableInv_def)
      ultimately show ?thesis using num Suc by (simp add: t'_def)
    qed
    then show ?thesis
      using inv ring num unfolding tableInv_def ring'
      by (auto simp: t'_def dest: chained_tl)
  qed
  ultimately show ?thesis
    using ring' by (auto simp: t'_def)
qed


text \<open>Eviction from the front of the ring until a given size is left.\<close>

fun dropOld :: "nat \<Rightarrow> hpackTableEntry list \<Rightarrow> hpackTableEntry list" where
  "dropOld room [] = []"
| "dropOld room (e # es) = (if sum_list (map entSize (e # es)) \<le> room then e # es else dropOld room es)"

lemma dropOld_suffix: "\<exists>k. dropOld room es = drop k es"
proof (induction es)
  case (Cons e es)
  then obtain k where k: "dropOld room es = drop k es" by blast
  show ?case
  proof (cases "sum_list (map entSize (e # es)) \<le> room")
    case True
    then show ?thesis by (intro exI [of _ 0]) simp
  next
    case False
    with k show ?thesis by (intro exI [of _ "Suc k"]) simp
  qed
qed simp

lemma sum_dropOld: "sum_list (map entSize (dropOld room es)) \<le> room"
  by (induction es) auto

lemma chained_drop: "chained es \<Longrightarrow> chained (drop k es)"
proof (induction k arbitrary: es)
  case (Suc k)
  then show ?case by (cases es) (auto dest: chained_tl)
qed simp

lemma dropOld_fitPrefix:
  assumes "\<forall>e\<in>set es. wfEntry e" "length c = 4064"
  shows "rev (map (entField c) (dropOld room es)) = fitPrefix room (rev (map (entField c) es))"
  using assms
proof (induction es)
  case (Cons e es)
  have "sum_list (map (\<lambda>e. fieldSize (entField c e)) es) = sum_list (map entSize es)"
    using Cons.prems by (intro arg_cong [of _ _ sum_list] map_cong) (auto simp: fieldSize_entField)
  moreover have "fieldSize (entField c e) = entSize e"
    using Cons.prems by (auto simp: fieldSize_entField)
  ultimately have sum: "fieldsSize (rev (map (entField c) es) @ [entField c e]) = sum_list (map entSize (e # es))"
    by (simp add: comp_def flip: rev_map)
  show ?case
    using Cons by (simp only: list.map rev.simps fitPrefix_snoc sum dropOld.simps) simp
qed simp

lemma evictForSize_ring:
  assumes "tableInv t" "entrySize \<le> tableSize t"
  shows "\<exists>t'. evictForSize t entrySize = Some t' \<and> tableInv t' \<and> content t' = content t \<and>
    tableSize t' = tableSize t \<and> ring t' = dropOld (tableSize t - entrySize) (ring t) \<and> entrySize \<le> freeSize t'"
  using assms
proof (induction "ring t" arbitrary: t)
  case Nil
  then have "freeSize t = tableSize t" by (simp add: tableInv_def flip: Nil.hyps)
  then show ?case using Nil by (intro exI [of _ t]) (subst evictForSize.simps, simp flip: Nil.hyps)
next
  case (Cons e es)
  have free: "freeSize t + sum_list (map entSize (ring t)) = tableSize t"
    using Cons.prems by (simp add: tableInv_def)
  show ?case
  proof (cases "freeSize t < entrySize")
    case True
    obtain t1 where t1: "evictOne t = Some t1" "tableInv t1" "ring t1 = es" "content t1 = content t"
      "tableSize t1 = tableSize t"
      using evictOne_ring [OF Cons.prems(1) Cons.hyps(2) [symmetric]] by blast
    have "\<not> sum_list (map entSize (e # es)) \<le> tableSize t - entrySize"
      using free True Cons.prems(2) Cons.hyps(2) by simp
    then have "dropOld (tableSize t - entrySize) (ring t) = dropOld (tableSize t - entrySize) es"
      by (simp only: dropOld.simps if_False flip: Cons.hyps(2))
    with Cons.hyps(1) [OF t1(3) [symmetric] t1(2)] t1 True Cons.prems(2) show ?thesis
      by (subst evictForSize.simps) simp
  next
    case False
    then have "sum_list (map entSize (e # es)) \<le> tableSize t - entrySize"
      using free Cons.hyps(2) by simp
    then have "dropOld (tableSize t - entrySize) (ring t) = ring t"
      by (simp only: dropOld.simps if_True flip: Cons.hyps(2))
    with False Cons.prems show ?thesis
      by (intro exI [of _ t]) (subst evictForSize.simps, simp)
  qed
qed

text \<open>The loop of \<open>resize\<close> is the same eviction, towards a smaller maximum.\<close>

lemma evictToMax_evictForSize:
  assumes "tableInv t" "m \<le> tableSize t"
  shows "evictToMax t m = evictForSize t (tableSize t - m)"
  using assms
proof (induction "ring t" arbitrary: t)
  case Nil
  then have "freeSize t = tableSize t" by (simp add: tableInv_def flip: Nil.hyps)
  moreover have "\<not> tableSize t < tableSize t - m" by simp
  ultimately show ?case
    by (subst evictForSize.simps, subst evictToMax.simps) (simp only: if_False, simp)
next
  case (Cons e es)
  have free: "freeSize t \<le> tableSize t"
    using Cons.prems by (simp add: tableInv_def)
  obtain t1 where t1: "evictOne t = Some t1" "tableInv t1" "ring t1 = es" "tableSize t1 = tableSize t"
    using evictOne_ring [OF Cons.prems(1) Cons.hyps(2) [symmetric]] by blast
  have "tableSize t - freeSize t > m \<longleftrightarrow> freeSize t < tableSize t - m"
    using free Cons.prems(2) by auto
  with Cons.hyps(1) [OF t1(3) [symmetric] t1(2)] t1 Cons.prems(2) show ?case
    by (subst evictForSize.simps, subst evictToMax.simps) simp
qed

subsection \<open>Adding a field\<close>

text \<open>Where the next entry's bytes begin: nothing moves them back to the start of the buffer
  while the table holds an entry.\<close>

definition nextFrom :: "hpackTableEntry list \<Rightarrow> nat" where
  "nextFrom es = (if es = [] then 0 else valueEdge (last es))"

lemma valueEdges_le_nextFrom:
  "chained es \<Longrightarrow> \<forall>e\<in>set es. wfEntry e \<Longrightarrow> \<forall>e\<in>set es. valueEdge e \<le> nextFrom es"
proof (induction es)
  case (Cons x es)
  show ?case
  proof (cases es)
    case Nil
    then show ?thesis by (simp add: nextFrom_def)
  next
    case (Cons y ys)
    then have "valueEdge x \<le> valueEdge y" "\<forall>e\<in>set es. valueEdge e \<le> nextFrom es"
      using Cons.IH Cons.prems by (auto simp: wfEntry_def)
    moreover have "nextFrom (x # es) = nextFrom es" using Cons by (simp add: nextFrom_def)
    ultimately show ?thesis using Cons by auto
  qed
qed simp

lemma ring_slot_distinct: "k < n \<Longrightarrow> n < 124 \<Longrightarrow> (a + k) mod 124 \<noteq> (a + n) mod 124" for a k n :: nat
proof
  assume n: "k < n" "n < 124" and "(a + k) mod 124 = (a + n) mod 124"
  then have "(124 :: nat) dvd (a + n) - (a + k)"
    by (subst mod_eq_dvd_iff_nat [symmetric]) auto
  then have "(124 :: nat) dvd n - k" by simp
  with n show False by (simp add: nat_dvd_not_less)
qed

lemma ring_last:
  assumes "tableInv t" "numEntries t > 0"
  shows "entries t ! iNewest t = last (ring t)"
  using assms by (auto simp: ring_def tableInv_def last_map last_conv_nth)

lemma newest_slot:
  assumes "tableInv t" "numEntries t < 124"
  shows "(if numEntries t > 0 then if iNewest t + 1 = 124 then 0 else iNewest t + 1 else iNewest t)
    = (iOldest t + numEntries t) mod 124"
proof (cases "numEntries t")
  case 0
  with assms show ?thesis by (simp add: tableInv_def)
next
  case (Suc k)
  have "(if iNewest t + 1 = 124 then 0 else iNewest t + 1) = (iNewest t + 1) mod 124"
    using assms by (auto simp: tableInv_def)
  also have "\<dots> = (iOldest t + numEntries t) mod 124"
    using assms Suc by (simp add: tableInv_def mod_Suc_eq)
  finally show ?thesis using Suc by simp
qed

lemma chained_snoc: "chained es \<Longrightarrow> (es \<noteq> [] \<Longrightarrow> valueEdge (last es) = nameFrom e) \<Longrightarrow> chained (es @ [e])"
proof (induction es)
  case (Cons x es)
  then show ?case by (cases es) auto
qed simp

text \<open>The table after a new entry has been put behind the newest one.\<close>

definition appendEntry :: "hpackTable \<Rightarrow> bytes \<Rightarrow> bytes \<Rightarrow> hpackTable" where
  "appendEntry t name value =
     (let from = nextFrom (ring t); nameEdge = from + length name; slot = (iOldest t + numEntries t) mod 124 in
      t\<lparr>freeSize := freeSize t - (length name + length value + 32), iNewest := slot,
        numEntries := numEntries t + 1,
        entries := (entries t)[slot := \<lparr>nameFrom = from, nameSize = length name,
          valueEdge = nameEdge + length value\<rparr>],
        content := copyAt (copyAt (content t) from name) nameEdge value\<rparr>)"

lemma ring_appendEntry:
  assumes "tableInv t" "numEntries t < 124"
  shows "ring (appendEntry t name value) =
    ring t @ [\<lparr>nameFrom = nextFrom (ring t), nameSize = length name,
               valueEdge = nextFrom (ring t) + length name + length value\<rparr>]"
proof -
  have "(iOldest t + numEntries t) mod 124 \<noteq> (iOldest t + k) mod 124" if "k < numEntries t" for k
    using ring_slot_distinct that assms(2) by metis
  then show ?thesis
    using assms by (auto simp: ring_def appendEntry_def Let_def tableInv_def nth_list_update intro!: map_cong)
qed

lemma appendEntry_inv:
  assumes inv: "tableInv t" and n: "numEntries t < 124"
    and nm: "length name \<le> 255" "length name + length value + 32 \<le> freeSize t"
    and fit: "nextFrom (ring t) + length name + length value \<le> 4064"
  shows "tableInv (appendEntry t name value)"
    and "tableFields (appendEntry t name value) = (name, value) # tableFields t"
proof -
  let ?t = "appendEntry t name value" and ?f = "nextFrom (ring t)"
  note ring = ring_appendEntry [OF inv n, of "name" "value"]
  have c: "length (content t) = 4064" "length (content ?t) = 4064"
    using inv fit by (simp_all add: tableInv_def appendEntry_def Let_def)
  have "chained (ring ?t)"
    using inv unfolding ring by (intro chained_snoc) (auto simp: tableInv_def nextFrom_def)
  moreover have "freeSize ?t + sum_list (map entSize (ring ?t)) = tableSize ?t"
    using inv nm unfolding ring by (simp add: tableInv_def appendEntry_def Let_def entSize_def)
  ultimately show "tableInv ?t"
    using inv n nm fit c unfolding tableInv_def ring
    by (auto simp: appendEntry_def Let_def wfEntry_def)
  have old: "entField (content ?t) e = entField (content t) e" if "e \<in> set (ring t)" for e
  proof -
    have "valueEdge e \<le> ?f" "nameFrom e + nameSize e \<le> valueEdge e"
      using inv that valueEdges_le_nextFrom by (auto simp: tableInv_def wfEntry_def)
    then show ?thesis
      using fit c by (simp add: entField_def appendEntry_def Let_def slice_copyAt_before)
  qed
  have new: "entField (content ?t) \<lparr>nameFrom = ?f, nameSize = length name,
      valueEdge = ?f + length name + length value\<rparr> = (name, value)"
    using fit c by (simp add: entField_def appendEntry_def Let_def slice_copyAt_before slice_copyAt_same)
  show "tableFields ?t = (name, value) # tableFields t"
    unfolding tableFields_def ring by (simp add: new old cong: map_cong)
qed

lemma copyAt_Nil [simp]: "copyAt xs at [] = xs"
  by (simp add: copyAt_def)

lemma nextFrom_le: "tableInv t \<Longrightarrow> nextFrom (ring t) \<le> 4064"
  by (auto simp: nextFrom_def tableInv_def wfEntry_def)

lemma hpackTable_add_cases:
  assumes inv: "tableInv t" and nm: "length name \<le> 255" and n: "numEntries t < 124"
    and sz: "length name + length value + 32 \<le> tableSize t"
  shows "\<exists>t1. tableInv t1 \<and> content t1 = content t \<and> tableSize t1 = tableSize t \<and>
    ring t1 = dropOld (tableSize t - (length name + length value + 32)) (ring t) \<and>
    hpackTable_add t name value =
      (if nextFrom (ring t1) + length name + length value \<le> 4064
       then Some (appendEntry t1 name value, True) else None) \<and>
    numEntries t1 < 124 \<and> length name + length value + 32 \<le> freeSize t1"
proof -
  let ?size = "length name + length value + 32"
  obtain t1 where t1: "evictForSize t ?size = Some t1" "tableInv t1" "content t1 = content t"
    "tableSize t1 = tableSize t" "ring t1 = dropOld (tableSize t - ?size) (ring t)" "?size \<le> freeSize t1"
    using evictForSize_ring [OF inv sz] by blast
  have "numEntries t1 \<le> numEntries t"
    using dropOld_suffix [of "tableSize t - ?size" "ring t"] t1(5) by (metis length_drop length_ring diff_le_self)
  then have n1: "numEntries t1 < 124" using n by simp
  have lens: "length (content t1) = 4064" "length (entries t1) = 124" "maxEntries t1 = 124" "maxEntries t = 124"
    "?size \<le> 4096" "iNewest t1 < 124"
    using t1(2) inv sz by (auto simp: tableInv_def)
  have from4064: "nextFrom (ring t1) \<le> 4064" by (rule nextFrom_le [OF t1(2)])
  have newest: "numEntries t1 > 0 \<Longrightarrow> valueEdge (entries t1 ! iNewest t1) = nextFrom (ring t1)"
    using ring_last [OF t1(2)] by (auto simp: nextFrom_def simp flip: length_0_conv)
  have slot: "(if numEntries t1 > 0 then if iNewest t1 + 1 = 124 then 0 else iNewest t1 + 1 else iNewest t1)
      = (iOldest t1 + numEntries t1) mod 124"
    by (rule newest_slot [OF t1(2) n1])
  have "hpackTable_add t name value =
      (if nextFrom (ring t1) + length name + length value \<le> 4064
       then Some (appendEntry t1 name value, True) else None)"
  proof (cases "numEntries t1 = 0")
    case True
    then have "ring t1 = []" by (simp flip: length_0_conv)
    then show ?thesis
      using True slot t1(1) n lens nm sz
      by (auto simp: hpackTable_add_def Let_def appendEntry_def nextFrom_def sub_def put_def
          intro!: hpackTable.equality split: if_splits)
  next
    case False
    then show ?thesis
      using slot newest t1(1) n lens nm sz from4064
      by (auto simp: hpackTable_add_def Let_def appendEntry_def sub_def put_def idx_def split: if_splits)
  qed
  then show ?thesis using t1 n1 by blast
qed


definition tableOver :: "hpackTable \<Rightarrow> bytes \<Rightarrow> bytes \<Rightarrow> bool" where
  "tableOver t name value \<longleftrightarrow>
     numEntries t < 124 \<and> length name + length value + 32 \<le> tableSize t \<and>
     nextFrom (dropOld (tableSize t - (length name + length value + 32)) (ring t)) +
       length name + length value > 4064"

lemma hpackTable_add_refines:
  assumes inv: "tableInv t" and nm: "length name \<le> 255" and ok: "\<not> tableOver t name value"
  shows "\<exists>t'. tableInv t' \<and> tableSize t' = tableSize t \<and>
    hpackTable_add t name value = Some (t', numEntries t < 124) \<and>
    tableFields t' = (if numEntries t < 124 then tableAdd (tableSize t) (name, value) (tableFields t)
                      else tableFields t)"
proof -
  let ?size = "length name + length value + 32"
  have le: "numEntries t \<le> 124" "maxEntries t = 124" using inv by (auto simp: tableInv_def)
  consider "numEntries t = 124" | "numEntries t < 124" "?size > tableSize t"
    | "numEntries t < 124" "?size \<le> tableSize t" using le by linarith
  then show ?thesis
  proof cases
    case 1
    then show ?thesis using inv le by (intro exI [of _ t]) (simp add: hpackTable_add_def)
  next
    case 2
    let ?t = "t\<lparr>freeSize := tableSize t, numEntries := 0, iOldest := iNewest t\<rparr>"
    have "ring ?t = []" by (simp add: ring_def)
    moreover have "iNewest t < 124" using inv by (auto simp: tableInv_def)
    ultimately have "tableInv ?t" using inv by (simp add: tableInv_def)
    then show ?thesis
      using 2 le \<open>ring ?t = []\<close>
      by (intro exI [of _ ?t]) (simp add: hpackTable_add_def tableFields_def tableAdd_def fieldSize_def)
  next
    case 3
    obtain t1 where t1: "tableInv t1" "content t1 = content t" "tableSize t1 = tableSize t"
      "ring t1 = dropOld (tableSize t - ?size) (ring t)" "numEntries t1 < 124" "?size \<le> freeSize t1"
      "hpackTable_add t name value =
        (if nextFrom (ring t1) + length name + length value \<le> 4064
         then Some (appendEntry t1 name value, True) else None)"
      using hpackTable_add_cases [OF inv nm 3] by blast
    have fit: "nextFrom (ring t1) + length name + length value \<le> 4064"
      using ok 3 t1(4) by (simp add: tableOver_def)
    have "tableFields t1 = fitPrefix (tableSize t - ?size) (tableFields t)"
      using dropOld_fitPrefix [of "ring t" "content t"] inv t1(2,4)
      by (simp add: tableFields_def tableInv_def)
    then show ?thesis
      using 3 t1 fit appendEntry_inv [OF t1(1,5) nm t1(6) fit]
      by (intro exI [of _ "appendEntry t1 name value"])
        (auto simp: tableAdd_def fieldSize_def appendEntry_def Let_def)
  qed
qed

lemma hpackTable_add_panics:
  assumes "tableInv t" "length name \<le> 255" "tableOver t name value"
  shows "hpackTable_add t name value = None"
  using hpackTable_add_cases [of t "name" "value"] assms by (auto simp: tableOver_def)

subsection \<open>Reading and resizing\<close>

lemma hpackTable_get_refines:
  assumes inv: "tableInv t"
  shows "hpackTable_get t i =
    Some (if i < length (tableFields t) then Some (tableFields t ! i) else None)"
proof (cases "i < numEntries t")
  case False
  then show ?thesis by (simp add: hpackTable_get_def tableFields_def)
next
  case True
  let ?n = "numEntries t"
  let ?e = "ring t ! (?n - 1 - i)"
  have b: "iOldest t < 124" "?n \<le> 124" "length (entries t) = 124" "maxEntries t = 124"
    "iNewest t = (iOldest t + ?n - 1) mod 124" "length (content t) = 4064"
    using inv True by (auto simp: tableInv_def)
  define p where "p = (if iNewest t \<le> iOldest t \<and> i > iNewest t
                     then maxEntries t - (i - iNewest t) else iNewest t - i)"
  have p: "p = (iOldest t + (?n - 1 - i)) mod 124"
  proof (cases "iOldest t + ?n - 1 < 124")
    case True
    then have "iNewest t = iOldest t + ?n - 1" using b(5) by simp
    with \<open>i < ?n\<close> True b show ?thesis by (auto simp: p_def)
  next
    case False
    then have "iOldest t + ?n - 1 - 124 < 124" using b by linarith
    then have nw: "iNewest t = iOldest t + ?n - 1 - 124"
      using False b(5) by (simp add: le_mod_geq)
    show ?thesis
    proof (cases "i > iNewest t")
      case True
      then have "iOldest t + (?n - 1 - i) < 124" using nw \<open>i < ?n\<close> False by linarith
      with True nw False b \<open>i < ?n\<close> show ?thesis by (simp add: p_def)
    next
      case False
      then have "iOldest t + (?n - 1 - i) - 124 < 124" "124 \<le> iOldest t + (?n - 1 - i)"
        using nw \<open>\<not> iOldest t + ?n - 1 < 124\<close> \<open>i < ?n\<close> b by linarith+
      then have "(iOldest t + (?n - 1 - i)) mod 124 = iOldest t + (?n - 1 - i) - 124"
        by (simp add: le_mod_geq)
      with False nw \<open>\<not> iOldest t + ?n - 1 < 124\<close> \<open>i < ?n\<close> show ?thesis by (simp add: p_def)
    qed
  qed
  have e: "entries t ! p = ?e"
    using True by (simp add: ring_def p)
  have "?e \<in> set (ring t)" using True by (intro nth_mem) simp
  then have wf: "wfEntry ?e" using inv by (simp add: tableInv_def)
  have "p < 124" by (simp add: p)
  have "hpackTable_get t i = do {
      entry \<leftarrow> idx (entries t) p;
      name \<leftarrow> sub (content t) (nameFrom entry) ((nameFrom entry + nameSize entry) mod 65536);
      value \<leftarrow> sub (content t) ((nameFrom entry + nameSize entry) mod 65536) (valueEdge entry);
      Some (Some (name, value))}"
    using True by (simp add: hpackTable_get_def Let_def p_def)
  then have "hpackTable_get t i = Some (Some (entField (content t) ?e))"
    using wf b(3,6) e \<open>p < 124\<close>
    by (simp add: idx_Some sub_Some wfEntry_def entField_def)
  moreover have "tableFields t ! i = entField (content t) ?e"
    using True by (simp add: tableFields_def rev_nth)
  ultimately show ?thesis
    using True by (simp add: tableFields_def)
qed

lemma hpackTable_resize_refines:
  assumes inv: "tableInv t" and m: "m \<le> 4096"
  shows "\<exists>t'. hpackTable_resize t m = Some t' \<and> tableInv t' \<and> tableSize t' = m \<and>
    tableFields t' = fitPrefix m (tableFields t)"
proof (cases "m \<ge> tableSize t")
  case True
  let ?t = "t\<lparr>freeSize := freeSize t + (m - tableSize t), tableSize := m\<rparr>"
  have "ring ?t = ring t" by (simp add: ring_def)
  then have "tableInv ?t" using inv m True by (auto simp: tableInv_def)
  moreover have "fieldsSize (tableFields t) \<le> m"
    using fieldsSize_tableFields [OF inv] inv True by (auto simp: tableInv_def)
  ultimately show ?thesis
    using True m \<open>ring ?t = ring t\<close>
    by (intro exI [of _ ?t]) (simp add: hpackTable_resize_def http2MaxTableSize_def tableFields_def fitPrefix_all)
next
  case False
  obtain t1 where t1: "evictForSize t (tableSize t - m) = Some t1" "tableInv t1" "content t1 = content t"
    "tableSize t1 = tableSize t" "ring t1 = dropOld m (ring t)" "tableSize t - m \<le> freeSize t1"
    using evictForSize_ring [OF inv, of "tableSize t - m"] False by auto
  let ?t = "t1\<lparr>freeSize := freeSize t1 - (tableSize t1 - m), tableSize := m\<rparr>"
  have r: "ring ?t = ring t1" by (simp add: ring_def)
  then have "tableInv ?t" using t1(2,4,6) m False by (auto simp: tableInv_def)
  moreover have "tableFields ?t = fitPrefix m (tableFields t)"
    using dropOld_fitPrefix [of "ring t" "content t"] inv t1(3,5) r
    by (simp add: tableFields_def tableInv_def)
  ultimately show ?thesis
    using False m t1(1) evictToMax_evictForSize [OF inv, of m]
    by (intro exI [of _ ?t]) (simp add: hpackTable_resize_def http2MaxTableSize_def)
qed

subsection \<open>The interface that a header decoder relies on\<close>

text \<open>
  A decoder looks fields up by index (newest first), adds fields and changes the limit.  The laws
  below are what it needs; \<open>over\<close> and \<open>full\<close> are the two states in which the code does not
  perform an addition.
\<close>

locale dynamic_table =
  fixes fields_of :: "'t \<Rightarrow> field list"
    and limit_of :: "'t \<Rightarrow> nat"
    and inv :: "'t \<Rightarrow> bool"
    and add :: "'t \<Rightarrow> bytes \<Rightarrow> bytes \<Rightarrow> ('t \<times> bool) option"
    and get :: "'t \<Rightarrow> nat \<Rightarrow> field option option"
    and resize :: "'t \<Rightarrow> nat \<Rightarrow> 't option"
    and over :: "'t \<Rightarrow> bytes \<Rightarrow> bytes \<Rightarrow> bool"
    and full :: "'t \<Rightarrow> bool"
  assumes get_nth: "inv t \<Longrightarrow>
      get t i = Some (if i < length (fields_of t) then Some (fields_of t ! i) else None)"
    and add_fields: "inv t \<Longrightarrow> length n \<le> 255 \<Longrightarrow> \<not> full t \<Longrightarrow> \<not> over t n v \<Longrightarrow>
      \<exists>t'. add t n v = Some (t', True) \<and> inv t' \<and> limit_of t' = limit_of t \<and>
        fields_of t' = tableAdd (limit_of t) (n, v) (fields_of t)"
    and resize_fields: "inv t \<Longrightarrow> m \<le> 4096 \<Longrightarrow>
      \<exists>t'. resize t m = Some t' \<and> inv t' \<and> limit_of t' = m \<and> fields_of t' = fitPrefix m (fields_of t)"
    and size_le_limit: "inv t \<Longrightarrow> fieldsSize (fields_of t) \<le> limit_of t"
begin

lemma add_get_newest:
  assumes "inv t" "length n \<le> 255" "\<not> full t" "\<not> over t n v" "fieldSize (n, v) \<le> limit_of t"
    and "add t n v = Some (t', ok)"
  shows "get t' 0 = Some (Some (n, v))"
  using add_fields [OF assms(1-4)] assms(5,6) get_nth [of t' 0] by (auto simp: tableAdd_def)

lemma add_get_older:
  assumes "inv t" "length n \<le> 255" "\<not> full t" "\<not> over t n v"
    and "add t n v = Some (t', ok)" "get t' (Suc i) = Some (Some f)"
  shows "get t i = Some (Some f)"
proof -
  let ?fs = "fitPrefix (limit_of t - fieldSize (n, v)) (fields_of t)"
  have t': "inv t'" "fields_of t' = tableAdd (limit_of t) (n, v) (fields_of t)"
    using add_fields [OF assms(1-4)] assms(5) by auto
  with assms(6) have i: "i < length ?fs" "?fs ! i = f"
    using get_nth [OF t'(1), of "Suc i"] by (auto simp: tableAdd_def split: if_splits)
  moreover have "length ?fs \<le> length (fields_of t)"
    using fitPrefix_prefix by (metis length_take min.cobounded1 min.commute)
  moreover have "?fs ! i = fields_of t ! i"
    using i(1) fitPrefix_prefix by (metis nth_take)
  ultimately show ?thesis
    using get_nth [OF assms(1), of i] by simp
qed

lemma resize_get:
  assumes "inv t" "m \<le> 4096" "resize t m = Some t'" "get t' i = Some (Some f)"
  shows "get t i = Some (Some f) \<and> fieldsSize (fields_of t') \<le> m"
proof -
  have t': "inv t'" "limit_of t' = m" "fields_of t' = fitPrefix m (fields_of t)"
    using resize_fields [OF assms(1,2)] assms(3) by auto
  with assms(4) have i: "i < length (fields_of t')" "fields_of t' ! i = f"
    using get_nth [OF t'(1), of i] by (auto split: if_splits)
  have "length (fields_of t') \<le> length (fields_of t)" "fields_of t' ! i = fields_of t ! i"
    using i(1) t'(3) fitPrefix_prefix [of m "fields_of t"] by (metis length_take min.cobounded1 min.commute, metis nth_take)
  then show ?thesis
    using get_nth [OF assms(1), of i] i size_le_limit [OF t'(1)] t'(2) by simp
qed

end

lemma tableInv_size: "tableInv t \<Longrightarrow> fieldsSize (tableFields t) \<le> tableSize t"
  using fieldsSize_tableFields [of t] by (auto simp: tableInv_def)

interpretation hpack: dynamic_table tableFields tableSize tableInv hpackTable_add hpackTable_get
  hpackTable_resize tableOver "\<lambda>t. numEntries t = 124"
proof unfold_locales
  fix t :: hpackTable and n v
  assume "tableInv t" "length n \<le> 255" "numEntries t \<noteq> 124" "\<not> tableOver t n v"
  moreover then have "numEntries t < 124" by (auto simp: tableInv_def)
  ultimately show "\<exists>t'. hpackTable_add t n v = Some (t', True) \<and> tableInv t' \<and> tableSize t' = tableSize t \<and>
      tableFields t' = tableAdd (tableSize t) (n, v) (tableFields t)"
    using hpackTable_add_refines [of t n v] by auto
qed (use hpackTable_get_refines hpackTable_resize_refines tableInv_size in auto)

subsection \<open>Reachable tables\<close>

inductive tableReach :: "hpackTable \<Rightarrow> bool" where
  init: "length (entries t) = 124 \<Longrightarrow> length (content t) = 4064 \<Longrightarrow> tableReach (hpackTable_init t)"
| add: "tableReach t \<Longrightarrow> length name \<le> 255 \<Longrightarrow> hpackTable_add t name v = Some (t', ok) \<Longrightarrow> tableReach t'"
| resize: "tableReach t \<Longrightarrow> hpackTable_resize t m = Some t' \<Longrightarrow> tableReach t'"

lemma tableReach_inv: "tableReach t \<Longrightarrow> tableInv t"
proof (induction rule: tableReach.induct)
  case (init t)
  then show ?case
    by (auto simp: tableInv_def hpackTable_init_def ring_def http2MaxTableSize_def)
next
  case (add t name v t' ok)
  then have "\<not> tableOver t name v" using hpackTable_add_panics by fastforce
  then show ?case using hpackTable_add_refines [of t name v] add by auto
next
  case (resize t m t')
  then have "m \<le> 4096" by (auto simp: hpackTable_resize_def http2MaxTableSize_def split: if_splits)
  then show ?case using hpackTable_resize_refines [of t m] resize by auto
qed

lemma length_tableFields [simp]: "length (tableFields t) = numEntries t"
  by (simp add: tableFields_def)

text \<open>C10: on every reachable table an addition either panics, in exactly the states described by
  \<open>tableOver\<close>, or is refused because 124 entries are in use, or performs RFC 7541's eviction and
  insertion on the list of fields; the sizes never exceed the table's maximum.\<close>

theorem hpackTable_add_correct:
  assumes "tableReach t" "length name \<le> 255"
  shows "case hpackTable_add t name v of
      None \<Rightarrow> tableOver t name v
    | Some (t', ok) \<Rightarrow> \<not> tableOver t name v \<and> (ok \<longleftrightarrow> length (tableFields t) < 124) \<and>
        tableFields t' = (if ok then tableAdd (tableSize t) (name, v) (tableFields t) else tableFields t) \<and>
        fieldsSize (tableFields t') \<le> tableSize t' \<and> tableSize t' = tableSize t"
proof (cases "tableOver t name v")
  case True
  then show ?thesis
    using hpackTable_add_panics [OF tableReach_inv [OF assms(1)] assms(2)] by simp
next
  case False
  note inv = tableReach_inv [OF assms(1)]
  obtain t' where t': "hpackTable_add t name v = Some (t', numEntries t < 124)" "tableInv t'"
    "tableSize t' = tableSize t"
    "tableFields t' = (if numEntries t < 124 then tableAdd (tableSize t) (name, v) (tableFields t)
       else tableFields t)"
    using hpackTable_add_refines [OF inv assms(2) False] by auto
  show ?thesis
    using False t' tableInv_size [OF t'(2)] by simp
qed

lemma tableReach_zero: "tableReach (hpackTable_init hpackTable_zero)"
  by (rule tableReach.init) (simp_all add: hpackTable_zero_def http2MaxTableSize_def)

lemma ring_init: "ring (hpackTable_init t) = []" "tableFields (hpackTable_init t) = []"
  "tableSize (hpackTable_init t) = 4096" "numEntries (hpackTable_init t) = 0"
  by (simp_all add: hpackTable_init_def ring_def tableFields_def http2MaxTableSize_def)

theorem hpackTable_add_correct_witness:
  "\<exists>t'. hpackTable_add (hpackTable_init hpackTable_zero) [97] [98] = Some (t', True) \<and>
     tableFields t' = [([97], [98])]"
proof -
  have "\<not> tableOver (hpackTable_init hpackTable_zero) [97] [98]"
    by (simp add: tableOver_def ring_init nextFrom_def)
  then show ?thesis
    using hpackTable_add_correct [OF tableReach_zero, of "[97]" "[98]"]
    by (auto simp: ring_init tableAdd_def fieldSize_def split: option.splits)
qed

text \<open>C11: on every reachable table, \<open>get\<close> never panics and returns the field at that position of
  the list, newest first, or nothing past its end.\<close>

theorem hpackTable_get_correct:
  assumes "tableReach t"
  shows "hpackTable_get t i = Some (if i < length (tableFields t) then Some (tableFields t ! i) else None)"
  by (rule hpack.get_nth [OF tableReach_inv [OF assms]])

theorem hpackTable_get_correct_witness:
  "hpackTable_get (hpackTable_init hpackTable_zero) 0 = Some None"
  using hpackTable_get_correct [OF tableReach_zero, of 0] by (simp add: ring_init)

text \<open>a performed addition that fits makes the new field index 0 and moves every surviving
  field to the next index.\<close>

theorem hpackTable_add_indexing:
  assumes "tableReach t" "length name \<le> 255" "hpackTable_add t name v = Some (t', True)"
    and "fieldSize (name, v) \<le> tableSize t"
  shows "hpackTable_get t' 0 = Some (Some (name, v)) \<and>
    (\<forall>i f. hpackTable_get t' (Suc i) = Some (Some f) \<longrightarrow> hpackTable_get t i = Some (Some f))"
proof -
  note inv = tableReach_inv [OF assms(1)]
  have no: "\<not> tableOver t name v" using hpackTable_add_panics [OF inv assms(2)] assms(3) by fastforce
  have nf: "numEntries t \<noteq> 124" using assms(3) inv by (auto simp: hpackTable_add_def tableInv_def)
  show ?thesis
    using hpack.add_get_newest [OF inv assms(2) nf no assms(4,3)]
      hpack.add_get_older [OF inv assms(2) nf no assms(3)] by blast
qed


theorem hpackTable_add_indexing_witness:
  "\<exists>t'. hpackTable_add (hpackTable_init hpackTable_zero) [97] [98] = Some (t', True) \<and>
     hpackTable_get t' 0 = Some (Some ([97], [98]))"
proof -
  have no: "\<not> tableOver (hpackTable_init hpackTable_zero) [97] [98]"
    by (simp add: tableOver_def ring_init nextFrom_def)
  then obtain t' where "hpackTable_add (hpackTable_init hpackTable_zero) [97] [98] = Some (t', True)"
    using hpackTable_add_refines [OF tableReach_inv [OF tableReach_zero] _ no]
    by (auto simp: ring_init)
  then show ?thesis
    using hpackTable_add_indexing [OF tableReach_zero, of "[97]" "[98]" t'] by (simp add: ring_init fieldSize_def)
qed

lemma appended:
  assumes inv: "tableInv t" and nm: "length name \<le> 255" and n: "numEntries t < 124"
    and sz: "length name + length v + 32 \<le> tableSize t"
    and d: "dropOld (tableSize t - (length name + length v + 32)) (ring t) = es"
    and fit: "nextFrom es + length name + length v \<le> 4064"
  shows "\<exists>t'. hpackTable_add t name v = Some (t', True) \<and> tableInv t' \<and> tableSize t' = tableSize t \<and>
    ring t' = es @ [\<lparr>nameFrom = nextFrom es, nameSize = length name,
      valueEdge = nextFrom es + length name + length v\<rparr>]"
proof -
  obtain t1 where t1: "tableInv t1" "tableSize t1 = tableSize t" "ring t1 = es" "numEntries t1 < 124"
    "length name + length v + 32 \<le> freeSize t1"
    "hpackTable_add t name v = Some (appendEntry t1 name v, True)"
    using hpackTable_add_cases [OF inv nm n sz] d fit by auto
  have "tableInv (appendEntry t1 name v)"
    by (rule appendEntry_inv) (use t1 nm fit in auto)
  moreover have "tableSize (appendEntry t1 name v) = tableSize t1"
    by (simp add: appendEntry_def Let_def)
  ultimately show ?thesis
    using t1 ring_appendEntry [OF t1(1,4), of name v] by auto
qed

definition bigValue :: bytes where
  "bigValue = replicate 2000 0"

text \<open>three additions of a field of 2,033 octets to a fresh table of 4,096: the second fits,
  and the third, for which one eviction makes room, panics, because the positions of the content
  buffer go on growing while the table is not empty.\<close>

theorem hpackTable_add_overruns:
  "\<exists>t1 t2. hpackTable_add (hpackTable_init hpackTable_zero) [97] bigValue = Some (t1, True) \<and>
     hpackTable_add t1 [97] bigValue = Some (t2, True) \<and>
     hpackTable_add t2 [97] bigValue = None \<and>
     fieldsSize (tableAdd (tableSize t2) ([97], bigValue) (tableFields t2)) \<le> tableSize t2"
proof -
  let ?t0 = "hpackTable_init hpackTable_zero" and ?n = "[97] :: bytes"
  have v: "length bigValue = 2000" by (simp add: bigValue_def)
  let ?e1 = "\<lparr>nameFrom = 0, nameSize = 1, valueEdge = 2001\<rparr>"
  let ?e2 = "\<lparr>nameFrom = 2001, nameSize = 1, valueEdge = 4002\<rparr>"
  obtain t1 where t1: "hpackTable_add ?t0 ?n bigValue = Some (t1, True)" "tableInv t1"
    "tableSize t1 = 4096" "ring t1 = [?e1]"
    using appended [OF tableReach_inv [OF tableReach_zero], of ?n bigValue "[]"]
    by (auto simp: ring_init v nextFrom_def)
  have n1: "numEntries t1 = 1" using t1(4) length_ring [of t1] by simp
  obtain t2 where t2: "hpackTable_add t1 ?n bigValue = Some (t2, True)" "tableInv t2"
    "tableSize t2 = 4096" "ring t2 = [?e1, ?e2]"
    using appended [OF t1(2), of ?n bigValue "[?e1]"]
    by (auto simp: v t1 n1 nextFrom_def entSize_def)
  have n2: "numEntries t2 = 2" using t2(4) length_ring [of t2] by simp
  have "tableOver t2 ?n bigValue"
    by (simp add: tableOver_def t2 n2 v nextFrom_def entSize_def)
  then have "hpackTable_add t2 ?n bigValue = None"
    by (intro hpackTable_add_panics [OF t2(2)]) auto
  moreover have "fieldsSize (tableAdd (tableSize t2) (?n, bigValue) (tableFields t2)) \<le> tableSize t2"
    using fieldsSize_fitPrefix by (auto simp: tableAdd_def t2(3) v fieldSize_def)
  ultimately show ?thesis using t1(1) t2(1) by blast
qed

text \<open>C12: resizing a reachable table to a maximum of at most 4,096 never panics, keeps exactly the
  newest fields that fit the new maximum, and a larger maximum is refused by the exit of
  \<open>BugExitln\<close>.\<close>

theorem hpackTable_resize_correct:
  assumes "tableReach t"
  shows "if m \<le> 4096
    then \<exists>t'. hpackTable_resize t m = Some t' \<and> tableSize t' = m \<and>
      tableFields t' = fitPrefix m (tableFields t) \<and> fieldsSize (tableFields t') \<le> m
    else hpackTable_resize t m = None"
  using hpackTable_resize_refines [OF tableReach_inv [OF assms], of m] fieldsSize_fitPrefix
  by (auto simp: hpackTable_resize_def http2MaxTableSize_def)

theorem hpackTable_resize_correct_witness:
  "\<exists>t'. hpackTable_resize (hpackTable_init hpackTable_zero) 100 = Some t' \<and> tableFields t' = []"
  using hpackTable_resize_correct [OF tableReach_zero, of 100] by (auto simp: ring_init)

subsection \<open>String literals\<close>

lemma unat_length: "length xs < 2 ^ 31 \<Longrightarrow> unat (word_of_nat (length xs) :: uint32) = length xs"
  by (rule unat_word_of_nat_less) simp

lemma hd_varintBytes7: "n < 2 ^ 32 \<Longrightarrow> hd (varintBytes 7 n) < 0x80"
  using cont_low(3) [of n] cont_low(3) [of 127] by (auto simp: varintBytes_def)



end
