(* ===== verification/Http2Frames.thy ===== *)
theory Http2Frames
  imports Hpack
begin

text \<open>
  HTTP/2 frames, \<open>hemi/web_element_http2.go\<close>: the frame kinds, error codes and settings, the
  decoding of a frame header (\<open>http2InFrame.decodeHeader\<close>), the checks of a received frame of
  each known kind (\<open>http2InFrameCheckers\<close>) and the encoding of an outgoing header
  (\<open>http2OutFrame.encodeHeader\<close>).

  Stream ids are 32-bit words.  The length and the positions of a received frame are
  \<open>uint16\<close> in the source and naturals here: the length is at most 16,384, and the lemmas of the
  checks show that no subtraction of positions goes below zero.  The payload is read from the
  buffer given to the check.
\<close>

definition http2MaxFrameSize :: nat where
  "http2MaxFrameSize = 16384"

definition http2MaxConcurrentStreams :: nat where
  "http2MaxConcurrentStreams = 127"

datatype http2Error = NoError | ProtocolError | InternalError | FlowControlError | SettingsTimeout
  | StreamClosed | FrameSizeError | RefusedStream | CancelError | CompressionError | ConnectError
  | EnhanceYourCalm | InadequateSecurity | HTTP11Required

fun http2Code :: "http2Error \<Rightarrow> uint32" where
  "http2Code NoError = 0x0"
| "http2Code ProtocolError = 0x1"
| "http2Code InternalError = 0x2"
| "http2Code FlowControlError = 0x3"
| "http2Code SettingsTimeout = 0x4"
| "http2Code StreamClosed = 0x5"
| "http2Code FrameSizeError = 0x6"
| "http2Code RefusedStream = 0x7"
| "http2Code CancelError = 0x8"
| "http2Code CompressionError = 0x9"
| "http2Code ConnectError = 0xa"
| "http2Code EnhanceYourCalm = 0xb"
| "http2Code InadequateSecurity = 0xc"
| "http2Code HTTP11Required = 0xd"

text \<open>The frame kinds.\<close>

definition http2FrameData :: byte where "http2FrameData = 0x0"
definition http2FrameFields :: byte where "http2FrameFields = 0x1"
definition http2FramePriority :: byte where "http2FramePriority = 0x2"
definition http2FrameResetStream :: byte where "http2FrameResetStream = 0x3"
definition http2FrameSettings :: byte where "http2FrameSettings = 0x4"
definition http2FramePushPromise :: byte where "http2FramePushPromise = 0x5"
definition http2FramePing :: byte where "http2FramePing = 0x6"
definition http2FrameGoaway :: byte where "http2FrameGoaway = 0x7"
definition http2FrameWindowUpdate :: byte where "http2FrameWindowUpdate = 0x8"
definition http2FrameContinuation :: byte where "http2FrameContinuation = 0x9"
definition http2NumFrameKinds :: byte where "http2NumFrameKinds = 10"

lemmas frame_kinds = http2FrameData_def http2FrameFields_def http2FramePriority_def
  http2FrameResetStream_def http2FrameSettings_def http2FramePushPromise_def http2FramePing_def
  http2FrameGoaway_def http2FrameWindowUpdate_def http2FrameContinuation_def http2NumFrameKinds_def

record http2Settings =
  maxHeaderTableSize :: uint32
  enablePush :: bool
  maxConcurrentStreams :: uint32
  initialWindowSize :: uint32
  maxFrameSize :: uint32
  maxHeaderListSize :: uint32

definition http2InitialSettings :: http2Settings where
  "http2InitialSettings = \<lparr>maxHeaderTableSize = 4096, enablePush = False,
     maxConcurrentStreams = 127, initialWindowSize = 65535, maxFrameSize = 16384,
     maxHeaderListSize = 16384\<rparr>"

subsection \<open>Big-endian integers (\<open>encoding/binary\<close>)\<close>

definition be16 :: "bytes \<Rightarrow> uint16" where
  "be16 p = push_bit 8 (ucast (p ! 0)) OR ucast (p ! 1)"

definition be32 :: "bytes \<Rightarrow> uint32" where
  "be32 p = push_bit 24 (ucast (p ! 0)) OR push_bit 16 (ucast (p ! 1)) OR
     push_bit 8 (ucast (p ! 2)) OR ucast (p ! 3)"

definition putBE32 :: "uint32 \<Rightarrow> bytes" where
  "putBE32 w = [ucast (drop_bit 24 w), ucast (drop_bit 16 w), ucast (drop_bit 8 w), ucast w]"

subsection \<open>Incoming frames\<close>

record http2InFrame =
  streamID :: uint32
  frameLength :: nat
  kind :: byte
  endFields :: bool
  endStream :: bool
  ack :: bool
  padded :: bool
  priority :: bool
  efctFrom :: nat
  efctEdge :: nat

definition http2InFrame_zero :: http2InFrame where
  "http2InFrame_zero = \<lparr>streamID = 0, frameLength = 0, kind = 0, endFields = False,
     endStream = False, ack = False, padded = False, priority = False, efctFrom = 0, efctEdge = 0\<rparr>"

text \<open>\<open>inHeader\<close> has nine bytes; the statement \<open>inHeader[5] &= 0x7f\<close> changes the buffer that it
  is a slice of, so the header is returned as well.\<close>

definition decodeHeader :: "http2InFrame \<Rightarrow> bytes \<Rightarrow> (http2Error, http2InFrame \<times> bytes) outcome" where
  "decodeHeader f inHeader =
     (if length inHeader < 9 then Panic
      else
        let inHeader = inHeader[5 := inHeader ! 5 AND 0x7f];
            f = f\<lparr>streamID := be32 (slice inHeader 5 9)\<rparr>
        in if streamID f \<noteq> 0 \<and> streamID f AND 1 = 0 then Fail ProtocolError
           else
             let len = push_bit 16 (ucast (inHeader ! 0)) OR push_bit 8 (ucast (inHeader ! 1)) OR
                       ucast (inHeader ! 2) :: uint32
             in if len > word_of_nat http2MaxFrameSize then Fail FrameSizeError
                else
                  let k = inHeader ! 3;
                      flags = inHeader ! 4
                  in Done (f\<lparr>frameLength := unat (ucast len :: uint16),
                       kind := k,
                       endFields := flags AND 0x04 \<noteq> 0 \<and> (k = http2FrameFields \<or> k = http2FrameContinuation),
                       endStream := flags AND 0x01 \<noteq> 0 \<and> (k = http2FrameData \<or> k = http2FrameFields),
                       ack := flags AND 0x01 \<noteq> 0 \<and> (k = http2FrameSettings \<or> k = http2FramePing),
                       padded := flags AND 0x08 \<noteq> 0 \<and> (k = http2FrameData \<or> k = http2FrameFields),
                       priority := flags AND 0x20 \<noteq> 0 \<and> k = http2FrameFields\<rparr>, inHeader))"

definition isUnknown :: "http2InFrame \<Rightarrow> bool" where
  "isUnknown f \<longleftrightarrow> kind f \<ge> http2NumFrameKinds"

definition effective :: "bytes \<Rightarrow> http2InFrame \<Rightarrow> bytes option" where
  "effective buf f = sub buf (efctFrom f) (efctEdge f)"

subsection \<open>The checks of a received frame\<close>

text \<open>The two checks that drop padding share their last steps.\<close>

definition checkAsData :: "bytes \<Rightarrow> http2InFrame \<Rightarrow> (http2Error, http2InFrame) outcome" where
  "checkAsData buf f =
     (let minLength = (if padded f then 1 else 0) in
      if frameLength f < minLength then Fail FrameSizeError
      else if streamID f = 0 then Fail ProtocolError
      else
        andThen (if padded f
                 then andThen (checked (idx buf (efctFrom f)))
                        (\<lambda>b. Done (unat b, 1, f\<lparr>efctFrom := efctFrom f + 1\<rparr>))
                 else Done (0, 0, f))
          (\<lambda>(padLength, othersLen, f).
             if padLength > 0 then
               if othersLen + padLength \<ge> frameLength f then Fail ProtocolError
               else Done (f\<lparr>efctEdge := efctEdge f - padLength\<rparr>)
             else Done f))"

definition checkAsFields :: "bytes \<Rightarrow> http2InFrame \<Rightarrow> (http2Error, http2InFrame) outcome" where
  "checkAsFields buf f =
     (let minLength = 1 + (if padded f then 1 else 0) + (if priority f then 5 else 0) in
      if frameLength f < minLength then Fail FrameSizeError
      else if streamID f = 0 then Fail ProtocolError
      else
        andThen (if padded f
                 then andThen (checked (idx buf (efctFrom f)))
                        (\<lambda>b. Done (unat b, 1, f\<lparr>efctFrom := efctFrom f + 1\<rparr>))
                 else Done (0, 0, f))
          (\<lambda>(padLength, othersLen, f).
             let (othersLen, f) = (if priority f
                    then (othersLen + 5, f\<lparr>efctFrom := efctFrom f + 5\<rparr>) else (othersLen, f)) in
             if padLength > 0 then
               if othersLen + padLength \<ge> frameLength f then Fail ProtocolError
               else Done (f\<lparr>efctEdge := efctEdge f - padLength\<rparr>)
             else Done f))"

definition checkAsPriority :: "http2InFrame \<Rightarrow> (http2Error, http2InFrame) outcome" where
  "checkAsPriority f =
     (if frameLength f \<noteq> 5 then Fail FrameSizeError
      else if streamID f = 0 then Fail ProtocolError else Done f)"

definition checkAsResetStream :: "http2InFrame \<Rightarrow> (http2Error, http2InFrame) outcome" where
  "checkAsResetStream f =
     (if frameLength f \<noteq> 4 then Fail FrameSizeError
      else if streamID f = 0 then Fail ProtocolError else Done f)"

definition checkAsSettings :: "http2InFrame \<Rightarrow> (http2Error, http2InFrame) outcome" where
  "checkAsSettings f =
     (if frameLength f mod 6 \<noteq> 0 \<or> frameLength f > 48 then Fail FrameSizeError
      else if streamID f \<noteq> 0 then Fail ProtocolError
      else if ack f \<and> frameLength f \<noteq> 0 then Fail FrameSizeError else Done f)"

definition checkAsPushPromise :: "http2InFrame \<Rightarrow> (http2Error, http2InFrame) outcome" where
  "checkAsPushPromise f = Fail ProtocolError"

definition checkAsPing :: "http2InFrame \<Rightarrow> (http2Error, http2InFrame) outcome" where
  "checkAsPing f =
     (if frameLength f \<noteq> 8 then Fail FrameSizeError
      else if streamID f \<noteq> 0 then Fail ProtocolError else Done f)"

definition checkAsGoaway :: "http2InFrame \<Rightarrow> (http2Error, http2InFrame) outcome" where
  "checkAsGoaway f =
     (if frameLength f < 8 then Fail FrameSizeError
      else if streamID f \<noteq> 0 then Fail ProtocolError else Done f)"

definition checkAsWindowUpdate :: "http2InFrame \<Rightarrow> (http2Error, http2InFrame) outcome" where
  "checkAsWindowUpdate f = (if frameLength f \<noteq> 4 then Fail FrameSizeError else Done f)"

definition checkAsContinuation :: "http2InFrame \<Rightarrow> (http2Error, http2InFrame) outcome" where
  "checkAsContinuation f = Fail ProtocolError"

text \<open>The table \<open>http2InFrameCheckers\<close>, indexed by the kind of the frame.\<close>

definition http2InFrameCheckers :: "bytes \<Rightarrow> http2InFrame \<Rightarrow> (http2Error, http2InFrame) outcome" where
  "http2InFrameCheckers buf f = andThen (checked (idx
     [checkAsData buf, checkAsFields buf, checkAsPriority, checkAsResetStream, checkAsSettings,
      checkAsPushPromise, checkAsPing, checkAsGoaway, checkAsWindowUpdate, checkAsContinuation]
     (unat (kind f)))) (\<lambda>checker. checker f)"

subsection \<open>Outgoing frames\<close>

record http2OutFrame =
  outStreamID :: uint32
  outLength :: uint16
  outKind :: byte
  outEndFields :: bool
  outEndStream :: bool
  outAck :: bool
  outPadded :: bool
  outPayload :: bytes

text \<open>\<open>None\<close> is the exit of \<open>BugExitln\<close>.\<close>

definition encodeHeader :: "http2OutFrame \<Rightarrow> bytes option" where
  "encodeHeader f =
     (if outStreamID f > 0x7fffffff then None
      else if outLength f > word_of_nat http2MaxFrameSize then None
      else if outKind f = http2FramePushPromise \<or> outKind f = http2FrameContinuation then None
      else
        let flags = 0x00;
            flags = (if outEndFields f \<and> outKind f = http2FrameFields then flags OR 0x04 else flags);
            flags = (if outEndStream f \<and> (outKind f = http2FrameData \<or> outKind f = http2FrameFields)
                     then flags OR 0x01 else flags);
            flags = (if outAck f \<and> (outKind f = http2FrameSettings \<or> outKind f = http2FramePing)
                     then flags OR 0x01 else flags);
            flags = (if outPadded f \<and> (outKind f = http2FrameData \<or> outKind f = http2FrameFields)
                     then flags OR 0x08 else flags)
        in Some ([ucast (drop_bit 16 (outLength f)), ucast (drop_bit 8 (outLength f)), ucast (outLength f),
                  outKind f, flags] @ putBE32 (outStreamID f)))"

subsection \<open>The header codec\<close>

lemma be32_putBE32 [simp]: "be32 (putBE32 w) = w"
proof (rule bit_word_eqI)
  fix n :: nat
  assume "n < LENGTH(32)"
  then consider "n < 8" | "8 \<le> n" "n < 16" | "16 \<le> n" "n < 24" | "24 \<le> n" "n < 32" by fastforce
  then show "bit (be32 (putBE32 w)) n = bit w n"
    by cases (auto simp: be32_def putBE32_def bit_simps)
qed

lemma length_putBE32 [simp]: "length (putBE32 w) = 4"
  by (simp add: putBE32_def)

definition len24 :: "byte \<Rightarrow> byte \<Rightarrow> byte \<Rightarrow> uint32" where
  "len24 a b c = push_bit 16 (ucast a) OR push_bit 8 (ucast b) OR ucast c"

lemma len24_uint16: "len24 (ucast (drop_bit 16 n)) (ucast (drop_bit 8 n)) (ucast n) = ucast n"
  for n :: uint16
proof (rule bit_word_eqI)
  fix i :: nat
  assume "i < LENGTH(32)"
  then consider "i < 8" | "8 \<le> i" "i < 16" | "16 \<le> i" "i < 24" | "24 \<le> i" "i < 32" by fastforce
  then show "bit (len24 (ucast (drop_bit 16 n)) (ucast (drop_bit 8 n)) (ucast n)) i = bit (ucast n :: uint32) i"
    by cases (auto simp: len24_def bit_simps dest: bit_imp_le_length)
qed

lemma top_byte_31:
  fixes w :: uint32
  assumes "w \<le> 0x7fffffff"
  shows "(ucast (drop_bit 24 w) :: byte) AND 0x7f = ucast (drop_bit 24 w)"
proof -
  have m: "(0x7f :: byte) = mask 7" by (simp add: mask_eq_exp_minus_1)
  have "unat w < 2 ^ 31" using assms by (simp add: word_le_nat_alt)
  then have "unat (drop_bit 24 w) < 2 ^ 7"
    by (simp add: drop_bit_eq_div unat_div)
  then have "unat (ucast (drop_bit 24 w) :: byte) < 2 ^ 7"
    by (simp add: unsigned_ucast_eq take_bit_nat_eq_self)
  then have "take_bit 7 (ucast (drop_bit 24 w) :: byte) = ucast (drop_bit 24 w)"
    by (simp add: word_unat_eq_iff unsigned_take_bit_eq take_bit_nat_eq_self)
  then show ?thesis
    unfolding m by (simp only: take_bit_eq_mask)
qed

definition outFlags :: "http2OutFrame \<Rightarrow> byte" where
  "outFlags f =
     (if outEndFields f \<and> outKind f = http2FrameFields then 0x04 else 0) OR
     (if outEndStream f \<and> (outKind f = http2FrameData \<or> outKind f = http2FrameFields) then 0x01 else 0) OR
     (if outAck f \<and> (outKind f = http2FrameSettings \<or> outKind f = http2FramePing) then 0x01 else 0) OR
     (if outPadded f \<and> (outKind f = http2FrameData \<or> outKind f = http2FrameFields) then 0x08 else 0)"

lemma encodeHeader_eq:
  "encodeHeader f = Some h \<Longrightarrow> h = [ucast (drop_bit 16 (outLength f)), ucast (drop_bit 8 (outLength f)),
     ucast (outLength f), outKind f, outFlags f] @ putBE32 (outStreamID f) \<and>
     outStreamID f \<le> 0x7fffffff \<and> outLength f \<le> 16384 \<and>
     outKind f \<noteq> http2FramePushPromise \<and> outKind f \<noteq> http2FrameContinuation"
  by (auto simp: encodeHeader_def outFlags_def http2MaxFrameSize_def frame_kinds Let_def split: if_splits)

lemma outFlags_bits:
  "outFlags f AND 0x04 \<noteq> 0 \<longleftrightarrow> outEndFields f \<and> outKind f = http2FrameFields"
  "outFlags f AND 0x01 \<noteq> 0 \<longleftrightarrow> outEndStream f \<and> (outKind f = http2FrameData \<or> outKind f = http2FrameFields) \<or>
     outAck f \<and> (outKind f = http2FrameSettings \<or> outKind f = http2FramePing)"
  "outFlags f AND 0x08 \<noteq> 0 \<longleftrightarrow> outPadded f \<and> (outKind f = http2FrameData \<or> outKind f = http2FrameFields)"
  "outFlags f AND 0x20 = 0"
  by (auto simp: outFlags_def frame_kinds)

lemma decodeHeader_eq:
  "decodeHeader f inHeader =
     (if length inHeader < 9 then Panic
      else let hd = inHeader[5 := inHeader ! 5 AND 0x7f];
               s = be32 (slice hd 5 9); n = len24 (hd ! 0) (hd ! 1) (hd ! 2); k = hd ! 3; flags = hd ! 4
           in if s \<noteq> 0 \<and> s AND 1 = 0 then Fail ProtocolError
              else if n > word_of_nat http2MaxFrameSize then Fail FrameSizeError
              else Done (f\<lparr>streamID := s, frameLength := unat (ucast n :: uint16), kind := k,
                 endFields := flags AND 0x04 \<noteq> 0 \<and> (k = http2FrameFields \<or> k = http2FrameContinuation),
                 endStream := flags AND 0x01 \<noteq> 0 \<and> (k = http2FrameData \<or> k = http2FrameFields),
                 ack := flags AND 0x01 \<noteq> 0 \<and> (k = http2FrameSettings \<or> k = http2FramePing),
                 padded := flags AND 0x08 \<noteq> 0 \<and> (k = http2FrameData \<or> k = http2FrameFields),
                 priority := flags AND 0x20 \<noteq> 0 \<and> k = http2FrameFields\<rparr>, hd))"
  by (simp add: decodeHeader_def len24_def Let_def)

lemma decode_encode:
  assumes "encodeHeader f = Some h" "outStreamID f = 0 \<or> outStreamID f AND 1 \<noteq> 0"
  shows "decodeHeader g (h @ rest) = Done (g\<lparr>streamID := outStreamID f, frameLength := unat (outLength f),
    kind := outKind f, endFields := outEndFields f \<and> outKind f = http2FrameFields,
    endStream := outEndStream f \<and> (outKind f = http2FrameData \<or> outKind f = http2FrameFields),
    ack := outAck f \<and> (outKind f = http2FrameSettings \<or> outKind f = http2FramePing),
    padded := outPadded f \<and> (outKind f = http2FrameData \<or> outKind f = http2FrameFields),
    priority := False\<rparr>, h @ rest)"
proof -
  note h = encodeHeader_eq [OF assms(1)]
  have id: "(h @ rest)[5 := (h @ rest) ! 5 AND 0x7f] = h @ rest"
    using h top_byte_31 [of "outStreamID f"] by (auto simp: putBE32_def)
  have sl: "slice (h @ rest) 5 9 = putBE32 (outStreamID f)"
    using h by (auto simp: slice_def)
  have nth: "(h @ rest) ! 0 = ucast (drop_bit 16 (outLength f))" "(h @ rest) ! 1 = ucast (drop_bit 8 (outLength f))"
    "(h @ rest) ! 2 = ucast (outLength f)" "(h @ rest) ! 3 = outKind f" "(h @ rest) ! 4 = outFlags f"
    "9 \<le> length h"
    using h by (auto simp: nth_append)
  have len: "len24 ((h @ rest) ! 0) ((h @ rest) ! 1) ((h @ rest) ! 2) = ucast (outLength f)"
    unfolding nth by (rule len24_uint16)
  have le: "\<not> (ucast (outLength f) :: uint32) > word_of_nat http2MaxFrameSize"
    using h by (simp add: not_less word_le_nat_alt http2MaxFrameSize_def unat_ucast_up)
  have uc: "ucast (ucast (outLength f) :: uint32) = outLength f"
    by (rule bit_word_eqI) (auto simp: bit_simps)
  have flags:
    "outFlags f AND 0x04 \<noteq> 0 \<and> (outKind f = http2FrameFields \<or> outKind f = http2FrameContinuation) \<longleftrightarrow>
       outEndFields f \<and> outKind f = http2FrameFields"
    "outFlags f AND 0x01 \<noteq> 0 \<and> (outKind f = http2FrameData \<or> outKind f = http2FrameFields) \<longleftrightarrow>
       outEndStream f \<and> (outKind f = http2FrameData \<or> outKind f = http2FrameFields)"
    "outFlags f AND 0x01 \<noteq> 0 \<and> (outKind f = http2FrameSettings \<or> outKind f = http2FramePing) \<longleftrightarrow>
       outAck f \<and> (outKind f = http2FrameSettings \<or> outKind f = http2FramePing)"
    "outFlags f AND 0x08 \<noteq> 0 \<and> (outKind f = http2FrameData \<or> outKind f = http2FrameFields) \<longleftrightarrow>
       outPadded f \<and> (outKind f = http2FrameData \<or> outKind f = http2FrameFields)"
    "outFlags f AND 0x20 \<noteq> 0 \<and> outKind f = http2FrameFields \<longleftrightarrow> False"
    unfolding outFlags_bits by (auto simp: frame_kinds)
  have n9: "\<not> length (h @ rest) < 9" using nth(6) by simp
  show ?thesis
    unfolding decodeHeader_eq id Let_def len sl uc nth(4,5) flags
    using assms(2) n9 le by simp
qed

subsection \<open>What the checks accept\<close>

text \<open>The payload that is left when the padding and the priority fields are dropped; \<open>minLen\<close> is
  the least length of the data proper.\<close>

definition dropPadding :: "nat \<Rightarrow> http2InFrame \<Rightarrow> bytes \<Rightarrow> (http2Error, bytes) outcome" where
  "dropPadding minLen f p =
     (let others = (if padded f then 1 else 0) + (if priority f then 5 else 0);
          pad = (if padded f then unat (p ! 0) else 0)
      in if length p < minLen + others then Fail FrameSizeError
         else if streamID f = 0 then Fail ProtocolError
         else if pad > 0 \<and> others + pad \<ge> length p then Fail ProtocolError
         else Done (slice p others (length p - pad)))"

definition lengthAllowed :: "byte \<Rightarrow> nat \<Rightarrow> bool" where
  "lengthAllowed k n \<longleftrightarrow>
     (k = 2 \<longrightarrow> n = 5) \<and> (k = 3 \<longrightarrow> n = 4) \<and> (k = 4 \<longrightarrow> n \<in> {0, 6, 12, 18, 24, 30, 36, 42, 48}) \<and>
     (k = 6 \<longrightarrow> n = 8) \<and> (k = 7 \<longrightarrow> n \<ge> 8) \<and> (k = 8 \<longrightarrow> n = 4)"

text \<open>Which stream a frame of a kind may be on: 2 and 3 on a stream, 4, 6 and 7 on the connection.\<close>

definition streamAllowed :: "byte \<Rightarrow> uint32 \<Rightarrow> bool" where
  "streamAllowed k s \<longleftrightarrow> (k \<in> {2, 3} \<longrightarrow> s \<noteq> 0) \<and> (k \<in> {4, 6, 7} \<longrightarrow> s = 0)"

definition frameSpec :: "http2InFrame \<Rightarrow> bytes \<Rightarrow> (http2Error, bytes) outcome" where
  "frameSpec f p =
     (if kind f = 0 then dropPadding 0 f p
      else if kind f = 1 then dropPadding 1 f p
      else if kind f = 5 \<or> kind f = 9 then Fail ProtocolError
      else if \<not> lengthAllowed (kind f) (length p) then Fail FrameSizeError
      else if \<not> streamAllowed (kind f) (streamID f) then Fail ProtocolError
      else if kind f = 4 \<and> ack f \<and> p \<noteq> [] then Fail FrameSizeError
      else Done p)"

definition sameHeader :: "http2InFrame \<Rightarrow> http2InFrame \<Rightarrow> bool" where
  "sameHeader f g \<longleftrightarrow> g\<lparr>efctFrom := efctFrom f, efctEdge := efctEdge f\<rparr> = f"

lemma sameHeader_updates [simp]:
  "sameHeader f f" "sameHeader f (f\<lparr>efctFrom := a\<rparr>)" "sameHeader f (f\<lparr>efctEdge := b\<rparr>)"
  "sameHeader f (f\<lparr>efctFrom := a, efctEdge := b\<rparr>)"
  by (simp_all add: sameHeader_def)

lemma slice_slice: "a \<le> b \<Longrightarrow> b \<le> length xs \<Longrightarrow> d \<le> b - a \<Longrightarrow> slice (slice xs a b) c d = slice xs (a + c) (a + d)"
  by (simp add: slice_def drop_take min_def add.commute)

text \<open>A check that fails, or leaves the frame with the effective payload the specification gives.\<close>

definition checkedAs :: "bytes \<Rightarrow> http2InFrame \<Rightarrow> (http2Error, http2InFrame) outcome \<Rightarrow> (http2Error, bytes) outcome \<Rightarrow> bool" where
  "checkedAs buf f r s = (case s of
      Panic \<Rightarrow> False
    | Fail e \<Rightarrow> r = Fail e
    | Done body \<Rightarrow> \<exists>f'. r = Done f' \<and> sameHeader f f' \<and> effective buf f' = Some body \<and>
        efctFrom f \<le> efctFrom f' \<and> efctFrom f' \<le> efctEdge f' \<and> efctEdge f' \<le> efctEdge f)"

lemma checkedAs_same:
  "efctFrom f \<le> efctEdge f \<Longrightarrow> efctEdge f \<le> length buf \<Longrightarrow> r = (case s of Fail e \<Rightarrow> Fail e | _ \<Rightarrow> Done f) \<Longrightarrow>
   (\<And>x. s = Done x \<Longrightarrow> x = slice buf (efctFrom f) (efctEdge f)) \<Longrightarrow> s \<noteq> Panic \<Longrightarrow> checkedAs buf f r s"
  by (cases s) (auto simp: checkedAs_def effective_def sub_def)

definition othersLength :: "http2InFrame \<Rightarrow> nat" where
  "othersLength f = (if padded f then 1 else 0) + (if priority f then 5 else 0)"

definition padLength :: "http2InFrame \<Rightarrow> bytes \<Rightarrow> nat" where
  "padLength f p = (if padded f then unat (p ! 0) else 0)"

definition dropped :: "http2InFrame \<Rightarrow> bytes \<Rightarrow> http2InFrame" where
  "dropped f p = f\<lparr>efctFrom := efctFrom f + othersLength f, efctEdge := efctEdge f - padLength f p\<rparr>"

lemma dropPadding_eq:
  "dropPadding m f p =
     (if length p < m + othersLength f then Fail FrameSizeError
      else if streamID f = 0 then Fail ProtocolError
      else if padLength f p > 0 \<and> othersLength f + padLength f p \<ge> length p then Fail ProtocolError
      else Done (slice p (othersLength f) (length p - padLength f p)))"
  by (simp only: dropPadding_def othersLength_def padLength_def Let_def)

lemma dropped_checkedAs:
  assumes "p = slice buf (efctFrom f) (efctEdge f)" "efctEdge f = efctFrom f + length p" "efctEdge f \<le> length buf"
    and r: "r = (case dropPadding m f p of Panic \<Rightarrow> Panic | Fail e \<Rightarrow> Fail e | Done _ \<Rightarrow> Done (dropped f p))"
  shows "checkedAs buf f r (dropPadding m f p)"
proof (cases "\<exists>x. dropPadding m f p = Done x")
  case True
  then have d: "dropPadding m f p = Done (slice p (othersLength f) (length p - padLength f p))"
    and le: "othersLength f + padLength f p \<le> length p"
    unfolding dropPadding_eq by (auto split: if_splits)
  have "slice p (othersLength f) (length p - padLength f p) =
      slice buf (efctFrom f + othersLength f) (efctEdge f - padLength f p)"
    using assms(2,3) le
    by (subst assms(1), subst slice_slice) (auto simp: add.commute)
  moreover have "effective buf (dropped f p) = Some (slice buf (efctFrom f + othersLength f) (efctEdge f - padLength f p))"
    using assms(2,3) le by (auto simp: effective_def dropped_def sub_def)
  ultimately show ?thesis
    using r d le assms(2) by (simp add: checkedAs_def dropped_def)
next
  case False
  then show ?thesis
    using r by (auto simp: checkedAs_def dropPadding_eq split: if_splits)
qed

lemma padLength_read:
  assumes "p = slice buf (efctFrom f) (efctEdge f)" "efctEdge f = efctFrom f + length p" "efctEdge f \<le> length buf"
    and "p \<noteq> []"
  shows "idx buf (efctFrom f) = Some (p ! 0)"
proof -
  have lt: "efctFrom f < efctEdge f" using assms(2,4) by simp
  then have "slice buf (efctFrom f) (efctEdge f) ! 0 = buf ! efctFrom f"
    using assms(3) nth_slice [of "efctFrom f" 0 "efctEdge f" buf] by simp
  then show ?thesis using lt assms(1,3) by (simp add: idx_def)
qed

lemma checkAsData_eq:
  assumes "frameLength f = length p" "p = slice buf (efctFrom f) (efctEdge f)"
    "efctEdge f = efctFrom f + length p" "efctEdge f \<le> length buf" "\<not> priority f"
  shows "checkAsData buf f =
    (case dropPadding 0 f p of Panic \<Rightarrow> Panic | Fail e \<Rightarrow> Fail e | Done _ \<Rightarrow> Done (dropped f p))"
proof (cases "padded f \<and> p \<noteq> []")
  case True
  have b: "idx buf (efctFrom f) = Some (p ! 0)"
    using padLength_read [OF assms(2-4)] True by simp
  show ?thesis
    using True assms(1,5)
    by (simp add: checkAsData_def dropPadding_eq othersLength_def padLength_def dropped_def b Let_def Suc_le_eq)
next
  case False
  then show ?thesis
    using assms(1,5) by (auto simp: checkAsData_def dropPadding_eq othersLength_def padLength_def dropped_def)
qed

lemma checkAsFields_eq:
  assumes "frameLength f = length p" "p = slice buf (efctFrom f) (efctEdge f)"
    "efctEdge f = efctFrom f + length p" "efctEdge f \<le> length buf"
  shows "checkAsFields buf f =
    (case dropPadding 1 f p of Panic \<Rightarrow> Panic | Fail e \<Rightarrow> Fail e | Done _ \<Rightarrow> Done (dropped f p))"
proof (cases "padded f \<and> p \<noteq> []")
  case True
  have b: "idx buf (efctFrom f) = Some (p ! 0)"
    using padLength_read [OF assms(2-4)] True by simp
  show ?thesis
    using True assms(1)
    by (simp add: checkAsFields_def dropPadding_eq othersLength_def padLength_def dropped_def b Let_def)
next
  case False
  then show ?thesis
    using assms(1) by (auto simp: checkAsFields_def dropPadding_eq othersLength_def padLength_def dropped_def Let_def)
qed

lemma kind_cases:
  assumes "k < (10 :: byte)"
  shows "k = 0 \<or> k = 1 \<or> k = 2 \<or> k = 3 \<or> k = 4 \<or> k = 5 \<or> k = 6 \<or> k = 7 \<or> k = 8 \<or> k = 9"
proof -
  have "unat k < 10" using assms by (simp add: word_less_nat_alt)
  then have "unat k \<in> {0, 1, 2, 3, 4, 5, 6, 7, 8, 9}"
    by (simp add: numeral_eq_Suc less_Suc_eq)
  then show ?thesis by (simp only: insert_iff empty_iff word_unat_eq_iff) simp
qed

lemma checkers_at:
  "kind f = 0 \<Longrightarrow> http2InFrameCheckers buf f = checkAsData buf f"
  "kind f = 1 \<Longrightarrow> http2InFrameCheckers buf f = checkAsFields buf f"
  "kind f = 2 \<Longrightarrow> http2InFrameCheckers buf f = checkAsPriority f"
  "kind f = 3 \<Longrightarrow> http2InFrameCheckers buf f = checkAsResetStream f"
  "kind f = 4 \<Longrightarrow> http2InFrameCheckers buf f = checkAsSettings f"
  "kind f = 5 \<Longrightarrow> http2InFrameCheckers buf f = checkAsPushPromise f"
  "kind f = 6 \<Longrightarrow> http2InFrameCheckers buf f = checkAsPing f"
  "kind f = 7 \<Longrightarrow> http2InFrameCheckers buf f = checkAsGoaway f"
  "kind f = 8 \<Longrightarrow> http2InFrameCheckers buf f = checkAsWindowUpdate f"
  "kind f = 9 \<Longrightarrow> http2InFrameCheckers buf f = checkAsContinuation f"
  by (simp_all add: http2InFrameCheckers_def idx_def)

lemma settings_lengths: "n mod 6 = 0 \<and> n \<le> 48 \<longleftrightarrow> n \<in> {0, 6, 12, 18, 24, 30, 36, 42, 48 :: nat}"
proof
  assume n: "n mod 6 = 0 \<and> n \<le> 48"
  then obtain q where "n = 6 * q" by (auto elim!: dvdE simp: mod_eq_0_iff_dvd)
  moreover then have "q \<le> 8" using n by simp
  then have "q = 0 \<or> q = 1 \<or> q = 2 \<or> q = 3 \<or> q = 4 \<or> q = 5 \<or> q = 6 \<or> q = 7 \<or> q = 8" by linarith
  ultimately show "n \<in> {0, 6, 12, 18, 24, 30, 36, 42, 48}" by auto
qed auto

lemma checkers_spec:
  assumes "frameLength f = length p" "p = slice buf (efctFrom f) (efctEdge f)"
    "efctEdge f = efctFrom f + length p" "efctEdge f \<le> length buf" "priority f \<Longrightarrow> kind f = 1" "kind f < 10"
  shows "checkedAs buf f (http2InFrameCheckers buf f) (frameSpec f p)"
proof -
  have le: "efctFrom f \<le> efctEdge f" using assms(3) by simp
  note same = checkedAs_same [OF le assms(4)]
  note settings = settings_lengths [of "length p", unfolded insert_iff empty_iff]
  consider "kind f = 0" | "kind f = 1" | "kind f = 2" | "kind f = 3" | "kind f = 4" | "kind f = 5"
    | "kind f = 6" | "kind f = 7" | "kind f = 8" | "kind f = 9"
    using kind_cases [OF assms(6)] by blast
  then show ?thesis
  proof cases
    case 1
    then have np: "\<not> priority f" using assms(5) by auto
    show ?thesis
      using dropped_checkedAs [OF assms(2-4) checkAsData_eq [OF assms(1-4) np]] 1
      by (simp add: frameSpec_def checkers_at)
  next
    case 2
    then show ?thesis
      using dropped_checkedAs [OF assms(2-4) checkAsFields_eq [OF assms(1-4)]]
      by (simp add: frameSpec_def checkers_at)
  next
    case 3
    show ?thesis unfolding checkers_at(3) [OF 3]
      by (rule same) (simp_all add: frameSpec_def checkAsPriority_def lengthAllowed_def streamAllowed_def 3 assms(1) flip: assms(2) split: if_splits)
  next
    case 4
    show ?thesis unfolding checkers_at(4) [OF 4]
      by (rule same) (simp_all add: frameSpec_def checkAsResetStream_def lengthAllowed_def streamAllowed_def 4 assms(1) flip: assms(2) split: if_splits)
  next
    case 5
    have "checkAsSettings f = (case frameSpec f p of Fail e \<Rightarrow> Fail e | _ \<Rightarrow> Done f)"
    proof (cases "length p mod 6 = 0 \<and> length p \<le> 48")
      case True
      then have "lengthAllowed 4 (length p)" by (simp add: lengthAllowed_def settings)
      then show ?thesis
        using True by (simp add: frameSpec_def 5 checkAsSettings_def assms(1) streamAllowed_def)
    next
      case False
      then have "\<not> lengthAllowed 4 (length p)" by (simp add: lengthAllowed_def settings)
      then show ?thesis
        using False by (auto simp: frameSpec_def 5 checkAsSettings_def assms(1))
    qed
    then show ?thesis unfolding checkers_at(5) [OF 5]
      by (rule same) (simp_all add: frameSpec_def 5 flip: assms(2) split: if_splits)
  next
    case 6
    show ?thesis unfolding checkers_at(6) [OF 6]
      by (rule same) (simp_all add: frameSpec_def checkAsPushPromise_def 6)
  next
    case 7
    show ?thesis unfolding checkers_at(7) [OF 7]
      by (rule same) (simp_all add: frameSpec_def checkAsPing_def lengthAllowed_def streamAllowed_def 7 assms(1) flip: assms(2) split: if_splits)
  next
    case 8
    show ?thesis unfolding checkers_at(8) [OF 8]
      by (rule same) (simp_all add: frameSpec_def checkAsGoaway_def lengthAllowed_def streamAllowed_def 8 assms(1) flip: assms(2) split: if_splits)
  next
    case 9
    show ?thesis unfolding checkers_at(9) [OF 9]
      by (rule same) (simp_all add: frameSpec_def checkAsWindowUpdate_def lengthAllowed_def streamAllowed_def 9 assms(1) flip: assms(2) split: if_splits)
  next
    case 10
    show ?thesis unfolding checkers_at(10) [OF 10]
      by (rule same) (simp_all add: frameSpec_def checkAsContinuation_def 10)
  qed
qed

text \<open>every header that \<open>encodeHeader\<close> writes for the connection or a client's stream is
  decoded to the frame it was made from: stream, length, kind, and those flags that the kind has.\<close>

theorem http2Header_roundtrip:
  assumes "encodeHeader f = Some h" "outStreamID f = 0 \<or> outStreamID f AND 1 \<noteq> 0"
  shows "\<exists>g'. decodeHeader g (h @ rest) = Done (g', h @ rest) \<and> length h = 9 \<and>
    streamID g' = outStreamID f \<and> frameLength g' = unat (outLength f) \<and> frameLength g' \<le> http2MaxFrameSize \<and>
    kind g' = outKind f \<and>
    endFields g' = (outEndFields f \<and> outKind f = http2FrameFields) \<and>
    endStream g' = (outEndStream f \<and> (outKind f = http2FrameData \<or> outKind f = http2FrameFields)) \<and>
    ack g' = (outAck f \<and> (outKind f = http2FrameSettings \<or> outKind f = http2FramePing)) \<and>
    padded g' = (outPadded f \<and> (outKind f = http2FrameData \<or> outKind f = http2FrameFields)) \<and>
    \<not> priority g'"
  using decode_encode [OF assms, of g rest] encodeHeader_eq [OF assms(1)]
  by (simp add: http2MaxFrameSize_def word_le_nat_alt)

definition pongFrame :: http2OutFrame where
  "pongFrame = \<lparr>outStreamID = 0, outLength = 8, outKind = http2FramePing, outEndFields = False,
     outEndStream = False, outAck = True, outPadded = False, outPayload = replicate 8 7\<rparr>"

theorem http2Header_roundtrip_witness:
  "encodeHeader pongFrame = Some [0, 0, 8, 6, 1, 0, 0, 0, 0] \<and>
   (\<exists>g'. decodeHeader http2InFrame_zero [0, 0, 8, 6, 1, 0, 0, 0, 0] = Done (g', [0, 0, 8, 6, 1, 0, 0, 0, 0]) \<and>
     frameLength g' = 8 \<and> ack g')"
proof -
  have e: "encodeHeader pongFrame = Some [0, 0, 8, 6, 1, 0, 0, 0, 0]"
    by (simp add: encodeHeader_def pongFrame_def frame_kinds http2MaxFrameSize_def putBE32_def)
  show ?thesis
    using http2Header_roundtrip [OF e, of http2InFrame_zero "[]"] e
    by (auto simp: pongFrame_def frame_kinds)
qed

text \<open>the check of a received frame never panics: it fails with the error of the specification,
  or leaves the header alone and the effective payload is the one that the specification gives, the
  padding and the priority fields dropped.\<close>

theorem http2InFrameCheckers_correct:
  assumes "decodeHeader g hdr = Done (f, hdr')" "\<not> isUnknown f"
    and "a + frameLength f \<le> length buf"
  shows "let f' = f\<lparr>efctFrom := a, efctEdge := a + frameLength f\<rparr> in
    checkedAs buf f' (http2InFrameCheckers buf f') (frameSpec f' (slice buf a (a + frameLength f)))"
proof -
  have "priority f \<Longrightarrow> kind f = 1"
    using assms(1) by (auto simp: decodeHeader_eq frame_kinds Let_def split: if_splits)
  moreover have "kind f < 10" using assms(2) by (simp add: isUnknown_def frame_kinds not_le)
  ultimately show ?thesis
    unfolding Let_def using assms(3)
    by (intro checkers_spec) auto
qed

definition paddedData :: bytes where
  "paddedData = [0, 0, 4, 0, 8, 0, 0, 0, 1]"

lemma decode_paddedData:
  "decodeHeader http2InFrame_zero paddedData = Done (\<lparr>streamID = 1, frameLength = 4, kind = 0,
     endFields = False, endStream = False, ack = False, padded = True, priority = False,
     efctFrom = 0, efctEdge = 0\<rparr>, paddedData)"
  by (simp add: decodeHeader_def paddedData_def be32_def slice_def frame_kinds http2InFrame_zero_def
      http2MaxFrameSize_def Let_def)

theorem http2InFrameCheckers_correct_witness:
  "\<exists>f f'. decodeHeader http2InFrame_zero paddedData = Done (f, paddedData) \<and>
     http2InFrameCheckers [2, 65, 0, 0] (f\<lparr>efctFrom := 0, efctEdge := 4\<rparr>) = Done f' \<and>
     effective [2, 65, 0, 0] f' = Some [65]"
proof -
  have nu: "\<not> isUnknown \<lparr>streamID = 1, frameLength = 4, kind = 0, endFields = False, endStream = False,
     ack = False, padded = True, priority = False, efctFrom = 0, efctEdge = 0\<rparr>"
    by (simp add: isUnknown_def frame_kinds)
  show ?thesis
    using http2InFrameCheckers_correct [OF decode_paddedData nu, of 0 "[2, 65, 0, 0]"]
    by (auto simp: frameSpec_def dropPadding_def slice_def checkedAs_def decode_paddedData Let_def)
qed

text \<open>a padded DATA frame whose padding fills all the rest of its payload is refused.  RFC 9113,
  section 6.1, allows it: the padding is shorter than the payload.\<close>

theorem checkAsData_refuses_full_padding:
  assumes "padded f" "streamID f \<noteq> 0" "efctFrom f < length buf"
    and "1 < frameLength f" "unat (buf ! efctFrom f) = frameLength f - 1"
  shows "unat (buf ! efctFrom f) < frameLength f \<and> checkAsData buf f = Fail ProtocolError"
  using assms by (simp add: checkAsData_def idx_def)

theorem checkAsData_refuses_full_padding_witness:
  "checkAsData [3, 0, 0, 0] \<lparr>streamID = 1, frameLength = 4, kind = 0, endFields = False,
     endStream = False, ack = False, padded = True, priority = False, efctFrom = 0, efctEdge = 4\<rparr> =
   Fail ProtocolError"
  using checkAsData_refuses_full_padding [of "\<lparr>streamID = 1, frameLength = 4, kind = 0, endFields = False,
     endStream = False, ack = False, padded = True, priority = False, efctFrom = 0, efctEdge = 4\<rparr>" "[3, 0, 0, 0]"]
  by simp

end
