(* ===== verification/Http2Conn.thy ===== *)
theory Http2Conn
  imports Http2Frames
begin

text \<open>
  The HTTP/2 connection: \<open>hemi/web_general_http2.go\<close> (\<open>http2Conn_\<close>), the buffers of
  \<open>hemi/web_element_http2.go\<close> and the server side of \<open>hemi/web_server_http2.go\<close> (\<open>server2Conn\<close>).

  Buffers live in a heap (a list indexed by what stands for a Go pointer), because a connection
  and the streams that still read a frame share them, with their reference counts.  The buffer
  positions are \<open>uint16\<close> in the source and naturals here; the invariant \<open>connInv\<close> bounds them
  by the size of a buffer, 16,393, and one more frame fits \<open>uint16\<close>.  The network is the field
  \<open>incoming\<close> (all the bytes the peer is yet to send) with \<open>chunks\<close>, which says how many bytes
  more than demanded each read returns; \<open>faults\<close> says which of the I/O calls to come fail.
  Logging is left out.
\<close>

subsection \<open>State\<close>

datatype connError = IoError | H2 http2Error

datatype http2State = StateIdle | StateOpen | StateRemoteClosed | StateLocalClosed | StateClosed

record http2Buffer =
  bufBytes :: bytes
  bufRef :: int

record http2Stream =
  nativeID :: uint32
  seatOf :: uint8
  streamState :: http2State
  streamWindow :: uint32

record http2Conn =
  heap :: "http2Buffer list"
  pool :: "nat list"
  inBuffer :: nat
  peerSettings :: http2Settings
  freeSeats :: "uint8 list"
  freeSeatsTop :: uint8
  decodeTable :: hpackTable
  encodeTable :: hpackTable
  localWindow :: uint32
  remoteWindow :: uint32
  activeStreams :: "http2Stream option list"
  lastPingTime :: "int option"
  inFrame0 :: http2InFrame
  inFrame1 :: http2InFrame
  inFrame :: "bool option"
  activeStreamIDs :: "uint32 list"
  lastStreamID :: uint32
  cumulativeInFrames :: int
  concurrentStreams :: uint8
  acknowledged :: bool
  pingSent :: bool
  inBufferEdge :: nat
  sectBack :: nat
  sectFore :: nat
  contBack :: nat
  contFore :: nat
  incoming :: bytes
  chunks :: "nat list"
  faults :: "bool list"
  written :: bytes
  closes :: nat

definition http2BufferSize :: nat where
  "http2BufferSize = 9 + http2MaxFrameSize"

text \<open>The table \<open>http2FreeSeats\<close>: 0, 1, ..., 126.\<close>

definition http2FreeSeats :: "uint8 list" where
  "http2FreeSeats = map word_of_nat [0..<127]"

subsection \<open>Buffers\<close>

abbreviation theBuffer :: "http2Conn \<Rightarrow> bytes" where
  "theBuffer c \<equiv> bufBytes (heap c ! inBuffer c)"

definition setBuffer :: "nat \<Rightarrow> bytes \<Rightarrow> http2Conn \<Rightarrow> http2Conn" where
  "setBuffer i b c = c\<lparr>heap := (heap c)[i := (heap c ! i)\<lparr>bufBytes := b\<rparr>]\<rparr>"

definition incRef :: "nat \<Rightarrow> http2Conn \<Rightarrow> http2Conn" where
  "incRef i c = c\<lparr>heap := (heap c)[i := (heap c ! i)\<lparr>bufRef := bufRef (heap c ! i) + 1\<rparr>]\<rparr>"

definition putHTTP2Buffer :: "nat \<Rightarrow> http2Conn \<Rightarrow> http2Conn" where
  "putHTTP2Buffer i c = c\<lparr>pool := i # pool c\<rparr>"

definition decRef :: "nat \<Rightarrow> http2Conn \<Rightarrow> http2Conn" where
  "decRef i c =
     (let c = c\<lparr>heap := (heap c)[i := (heap c ! i)\<lparr>bufRef := bufRef (heap c ! i) - 1\<rparr>]\<rparr>
      in if bufRef (heap c ! i) = 0 then putHTTP2Buffer i c else c)"

text \<open>\<open>poolHTTP2Buffer\<close> hands out a buffer that was put back, or else a new one.\<close>

definition getHTTP2Buffer :: "http2Conn \<Rightarrow> nat \<times> http2Conn" where
  "getHTTP2Buffer c =
     (case pool c of
        [] \<Rightarrow> (length (heap c), c\<lparr>heap := heap c @ [\<lparr>bufBytes = replicate http2BufferSize 0, bufRef = 0\<rparr>]\<rparr>)
      | i # is \<Rightarrow> (i, c\<lparr>pool := is\<rparr>))"

subsection \<open>Reading\<close>

text \<open>One I/O call that either fails or does nothing that the model shows.\<close>

definition ioCall :: "http2Conn \<Rightarrow> (connError, http2Conn) outcome" where
  "ioCall c = (case faults c of
       [] \<Rightarrow> Done c
     | fault # rest \<Rightarrow> if fault then Fail IoError else Done (c\<lparr>faults := rest\<rparr>))"

definition setReadDeadline :: "http2Conn \<Rightarrow> (connError, http2Conn) outcome" where
  "setReadDeadline c = ioCall c"

definition setWriteDeadline :: "http2Conn \<Rightarrow> (connError, http2Conn) outcome" where
  "setWriteDeadline c = ioCall c"

text \<open>\<open>io.ReadAtLeast\<close> into a slice of \<open>room\<close> bytes: it fails when the slice is too short or the
  peer sends less than \<open>need\<close> bytes, and may return more than \<open>need\<close>.\<close>

definition readAtLeast :: "nat \<Rightarrow> nat \<Rightarrow> http2Conn \<Rightarrow> (connError, bytes \<times> http2Conn) outcome" where
  "readAtLeast room need c =
     (if room < need \<or> length (incoming c) < need then Fail IoError
      else let extra = (case chunks c of [] \<Rightarrow> 0 | e # _ \<Rightarrow> e);
               n = (if need = 0 then 0 else min room (need + extra))
           in Done (take n (incoming c), c\<lparr>incoming := drop n (incoming c), chunks := drop 1 (chunks c)\<rparr>))"

definition fillInBuffer :: "nat \<Rightarrow> http2Conn \<Rightarrow> (connError, http2Conn) outcome" where
  "fillInBuffer size0 c =
     andThen (readAtLeast (length (theBuffer c) - inBufferEdge c) size0 c)
       (\<lambda>(data, c). Done ((setBuffer (inBuffer c) (copyAt (theBuffer c) (inBufferEdge c) data) c)
          \<lparr>inBufferEdge := inBufferEdge c + length data\<rparr>))"

definition growInFrame :: "nat \<Rightarrow> http2Conn \<Rightarrow> (connError, http2Conn) outcome" where
  "growInFrame size0 c =
     (let c = c\<lparr>sectFore := sectFore c + size0\<rparr> in
      if sectFore c \<le> inBufferEdge c then Done c
      else
        andThen
          (if sectFore c > http2BufferSize then
             andThen (checked (sub (theBuffer c) (sectBack c) (inBufferEdge c))) (\<lambda>data.
               let c = (if bufRef (heap c ! inBuffer c) = 1
                        then (setBuffer (inBuffer c) (copyAt (theBuffer c) 0 data) c)
                               \<lparr>inBufferEdge := length data\<rparr>
                        else let old = inBuffer c;
                                 (new, c) = getHTTP2Buffer c;
                                 c = incRef new (c\<lparr>inBuffer := new\<rparr>);
                                 c = (setBuffer new (copyAt (theBuffer c) 0 data) c)\<lparr>inBufferEdge := length data\<rparr>
                             in decRef old c)
               in Done (c\<lparr>sectFore := sectFore c - sectBack c, sectBack := 0\<rparr>))
           else Done c)
          (\<lambda>c. fillInBuffer (sectFore c - inBufferEdge c) c))"

definition growContinuationFrame ::
  "nat \<Rightarrow> http2InFrame \<Rightarrow> http2Conn \<Rightarrow> (connError, http2InFrame \<times> http2Conn) outcome" where
  "growContinuationFrame size0 f c =
     (let c = c\<lparr>contFore := contFore c + size0\<rparr> in
      if contFore c \<le> inBufferEdge c then Done (f, c)
      else
        andThen
          (if contFore c > http2BufferSize then
             if sectBack c = 0 then Fail (H2 FrameSizeError)
             else
               let old = inBuffer c;
                   c = (if bufRef (heap c ! inBuffer c) \<noteq> 1
                        then let (new, c) = getHTTP2Buffer c in incRef new (c\<lparr>inBuffer := new\<rparr>)
                        else c)
               in
               andThen (checked (sub (bufBytes (heap c ! old)) (sectBack c) (sectFore c))) (\<lambda>sect.
                 let c = (setBuffer (inBuffer c) (copyAt (theBuffer c) 0 sect) c)\<lparr>sectFore := length sect\<rparr> in
                 andThen (checked (sub (bufBytes (heap c ! old)) (contBack c) (inBufferEdge c))) (\<lambda>cont.
                   let c = (setBuffer (inBuffer c) (copyAt (theBuffer c) (sectFore c) cont) c)
                             \<lparr>inBufferEdge := sectFore c + length cont\<rparr>;
                       c = (if old \<noteq> inBuffer c then decRef old c else c);
                       f = f\<lparr>efctFrom := efctFrom f - sectBack c, efctEdge := efctEdge f - sectBack c\<rparr>
                   in Done (f, c\<lparr>sectBack := 0, contBack := sectFore c, contFore := sectFore c + size0\<rparr>)))
           else Done (f, c))
          (\<lambda>(f, c). andThen (fillInBuffer (contFore c - inBufferEdge c) c) (\<lambda>c. Done (f, c))))"

fun liftH2 :: "(http2Error, 'a) outcome \<Rightarrow> (connError, 'a) outcome" where
  "liftH2 Panic = Panic"
| "liftH2 (Fail e) = Fail (H2 e)"
| "liftH2 (Done x) = Done x"

text \<open>The loop of \<open>_coalesceContinuations\<close>: \<open>left\<close> more continuation frames are accepted.\<close>

fun coalesceLoop :: "nat \<Rightarrow> http2InFrame \<Rightarrow> http2InFrame \<Rightarrow> http2Conn \<Rightarrow>
  (connError, http2InFrame \<times> http2Conn) outcome" where
  "coalesceLoop 0 k f c = Fail (H2 EnhanceYourCalm)"
| "coalesceLoop (Suc left) k f c =
     andThen (growContinuationFrame 9 f c) (\<lambda>(f, c).
     andThen (checked (sub (theBuffer c) (contBack c) (contFore c))) (\<lambda>hdr.
     andThen (liftH2 (decodeHeader k hdr)) (\<lambda>(k, hdr).
       let c = setBuffer (inBuffer c) (copyAt (theBuffer c) (contBack c) hdr) c in
       if frameLength k = 0 \<or> frameLength f + frameLength k > http2MaxFrameSize then Fail (H2 FrameSizeError)
       else if streamID k \<noteq> streamID f \<or> kind k \<noteq> http2FrameContinuation then Fail (H2 ProtocolError)
       else
         andThen (growContinuationFrame (frameLength k) f (c\<lparr>contBack := contFore c\<rparr>)) (\<lambda>(f, c).
         andThen (checked (sub (theBuffer c) (contBack c) (contFore c))) (\<lambda>data.
           let c = setBuffer (inBuffer c) (copyAt (theBuffer c) (efctEdge f) data) c;
               f = f\<lparr>efctEdge := efctEdge f + frameLength k, frameLength := frameLength f + frameLength k\<rparr>;
               c = c\<lparr>sectFore := sectFore c + frameLength k\<rparr>
           in if endFields k then Done (f\<lparr>endFields := True\<rparr>, c\<lparr>sectFore := contFore c\<rparr>)
              else coalesceLoop left k f (c\<lparr>contBack := contFore c\<rparr>))))))"

definition coalesceContinuations ::
  "http2InFrame \<Rightarrow> http2Conn \<Rightarrow> (connError, http2InFrame \<times> http2Conn) outcome" where
  "coalesceContinuations f c =
     coalesceLoop 4 http2InFrame_zero f (c\<lparr>contBack := sectFore c, contFore := sectFore c\<rparr>)"

text \<open>\<open>inFrame0\<close> and \<open>inFrame1\<close> are used in turn: \<open>inFrame\<close> is \<open>None\<close> for nil, \<open>Some False\<close> for
  the first and \<open>Some True\<close> for the second.\<close>

definition nextInFrame :: "http2Conn \<Rightarrow> http2InFrame \<times> http2Conn" where
  "nextInFrame c = (if inFrame c = None \<or> inFrame c = Some True
     then (inFrame0 c, c\<lparr>inFrame := Some False\<rparr>) else (inFrame1 c, c\<lparr>inFrame := Some True\<rparr>))"

definition storeInFrame :: "http2InFrame \<Rightarrow> http2Conn \<Rightarrow> http2Conn" where
  "storeInFrame f c = (if inFrame c = Some True then c\<lparr>inFrame1 := f\<rparr> else c\<lparr>inFrame0 := f\<rparr>)"

text \<open>The frame returned refers to the buffer that is then \<open>inBuffer\<close>.\<close>

definition recvInFrame :: "http2Conn \<Rightarrow> (connError, http2InFrame \<times> http2Conn) outcome" where
  "recvInFrame c =
     andThen (setReadDeadline (c\<lparr>sectBack := sectFore c\<rparr>)) (\<lambda>c.
     andThen (growInFrame 9 c) (\<lambda>c.
       let (f, c) = nextInFrame c in
       andThen (checked (sub (theBuffer c) (sectBack c) (sectFore c))) (\<lambda>hdr.
       andThen (liftH2 (decodeHeader f hdr)) (\<lambda>(f, hdr).
         let c = setBuffer (inBuffer c) (copyAt (theBuffer c) (sectBack c) hdr) c in
         andThen (growInFrame (frameLength f) (c\<lparr>sectBack := sectFore c\<rparr>)) (\<lambda>c.
           let f = f\<lparr>efctFrom := sectBack c, efctEdge := sectFore c\<rparr> in
           andThen (if \<not> isUnknown f then liftH2 (http2InFrameCheckers (theBuffer c) f) else Done f) (\<lambda>f.
             let c = c\<lparr>cumulativeInFrames := cumulativeInFrames c + 1\<rparr> in
             if cumulativeInFrames c = 10 \<and> \<not> acknowledged c then Fail (H2 SettingsTimeout)
             else
               andThen (if kind f = http2FrameFields \<and> \<not> endFields f
                        then coalesceContinuations f c else Done (f, c)) (\<lambda>(f, c).
                 Done (f, storeInFrame f c))))))))"

subsection \<open>Buffers\<close>

definition bufsOk :: "http2Conn \<Rightarrow> bool" where
  "bufsOk c \<longleftrightarrow> inBuffer c < length (heap c) \<and> (\<forall>i < length (heap c). length (bufBytes (heap c ! i)) = http2BufferSize) \<and>
     1 \<le> bufRef (heap c ! inBuffer c) \<and> inBufferEdge c \<le> http2BufferSize \<and>
     distinct (pool c) \<and> inBuffer c \<notin> set (pool c) \<and>
     (\<forall>i \<in> set (pool c). i < length (heap c) \<and> bufRef (heap c ! i) = 0)"

text \<open>The bytes between two positions of the connection's buffer, and those that have not been
  taken as a part of a frame yet, from a position on: buffered first, then from the network.\<close>

abbreviation region :: "http2Conn \<Rightarrow> nat \<Rightarrow> nat \<Rightarrow> bytes" where
  "region c a b \<equiv> slice (theBuffer c) a b"

definition unreadFrom :: "nat \<Rightarrow> http2Conn \<Rightarrow> bytes" where
  "unreadFrom pos c = region c pos (inBufferEdge c) @ incoming c"

text \<open>What reading does not touch.\<close>

definition sameRest :: "http2Conn \<Rightarrow> http2Conn \<Rightarrow> bool" where
  "sameRest c c' \<longleftrightarrow> inFrame0 c' = inFrame0 c \<and> inFrame1 c' = inFrame1 c \<and> inFrame c' = inFrame c \<and>
     cumulativeInFrames c' = cumulativeInFrames c \<and> acknowledged c' = acknowledged c \<and> faults c' = faults c"

lemma sameRest_refl [simp]: "sameRest c c" by (simp add: sameRest_def)

lemma sameRest_trans [trans]: "sameRest a b \<Longrightarrow> sameRest b c \<Longrightarrow> sameRest a c"
  by (simp add: sameRest_def)

lemma length_theBuffer [simp]: "bufsOk c \<Longrightarrow> length (theBuffer c) = http2BufferSize"
  by (simp add: bufsOk_def)

lemma slice_copyAt_extend:
  assumes "a \<le> edge" "edge + length d \<le> length b"
  shows "slice (copyAt b edge d) a (edge + length d) = slice b a edge @ d"
  using assms by (simp add: copyAt_def slice_def drop_take)

lemma setBuffer_simps [simp]:
  assumes "i < length (heap c)"
  shows "bufBytes (heap (setBuffer i b c) ! j) = (if j = i then b else bufBytes (heap c ! j))"
    and "bufRef (heap (setBuffer i b c) ! j) = bufRef (heap c ! j)"
    and "length (heap (setBuffer i b c)) = length (heap c)"
  using assms by (simp_all add: setBuffer_def nth_list_update)

lemma setBuffer_other [simp]:
  "inBuffer (setBuffer i b c) = inBuffer c" "pool (setBuffer i b c) = pool c"
  "inBufferEdge (setBuffer i b c) = inBufferEdge c" "incoming (setBuffer i b c) = incoming c"
  "sectBack (setBuffer i b c) = sectBack c" "sectFore (setBuffer i b c) = sectFore c"
  "contBack (setBuffer i b c) = contBack c" "contFore (setBuffer i b c) = contFore c"
  "chunks (setBuffer i b c) = chunks c" "faults (setBuffer i b c) = faults c"
  by (simp_all add: setBuffer_def)

lemma bufsOk_setBuffer:
  "bufsOk c \<Longrightarrow> i < length (heap c) \<Longrightarrow> length b = http2BufferSize \<Longrightarrow> bufsOk (setBuffer i b c)"
  by (simp add: bufsOk_def)

lemma sameRest_setBuffer [simp]: "sameRest c (setBuffer i b c)"
  by (simp add: sameRest_def setBuffer_def)

text \<open>Filling: the buffer is extended by what the network gives, from \<open>back\<close> on nothing changes.\<close>

lemma fillInBuffer_spec:
  assumes ok: "bufsOk c" and pos: "back \<le> inBufferEdge c" "inBufferEdge c < fore" "fore \<le> http2BufferSize"
  shows "if length (unreadFrom back c) < fore - back then fillInBuffer (fore - inBufferEdge c) c = Fail IoError
    else \<exists>c'. fillInBuffer (fore - inBufferEdge c) c = Done c' \<and> bufsOk c' \<and> sameRest c c' \<and>
      sectBack c' = sectBack c \<and> sectFore c' = sectFore c \<and> contBack c' = contBack c \<and> contFore c' = contFore c \<and>
      inBuffer c' = inBuffer c \<and> heap c' = (heap c)[inBuffer c := heap c' ! inBuffer c] \<and> pool c' = pool c \<and>
      bufRef (heap c' ! inBuffer c) = bufRef (heap c ! inBuffer c) \<and>
      fore \<le> inBufferEdge c' \<and> (\<forall>a b. b \<le> inBufferEdge c \<longrightarrow> region c' a b = region c a b) \<and>
      region c' back fore = take (fore - back) (unreadFrom back c) \<and>
      unreadFrom fore c' = drop (fore - back) (unreadFrom back c)"
proof -
  define edge where "edge = inBufferEdge c"
  define need where "need = fore - edge"
  define extra where "extra = (case chunks c of [] \<Rightarrow> 0 | e # _ \<Rightarrow> e)"
  define n where "n = min (http2BufferSize - edge) (need + extra)"
  have len: "length (theBuffer c) = http2BufferSize" using ok by simp
  have need: "0 < need" "need \<le> http2BufferSize - edge" "need \<le> n" "edge + n \<le> http2BufferSize"
    using pos by (auto simp: need_def edge_def n_def)
  have lenu: "length (unreadFrom back c) = edge - back + length (incoming c)"
    using pos len by (simp add: unreadFrom_def edge_def)
  have short: "length (unreadFrom back c) < fore - back \<longleftrightarrow> length (incoming c) < need"
    using pos lenu by (auto simp: need_def edge_def)
  show ?thesis
  proof (cases "length (incoming c) < need")
    case True
    have "fillInBuffer (fore - inBufferEdge c) c = Fail IoError"
      using True by (simp add: fillInBuffer_def readAtLeast_def need_def edge_def)
    then show ?thesis using True short by simp
  next
    case False
    define d where "d = take n (incoming c)"
    let ?c1 = "c\<lparr>incoming := drop n (incoming c), chunks := drop 1 (chunks c)\<rparr>"
    let ?c' = "(setBuffer (inBuffer c) (copyAt (theBuffer c) edge d) ?c1)\<lparr>inBufferEdge := edge + length d\<rparr>"
    have d: "need \<le> length d" "edge + length d \<le> http2BufferSize"
      using need False by (auto simp: d_def)
    have i: "inBuffer c < length (heap c)" using ok by (simp add: bufsOk_def)
    have "readAtLeast (http2BufferSize - edge) need c = Done (d, ?c1)"
      using False need by (simp add: readAtLeast_def d_def n_def extra_def Let_def)
    then have fill: "fillInBuffer (fore - inBufferEdge c) c = Done ?c'"
      by (simp add: fillInBuffer_def len need_def edge_def)
    have b: "theBuffer ?c' = copyAt (theBuffer c) edge d"
      using i by (simp add: setBuffer_def)
    have "bufsOk ?c1" using ok by (simp add: bufsOk_def)
    then have "bufsOk (setBuffer (inBuffer c) (copyAt (theBuffer c) edge d) ?c1)"
      using i d len by (intro bufsOk_setBuffer) simp_all
    then have ok': "bufsOk ?c'" using d by (simp add: bufsOk_def)
    have whole: "slice (theBuffer ?c') back (edge + length d) = region c back edge @ d"
      unfolding b using pos d len by (intro slice_copyAt_extend) (simp_all add: edge_def)
    have inc: "d @ drop n (incoming c) = incoming c" by (simp add: d_def)
    have all: "unreadFrom back c = region c back (edge + length d - (edge + length d - edge)) @ incoming c"
      by (simp add: unreadFrom_def edge_def)
    have u: "unreadFrom back c = slice (theBuffer ?c') back (edge + length d) @ drop n (incoming c)"
      unfolding whole using inc by (simp add: unreadFrom_def edge_def)
    have fe: "fore \<le> edge + length d" using d by (simp add: need_def)
    have reg: "slice (theBuffer ?c') back fore = take (fore - back) (unreadFrom back c)"
      unfolding u using fe pos d len b by (simp add: slice_def edge_def min_def)
    moreover have "slice (theBuffer ?c') fore (edge + length d) @ drop n (incoming c) = drop (fore - back) (unreadFrom back c)"
      unfolding u using fe pos d len b by (simp add: slice_def edge_def drop_take min_def)
    moreover have "slice (theBuffer ?c') a e = region c a e" if "e \<le> edge" for a e
      unfolding b using that d len by (intro slice_copyAt_before) simp_all
    moreover have "sameRest c ?c'" by (simp add: sameRest_def setBuffer_def)
    moreover have "heap ?c' = (heap c)[inBuffer c := heap ?c' ! inBuffer c]"
      using i by (simp add: setBuffer_def)
    ultimately show ?thesis
      using fill ok' fe i short False by (auto simp: unreadFrom_def edge_def setBuffer_def)
  qed
qed

text \<open>Buffer \<open>j\<close> is held by a stream, which reads its first \<open>n\<close> bytes.\<close>

definition held :: "nat \<Rightarrow> nat \<Rightarrow> http2Conn \<Rightarrow> bool" where
  "held j n c \<longleftrightarrow> j < length (heap c) \<and> j \<notin> set (pool c) \<and> n \<le> http2BufferSize \<and>
     (j = inBuffer c \<longrightarrow> 2 \<le> bufRef (heap c ! j) \<and> n \<le> sectBack c)"

definition keeps :: "http2Conn \<Rightarrow> http2Conn \<Rightarrow> bool" where
  "keeps c c' \<longleftrightarrow> (\<forall>j n. held j n c \<longrightarrow> held j n c' \<and>
     take n (bufBytes (heap c' ! j)) = take n (bufBytes (heap c ! j)))"

lemma keeps_refl [simp]: "keeps c c" by (simp add: keeps_def)

lemma keeps_trans [trans]: "keeps a b \<Longrightarrow> keeps b c \<Longrightarrow> keeps a c"
  by (simp add: keeps_def)

text \<open>The moving of the unfinished section to the start of the same or another buffer.\<close>

definition slideIn :: "bytes \<Rightarrow> http2Conn \<Rightarrow> http2Conn" where
  "slideIn data c =
     (if bufRef (heap c ! inBuffer c) = 1
      then (setBuffer (inBuffer c) (copyAt (theBuffer c) 0 data) c)\<lparr>inBufferEdge := length data\<rparr>
      else let old = inBuffer c;
               (new, c) = getHTTP2Buffer c;
               c = incRef new (c\<lparr>inBuffer := new\<rparr>);
               c = (setBuffer new (copyAt (theBuffer c) 0 data) c)\<lparr>inBufferEdge := length data\<rparr>
           in decRef old c)"

lemma growInFrame_eq:
  "growInFrame size0 c =
     (let c = c\<lparr>sectFore := sectFore c + size0\<rparr> in
      if sectFore c \<le> inBufferEdge c then Done c
      else andThen
          (if sectFore c > http2BufferSize then
             andThen (checked (sub (theBuffer c) (sectBack c) (inBufferEdge c))) (\<lambda>data.
               let c = slideIn data c in Done (c\<lparr>sectFore := sectFore c - sectBack c, sectBack := 0\<rparr>))
           else Done c)
          (\<lambda>c. fillInBuffer (sectFore c - inBufferEdge c) c))"
  by (simp add: growInFrame_def slideIn_def Let_def)

lemma getHTTP2Buffer_spec:
  assumes "bufsOk c" "getHTTP2Buffer c = (new, c1)"
  shows "new \<noteq> inBuffer c" "new < length (heap c1)" "length (heap c) \<le> length (heap c1)" "distinct (pool c1)"
    "set (pool c1) \<subseteq> set (pool c)" "new \<notin> set (pool c1)" "bufRef (heap c1 ! new) = 0"
    "\<forall>j < length (heap c). heap c1 ! j = heap c ! j" "\<forall>j < length (heap c1). length (bufBytes (heap c1 ! j)) = http2BufferSize"
    "sectBack c1 = sectBack c \<and> sectFore c1 = sectFore c \<and> incoming c1 = incoming c \<and> chunks c1 = chunks c \<and>
       inBufferEdge c1 = inBufferEdge c \<and> contBack c1 = contBack c \<and> contFore c1 = contFore c \<and> sameRest c c1" "new < length (heap c) \<Longrightarrow> new \<in> set (pool c)"
  using assms by (auto simp: getHTTP2Buffer_def bufsOk_def nth_append less_Suc_eq sameRest_def split: list.splits)

lemma slideIn_spec:
  assumes ok: "bufsOk c" and pos: "sectBack c \<le> inBufferEdge c" and data: "data = region c (sectBack c) (inBufferEdge c)"
  defines "c' \<equiv> slideIn data c"
  shows "bufsOk c' \<and> sameRest c c' \<and> inBufferEdge c' = inBufferEdge c - sectBack c \<and>
    region c' 0 (inBufferEdge c') = data \<and> incoming c' = incoming c \<and> sectBack c' = sectBack c \<and>
    sectFore c' = sectFore c \<and> chunks c' = chunks c \<and>
    (\<forall>j n. held j n c \<longrightarrow> j \<noteq> inBuffer c' \<and> j < length (heap c') \<and> j \<notin> set (pool c') \<and>
       bufBytes (heap c' ! j) = bufBytes (heap c ! j))"
proof -
  have i: "inBuffer c < length (heap c)" "inBufferEdge c \<le> http2BufferSize" using ok by (simp_all add: bufsOk_def)
  have ld: "length data = inBufferEdge c - sectBack c" using ok i by (simp add: data)
  have front: "slice (copyAt b 0 data) 0 (length data) = data" if "length b = http2BufferSize" for b
    using slice_copyAt_same [of 0 data b] that ld i by simp
  show ?thesis
  proof (cases "bufRef (heap c ! inBuffer c) = 1")
    case True
    let ?s = "setBuffer (inBuffer c) (copyAt (theBuffer c) 0 data) c"
    have c': "c' = ?s\<lparr>inBufferEdge := length data\<rparr>" using True by (simp add: c'_def slideIn_def)
    have "bufsOk ?s" using ok i ld by (intro bufsOk_setBuffer) simp_all
    then have "bufsOk c'" using i ld by (simp add: c' bufsOk_def)
    moreover have "theBuffer c' = copyAt (theBuffer c) 0 data" using i by (simp add: c')
    ultimately show ?thesis
      using True i ld front [of "theBuffer c"] ok by (auto simp: c' held_def sameRest_def setBuffer_def)
  next
    case False
    obtain new c1 where g: "getHTTP2Buffer c = (new, c1)" by (cases "getHTTP2Buffer c")
    note gs = getHTTP2Buffer_spec [OF ok g]
    let ?c2 = "incRef new (c1\<lparr>inBuffer := new\<rparr>)"
    let ?b = "copyAt (theBuffer ?c2) 0 data"
    let ?c3 = "(setBuffer new ?b ?c2)\<lparr>inBufferEdge := length data\<rparr>"
    have c': "c' = decRef (inBuffer c) ?c3"
      using False g by (simp add: c'_def slideIn_def Let_def)
    have ref: "2 \<le> bufRef (heap c ! inBuffer c)" using False ok by (simp add: bufsOk_def)
    have old: "bufRef (heap ?c3 ! inBuffer c) = bufRef (heap c ! inBuffer c)" "inBuffer c < length (heap ?c3)"
      using gs i by (simp_all add: incRef_def setBuffer_def nth_list_update)
    then have c'': "c' = ?c3\<lparr>heap := (heap ?c3)[inBuffer c := (heap ?c3 ! inBuffer c)
        \<lparr>bufRef := bufRef (heap c ! inBuffer c) - 1\<rparr>]\<rparr>"
      using ref by (simp add: c' decRef_def Let_def)
    have fields: "inBuffer c' = new" "pool c' = pool c1" "length (heap c') = length (heap c1)"
      "inBufferEdge c' = length data" "sectBack c' = sectBack c" "sectFore c' = sectFore c"
      "incoming c' = incoming c" "chunks c' = chunks c" "sameRest c c'"
      using gs(10) by (auto simp: c'' incRef_def setBuffer_def sameRest_def)
    have bytes: "bufBytes (heap c' ! j) = (if j = new then copyAt (bufBytes (heap c1 ! new)) 0 data else bufBytes (heap c1 ! j))"
      "bufRef (heap c' ! j) = (if j = new then 1 else if j = inBuffer c then bufRef (heap c ! inBuffer c) - 1
         else bufRef (heap c1 ! j))" if "j < length (heap c1)" for j
      using that gs(1,2,7) old by (auto simp: c'' incRef_def setBuffer_def nth_list_update)
    have pl: "k < length (heap c1) \<and> k \<noteq> new \<and> k \<noteq> inBuffer c \<and> bufRef (heap c1 ! k) = 0" if "k \<in> set (pool c1)" for k
    proof -
      have "k \<in> set (pool c)" "k \<noteq> new" using that gs(5,6) by auto
      moreover then have "k < length (heap c)" "bufRef (heap c ! k) = 0" "k \<noteq> inBuffer c"
        using ok by (auto simp: bufsOk_def)
      ultimately show ?thesis using gs(3,8) by auto
    qed
    have "length (bufBytes (heap c' ! k)) = http2BufferSize" if "k < length (heap c1)" for k
      using that bytes(1) [OF that] gs(9) gs(2) by simp
    moreover have "\<forall>k \<in> set (pool c1). k < length (heap c1) \<and> bufRef (heap c' ! k) = 0"
      using pl bytes(2) by auto
    ultimately have "bufsOk c'"
      using gs(2,4,6) fields ld i bytes(2) [OF gs(2)] unfolding bufsOk_def by auto
    moreover have "region c' 0 (inBufferEdge c') = data"
      using bytes(1) [OF gs(2)] gs(2,9) front fields by simp
    moreover have "j \<noteq> inBuffer c' \<and> j < length (heap c') \<and> j \<notin> set (pool c') \<and>
       bufBytes (heap c' ! j) = bufBytes (heap c ! j)" if "held j n c" for j n
      using that gs bytes [of j] fields unfolding held_def by (auto simp: subset_iff)
    ultimately show ?thesis using fields ld by auto
  qed
qed

lemma slice_split:
  assumes "a \<le> m" "m \<le> b" "b \<le> length xs"
  shows "slice xs a b = slice xs a m @ slice xs m b"
proof -
  have "take (b - a) (drop a xs) = take (m - a) (drop a xs) @ take (b - m) (drop (m - a) (drop a xs))"
    using take_add [of "m - a" "b - m" "drop a xs"] assms by simp
  then show ?thesis using assms by (simp add: slice_def)
qed

lemma held_fill:
  assumes ok: "bufsOk c" and h: "held j n c" and edge: "sectBack c \<le> inBufferEdge c"
    and c': "inBuffer c' = inBuffer c" "heap c' = (heap c)[inBuffer c := b]" "pool c' = pool c" "sectBack c' = sectBack c"
    "bufRef b = bufRef (heap c ! inBuffer c)" "\<forall>a b. b \<le> inBufferEdge c \<longrightarrow> region c' a b = region c a b"
  shows "held j n c' \<and> take n (bufBytes (heap c' ! j)) = take n (bufBytes (heap c ! j))"
proof -
  have i: "inBuffer c < length (heap c)" using ok by (simp add: bufsOk_def)
  have "take n (theBuffer c') = take n (theBuffer c)" if "j = inBuffer c"
    using h c'(6) [rule_format, of n 0] edge that by (simp add: held_def slice_def)
  then show ?thesis
    using h c' i by (cases "j = inBuffer c") (auto simp: held_def)
qed

lemma fill_section:
  assumes ok: "bufsOk c" and pos: "sectBack c \<le> inBufferEdge c" "inBufferEdge c < sectFore c" "sectFore c \<le> http2BufferSize"
    and p: "p = unreadFrom (sectBack c) c" and n: "n = sectFore c - sectBack c"
  shows "if length p < n then fillInBuffer (sectFore c - inBufferEdge c) c = Fail IoError
    else \<exists>c'. fillInBuffer (sectFore c - inBufferEdge c) c = Done c' \<and> bufsOk c' \<and> sameRest c c' \<and> keeps c c' \<and>
      sectBack c' = sectBack c \<and> sectFore c' = sectFore c \<and> sectFore c' \<le> inBufferEdge c' \<and>
      region c' (sectBack c') (sectFore c') = take n p \<and> unreadFrom (sectFore c') c' = drop n p"
proof -
  have k: "keeps c c'" if "inBuffer c' = inBuffer c" "heap c' = (heap c)[inBuffer c := heap c' ! inBuffer c]"
    "pool c' = pool c" "sectBack c' = sectBack c" "bufRef (heap c' ! inBuffer c) = bufRef (heap c ! inBuffer c)"
    "\<forall>a b. b \<le> inBufferEdge c \<longrightarrow> region c' a b = region c a b" for c'
    unfolding keeps_def using held_fill [OF ok _ pos(1) that] by blast
  show ?thesis
  proof (cases "length p < n")
    case True
    then show ?thesis using fillInBuffer_spec [OF ok pos] p n by simp
  next
    case False
    then obtain c' where c': "fillInBuffer (sectFore c - inBufferEdge c) c = Done c'" "bufsOk c'" "sameRest c c'"
      "sectBack c' = sectBack c" "sectFore c' = sectFore c" "inBuffer c' = inBuffer c"
      "heap c' = (heap c)[inBuffer c := heap c' ! inBuffer c]" "pool c' = pool c"
      "bufRef (heap c' ! inBuffer c) = bufRef (heap c ! inBuffer c)"
      "sectFore c \<le> inBufferEdge c'" "\<forall>a b. b \<le> inBufferEdge c \<longrightarrow> region c' a b = region c a b"
      "region c' (sectBack c) (sectFore c) = take n p" "unreadFrom (sectFore c) c' = drop n p"
      using fillInBuffer_spec [OF ok pos] p n by auto
    have "keeps c c'" by (rule k) (use c' in simp_all)
    then show ?thesis using False c' by auto
  qed
qed

text \<open>The section that is wanted is there, or the peer has not sent it.\<close>

lemma growInFrame_spec:
  assumes ok: "bufsOk c" and pos: "sectBack c = sectFore c" "sectFore c \<le> inBufferEdge c" and sz: "size0 \<le> http2BufferSize"
    and p: "p = unreadFrom (sectFore c) c"
  shows "if length p < size0 then growInFrame size0 c = Fail IoError
    else \<exists>c'. growInFrame size0 c = Done c' \<and> bufsOk c' \<and> sameRest c c' \<and> keeps c c' \<and>
      sectFore c' = sectBack c' + size0 \<and> sectFore c' \<le> inBufferEdge c' \<and>
      region c' (sectBack c') (sectFore c') = take size0 p \<and> unreadFrom (sectFore c') c' = drop size0 p"
proof -
  let ?c = "c\<lparr>sectFore := sectFore c + size0\<rparr>"
  have E: "inBufferEdge c \<le> http2BufferSize" and len: "length (theBuffer c) = http2BufferSize"
    using ok by (simp_all add: bufsOk_def)
  have ok1: "bufsOk ?c" using ok by (simp add: bufsOk_def)
  have u1: "unreadFrom (sectBack ?c) ?c = p" by (simp add: unreadFrom_def p pos)
  have k0: "keeps c ?c" "sameRest c ?c" by (simp_all add: keeps_def held_def sameRest_def)
  consider "sectFore c + size0 \<le> inBufferEdge c"
    | "inBufferEdge c < sectFore c + size0" "sectFore c + size0 \<le> http2BufferSize"
    | "http2BufferSize < sectFore c + size0" by linarith
  then show ?thesis
  proof cases
    case 1
    have "take size0 p = region c (sectFore c) (sectFore c + size0)" "length p \<ge> size0"
      "drop size0 p = region c (sectFore c + size0) (inBufferEdge c) @ incoming c"
      using 1 len E slice_split [of "sectFore c" "sectFore c + size0" "inBufferEdge c" "theBuffer c"]
      by (simp_all add: p unreadFrom_def)
    moreover have "growInFrame size0 c = Done ?c" using 1 by (simp add: growInFrame_def)
    ultimately show ?thesis
      using 1 pos ok1 k0 by (auto simp: unreadFrom_def)
  next
    case 2
    have fill: "growInFrame size0 c = fillInBuffer (sectFore ?c - inBufferEdge ?c) ?c"
      using 2 by (simp add: growInFrame_eq Let_def)
    have "inBufferEdge ?c < sectFore ?c" "sectBack ?c \<le> inBufferEdge ?c" "sectFore ?c \<le> http2BufferSize"
      "size0 = sectFore ?c - sectBack ?c"
      using 2 pos by simp_all
    then show ?thesis
      using fill_section [OF ok1 _ _ _ u1 [symmetric], of size0] fill sameRest_trans [OF k0(2)] keeps_trans [OF k0(1)] pos
      by (auto split: if_splits)
  next
    case 3
    define data where "data = region ?c (sectBack ?c) (inBufferEdge ?c)"
    define s where "s = slideIn data ?c"
    let ?s = "s\<lparr>sectFore := size0, sectBack := 0\<rparr>"
    have "sub (theBuffer ?c) (sectBack ?c) (inBufferEdge ?c) = Some data"
      using pos len E by (simp add: sub_def data_def)
    moreover have pre: "sectBack ?c \<le> inBufferEdge ?c" using pos by simp
    note spec = slideIn_spec [OF ok1 pre data_def, folded s_def]
    have sl: "bufsOk s" "sameRest ?c s" "inBufferEdge s = inBufferEdge c - sectFore c"
      "region s 0 (inBufferEdge s) = data" "incoming s = incoming c" "sectBack s = sectFore c"
      "sectFore s = sectFore c + size0" "\<forall>j n. held j n ?c \<longrightarrow> j \<noteq> inBuffer s \<and> j < length (heap s) \<and>
         j \<notin> set (pool s) \<and> bufBytes (heap s ! j) = bufBytes (heap ?c ! j)"
      using spec pos(1) by auto
    ultimately have fill: "growInFrame size0 c = fillInBuffer (sectFore ?s - inBufferEdge ?s) ?s"
      using 3 E pos by (simp add: growInFrame_eq Let_def s_def)
    have oks: "bufsOk ?s" using sl(1) by (simp add: bufsOk_def)
    have us: "p = unreadFrom (sectBack ?s) ?s"
      using sl(4,5) by (simp add: unreadFrom_def p data_def pos)
    have lt: "sectBack ?s \<le> inBufferEdge ?s" "inBufferEdge ?s < sectFore ?s" "sectFore ?s \<le> http2BufferSize"
      "size0 = sectFore ?s - sectBack ?s"
      using 3 E sl sz pos by simp_all
    have ks: "keeps c ?s" "sameRest c ?s"
      using sl(2,8) k0 by (auto simp: keeps_def held_def sameRest_def)
    show ?thesis
      using fill_section [OF oks lt(1-3) us lt(4)] fill sameRest_trans [OF ks(2)] keeps_trans [OF ks(1)]
      by (auto split: if_splits)
  qed
qed

subsection \<open>Receiving a frame\<close>

text \<open>The frame at the front of the unread bytes: its header, its effective payload and the bytes
  behind it.\<close>

definition recvSpec :: "bool \<Rightarrow> bytes \<Rightarrow> (connError, http2InFrame \<times> bytes \<times> bytes) outcome" where
  "recvSpec inTime p =
     (if length p < 9 then Fail IoError
      else andThen (liftH2 (decodeHeader http2InFrame_zero (take 9 p))) (\<lambda>(f, hdr).
        let payload = take (frameLength f) (drop 9 p) in
        if length payload < frameLength f then Fail IoError
        else andThen (liftH2 (if isUnknown f then Done payload else frameSpec f payload)) (\<lambda>body.
          if inTime then Done (f, body, drop (9 + frameLength f) p) else Fail (H2 SettingsTimeout))))"

text \<open>\<open>recvInFrame\<close> up to the continuation frames.\<close>

definition recvPlain :: "http2Conn \<Rightarrow> (connError, http2InFrame \<times> http2Conn) outcome" where
  "recvPlain c =
     andThen (setReadDeadline (c\<lparr>sectBack := sectFore c\<rparr>)) (\<lambda>c.
     andThen (growInFrame 9 c) (\<lambda>c.
       let (f, c) = nextInFrame c in
       andThen (checked (sub (theBuffer c) (sectBack c) (sectFore c))) (\<lambda>hdr.
       andThen (liftH2 (decodeHeader f hdr)) (\<lambda>(f, hdr).
         let c = setBuffer (inBuffer c) (copyAt (theBuffer c) (sectBack c) hdr) c in
         andThen (growInFrame (frameLength f) (c\<lparr>sectBack := sectFore c\<rparr>)) (\<lambda>c.
           let f = f\<lparr>efctFrom := sectBack c, efctEdge := sectFore c\<rparr> in
           andThen (if \<not> isUnknown f then liftH2 (http2InFrameCheckers (theBuffer c) f) else Done f) (\<lambda>f.
             let c = c\<lparr>cumulativeInFrames := cumulativeInFrames c + 1\<rparr> in
             if cumulativeInFrames c = 10 \<and> \<not> acknowledged c then Fail (H2 SettingsTimeout)
             else Done (f, c)))))))"

lemma recvInFrame_eq:
  "recvInFrame c = andThen (recvPlain c) (\<lambda>(f, c).
     andThen (if kind f = http2FrameFields \<and> \<not> endFields f then coalesceContinuations f c else Done (f, c))
       (\<lambda>(f, c). Done (f, storeInFrame f c)))"
  unfolding recvInFrame_def recvPlain_def
  by (simp add: andThen_assoc Let_def split_def if_distrib [of "\<lambda>r. andThen r _"] cong: if_cong)

lemma andThen_split:
  "P (andThen m g) \<longleftrightarrow> (m = Panic \<longrightarrow> P Panic) \<and> (\<forall>e. m = Fail e \<longrightarrow> P (Fail e)) \<and> (\<forall>x. m = Done x \<longrightarrow> P (g x))"
  by (cases m) auto

text \<open>Only the positions of the frame decoded into matter: every other field is assigned.\<close>

lemma decodeHeader_any:
  "decodeHeader g h = (case decodeHeader http2InFrame_zero h of
      Panic \<Rightarrow> Panic | Fail e \<Rightarrow> Fail e
    | Done (f, h') \<Rightarrow> Done (f\<lparr>efctFrom := efctFrom g, efctEdge := efctEdge g\<rparr>, h'))"
  by (simp add: decodeHeader_def http2InFrame_zero_def Let_def)

lemma decodeHeader_facts:
  assumes "decodeHeader g h = Done (f, h')"
  shows "frameLength f \<le> 16384" "length h' = length h" "9 \<le> length h" "priority f \<Longrightarrow> kind f = 1"
proof -
  from assms obtain n :: uint32 where n: "\<not> n > word_of_nat http2MaxFrameSize" "frameLength f = unat (ucast n :: uint16)"
    by (auto simp: decodeHeader_eq Let_def split: if_splits)
  then have le: "unat n \<le> 16384" by (simp add: not_less word_le_nat_alt http2MaxFrameSize_def)
  then have "unat (ucast n :: uint16) = unat n"
    by (simp add: unsigned_ucast_eq take_bit_nat_eq_self)
  then show "frameLength f \<le> 16384" using n le by simp
  show "length h' = length h" "9 \<le> length h" "priority f \<Longrightarrow> kind f = 1"
    using assms by (auto simp: decodeHeader_eq Let_def frame_kinds split: if_splits)
qed

lemma frameSpec_positions [simp]:
  "frameSpec (f\<lparr>efctFrom := a, efctEdge := b\<rparr>) p = frameSpec f p"
  "isUnknown (f\<lparr>efctFrom := a, efctEdge := b\<rparr>) = isUnknown f"
  by (simp_all add: frameSpec_def dropPadding_def isUnknown_def Let_def)

lemma nextInFrame_spec:
  assumes "nextInFrame c = (g, c')"
  shows "bufsOk c' = bufsOk c" "unreadFrom p c' = unreadFrom p c" "theBuffer c' = theBuffer c" "keeps c c'"
    "sectBack c' = sectBack c" "sectFore c' = sectFore c" "inBufferEdge c' = inBufferEdge c" "inBuffer c' = inBuffer c"
    "cumulativeInFrames c' = cumulativeInFrames c" "acknowledged c' = acknowledged c" "faults c' = faults c"
  using assms by (auto simp: nextInFrame_def bufsOk_def unreadFrom_def keeps_def held_def split: if_splits)

definition inTime :: "http2Conn \<Rightarrow> bool" where
  "inTime c \<longleftrightarrow> cumulativeInFrames c + 1 \<noteq> 10 \<or> acknowledged c"

text \<open>A frame in the buffer, as the specification describes it.\<close>

definition holdsFrame :: "http2Conn \<Rightarrow> http2InFrame \<Rightarrow> http2InFrame \<times> bytes \<times> bytes \<Rightarrow> bool" where
  "holdsFrame c f = (\<lambda>(g, body, rest). bufsOk c \<and> sameHeader f g \<and> effective (theBuffer c) f = Some body \<and>
     sectBack c \<le> efctFrom f \<and> efctFrom f \<le> efctEdge f \<and> efctEdge f \<le> sectFore c \<and>
     sectFore c = sectBack c + frameLength f \<and> sectFore c \<le> inBufferEdge c \<and> unreadFrom (sectFore c) c = rest)"

lemma sameHeader_iff:
  "sameHeader f g \<longleftrightarrow> streamID g = streamID f \<and> frameLength g = frameLength f \<and> kind g = kind f \<and>
     endFields g = endFields f \<and> endStream g = endStream f \<and> ack g = ack f \<and> padded g = padded f \<and>
     priority g = priority f"
  by (cases f; cases g) (auto simp: sameHeader_def)

lemma slice_copyAt_after:
  assumes "at + length src \<le> a" "a \<le> length dst"
  shows "slice (copyAt dst at src) a b = slice dst a b"
proof -
  have "copyAt dst at src = (take at dst @ src) @ drop (at + length src) dst"
    using assms by (simp add: copyAt_def)
  moreover have "length (take at dst @ src) = at + length src" using assms by simp
  ultimately have "drop a (copyAt dst at src) = drop (a - (at + length src)) (drop (at + length src) dst)"
    using assms(1) by (simp only: drop_append) simp
  then have "drop a (copyAt dst at src) = drop a dst" using assms(1) by simp
  then show ?thesis by (simp add: slice_def)
qed

text \<open>Writing a section back into its place.\<close>

lemma rewrite_section:
  assumes ok: "bufsOk c" and pos: "sectFore c = sectBack c + length h" "sectFore c \<le> inBufferEdge c"
  defines "c' \<equiv> (setBuffer (inBuffer c) (copyAt (theBuffer c) (sectBack c) h) c)\<lparr>sectBack := sectFore c\<rparr>"
  shows "bufsOk c'" "unreadFrom (sectFore c) c' = unreadFrom (sectFore c) c" "keeps c c'" "sameRest c c'"
    "sectBack c' = sectFore c" "sectFore c' = sectFore c" "inBufferEdge c' = inBufferEdge c"
proof -
  have i: "inBuffer c < length (heap c)" "inBufferEdge c \<le> http2BufferSize" using ok by (simp_all add: bufsOk_def)
  let ?s = "setBuffer (inBuffer c) (copyAt (theBuffer c) (sectBack c) h) c"
  have oks: "bufsOk ?s" using ok i pos by (intro bufsOk_setBuffer) simp_all
  then show "bufsOk c'" by (simp add: c'_def bufsOk_def)
  have b: "theBuffer c' = copyAt (theBuffer c) (sectBack c) h" using i by (simp add: c'_def)
  show "unreadFrom (sectFore c) c' = unreadFrom (sectFore c) c"
    using pos i ok slice_copyAt_after [of "sectBack c" h "sectFore c" "theBuffer c"]
    by (simp add: unreadFrom_def b) (simp add: c'_def)
  have "held j n c' \<and> take n (bufBytes (heap c' ! j)) = take n (bufBytes (heap c ! j))" if h: "held j n c" for j n
  proof (cases "j = inBuffer c")
    case True
    then have "n \<le> sectBack c" using h by (simp add: held_def)
    moreover have "take n (copyAt (theBuffer c) (sectBack c) h) = take n (theBuffer c)" if "n \<le> sectBack c"
      using that pos i ok by (simp add: copyAt_def min_def)
    ultimately show ?thesis using h True i pos by (auto simp: c'_def held_def)
  next
    case False
    then show ?thesis using h i by (auto simp: c'_def held_def)
  qed
  then show "keeps c c'" by (simp add: keeps_def)
qed (simp_all add: c'_def sameRest_def setBuffer_def)

lemma recvPlain_spec:
  assumes ok: "bufsOk c" "sectFore c \<le> inBufferEdge c" and nf: "faults c = []"
  shows "case recvSpec (inTime c) (unreadFrom (sectFore c) c) of
      Panic \<Rightarrow> False
    | Fail e \<Rightarrow> recvPlain c = Fail e
    | Done frame \<Rightarrow> \<exists>f c'. recvPlain c = Done (f, c') \<and> holdsFrame c' f frame \<and> keeps (c\<lparr>sectBack := sectFore c\<rparr>) c' \<and>
        cumulativeInFrames c' = cumulativeInFrames c + 1 \<and> acknowledged c' = acknowledged c \<and> faults c' = []"
proof -
  define p where "p = unreadFrom (sectFore c) c"
  let ?c0 = "c\<lparr>sectBack := sectFore c\<rparr>"
  have ok0: "bufsOk ?c0" "sectBack ?c0 = sectFore ?c0" "sectFore ?c0 \<le> inBufferEdge ?c0" "p = unreadFrom (sectFore ?c0) ?c0"
    using ok by (simp_all add: bufsOk_def p_def unreadFrom_def)
  have io: "setReadDeadline ?c0 = Done ?c0" using nf by (simp add: setReadDeadline_def ioCall_def)
  have s9: "(9::nat) \<le> http2BufferSize" by (simp add: http2BufferSize_def)
  show ?thesis
  proof (cases "length p < 9")
    case True
    then have "growInFrame 9 ?c0 = Fail IoError" using growInFrame_spec [OF ok0(1-3) s9 ok0(4)] by simp
    then show ?thesis using True io by (simp add: recvSpec_def recvPlain_def flip: p_def)
  next
    case False
    then obtain c1 where c1: "growInFrame 9 ?c0 = Done c1" "bufsOk c1" "sameRest ?c0 c1" "keeps ?c0 c1"
      "sectFore c1 = sectBack c1 + 9" "sectFore c1 \<le> inBufferEdge c1"
      "region c1 (sectBack c1) (sectFore c1) = take 9 p" "unreadFrom (sectFore c1) c1 = drop 9 p"
      using growInFrame_spec [OF ok0(1-3) s9 ok0(4)] by auto
    obtain g c2 where n: "nextInFrame c1 = (g, c2)" by (cases "nextInFrame c1")
    note ns = nextInFrame_spec [OF n]
    have E: "inBufferEdge c1 \<le> http2BufferSize" using c1(2) by (simp add: bufsOk_def)
    have hdr: "sub (theBuffer c2) (sectBack c2) (sectFore c2) = Some (take 9 p)"
      using c1 ns E by (simp add: sub_def)
    have step1: "recvPlain c = andThen (liftH2 (decodeHeader g (take 9 p))) (\<lambda>(f, hdr).
         let c = setBuffer (inBuffer c2) (copyAt (theBuffer c2) (sectBack c2) hdr) c2 in
         andThen (growInFrame (frameLength f) (c\<lparr>sectBack := sectFore c\<rparr>)) (\<lambda>c.
           let f = f\<lparr>efctFrom := sectBack c, efctEdge := sectFore c\<rparr> in
           andThen (if \<not> isUnknown f then liftH2 (http2InFrameCheckers (theBuffer c) f) else Done f) (\<lambda>f.
             let c = c\<lparr>cumulativeInFrames := cumulativeInFrames c + 1\<rparr> in
             if cumulativeInFrames c = 10 \<and> \<not> acknowledged c then Fail (H2 SettingsTimeout)
             else Done (f, c))))"
      unfolding recvPlain_def io using c1(1) n hdr by simp
    show ?thesis
    proof (cases "decodeHeader http2InFrame_zero (take 9 p)")
      case Panic
      then show ?thesis using False by (simp add: decodeHeader_eq Let_def split: if_splits)
    next
      case (Fail e)
      then show ?thesis
        using False by (simp add: recvSpec_def step1 decodeHeader_any [of g] flip: p_def)
    next
      case (Done r)
      then obtain f0 h where d: "decodeHeader http2InFrame_zero (take 9 p) = Done (f0, h)" by (cases r) simp
      note df = decodeHeader_facts [OF d]
      define f1 where "f1 = f0\<lparr>efctFrom := efctFrom g, efctEdge := efctEdge g\<rparr>"
      have dg: "decodeHeader g (take 9 p) = Done (f1, h)" by (simp add: decodeHeader_any [of g] d f1_def)
      let ?c3 = "(setBuffer (inBuffer c2) (copyAt (theBuffer c2) (sectBack c2) h) c2)\<lparr>sectBack := sectFore c2\<rparr>"
      have lh: "length h = 9" using df(2) False by simp
      have fl: "frameLength f1 = frameLength f0" by (simp add: f1_def)
      have "bufsOk c2" "sectFore c2 = sectBack c2 + length h" "sectFore c2 \<le> inBufferEdge c2"
        using c1 ns lh by simp_all
      note rw = rewrite_section [OF this]
      have ok3: "bufsOk ?c3" "sectBack ?c3 = sectFore ?c3" "sectFore ?c3 \<le> inBufferEdge ?c3"
        "drop 9 p = unreadFrom (sectFore ?c3) ?c3"
        using rw(1,2) c1(6,8) ns by simp_all
      have szf: "frameLength f1 \<le> http2BufferSize" using df(1) by (simp add: http2BufferSize_def http2MaxFrameSize_def f1_def)
      note grow = growInFrame_spec [OF ok3(1-3) szf ok3(4)]
      let ?payload = "take (frameLength f0) (drop 9 p)"
      show ?thesis
      proof (cases "length ?payload < frameLength f0")
        case True
        then have "growInFrame (frameLength f1) ?c3 = Fail IoError" using grow fl by (simp split: if_splits)
        then have "recvPlain c = Fail IoError" by (simp add: step1 dg)
        moreover have "length p - 9 < frameLength f0" using True by auto
        ultimately show ?thesis
          using False d by (simp add: recvSpec_def Let_def flip: p_def)
      next
        case fits: False
        then obtain c4 where c4: "growInFrame (frameLength f1) ?c3 = Done c4" "bufsOk c4" "sameRest ?c3 c4" "keeps ?c3 c4"
          "sectFore c4 = sectBack c4 + frameLength f1" "sectFore c4 \<le> inBufferEdge c4"
          "region c4 (sectBack c4) (sectFore c4) = ?payload" "unreadFrom (sectFore c4) c4 = drop (9 + frameLength f0) p"
          using grow fl by (auto simp: add.commute split: if_splits)
        let ?f = "f1\<lparr>efctFrom := sectBack c4, efctEdge := sectFore c4\<rparr>"
        let ?chk = "if \<not> isUnknown ?f then liftH2 (http2InFrameCheckers (theBuffer c4) ?f) else Done ?f"
        let ?c5 = "c4\<lparr>cumulativeInFrames := cumulativeInFrames c4 + 1\<rparr>"
        have rest: "cumulativeInFrames c4 = cumulativeInFrames c" "acknowledged c4 = acknowledged c" "faults c4 = []"
          using c4(3) rw(4) ns c1(3) nf by (simp_all add: sameRest_def)
        have keep: "keeps ?c0 ?c5"
        proof -
          have "keeps c4 ?c5" by (simp add: keeps_def held_def)
          then show ?thesis using keeps_trans [OF keeps_trans [OF keeps_trans [OF c1(4) ns(4)] rw(3)] c4(4)] keeps_trans by blast
        qed
        have step2: "recvPlain c = andThen ?chk (\<lambda>f. if inTime c then Done (f, ?c5) else Fail (H2 SettingsTimeout))"
          by (simp add: step1 dg c4(1) rest inTime_def Let_def conj_commute)
        have E4: "inBufferEdge c4 \<le> length (theBuffer c4)" using c4(2) by (simp add: bufsOk_def)
        have pay: "frameLength ?f = length ?payload" "?payload = slice (theBuffer c4) (efctFrom ?f) (efctEdge ?f)"
          "efctEdge ?f = efctFrom ?f + length ?payload" "efctEdge ?f \<le> length (theBuffer c4)"
          "priority ?f \<Longrightarrow> kind ?f = 1"
          using c4(5,6,7) fits fl E4 df(4) by (simp_all add: f1_def)
        have same: "sameHeader ?f f0" by (simp add: sameHeader_def f1_def)
        have unk: "isUnknown ?f = isUnknown f0" and spec: "frameSpec ?f ?payload = frameSpec f0 ?payload"
          by (simp_all add: f1_def)
        have specIs: "recvSpec (inTime c) p =
            andThen (liftH2 (if isUnknown f0 then Done ?payload else frameSpec f0 ?payload)) (\<lambda>body.
              if inTime c then Done (f0, body, drop (9 + frameLength f0) p) else Fail (H2 SettingsTimeout))"
          using False fits d by (simp add: recvSpec_def Let_def)
        have ok5: "bufsOk ?c5" "unreadFrom (sectFore ?c5) ?c5 = drop (9 + frameLength f0) p"
          using c4(2,8) by (simp_all add: bufsOk_def unreadFrom_def)
        show ?thesis
        proof (cases "isUnknown f0")
          case True
          have "effective (theBuffer c4) ?f = Some ?payload"
            using pay c4(5) by (simp add: effective_def sub_def)
          then have "holdsFrame ?c5 ?f (f0, ?payload, drop (9 + frameLength f0) p)"
            using ok5 same c4(5,6) by (simp add: holdsFrame_def fl)
          then show ?thesis
            unfolding p_def [symmetric] specIs
            using True unk step2 keep rest by auto
        next
          case kn: False
          then have k10: "kind ?f < 10" using unk by (simp add: isUnknown_def frame_kinds not_le f1_def)
          have chk: "checkedAs (theBuffer c4) ?f (http2InFrameCheckers (theBuffer c4) ?f) (frameSpec f0 ?payload)"
            using checkers_spec [OF pay k10] spec by simp
          show ?thesis
          proof (cases "frameSpec f0 ?payload")
            case Panic
            then show ?thesis using chk by (simp add: checkedAs_def)
          next
            case (Fail e)
            then show ?thesis
              unfolding p_def [symmetric] specIs using chk kn unk step2 by (simp add: checkedAs_def)
          next
            case (Done body)
            then obtain f' where f': "http2InFrameCheckers (theBuffer c4) ?f = Done f'" "sameHeader ?f f'"
              "effective (theBuffer c4) f' = Some body" "efctFrom ?f \<le> efctFrom f'" "efctFrom f' \<le> efctEdge f'"
              "efctEdge f' \<le> efctEdge ?f"
              using chk by (auto simp: checkedAs_def)
            have "sameHeader f' f0" "frameLength f' = frameLength f0"
              using f'(2) same by (simp_all add: sameHeader_iff)
            then have "holdsFrame ?c5 f' (f0, body, drop (9 + frameLength f0) p)"
              using ok5 f' c4(5,6) by (simp add: holdsFrame_def fl)
            then show ?thesis
              unfolding p_def [symmetric] specIs using Done kn unk step2 f'(1) keep rest by auto
          qed
        qed
      qed
    qed
  qed
qed

subsection \<open>Continuation frames\<close>

text \<open>The state between two continuation frames: the block so far is the effective payload of \<open>f\<close>,
  in front of the hole that the continuation headers have left.\<close>

definition coalescing :: "http2Conn \<Rightarrow> http2InFrame \<Rightarrow> bytes \<Rightarrow> bool" where
  "coalescing c f block \<longleftrightarrow> bufsOk c \<and> sectBack c \<le> efctFrom f \<and> efctFrom f \<le> efctEdge f \<and>
     efctEdge f \<le> sectFore c \<and> sectFore c = sectBack c + frameLength f \<and> sectFore c \<le> contBack c \<and>
     contBack c \<le> contFore c \<and> contFore c \<le> inBufferEdge c \<and> region c (efctFrom f) (efctEdge f) = block"

text \<open>The section moved to the front of the buffer, with the bytes from \<open>contBack\<close> on behind it.\<close>

definition slideCont :: "http2InFrame \<Rightarrow> http2Conn \<Rightarrow> http2InFrame \<times> http2Conn" where
  "slideCont f c =
     (let old = inBuffer c;
          sect = region c (sectBack c) (sectFore c);
          cont = region c (contBack c) (inBufferEdge c);
          c1 = (if bufRef (heap c ! inBuffer c) \<noteq> 1
                then let (new, c) = getHTTP2Buffer c in incRef new (c\<lparr>inBuffer := new\<rparr>) else c);
          c2 = (setBuffer (inBuffer c1) (copyAt (theBuffer c1) 0 sect) c1)\<lparr>sectFore := length sect\<rparr>;
          c3 = (setBuffer (inBuffer c2) (copyAt (theBuffer c2) (sectFore c2) cont) c2)
                 \<lparr>inBufferEdge := sectFore c2 + length cont\<rparr>;
          c4 = (if old \<noteq> inBuffer c3 then decRef old c3 else c3)
      in (f\<lparr>efctFrom := efctFrom f - sectBack c, efctEdge := efctEdge f - sectBack c\<rparr>, c4))"

lemma setBuffer_sectFore: "setBuffer i b (c\<lparr>sectFore := x\<rparr>) = (setBuffer i b c)\<lparr>sectFore := x\<rparr>"
  by (cases c) (simp add: setBuffer_def)

lemma setBuffer_twice: "i < length (heap c) \<Longrightarrow> setBuffer i b (setBuffer i b' c) = setBuffer i b c"
  by (simp add: setBuffer_def)

lemma slideCont_spec:
  assumes ok: "bufsOk c"
    and pos: "sectBack c \<le> sectFore c" "sectFore c \<le> contBack c" "contBack c \<le> inBufferEdge c"
  obtains f' c' where "slideCont f c = (f', c')" "bufsOk c'" "sameRest c c'" "sameHeader f f'"
    "efctFrom f' = efctFrom f - sectBack c" "efctEdge f' = efctEdge f - sectBack c"
    "sectFore c' = sectFore c - sectBack c" "inBufferEdge c' = sectFore c' + (inBufferEdge c - contBack c)"
    "region c' 0 (sectFore c') = region c (sectBack c) (sectFore c)"
    "region c' (sectFore c') (inBufferEdge c') = region c (contBack c) (inBufferEdge c)"
    "incoming c' = incoming c" "chunks c' = chunks c"
    "\<forall>j n. held j n c \<longrightarrow> j \<noteq> inBuffer c' \<and> j < length (heap c') \<and> j \<notin> set (pool c') \<and>
       bufBytes (heap c' ! j) = bufBytes (heap c ! j)"
proof -
  have i: "inBuffer c < length (heap c)" "inBufferEdge c \<le> http2BufferSize"
    using ok by (auto simp: bufsOk_def)
  define sect where "sect = region c (sectBack c) (sectFore c)"
  define cont where "cont = region c (contBack c) (inBufferEdge c)"
  have len: "length sect = sectFore c - sectBack c" "length cont = inBufferEdge c - contBack c"
    using ok i pos by (simp_all add: sect_def cont_def)
  define c1 where "c1 = (if bufRef (heap c ! inBuffer c) \<noteq> 1
    then let (new, c) = getHTTP2Buffer c in incRef new (c\<lparr>inBuffer := new\<rparr>) else c)"
  define both where "both b = copyAt (copyAt b 0 sect) (length sect) cont" for b
  have fits: "length sect + length cont \<le> http2BufferSize" using len pos i by simp
  have lb: "length (both b) = http2BufferSize" "slice (both b) 0 (length sect) = sect"
    "slice (both b) (length sect) (length sect + length cont) = cont" if "length b = http2BufferSize" for b
  proof -
    show "length (both b) = http2BufferSize" using that fits by (simp add: both_def)
    show "slice (both b) 0 (length sect) = sect"
      using slice_copyAt_before [of "length sect" "length sect" "copyAt b 0 sect" cont 0] slice_copyAt_same [of 0 sect b]
        that fits by (simp add: both_def)
    show "slice (both b) (length sect) (length sect + length cont) = cont"
      using slice_copyAt_same [of "length sect" cont "copyAt b 0 sect"] that fits by (simp add: both_def)
  qed
  let ?f' = "f\<lparr>efctFrom := efctFrom f - sectBack c, efctEdge := efctEdge f - sectBack c\<rparr>"
  let ?c3 = "(setBuffer (inBuffer c1) (both (theBuffer c1)) c1)\<lparr>sectFore := length sect, inBufferEdge := length sect + length cont\<rparr>"
  let ?c4 = "if inBuffer c \<noteq> inBuffer ?c3 then decRef (inBuffer c) ?c3 else ?c3"
  have c1i: "inBuffer c1 < length (heap c1)"
    using getHTTP2Buffer_spec(2) [OF ok] i by (auto simp: c1_def incRef_def split: prod.splits)
  have eq: "slideCont f c = (?f', ?c4)"
    using c1i unfolding slideCont_def c1_def [symmetric] sect_def [symmetric] cont_def [symmetric]
    by (simp add: both_def Let_def setBuffer_sectFore setBuffer_twice)
  show ?thesis
  proof (cases "bufRef (heap c ! inBuffer c) = 1")
    case True
    then have c1: "c1 = c" by (simp add: c1_def)
    have "bufsOk (setBuffer (inBuffer c) (both (theBuffer c)) c)"
      using ok i lb by (intro bufsOk_setBuffer) simp_all
    then have "bufsOk ?c4" using fits by (simp add: c1 bufsOk_def)
    moreover have "theBuffer ?c4 = both (theBuffer c)" using i by (simp add: c1)
    ultimately show ?thesis
      using that [OF eq] True lb [of "theBuffer c"] ok len by (auto simp: c1 held_def sameRest_def setBuffer_def sect_def cont_def)
  next
    case False
    obtain new c0 where g: "getHTTP2Buffer c = (new, c0)" by (cases "getHTTP2Buffer c")
    note gs = getHTTP2Buffer_spec [OF ok g]
    have c1: "c1 = incRef new (c0\<lparr>inBuffer := new\<rparr>)" using False g by (simp add: c1_def)
    have ref: "2 \<le> bufRef (heap c ! inBuffer c)" using False ok by (simp add: bufsOk_def)
    have n: "inBuffer c1 = new" by (simp add: c1 incRef_def)
    define c3 where "c3 = ?c3"
    define c4 where "c4 = c3\<lparr>heap := (heap c3)[inBuffer c := (heap c3 ! inBuffer c)
        \<lparr>bufRef := bufRef (heap c ! inBuffer c) - 1\<rparr>]\<rparr>"
    have c3f: "inBuffer c3 = new" "pool c3 = pool c0" "length (heap c3) = length (heap c0)"
      "inBufferEdge c3 = length sect + length cont" "sectFore c3 = length sect"
      "incoming c3 = incoming c0" "chunks c3 = chunks c0" "sameRest c0 c3"
      by (simp_all add: c3_def c1 incRef_def setBuffer_def sameRest_def)
    have h3: "heap c3 ! j = (if j = new then \<lparr>bufBytes = both (bufBytes (heap c0 ! new)), bufRef = 1\<rparr> else heap c0 ! j)"
      if "j < length (heap c0)" for j
      using that gs(2,7) by (simp add: c3_def c1 incRef_def setBuffer_def nth_list_update)
    have old: "bufRef (heap c3 ! inBuffer c) = bufRef (heap c ! inBuffer c)" "inBuffer c < length (heap c3)"
      using gs(1,3,8) i h3 [of "inBuffer c"] c3f(3) by simp_all
    have c4: "?c4 = c4"
      unfolding c3_def [symmetric] using ref gs(1) old c3f(1) by (simp add: decRef_def Let_def c4_def)
    have h4: "heap c4 ! j = (if j = new then \<lparr>bufBytes = both (bufBytes (heap c0 ! new)), bufRef = 1\<rparr>
        else if j = inBuffer c then (heap c0 ! j)\<lparr>bufRef := bufRef (heap c ! inBuffer c) - 1\<rparr> else heap c0 ! j)"
      if "j < length (heap c0)" for j
      using that gs(1) h3 old(2) c3f(3) by (simp add: c4_def nth_list_update)
    have fields: "inBuffer c4 = new" "pool c4 = pool c0" "length (heap c4) = length (heap c0)"
      "inBufferEdge c4 = length sect + length cont" "sectFore c4 = length sect"
      "incoming c4 = incoming c" "chunks c4 = chunks c" "sameRest c c4"
      using c3f gs(10) by (simp_all add: c4_def sameRest_def)
    have bytes: "bufBytes (heap c4 ! j) = (if j = new then both (bufBytes (heap c0 ! new)) else bufBytes (heap c0 ! j))"
      "bufRef (heap c4 ! j) = (if j = new then 1 else if j = inBuffer c then bufRef (heap c ! inBuffer c) - 1
         else bufRef (heap c0 ! j))" if "j < length (heap c0)" for j
      using h4 [OF that] by simp_all
    have pl: "k < length (heap c0) \<and> k \<noteq> new \<and> k \<noteq> inBuffer c \<and> bufRef (heap c0 ! k) = 0" if "k \<in> set (pool c0)" for k
    proof -
      have "k \<in> set (pool c)" "k \<noteq> new" using that gs(5,6) by auto
      moreover then have "k < length (heap c)" "bufRef (heap c ! k) = 0" "k \<noteq> inBuffer c"
        using ok by (auto simp: bufsOk_def)
      ultimately show ?thesis using gs(3,8) by auto
    qed
    have "length (bufBytes (heap c4 ! k)) = http2BufferSize" if "k < length (heap c0)" for k
      using that bytes(1) [OF that] gs(9) gs(2) lb(1) by simp
    moreover have "\<forall>k \<in> set (pool c0). k < length (heap c0) \<and> bufRef (heap c4 ! k) = 0"
      using pl bytes(2) by auto
    ultimately have "bufsOk c4"
      using gs(2,4,6) fields fits bytes(2) [OF gs(2)] unfolding bufsOk_def by auto
    moreover have "theBuffer c4 = both (bufBytes (heap c0 ! new))"
      using bytes(1) [OF gs(2)] fields(1) by simp
    moreover have "j \<noteq> inBuffer c4 \<and> j < length (heap c4) \<and> j \<notin> set (pool c4) \<and>
       bufBytes (heap c4 ! j) = bufBytes (heap c ! j)" if "held j n c" for j n
      using that gs bytes [of j] fields unfolding held_def by (auto simp: subset_iff)
    ultimately show ?thesis
      using that [OF eq [unfolded c4]] fields lb [of "bufBytes (heap c0 ! new)"] gs(2,9) len by (simp add: sect_def cont_def)
  qed
qed

lemma growContinuationFrame_eq:
  assumes ok: "bufsOk c" and pos: "sectBack c \<le> sectFore c" "sectFore c \<le> contBack c" "contBack c \<le> inBufferEdge c"
  shows "growContinuationFrame size0 f c =
    (let c = c\<lparr>contFore := contFore c + size0\<rparr> in
     if contFore c \<le> inBufferEdge c then Done (f, c)
     else if contFore c > http2BufferSize \<and> sectBack c = 0 then Fail (H2 FrameSizeError)
     else
       let (f, c) = (if contFore c > http2BufferSize
                     then let (f, c) = slideCont f c in
                       (f, c\<lparr>sectBack := 0, contBack := sectFore c, contFore := sectFore c + size0\<rparr>)
                     else (f, c))
       in andThen (fillInBuffer (contFore c - inBufferEdge c) c) (\<lambda>c. Done (f, c)))"
proof -
  let ?c = "c\<lparr>contFore := contFore c + size0\<rparr>"
  have okc: "bufsOk ?c" and i: "inBuffer c < length (heap c)" "inBufferEdge c \<le> http2BufferSize"
    using ok by (simp_all add: bufsOk_def)
  have len: "length (theBuffer c) = http2BufferSize" using ok by simp
  define sect where "sect = region c (sectBack c) (sectFore c)"
  define cont where "cont = region c (contBack c) (inBufferEdge c)"
  define c1 where "c1 = (if bufRef (heap ?c ! inBuffer ?c) \<noteq> 1
    then let (new, c) = getHTTP2Buffer ?c in incRef new (c\<lparr>inBuffer := new\<rparr>) else ?c)"
  define c2 where "c2 = (setBuffer (inBuffer c1) (copyAt (theBuffer c1) 0 sect) c1)\<lparr>sectFore := length sect\<rparr>"
  have c1: "bufBytes (heap c1 ! inBuffer c) = theBuffer c" "inBuffer c1 < length (heap c1)" "sectBack c1 = sectBack c"
    "sectFore c1 = sectFore c" "contBack c1 = contBack c" "inBufferEdge c1 = inBufferEdge c"
  proof -
    obtain new d where g: "getHTTP2Buffer ?c = (new, d)" by fastforce
    note spec = getHTTP2Buffer_spec [OF okc g]
    have c1': "c1 = (if bufRef (heap c ! inBuffer c) \<noteq> 1 then incRef new (d\<lparr>inBuffer := new\<rparr>) else ?c)"
      by (simp add: c1_def g)
    have "heap d ! inBuffer c = heap c ! inBuffer c" "inBuffer c < length (heap d)" using spec(3,8) i by auto
    then show "bufBytes (heap c1 ! inBuffer c) = theBuffer c" "inBuffer c1 < length (heap c1)" "sectBack c1 = sectBack c"
        "sectFore c1 = sectFore c" "contBack c1 = contBack c" "inBufferEdge c1 = inBufferEdge c"
      using spec(1,2,10) i by (simp_all add: c1' incRef_def)
  qed
  have s1: "sub (bufBytes (heap c1 ! inBuffer c)) (sectBack c1) (sectFore c1) = Some sect"
    using c1 pos i len by (simp add: sub_def sect_def)
  have ls: "length sect \<le> contBack c" using pos i len by (simp add: sect_def)
  have "slice (bufBytes (heap c2 ! inBuffer c)) (contBack c) (inBufferEdge c) = cont"
    using c1 ls pos i len slice_copyAt_after [of 0 sect "contBack c" "theBuffer c" "inBufferEdge c"]
    by (auto simp: c2_def cont_def)
  moreover have "length (bufBytes (heap c2 ! inBuffer c)) = http2BufferSize"
    using c1 len by (cases "inBuffer c = inBuffer c1") (auto simp: c2_def)
  ultimately have s2: "sub (bufBytes (heap c2 ! inBuffer c)) (contBack c2) (inBufferEdge c2) = Some cont"
    using pos i c1 by (simp add: sub_def c2_def)
  show ?thesis
  proof (cases "contFore ?c \<le> inBufferEdge ?c \<or> contFore ?c \<le> http2BufferSize \<or> sectBack ?c = 0")
    case True
    then consider "contFore ?c \<le> inBufferEdge ?c"
      | "\<not> contFore ?c \<le> inBufferEdge ?c" "\<not> http2BufferSize < contFore ?c"
      | "\<not> contFore ?c \<le> inBufferEdge ?c" "http2BufferSize < contFore ?c" "sectBack ?c = 0"
      by linarith
    then show ?thesis
      by cases (simp_all add: growContinuationFrame_def Let_def)
  next
    case False
    have sb: "sectBack c2 = sectBack c" "inBuffer c2 = inBuffer c1" by (simp_all add: c2_def c1)
    have sl: "slideCont f ?c = (let c3 = (setBuffer (inBuffer c2) (copyAt (theBuffer c2) (sectFore c2) cont) c2)
                 \<lparr>inBufferEdge := sectFore c2 + length cont\<rparr>
      in (f\<lparr>efctFrom := efctFrom f - sectBack c, efctEdge := efctEdge f - sectBack c\<rparr>,
          if inBuffer c \<noteq> inBuffer c3 then decRef (inBuffer c) c3 else c3))"
      by (simp add: slideCont_def Let_def c2_def c1_def sect_def cont_def)
    have dr: "sectBack (decRef k d) = sectBack d" "sectFore (decRef k d) = sectFore d" for k d
      by (simp_all add: decRef_def putHTTP2Buffer_def Let_def)
    have F: "\<not> contFore ?c \<le> inBufferEdge ?c" "contFore ?c > http2BufferSize" "sectBack ?c \<noteq> 0"
      "\<not> (contFore ?c > http2BufferSize \<and> sectBack ?c = 0)"
      using False by auto
    have ib: "inBuffer ?c = inBuffer c" by simp
    show ?thesis
      unfolding growContinuationFrame_def Let_def c1_def [unfolded Let_def, symmetric]
      unfolding ib
      unfolding s1 checked_simps andThen.simps c2_def [symmetric] s2 sl [unfolded Let_def]
      using F sb dr by simp
  qed
qed

text \<open>Either the block cannot be moved any more, or the bytes wanted follow the hole, or the peer
  has not sent them.\<close>

lemma growContinuationFrame_spec:
  assumes st: "coalescing c f block" and cf: "contFore c = contBack c" and sz: "frameLength f + size0 \<le> http2BufferSize"
    and p: "p = unreadFrom (contFore c) c"
  shows "(sectBack c = 0 \<and> growContinuationFrame size0 f c = Fail (H2 FrameSizeError)) \<or>
    (if length p < size0 then growContinuationFrame size0 f c = Fail IoError
     else \<exists>f' c'. growContinuationFrame size0 f c = Done (f', c') \<and> coalescing c' f' block \<and> sameHeader f f' \<and>
       sameRest c c' \<and> keeps c c' \<and> contFore c' = contBack c' + size0 \<and>
       region c' (contBack c') (contFore c') = take size0 p \<and> unreadFrom (contFore c') c' = drop size0 p)"
proof -
  have ok: "bufsOk c" and i: "inBuffer c < length (heap c)" "inBufferEdge c \<le> http2BufferSize"
    and pos: "sectBack c \<le> efctFrom f" "efctFrom f \<le> efctEdge f" "efctEdge f \<le> sectFore c"
      "sectFore c = sectBack c + frameLength f" "sectFore c \<le> contBack c" "contBack c \<le> inBufferEdge c"
    and block: "region c (efctFrom f) (efctEdge f) = block"
    using st cf by (auto simp: coalescing_def bufsOk_def)
  have len: "length (theBuffer c) = http2BufferSize" using ok by simp
  have pos': "sectBack c \<le> sectFore c" "sectFore c \<le> contBack c" "contBack c \<le> inBufferEdge c"
    using pos by linarith+
  let ?c = "c\<lparr>contFore := contFore c + size0\<rparr>"
  have ok1: "bufsOk ?c" using ok by (simp add: bufsOk_def)
  have k0: "keeps c ?c" "sameRest c ?c" by (simp_all add: keeps_def held_def sameRest_def)
  have filled: "if length p < size0 then andThen (fillInBuffer (contFore d - inBufferEdge d) d) (\<lambda>c. Done (g, c)) = Fail IoError
     else \<exists>c'. andThen (fillInBuffer (contFore d - inBufferEdge d) d) (\<lambda>c. Done (g, c)) = Done (g, c') \<and>
       coalescing c' g block \<and> sameRest d c' \<and> keeps d c' \<and> contFore c' = contBack c' + size0 \<and>
       region c' (contBack c') (contFore c') = take size0 p \<and> unreadFrom (contFore c') c' = drop size0 p"
    if d: "bufsOk d" "sectBack d \<le> efctFrom g" "efctFrom g \<le> efctEdge g" "efctEdge g \<le> sectFore d"
      "sectFore d = sectBack d + frameLength g" "sectFore d \<le> contBack d" "contBack d \<le> inBufferEdge d"
      "inBufferEdge d < contFore d" "contFore d = contBack d + size0" "contFore d \<le> http2BufferSize"
      "p = unreadFrom (contBack d) d" "region d (efctFrom g) (efctEdge g) = block" for d g
  proof (cases "length p < size0")
    case True
    then show ?thesis using fillInBuffer_spec [OF d(1,7,8,10)] d(9,11) by simp
  next
    case False
    then obtain c' where c': "fillInBuffer (contFore d - inBufferEdge d) d = Done c'" "bufsOk c'" "sameRest d c'"
      "sectBack c' = sectBack d" "sectFore c' = sectFore d" "contBack c' = contBack d" "contFore c' = contFore d"
      "inBuffer c' = inBuffer d" "heap c' = (heap d)[inBuffer d := heap c' ! inBuffer d]" "pool c' = pool d"
      "bufRef (heap c' ! inBuffer d) = bufRef (heap d ! inBuffer d)" "contFore d \<le> inBufferEdge c'"
      "\<forall>a b. b \<le> inBufferEdge d \<longrightarrow> region c' a b = region d a b"
      "region c' (contBack d) (contFore d) = take size0 p" "unreadFrom (contFore d) c' = drop size0 p"
      using fillInBuffer_spec [OF d(1,7,8,10)] d(9,11) by auto
    have sb: "sectBack d \<le> inBufferEdge d" using d by linarith
    have "keeps d c'"
      unfolding keeps_def using held_fill [OF d(1) _ sb c'(8,9,10,4,11,13)] by blast
    moreover have "region c' (efctFrom g) (efctEdge g) = block"
      using c'(13) d(4,6,7,12) by simp
    ultimately show ?thesis
      using False c' d by (auto simp: coalescing_def)
  qed
  consider "contFore c + size0 \<le> inBufferEdge c"
    | "inBufferEdge c < contFore c + size0" "contFore c + size0 \<le> http2BufferSize"
    | "http2BufferSize < contFore c + size0" "sectBack c = 0"
    | "http2BufferSize < contFore c + size0" "sectBack c \<noteq> 0" by linarith
  then show ?thesis
  proof cases
    case 1
    have "take size0 p = region c (contFore c) (contFore c + size0)" "length p \<ge> size0"
      "drop size0 p = region c (contFore c + size0) (inBufferEdge c) @ incoming c"
      using 1 len i slice_split [of "contFore c" "contFore c + size0" "inBufferEdge c" "theBuffer c"]
      by (simp_all add: p unreadFrom_def)
    moreover have "growContinuationFrame size0 f c = Done (f, ?c)" using 1 by (simp add: growContinuationFrame_def)
    moreover have "coalescing ?c f block" using 1 st cf by (auto simp: coalescing_def bufsOk_def)
    ultimately show ?thesis
      using 1 k0 cf by (auto simp: unreadFrom_def)
  next
    case 2
    have "growContinuationFrame size0 f c = andThen (fillInBuffer (contFore ?c - inBufferEdge ?c) ?c) (\<lambda>c. Done (f, c))"
      using 2 unfolding growContinuationFrame_eq [OF ok pos'] by (simp add: Let_def)
    moreover have "p = unreadFrom (contBack ?c) ?c" by (simp add: p cf unreadFrom_def)
    ultimately show ?thesis
      using filled [of ?c f] 2 ok1 pos cf block k0 keeps_trans [OF k0(1)] sameRest_trans [OF k0(2)]
      by (auto split: if_splits)
  next
    case 3
    then show ?thesis
      using i unfolding growContinuationFrame_eq [OF ok pos'] by simp
  next
    case 4
    obtain f' s where sl: "slideCont f ?c = (f', s)" "bufsOk s" "sameRest ?c s" "sameHeader f f'"
      "efctFrom f' = efctFrom f - sectBack c" "efctEdge f' = efctEdge f - sectBack c"
      "sectFore s = sectFore c - sectBack c" "inBufferEdge s = sectFore s + (inBufferEdge c - contBack c)"
      "region s 0 (sectFore s) = region c (sectBack c) (sectFore c)"
      "region s (sectFore s) (inBufferEdge s) = region c (contBack c) (inBufferEdge c)"
      "incoming s = incoming c" "chunks s = chunks c"
      "\<forall>j n. held j n ?c \<longrightarrow> j \<noteq> inBuffer s \<and> j < length (heap s) \<and> j \<notin> set (pool s) \<and>
       bufBytes (heap s ! j) = bufBytes (heap ?c ! j)"
      using slideCont_spec [OF ok1, of f] pos' by auto
    let ?s = "s\<lparr>sectBack := 0, contBack := sectFore s, contFore := sectFore s + size0\<rparr>"
    have grow: "growContinuationFrame size0 f c = andThen (fillInBuffer (contFore ?s - inBufferEdge ?s) ?s) (\<lambda>c. Done (f', c))"
      using 4 i sl(1) unfolding growContinuationFrame_eq [OF ok pos'] by (simp add: Let_def)
    have fl: "frameLength f' = frameLength f" using sl(4) by (simp add: sameHeader_iff)
    have "slice (region s 0 (sectFore s)) (efctFrom f') (efctEdge f') = slice (region c (sectBack c) (sectFore c)) (efctFrom f') (efctEdge f')"
      by (simp only: sl(9))
    then have blk: "region ?s (efctFrom f') (efctEdge f') = block"
      using pos i len sl(2,5,6,7) block by (simp add: slice_slice bufsOk_def)
    have ks: "keeps c ?s" "sameRest c ?s"
      using sl(3,13) k0 by (auto simp: keeps_def held_def sameRest_def)
    have oks: "bufsOk ?s" using sl(2) by (simp add: bufsOk_def)
    have ps: "p = unreadFrom (contBack ?s) ?s"
      using sl(10,11) by (simp add: p cf unreadFrom_def)
    have places: "sectBack ?s \<le> efctFrom f'" "efctFrom f' \<le> efctEdge f'" "efctEdge f' \<le> sectFore ?s"
      "sectFore ?s = sectBack ?s + frameLength f'" "sectFore ?s \<le> contBack ?s" "contBack ?s \<le> inBufferEdge ?s"
      "inBufferEdge ?s < contFore ?s" "contFore ?s = contBack ?s + size0" "contFore ?s \<le> http2BufferSize"
      using pos sl(5-8) fl 4 i sz cf by simp_all
    note R = filled [OF oks places ps blk]
    show ?thesis
    proof (cases "length p < size0")
      case True
      then show ?thesis using R grow by simp
    next
      case False
      then obtain c' where c': "growContinuationFrame size0 f c = Done (f', c')" "coalescing c' f' block" "sameRest ?s c'"
        "keeps ?s c'" "contFore c' = contBack c' + size0" "region c' (contBack c') (contFore c') = take size0 p"
        "unreadFrom (contFore c') c' = drop size0 p"
        using R grow by auto
      have "keeps c c'" "sameRest c c'"
        using keeps_trans [OF ks(1) c'(4)] sameRest_trans [OF ks(2) c'(3)] by simp_all
      then show ?thesis using False c' sl(4) by auto
    qed
  qed
qed

text \<open>The continuation frames at the front of the unread bytes: at most \<open>left\<close> of them, all on the
  stream of the fields frame, the whole of at most 16,384 bytes; the block is what they are glued
  to.\<close>

fun coalesceSpec :: "nat \<Rightarrow> uint32 \<Rightarrow> nat \<Rightarrow> bytes \<Rightarrow> bytes \<Rightarrow> (connError, nat \<times> bytes \<times> bytes) outcome" where
  "coalesceSpec 0 sid n0 block p = Fail (H2 EnhanceYourCalm)"
| "coalesceSpec (Suc left) sid n0 block p =
     (if length p < 9 then Fail IoError
      else andThen (liftH2 (decodeHeader http2InFrame_zero (take 9 p))) (\<lambda>(k, hdr).
        let n = frameLength k in
        if n = 0 \<or> n0 + n > http2MaxFrameSize then Fail (H2 FrameSizeError)
        else if streamID k \<noteq> sid \<or> kind k \<noteq> http2FrameContinuation then Fail (H2 ProtocolError)
        else if length (drop 9 p) < n then Fail IoError
        else let block' = block @ take n (drop 9 p); rest = drop n (drop 9 p) in
             if endFields k then Done (n0 + n, block', rest)
             else coalesceSpec left sid (n0 + n) block' rest))"

definition coalesced :: "http2Conn \<Rightarrow> http2InFrame \<Rightarrow> (connError, http2InFrame \<times> http2Conn) outcome \<Rightarrow>
  nat \<times> bytes \<times> bytes \<Rightarrow> bool" where
  "coalesced c f r = (\<lambda>(n0, block, rest). \<exists>f' c'. r = Done (f', c') \<and> bufsOk c' \<and>
     sameHeader (f\<lparr>frameLength := n0, endFields := True\<rparr>) f' \<and> effective (theBuffer c') f' = Some block \<and>
     sectFore c' \<le> inBufferEdge c' \<and> unreadFrom (sectFore c') c' = rest \<and> sameRest c c' \<and> keeps c c')"

lemma write_at:
  assumes ok: "bufsOk c" and pos: "sectBack c \<le> a" "a + length h \<le> http2BufferSize"
  defines "c' \<equiv> setBuffer (inBuffer c) (copyAt (theBuffer c) a h) c"
  shows "bufsOk c'" "keeps c c'" "sameRest c c'"
    "\<And>x y. y \<le> a \<Longrightarrow> region c' x y = region c x y"
    "\<And>x y. a + length h \<le> x \<Longrightarrow> x \<le> http2BufferSize \<Longrightarrow> region c' x y = region c x y"
    "\<And>x. x \<le> a \<Longrightarrow> region c' x (a + length h) = region c x a @ h"
proof -
  have i: "inBuffer c < length (heap c)" and len: "length (theBuffer c) = http2BufferSize"
    using ok by (simp_all add: bufsOk_def)
  have b: "theBuffer c' = copyAt (theBuffer c) a h" using i by (simp add: c'_def)
  show "bufsOk c'" unfolding c'_def using ok i pos by (intro bufsOk_setBuffer) simp_all
  show "sameRest c c'" by (simp add: c'_def)
  show "region c' x y = region c x y" if "y \<le> a" for x y
    unfolding b using that pos len by (intro slice_copyAt_before) simp_all
  show "region c' x y = region c x y" if "a + length h \<le> x" "x \<le> http2BufferSize" for x y
    unfolding b using that len by (intro slice_copyAt_after) simp_all
  show "region c' x (a + length h) = region c x a @ h" if "x \<le> a" for x
    unfolding b using that pos len by (intro slice_copyAt_extend) simp_all
  have "held j n c' \<and> take n (bufBytes (heap c' ! j)) = take n (bufBytes (heap c ! j))" if h: "held j n c" for j n
  proof (cases "j = inBuffer c")
    case True
    then have "n \<le> a" using h pos by (simp add: held_def)
    then have "take n (copyAt (theBuffer c) a h) = take n (theBuffer c)"
      using pos len by (simp add: copyAt_def min_def)
    then show ?thesis using h True i by (auto simp: c'_def held_def)
  qed (use h i in \<open>auto simp: c'_def held_def\<close>)
  then show "keeps c c'" by (simp add: keeps_def)
qed

lemma coalesceLoop_spec:
  assumes "coalescing c f block" "contFore c = contBack c" "frameLength f \<le> http2MaxFrameSize"
  shows "coalesceLoop left k f c = Fail (H2 FrameSizeError) \<or>
    (case coalesceSpec left (streamID f) (frameLength f) block (unreadFrom (contFore c) c) of
       Panic \<Rightarrow> False
     | Fail e \<Rightarrow> coalesceLoop left k f c = Fail e
     | Done r \<Rightarrow> coalesced c f (coalesceLoop left k f c) r)"
  using assms
proof (induction left arbitrary: c f k block)
  case 0
  then show ?case by simp
next
  case (Suc left)
  define p where "p = unreadFrom (contFore c) c"
  have size: "http2BufferSize = 9 + http2MaxFrameSize" by (simp add: http2BufferSize_def)
  have sz9: "frameLength f + 9 \<le> http2BufferSize" using Suc.prems(3) size by simp
  note g1 = growContinuationFrame_spec [OF Suc.prems(1,2) sz9 p_def]
  show ?case
  proof (cases "growContinuationFrame 9 f c = Fail (H2 FrameSizeError)")
    case True
    then show ?thesis by simp
  next
    case nstuck: False
    show ?thesis
    proof (cases "length p < 9")
      case True
      then have "growContinuationFrame 9 f c = Fail IoError" using g1 nstuck by auto
      then show ?thesis using True by (simp flip: p_def)
    next
      case False
      then obtain f1 c1 where c1: "growContinuationFrame 9 f c = Done (f1, c1)" "coalescing c1 f1 block" "sameHeader f f1"
        "sameRest c c1" "keeps c c1" "contFore c1 = contBack c1 + 9"
        "region c1 (contBack c1) (contFore c1) = take 9 p" "unreadFrom (contFore c1) c1 = drop 9 p"
        using g1 nstuck by auto
      have p1: "sectBack c1 \<le> efctFrom f1" "efctFrom f1 \<le> efctEdge f1" "efctEdge f1 \<le> sectFore c1"
        "sectFore c1 = sectBack c1 + frameLength f1" "sectFore c1 \<le> contBack c1" "contFore c1 \<le> inBufferEdge c1"
        "region c1 (efctFrom f1) (efctEdge f1) = block" "bufsOk c1" "inBuffer c1 < length (heap c1)"
        "inBufferEdge c1 \<le> http2BufferSize"
        using c1(2) by (auto simp: coalescing_def bufsOk_def)
      have len1: "length (theBuffer c1) = http2BufferSize" using p1(8) by simp
      have hdr: "sub (theBuffer c1) (contBack c1) (contFore c1) = Some (take 9 p)"
        using c1(6,7) p1(6,10) len1 by (simp add: sub_def)
      show ?thesis
      proof (cases "decodeHeader http2InFrame_zero (take 9 p)")
        case Panic
        then show ?thesis using False by (simp add: decodeHeader_eq Let_def split: if_splits)
      next
        case (Fail e)
        then show ?thesis
          using False c1(1) hdr by (simp add: decodeHeader_any [of k] flip: p_def)
      next
        case (Done r)
        then obtain k0 h where d: "decodeHeader http2InFrame_zero (take 9 p) = Done (k0, h)" by (cases r) simp
        note df = decodeHeader_facts [OF d]
        define k1 where "k1 = k0\<lparr>efctFrom := efctFrom k, efctEdge := efctEdge k\<rparr>"
        have dk: "decodeHeader k (take 9 p) = Done (k1, h)" by (simp add: decodeHeader_any [of k] d k1_def)
        have kf: "frameLength k1 = frameLength k0" "streamID k1 = streamID k0" "kind k1 = kind k0" "endFields k1 = endFields k0"
          by (simp_all add: k1_def)
        have ff: "frameLength f1 = frameLength f" "streamID f1 = streamID f" using c1(3) by (simp_all add: sameHeader_iff)
        have lh: "length h = 9" using df(2) False by simp
        let ?c2 = "setBuffer (inBuffer c1) (copyAt (theBuffer c1) (contBack c1) h) c1"
        let ?c3 = "?c2\<lparr>contBack := contFore ?c2\<rparr>"
        have step1: "coalesceLoop (Suc left) k f c =
          (if frameLength k1 = 0 \<or> frameLength f1 + frameLength k1 > http2MaxFrameSize then Fail (H2 FrameSizeError)
           else if streamID k1 \<noteq> streamID f1 \<or> kind k1 \<noteq> http2FrameContinuation then Fail (H2 ProtocolError)
           else
             andThen (growContinuationFrame (frameLength k1) f1 ?c3) (\<lambda>(f, c).
             andThen (checked (sub (theBuffer c) (contBack c) (contFore c))) (\<lambda>data.
               let c = setBuffer (inBuffer c) (copyAt (theBuffer c) (efctEdge f) data) c;
                   f = f\<lparr>efctEdge := efctEdge f + frameLength k1, frameLength := frameLength f + frameLength k1\<rparr>;
                   c = c\<lparr>sectFore := sectFore c + frameLength k1\<rparr>
               in if endFields k1 then Done (f\<lparr>endFields := True\<rparr>, c\<lparr>sectFore := contFore c\<rparr>)
                  else coalesceLoop left k1 f (c\<lparr>contBack := contFore c\<rparr>))))"
          by (simp add: c1(1) hdr dk Let_def)
        have specIs: "coalesceSpec (Suc left) (streamID f) (frameLength f) block p =
          (if frameLength k0 = 0 \<or> frameLength f + frameLength k0 > http2MaxFrameSize then Fail (H2 FrameSizeError)
           else if streamID k0 \<noteq> streamID f \<or> kind k0 \<noteq> http2FrameContinuation then Fail (H2 ProtocolError)
           else if length (drop 9 p) < frameLength k0 then Fail IoError
           else if endFields k0 then Done (frameLength f + frameLength k0, block @ take (frameLength k0) (drop 9 p),
                  drop (frameLength k0) (drop 9 p))
           else coalesceSpec left (streamID f) (frameLength f + frameLength k0) (block @ take (frameLength k0) (drop 9 p))
                  (drop (frameLength k0) (drop 9 p)))"
          using False d by (simp add: Let_def)
        consider "frameLength k0 = 0 \<or> frameLength f + frameLength k0 > http2MaxFrameSize"
          | "\<not> (frameLength k0 = 0 \<or> frameLength f + frameLength k0 > http2MaxFrameSize)"
            "streamID k0 \<noteq> streamID f \<or> kind k0 \<noteq> http2FrameContinuation"
          | "frameLength f + frameLength k0 \<le> http2MaxFrameSize" "0 < frameLength k0"
            "\<not> (streamID k0 \<noteq> streamID f \<or> kind k0 \<noteq> http2FrameContinuation)" by force
        then show ?thesis
        proof cases
          case 1
          then show ?thesis unfolding step1 by (simp add: kf ff)
        next
          case 2
          then show ?thesis unfolding step1 p_def [symmetric] specIs by (simp only: kf ff if_False if_True outcome.case) simp
        next
          case 3
          have step2: "coalesceLoop (Suc left) k f c =
             andThen (growContinuationFrame (frameLength k1) f1 ?c3) (\<lambda>(f, c).
             andThen (checked (sub (theBuffer c) (contBack c) (contFore c))) (\<lambda>data.
               let c = setBuffer (inBuffer c) (copyAt (theBuffer c) (efctEdge f) data) c;
                   f = f\<lparr>efctEdge := efctEdge f + frameLength k1, frameLength := frameLength f + frameLength k1\<rparr>;
                   c = c\<lparr>sectFore := sectFore c + frameLength k1\<rparr>
               in if endFields k1 then Done (f\<lparr>endFields := True\<rparr>, c\<lparr>sectFore := contFore c\<rparr>)
                  else coalesceLoop left k1 f (c\<lparr>contBack := contFore c\<rparr>)))"
            unfolding step1 using 3 by (simp add: kf ff)
          have hfits: "sectBack c1 \<le> contBack c1" "contBack c1 + length h \<le> http2BufferSize"
            using p1 c1(6) lh by simp_all
          note w = write_at [OF p1(8) hfits]
          have st3: "coalescing ?c3 f1 block"
            using p1 w(1) w(4) [of "efctEdge f1" "efctFrom f1"] c1(6) by (simp add: coalescing_def bufsOk_def)
          have cf3: "contFore ?c3 = contBack ?c3" by simp
          have sz3: "frameLength f1 + frameLength k1 \<le> http2BufferSize" using 3 size kf ff by simp
          have u3: "drop 9 p = unreadFrom (contFore ?c3) ?c3"
            using c1(6,8) w(5) [of "contFore c1" "inBufferEdge c1"] p1(6,10) lh by (simp add: unreadFrom_def)
          have k3: "keeps c ?c3" "sameRest c ?c3"
          proof -
            have "keeps ?c2 ?c3" by (simp add: keeps_def held_def)
            then show "keeps c ?c3" using keeps_trans [OF keeps_trans [OF c1(5) w(2)]] by blast
            show "sameRest c ?c3" using sameRest_trans [OF c1(4) w(3)] by (simp add: sameRest_def)
          qed
          note g2 = growContinuationFrame_spec [OF st3 cf3 sz3 u3]
          let ?n = "frameLength k0"
          show ?thesis
          proof (cases "growContinuationFrame (frameLength k1) f1 ?c3 = Fail (H2 FrameSizeError)")
            case True
            then show ?thesis unfolding step2 by simp
          next
            case ns: False
            show ?thesis
            proof (cases "length (drop 9 p) < ?n")
              case True
              then have "growContinuationFrame (frameLength k1) f1 ?c3 = Fail IoError" using g2 ns kf by auto
              then show ?thesis
                unfolding step2 p_def [symmetric] specIs using True 3 by simp
            next
              case fits: False
              then obtain f4 c4 where c4: "growContinuationFrame (frameLength k1) f1 ?c3 = Done (f4, c4)"
                "coalescing c4 f4 block" "sameHeader f1 f4" "sameRest ?c3 c4" "keeps ?c3 c4"
                "contFore c4 = contBack c4 + ?n" "region c4 (contBack c4) (contFore c4) = take ?n (drop 9 p)"
                "unreadFrom (contFore c4) c4 = drop ?n (drop 9 p)"
                using g2 ns kf by auto
              have p4: "sectBack c4 \<le> efctFrom f4" "efctFrom f4 \<le> efctEdge f4" "efctEdge f4 \<le> sectFore c4"
                "sectFore c4 = sectBack c4 + frameLength f4" "sectFore c4 \<le> contBack c4" "contFore c4 \<le> inBufferEdge c4"
                "region c4 (efctFrom f4) (efctEdge f4) = block" "bufsOk c4" "inBufferEdge c4 \<le> http2BufferSize"
                using c4(2) by (auto simp: coalescing_def bufsOk_def)
              define data where "data = take ?n (drop 9 p)"
              have ld: "length data = ?n" using fits by (simp add: data_def)
              have len4: "length (theBuffer c4) = http2BufferSize" using p4(8) by simp
              have sub4: "sub (theBuffer c4) (contBack c4) (contFore c4) = Some data"
                using c4(6,7) p4(6,9) len4 by (simp add: sub_def data_def)
              have dfits: "sectBack c4 \<le> efctEdge f4" "efctEdge f4 + length data \<le> http2BufferSize"
                using p4 c4(6) ld by simp_all
              note w4 = write_at [OF p4(8) dfits]
              let ?c5 = "setBuffer (inBuffer c4) (copyAt (theBuffer c4) (efctEdge f4) data) c4"
              let ?f5 = "f4\<lparr>efctEdge := efctEdge f4 + frameLength k1, frameLength := frameLength f4 + frameLength k1\<rparr>"
              have f4: "frameLength f4 = frameLength f" "streamID f4 = streamID f"
                using c4(3) ff by (simp_all add: sameHeader_iff)
              have step3: "coalesceLoop (Suc left) k f c =
                (if endFields k1 then Done (?f5\<lparr>endFields := True\<rparr>, ?c5\<lparr>sectFore := contFore c4\<rparr>)
                 else coalesceLoop left k1 ?f5 (?c5\<lparr>sectFore := sectFore c4 + frameLength k1, contBack := contFore c4\<rparr>))"
                unfolding step2 using c4(1) sub4 by (simp add: Let_def)
              have blk: "region ?c5 (efctFrom f4) (efctEdge f4 + ?n) = block @ data"
                using w4(6) [of "efctFrom f4"] p4(2,7) ld by simp
              have un: "unreadFrom (contFore c4) ?c5 = drop ?n (drop 9 p)"
                using c4(6,8) w4(5) [of "contFore c4" "inBufferEdge c4"] p4 ld by (simp add: unreadFrom_def)
              have kp: "keeps c (?c5\<lparr>sectFore := x\<rparr>)" "keeps c (?c5\<lparr>sectFore := x, contBack := y\<rparr>)" for x y
              proof -
                have "keeps ?c5 (?c5\<lparr>sectFore := x\<rparr>)" "keeps ?c5 (?c5\<lparr>sectFore := x, contBack := y\<rparr>)"
                  by (simp_all add: keeps_def held_def)
                then show "keeps c (?c5\<lparr>sectFore := x\<rparr>)" "keeps c (?c5\<lparr>sectFore := x, contBack := y\<rparr>)"
                  using keeps_trans [OF keeps_trans [OF keeps_trans [OF k3(1) c4(5)] w4(2)]] by blast+
              qed
              have sr: "sameRest c (?c5\<lparr>sectFore := x\<rparr>)" "sameRest c (?c5\<lparr>sectFore := x, contBack := y\<rparr>)" for x y
                using sameRest_trans [OF sameRest_trans [OF k3(2) c4(4)] w4(3)] by (simp_all add: sameRest_def)
              have hd4: "sameHeader f f4"
                using c1(3) c4(3) by (simp add: sameHeader_iff)
              show ?thesis
              proof (cases "endFields k0")
                case True
                have "coalesced c f (Done (?f5\<lparr>endFields := True\<rparr>, ?c5\<lparr>sectFore := contFore c4\<rparr>))
                    (frameLength f + ?n, block @ data, drop ?n (drop 9 p))"
                proof -
                  have "bufsOk (?c5\<lparr>sectFore := contFore c4\<rparr>)" using w4(1) by (simp add: bufsOk_def)
                  moreover have "sameHeader (f\<lparr>frameLength := frameLength f + ?n, endFields := True\<rparr>) (?f5\<lparr>endFields := True\<rparr>)"
                    using hd4 kf f4 by (simp add: sameHeader_iff)
                  moreover have "effective (theBuffer (?c5\<lparr>sectFore := contFore c4\<rparr>)) (?f5\<lparr>endFields := True\<rparr>) = Some (block @ data)"
                    using blk p4 dfits ld kf length_theBuffer [OF w4(1)] by (simp add: effective_def sub_def)
                  moreover have "unreadFrom (contFore c4) (?c5\<lparr>sectFore := contFore c4\<rparr>) = drop ?n (drop 9 p)"
                    using un by (simp add: unreadFrom_def)
                  ultimately show ?thesis
                    using p4(6) kp(1) [of "contFore c4"] sr(1) [of "contFore c4"] unfolding coalesced_def
                    by (auto intro!: exI)
                qed
                then show ?thesis
                  unfolding step3 p_def [symmetric] specIs using True 3 fits kf by (simp add: data_def)
              next
                case more: False
                let ?c6 = "?c5\<lparr>sectFore := sectFore c4 + frameLength k1, contBack := contFore c4\<rparr>"
                have st6: "coalescing ?c6 ?f5 (block @ data)"
                  using blk p4 c4(6) w4(1) kf ld by (simp add: coalescing_def bufsOk_def)
                have cf6: "contFore ?c6 = contBack ?c6" by simp
                have len6: "frameLength ?f5 \<le> http2MaxFrameSize" using 3 f4 kf by simp
                have u6: "unreadFrom (contFore ?c6) ?c6 = drop ?n (drop 9 p)"
                  using un by (simp add: unreadFrom_def)
                have s6: "streamID ?f5 = streamID f" "frameLength ?f5 = frameLength f + ?n"
                  using f4 kf by simp_all
                note IH = Suc.IH [OF st6 cf6 len6, of k1, unfolded u6 s6]
                have lift: "coalesced c f r x" if co: "coalesced ?c6 ?f5 r x" for r x
                proof -
                  obtain n0 b rest where x: "x = (n0, b, rest)" by (cases x)
                  with co obtain f' c' where r: "r = Done (f', c')" "bufsOk c'"
                    "sameHeader (?f5\<lparr>frameLength := n0, endFields := True\<rparr>) f'" "effective (theBuffer c') f' = Some b"
                    "sectFore c' \<le> inBufferEdge c'" "unreadFrom (sectFore c') c' = rest" "sameRest ?c6 c'" "keeps ?c6 c'"
                    by (auto simp: coalesced_def)
                  have "sameHeader (f\<lparr>frameLength := n0, endFields := True\<rparr>) f'"
                    using r(3) hd4 by (simp add: sameHeader_iff)
                  then show ?thesis
                    using r x sameRest_trans [OF sr(2) r(7)] keeps_trans [OF kp(2) r(8)] by (auto simp: coalesced_def)
                qed
                show ?thesis
                  unfolding step3 p_def [symmetric] specIs using more 3 fits kf IH lift
                  by (auto simp: data_def split: outcome.splits)
              qed
            qed
          qed
        qed
      qed
    qed
  qed
qed

text \<open>The frame that the unread bytes begin with, continuation frames included.\<close>

definition unfinished :: "http2InFrame \<Rightarrow> bool" where
  "unfinished f \<longleftrightarrow> kind f = http2FrameFields \<and> \<not> endFields f"

definition frameOnWire :: "bool \<Rightarrow> bytes \<Rightarrow> (connError, http2InFrame \<times> bytes \<times> bytes) outcome" where
  "frameOnWire t p = andThen (recvSpec t p) (\<lambda>(f, body, rest).
     if unfinished f
     then andThen (coalesceSpec 4 (streamID f) (frameLength f) body rest) (\<lambda>(n, block, rest).
       Done (f\<lparr>frameLength := n, endFields := True\<rparr>, block, rest))
     else Done (f, body, rest))"

definition received :: "http2Conn \<Rightarrow> (connError, http2InFrame \<times> http2Conn) outcome \<Rightarrow>
  http2InFrame \<times> bytes \<times> bytes \<Rightarrow> bool" where
  "received c r = (\<lambda>(g, body, rest). \<exists>f c'. r = Done (f, c') \<and> sameHeader g f \<and>
     effective (theBuffer c') f = Some body \<and> unreadFrom (sectFore c') c' = rest \<and>
     bufsOk c' \<and> sectFore c' \<le> inBufferEdge c' \<and> keeps (c\<lparr>sectBack := sectFore c\<rparr>) c' \<and>
     cumulativeInFrames c' = cumulativeInFrames c + 1 \<and> acknowledged c' = acknowledged c \<and> faults c' = [])"

lemma storeInFrame_same:
  "theBuffer (storeInFrame f c) = theBuffer c" "unreadFrom p (storeInFrame f c) = unreadFrom p c"
  "bufsOk (storeInFrame f c) = bufsOk c" "sectFore (storeInFrame f c) = sectFore c"
  "inBufferEdge (storeInFrame f c) = inBufferEdge c" "keeps b (storeInFrame f c) = keeps b c"
  "cumulativeInFrames (storeInFrame f c) = cumulativeInFrames c" "acknowledged (storeInFrame f c) = acknowledged c"
  "faults (storeInFrame f c) = faults c"
  by (simp_all add: storeInFrame_def bufsOk_def unreadFrom_def keeps_def held_def)

lemma received_plain:
  assumes "holdsFrame c' f (g, body, rest)" "keeps (c\<lparr>sectBack := sectFore c\<rparr>) c'"
    "cumulativeInFrames c' = cumulativeInFrames c + 1" "acknowledged c' = acknowledged c" "faults c' = []"
  shows "received c (Done (f, storeInFrame f c')) (g, body, rest)"
  using assms by (auto simp: received_def holdsFrame_def storeInFrame_same sameHeader_iff)

lemma recvSpec_length:
  "recvSpec t p = Done (g, body, rest) \<Longrightarrow> frameLength g \<le> http2MaxFrameSize"
  using decodeHeader_facts(1) by (fastforce simp: recvSpec_def andThen_Done_iff Let_def http2MaxFrameSize_def
      split: if_splits elim!: liftH2.elims)

lemma recvInFrame_spec:
  assumes ok: "bufsOk c" "sectFore c \<le> inBufferEdge c" and nf: "faults c = []"
  defines "p \<equiv> unreadFrom (sectFore c) c"
  shows "(\<exists>g body rest. recvSpec (inTime c) p = Done (g, body, rest) \<and> unfinished g \<and>
      recvInFrame c = Fail (H2 FrameSizeError)) \<or>
    (case frameOnWire (inTime c) p of
       Panic \<Rightarrow> False
     | Fail e \<Rightarrow> recvInFrame c = Fail e
     | Done frame \<Rightarrow> received c (recvInFrame c) frame)"
proof (cases "recvSpec (inTime c) p")
  case Panic
  then show ?thesis using recvPlain_spec [OF assms(1-3)] by (simp add: p_def)
next
  case (Fail e)
  then show ?thesis
    using recvPlain_spec [OF assms(1-3)] by (simp add: p_def frameOnWire_def recvInFrame_eq)
next
  case (Done fr)
  obtain g body rest where spec: "recvSpec (inTime c) p = Done (g, body, rest)" using Done by (cases fr) simp
  then obtain f c' where c': "recvPlain c = Done (f, c')" "holdsFrame c' f (g, body, rest)"
    "keeps (c\<lparr>sectBack := sectFore c\<rparr>) c'" "cumulativeInFrames c' = cumulativeInFrames c + 1"
    "acknowledged c' = acknowledged c" "faults c' = []"
    using recvPlain_spec [OF assms(1-3)] by (auto simp: p_def)
  have hd: "kind f = kind g" "endFields f = endFields g" "streamID f = streamID g" "frameLength f = frameLength g"
    using c'(2) by (auto simp: holdsFrame_def sameHeader_iff)
  show ?thesis
  proof (cases "unfinished g")
    case False
    then have "recvInFrame c = Done (f, storeInFrame f c')"
      using c'(1) hd by (auto simp: recvInFrame_eq unfinished_def)
    then show ?thesis
      using False spec received_plain [OF c'(2-6)] by (simp add: frameOnWire_def)
  next
    case True
    let ?c = "c'\<lparr>contBack := sectFore c', contFore := sectFore c'\<rparr>"
    have h: "bufsOk c'" "sameHeader f g" "effective (theBuffer c') f = Some body" "sectBack c' \<le> efctFrom f"
      "efctFrom f \<le> efctEdge f" "efctEdge f \<le> sectFore c'" "sectFore c' = sectBack c' + frameLength f"
      "sectFore c' \<le> inBufferEdge c'" "unreadFrom (sectFore c') c' = rest"
      using c'(2) by (auto simp: holdsFrame_def)
    have co: "coalescing ?c f body"
      using h by (auto simp: coalescing_def bufsOk_def effective_def sub_def split: if_splits)
    have le: "frameLength f \<le> http2MaxFrameSize" using recvSpec_length [OF spec] hd by simp
    have un: "unreadFrom (contFore ?c) ?c = rest" using h(9) by (simp add: unreadFrom_def)
    have kp: "keeps (c\<lparr>sectBack := sectFore c\<rparr>) ?c"
    proof -
      have "keeps c' ?c" by (simp add: keeps_def held_def)
      then show ?thesis using keeps_trans [OF c'(3)] by blast
    qed
    have rec: "recvInFrame c = andThen (coalesceLoop 4 http2InFrame_zero f ?c) (\<lambda>(f, c). Done (f, storeInFrame f c))"
      using c'(1) True hd by (simp add: recvInFrame_eq unfinished_def coalesceContinuations_def)
    have loop: "coalesceLoop 4 http2InFrame_zero f ?c = Fail (H2 FrameSizeError) \<or>
      (case coalesceSpec 4 (streamID g) (frameLength g) body rest of
         Panic \<Rightarrow> False
       | Fail e \<Rightarrow> coalesceLoop 4 http2InFrame_zero f ?c = Fail e
       | Done r \<Rightarrow> coalesced ?c f (coalesceLoop 4 http2InFrame_zero f ?c) r)"
      using coalesceLoop_spec [OF co _ le, of 4 http2InFrame_zero] un by (simp add: hd)
    show ?thesis
    proof (cases "coalesceSpec 4 (streamID g) (frameLength g) body rest")
      case Panic
      then show ?thesis using loop rec spec True by simp
    next
      case (Fail e)
      then show ?thesis using loop rec spec True by (auto simp: frameOnWire_def)
    next
      case (Done r)
      obtain n block rest' where r: "r = (n, block, rest')" by (cases r)
      have "received c (recvInFrame c) (g\<lparr>frameLength := n, endFields := True\<rparr>, block, rest')"
        if cd: "coalesced ?c f (coalesceLoop 4 http2InFrame_zero f ?c) r"
      proof -
        obtain f2 c2 where f2: "coalesceLoop 4 http2InFrame_zero f ?c = Done (f2, c2)" "bufsOk c2"
          "sameHeader (f\<lparr>frameLength := n, endFields := True\<rparr>) f2" "effective (theBuffer c2) f2 = Some block"
          "sectFore c2 \<le> inBufferEdge c2" "unreadFrom (sectFore c2) c2 = rest'" "sameRest ?c c2" "keeps ?c c2"
          using cd r by (auto simp: coalesced_def)
        have "sameHeader (g\<lparr>frameLength := n, endFields := True\<rparr>) f2" "keeps (c\<lparr>sectBack := sectFore c\<rparr>) c2"
          using f2(3) h(2) keeps_trans [OF kp f2(8)] by (simp_all add: sameHeader_iff)
        then show ?thesis
          using f2 c'(4-6) by (auto simp: received_def rec storeInFrame_same sameRest_def)
      qed
      then show ?thesis using Done loop rec spec True r by (auto simp: frameOnWire_def)
    qed
  qed
qed


definition idleConn :: "bytes \<Rightarrow> nat list \<Rightarrow> http2Conn" where
  "idleConn p cs = \<lparr>heap = [\<lparr>bufBytes = replicate http2BufferSize 0, bufRef = 1\<rparr>], pool = [], inBuffer = 0,
     peerSettings = http2InitialSettings, freeSeats = http2FreeSeats, freeSeatsTop = 255,
     decodeTable = hpackTable_zero, encodeTable = hpackTable_zero, localWindow = 0, remoteWindow = 0,
     activeStreams = replicate 127 None, lastPingTime = None, inFrame0 = http2InFrame_zero,
     inFrame1 = http2InFrame_zero, inFrame = None, activeStreamIDs = replicate 128 0, lastStreamID = 0,
     cumulativeInFrames = 0, concurrentStreams = 0, acknowledged = False, pingSent = False,
     inBufferEdge = 0, sectBack = 0, sectFore = 0, contBack = 0, contFore = 0,
     incoming = p, chunks = cs, faults = [], written = [], closes = 0\<rparr>"

lemma idleConn_simps: "bufsOk (idleConn p cs)" "sectFore (idleConn p cs) = 0" "inBufferEdge (idleConn p cs) = 0"
  "faults (idleConn p cs) = []" "unreadFrom 0 (idleConn p cs) = p" "inTime (idleConn p cs)"
  by (simp_all add: idleConn_def bufsOk_def unreadFrom_def inTime_def)

text \<open>A fields frame of two octets, continued by a frame of one octet, and a PING.\<close>

definition twoFrames :: bytes where
  "twoFrames = [0, 0, 2, 1, 0, 0, 0, 0, 1, 130, 132] @ [0, 0, 1, 9, 4, 0, 0, 0, 1, 135] @
     [0, 0, 8, 6, 0, 0, 0, 0, 0, 1, 2, 3, 4, 5, 6, 7, 8]"

lemma decode_two:
  "decodeHeader http2InFrame_zero [0, 0, 2, 1, 0, 0, 0, 0, 1] =
     Done (http2InFrame_zero\<lparr>streamID := 1, frameLength := 2, kind := 1\<rparr>, [0, 0, 2, 1, 0, 0, 0, 0, 1])"
  "decodeHeader http2InFrame_zero [0, 0, 1, 9, 4, 0, 0, 0, 1] =
     Done (http2InFrame_zero\<lparr>streamID := 1, frameLength := 1, kind := 9, endFields := True\<rparr>, [0, 0, 1, 9, 4, 0, 0, 0, 1])"
  by (simp_all add: decodeHeader_def be32_def slice_def frame_kinds http2InFrame_zero_def http2MaxFrameSize_def Let_def)

lemma frameOnWire_two:
  "recvSpec True twoFrames = Done (http2InFrame_zero\<lparr>streamID := 1, frameLength := 2, kind := 1\<rparr>, [130, 132], drop 11 twoFrames)"
  "frameOnWire True twoFrames =
     Done (http2InFrame_zero\<lparr>streamID := 1, frameLength := 3, kind := 1, endFields := True\<rparr>, [130, 132, 135], drop 21 twoFrames)"
proof -
  have t9: "take 9 twoFrames = [0, 0, 2, 1, 0, 0, 0, 0, 1]" "\<not> length twoFrames < 9"
    "drop 9 twoFrames = [130, 132] @ drop 11 twoFrames" "\<not> length (drop 11 twoFrames) < 9"
    "take 9 (drop 11 twoFrames) = [0, 0, 1, 9, 4, 0, 0, 0, 1]" "drop 9 (drop 11 twoFrames) = 135 # drop 21 twoFrames"
    by (simp_all add: twoFrames_def)
  let ?f = "http2InFrame_zero\<lparr>streamID := 1, frameLength := 2, kind := 1\<rparr>"
  have f: "frameLength ?f = 2" "kind ?f = 1" "streamID ?f = 1" "\<not> padded ?f" "\<not> priority ?f" "\<not> isUnknown ?f" "\<not> endFields ?f"
    by (simp_all add: http2InFrame_zero_def isUnknown_def frame_kinds word_le_nat_alt)
  have spec: "frameSpec ?f [130, 132] = Done [130, 132]"
    using f by (simp add: frameSpec_def dropPadding_def slice_def Let_def)
  show r: "recvSpec True twoFrames = Done (?f, [130, 132], drop 11 twoFrames)"
    using t9 f(1,6) spec by (simp add: recvSpec_def decode_two(1) Let_def)
  let ?k = "http2InFrame_zero\<lparr>streamID := 1, frameLength := 1, kind := 9, endFields := True\<rparr>"
  have k: "frameLength ?k = 1" "streamID ?k = 1" "kind ?k = 9" "endFields ?k"
    by (simp_all add: http2InFrame_zero_def)
  have d9: "drop 20 twoFrames = 135 # drop 21 twoFrames" using t9(6) by simp
  have "coalesceSpec (Suc 3) 1 2 [130, 132] (drop 11 twoFrames) = Done (3, [130, 132, 135], drop 21 twoFrames)"
    unfolding coalesceSpec.simps t9(5,6) decode_two(2) using t9(4) k
    by (simp add: http2MaxFrameSize_def http2FrameContinuation_def Let_def)
  then have c: "coalesceSpec 4 1 2 [130, 132] (drop 11 twoFrames) = Done (3, [130, 132, 135], drop 21 twoFrames)"
    by (simp add: numeral_eq_Suc)
  have u: "unfinished ?f" using f by (simp add: unfinished_def frame_kinds)
  show "frameOnWire True twoFrames =
     Done (http2InFrame_zero\<lparr>streamID := 1, frameLength := 3, kind := 1, endFields := True\<rparr>, [130, 132, 135], drop 21 twoFrames)"
    unfolding frameOnWire_def r using c u f by simp
qed


text \<open>C7: a stream may go on reading the frame it was given while the connection receives the next
  ones: the buffer it holds, up to the end of the frames received so far, is the same after
  \<open>recvInFrame\<close>, and is not given to anybody else.\<close>

theorem recvInFrame_keeps_held_buffers:
  assumes "bufsOk c" "sectFore c \<le> inBufferEdge c" "faults c = []" "recvInFrame c = Done (f, c')"
    and "j < length (heap c)" "j \<notin> set (pool c)" "n \<le> http2BufferSize"
    and "j = inBuffer c \<Longrightarrow> 2 \<le> bufRef (heap c ! j) \<and> n \<le> sectFore c"
  shows "take n (bufBytes (heap c' ! j)) = take n (bufBytes (heap c ! j)) \<and> j \<notin> set (pool c')"
proof -
  have "held j n (c\<lparr>sectBack := sectFore c\<rparr>)"
    using assms(5-8) by (simp add: held_def)
  moreover have "keeps (c\<lparr>sectBack := sectFore c\<rparr>) c'"
    using recvInFrame_spec [OF assms(1-3)] assms(4)
    by (auto simp: received_def split: outcome.splits prod.splits)
  ultimately have "held j n c' \<and> take n (bufBytes (heap c' ! j)) = take n (bufBytes (heap (c\<lparr>sectBack := sectFore c\<rparr>) ! j))"
    unfolding keeps_def by blast
  then show ?thesis by (simp add: held_def)
qed

text \<open>The connection above with a second holder of its buffer.\<close>

definition sharedConn :: "bytes \<Rightarrow> http2Conn" where
  "sharedConn p = incRef 0 (idleConn p [])"

lemma sharedConn_simps: "bufsOk (sharedConn p)" "sectFore (sharedConn p) = 0" "inBufferEdge (sharedConn p) = 0"
  "faults (sharedConn p) = []" "unreadFrom 0 (sharedConn p) = p" "inTime (sharedConn p)" "length (heap (sharedConn p)) = 1"
  "pool (sharedConn p) = []" "bufRef (heap (sharedConn p) ! 0) = 2"
  by (simp_all add: sharedConn_def incRef_def idleConn_def bufsOk_def unreadFrom_def inTime_def)

definition ping :: bytes where
  "ping = [0, 0, 8, 6, 0, 0, 0, 0, 0, 1, 2, 3, 4, 5, 6, 7, 8]"

lemma frameOnWire_ping:
  "frameOnWire True ping = Done (http2InFrame_zero\<lparr>frameLength := 8, kind := 6\<rparr>, [1, 2, 3, 4, 5, 6, 7, 8], [])"
  "\<not> (\<exists>g body rest. recvSpec True ping = Done (g, body, rest) \<and> unfinished g)"
proof -
  let ?f = "http2InFrame_zero\<lparr>frameLength := 8, kind := 6\<rparr>"
  have d: "decodeHeader http2InFrame_zero [0, 0, 8, 6, 0, 0, 0, 0, 0] = Done (?f, [0, 0, 8, 6, 0, 0, 0, 0, 0])"
    by (simp add: decodeHeader_def be32_def slice_def frame_kinds http2InFrame_zero_def http2MaxFrameSize_def Let_def)
  have t: "take 9 ping = [0, 0, 8, 6, 0, 0, 0, 0, 0]" "drop 9 ping = [1, 2, 3, 4, 5, 6, 7, 8]" "drop 17 ping = []" "length ping = 17"
    by (simp_all add: ping_def)
  have f: "frameLength ?f = 8" "\<not> isUnknown ?f" "kind ?f = 6" "streamID ?f = 0" "\<not> ack ?f"
    by (simp_all add: http2InFrame_zero_def isUnknown_def frame_kinds word_le_nat_alt)
  have "frameSpec ?f [1, 2, 3, 4, 5, 6, 7, 8] = Done [1, 2, 3, 4, 5, 6, 7, 8]"
    using f by (simp add: frameSpec_def lengthAllowed_def streamAllowed_def)
  then have r: "recvSpec True ping = Done (?f, [1, 2, 3, 4, 5, 6, 7, 8], [])"
    using f t by (simp add: recvSpec_def d Let_def)
  then show "frameOnWire True ping = Done (?f, [1, 2, 3, 4, 5, 6, 7, 8], [])"
    "\<not> (\<exists>g body rest. recvSpec True ping = Done (g, body, rest) \<and> unfinished g)"
    using f by (simp_all add: frameOnWire_def unfinished_def frame_kinds)
qed

theorem recvInFrame_keeps_held_buffers_witness:
  "\<exists>f c'. recvInFrame (sharedConn ping) = Done (f, c') \<and> 0 \<notin> set (pool c')"
proof -
  obtain f c' where r: "recvInFrame (sharedConn ping) = Done (f, c')"
    using recvInFrame_spec [of "sharedConn ping"] frameOnWire_ping
    by (auto simp: sharedConn_simps received_def)
  show ?thesis
    using recvInFrame_keeps_held_buffers [of "sharedConn ping" f c' 0 0] r by (auto simp: sharedConn_simps)
qed

end
