(* ===== verification/Http2Server.thy ===== *)
theory Http2Server
  imports Http2Conn
begin

text \<open>
  What the HTTP/2 connection does with the frames it receives: the start of a connection
  (\<open>http2Conn_.onGet\<close>), the seats of its streams, the settings, the frame processors of
  \<open>hemi/web_general_http2.go\<close> and \<open>hemi/web_server_http2.go\<close>, and the loop of
  \<open>server2Conn.manage\<close> as a step relation over the events it selects from.

  The decoding of field blocks is a stub in the source that always fails; it is an argument
  \<open>decode\<close> of the definitions, so that the theorems hold for every decoder, and
  \<open>decodeFields\<close> is the source's.  The goroutine of a stream is not modelled: it is the source of
  the outgoing frames.
\<close>

subsection \<open>The start of a connection\<close>

definition onGet :: "http2Conn \<Rightarrow> http2Conn" where
  "onGet c =
     (let c = c\<lparr>peerSettings := http2InitialSettings, freeSeats := http2FreeSeats, freeSeatsTop := 255,
            decodeTable := hpackTable_init (decodeTable c)\<rparr>
      in c\<lparr>localWindow := 2147483647 - 65535, remoteWindow := initialWindowSize (peerSettings c),
           encodeTable := hpackTable_init (encodeTable c)\<rparr>)"

text \<open>\<open>onPut\<close> resets everything but the buffer, the tables and the stack of seats.\<close>

definition onPut :: "http2Conn \<Rightarrow> http2Conn" where
  "onPut c = c\<lparr>activeStreams := replicate 127 None, lastPingTime := None,
     inFrame0 := http2InFrame_zero, inFrame1 := http2InFrame_zero, inFrame := None,
     activeStreamIDs := replicate 128 0, lastStreamID := 0, cumulativeInFrames := 0,
     concurrentStreams := 0, acknowledged := False, pingSent := False,
     inBufferEdge := 0, sectBack := 0, sectFore := 0, contBack := 0, contFore := 0\<rparr>"

subsection \<open>Seats\<close>

text \<open>\<open>freeSeats\<close> is a stack that shrinks upwards: the free seats are those above \<open>freeSeatsTop\<close>,
  a \<open>uint8\<close> for which 255 stands for -1.  \<open>None\<close> is an index out of range.\<close>

definition getFreeSeat :: "http2Conn \<Rightarrow> (uint8 \<times> http2Conn) option" where
  "getFreeSeat c =
     (let c = c\<lparr>freeSeatsTop := freeSeatsTop c + 1\<rparr>
      in do { seat \<leftarrow> idx (freeSeats c) (unat (freeSeatsTop c)); Some (seat, c) })"

definition putFreeSeat :: "uint8 \<Rightarrow> http2Conn \<Rightarrow> http2Conn option" where
  "putFreeSeat seat c = do {
     seats \<leftarrow> put (freeSeats c) (unat (freeSeatsTop c)) seat;
     Some (c\<lparr>freeSeats := seats, freeSeatsTop := freeSeatsTop c - 1\<rparr>) }"

definition appendStream :: "http2Stream \<Rightarrow> http2Conn \<Rightarrow> (http2Stream \<times> http2Conn) option" where
  "appendStream stream c = do {
     (seat, c) \<leftarrow> getFreeSeat c;
     let stream = stream\<lparr>seatOf := seat\<rparr>;
     streams \<leftarrow> put (activeStreams c) (unat seat) (Some stream);
     ids \<leftarrow> put (activeStreamIDs c) (unat seat) (nativeID stream);
     Some (stream, c\<lparr>activeStreams := streams, activeStreamIDs := ids\<rparr>) }"

text \<open>The linear search for a stream id that stands at some index from \<open>seat\<close> on.\<close>

function searchSeat :: "uint32 list \<Rightarrow> uint32 \<Rightarrow> nat \<Rightarrow> nat option" where
  "searchSeat ids target seat =
     (if seat < length ids
      then if ids ! seat \<noteq> target then searchSeat ids target (seat + 1) else Some seat
      else None)"
  by pat_completeness auto
termination by (relation "measure (\<lambda>(ids, target, seat). length ids - seat)") auto

declare searchSeat.simps [simp del]

definition searchStream :: "uint32 \<Rightarrow> http2Conn \<Rightarrow> (http2Stream option \<times> http2Conn) option" where
  "searchStream target c = do {
     ids \<leftarrow> put (activeStreamIDs c) 127 target;
     let c = c\<lparr>activeStreamIDs := ids\<rparr>;
     seat \<leftarrow> searchSeat (activeStreamIDs c) target 0;
     if seat \<noteq> 127 then do { stream \<leftarrow> idx (activeStreams c) seat; Some (stream, c) }
     else Some (None, c) }"

definition retireStream :: "http2Stream \<Rightarrow> http2Conn \<Rightarrow> http2Conn option" where
  "retireStream stream c = do {
     let seat = seatOf stream;
     streams \<leftarrow> put (activeStreams c) (unat seat) None;
     ids \<leftarrow> put (activeStreamIDs c) (unat seat) 0;
     putFreeSeat seat (c\<lparr>activeStreams := streams, activeStreamIDs := ids\<rparr>) }"

subsection \<open>Settings\<close>

text \<open>One turn of the loop of \<open>_updatePeerSettings\<close>: the settings and the window delta.\<close>

definition applySetting :: "bool \<Rightarrow> uint16 \<Rightarrow> uint32 \<Rightarrow> http2Settings \<times> uint32 \<Rightarrow>
  (connError, http2Settings \<times> uint32) outcome" where
  "applySetting asClient ident val = (\<lambda>(s, windowDelta).
     if ident = 1 then Done (s\<lparr>maxHeaderTableSize := val\<rparr>, windowDelta)
     else if ident = 2 then
       (if val > 1 \<or> val = 1 \<and> asClient then Fail (H2 ProtocolError)
        else Done (s\<lparr>enablePush := False\<rparr>, windowDelta))
     else if ident = 3 then Done (s\<lparr>maxConcurrentStreams := val\<rparr>, windowDelta)
     else if ident = 4 then
       (if val > 2147483647 then Fail (H2 FlowControlError)
        else Done (s, val - initialWindowSize s))
     else if ident = 5 then
       (if val < 16384 \<or> val > 16777215 then Fail (H2 ProtocolError)
        else Done (s\<lparr>maxFrameSize := val\<rparr>, windowDelta))
     else if ident = 6 then Done (s\<lparr>maxHeaderListSize := val\<rparr>, windowDelta)
     else Done (s, windowDelta))"

fun updateLoop :: "bool \<Rightarrow> bytes \<Rightarrow> nat \<Rightarrow> nat \<Rightarrow> http2Settings \<times> uint32 \<Rightarrow>
  (connError, http2Settings \<times> uint32) outcome" where
  "updateLoop asClient settings j 0 s = Done s"
| "updateLoop asClient settings j (Suc left) s =
     andThen (checked (sub settings j (j + 2))) (\<lambda>ident.
     andThen (checked (sub settings (j + 2) (j + 6))) (\<lambda>val.
     andThen (applySetting asClient (be16 ident) (be32 val) s) (\<lambda>s.
       updateLoop asClient settings (j + 6) left s)))"

definition updatePeerSettings :: "http2InFrame \<Rightarrow> bool \<Rightarrow> http2Conn \<Rightarrow> (connError, http2Conn) outcome" where
  "updatePeerSettings f asClient c =
     andThen (checked (effective (theBuffer c) f)) (\<lambda>settings.
     andThen (updateLoop asClient settings 0 (frameLength f div 6) (peerSettings c, 0)) (\<lambda>(s, windowDelta).
       let c = c\<lparr>peerSettings := s\<rparr> in
       Done (if windowDelta \<noteq> 0
             then c\<lparr>peerSettings := s\<lparr>initialWindowSize := initialWindowSize s + windowDelta\<rparr>\<rparr> else c)))"

subsection \<open>Sending\<close>

text \<open>These operations return the error, if any, and the connection as they leave it; \<open>None\<close> for
  the whole is a panic or the exit of \<open>BugExitln\<close>.\<close>

type_synonym processed = "(connError option \<times> http2Conn) option"

definition tryIO :: "http2Conn \<Rightarrow> connError option \<times> http2Conn" where
  "tryIO c = (case faults c of
       [] \<Rightarrow> (None, c)
     | fault # rest \<Rightarrow> (if fault then Some IoError else None, c\<lparr>faults := rest\<rparr>))"

text \<open>\<open>setWriteDeadline\<close>, then the write of the header and the payload.\<close>

definition sendOutFrame :: "http2OutFrame \<Rightarrow> http2Conn \<Rightarrow> processed" where
  "sendOutFrame f c = do {
     hdr \<leftarrow> encodeHeader f;
     let (err, c) = tryIO c;
     if err \<noteq> None then Some (err, c)
     else
       let (err, c) = tryIO c in
       if err \<noteq> None then Some (err, c)
       else Some (None, c\<lparr>written := written c @ hdr @ (if length (outPayload f) > 0 then outPayload f else [])\<rparr>) }"

definition controlFrame :: "byte \<Rightarrow> bool \<Rightarrow> bytes \<Rightarrow> http2OutFrame" where
  "controlFrame k isAck payload = \<lparr>outStreamID = 0, outLength = 8, outKind = k, outEndFields = False,
     outEndStream = False, outAck = isAck, outPadded = False, outPayload = payload\<rparr>"

definition closeConn :: "http2Conn \<Rightarrow> http2Conn" where
  "closeConn c = c\<lparr>closes := closes c + 1\<rparr>"

definition goawayCloseConn :: "http2Error \<Rightarrow> http2Conn \<Rightarrow> http2Conn option" where
  "goawayCloseConn h2e c = do {
     (err, c) \<leftarrow> sendOutFrame (controlFrame http2FrameGoaway False
                    (putBE32 (lastStreamID c) @ putBE32 (http2Code h2e))) c;
     Some (closeConn c) }"

subsection \<open>Frame processors\<close>

definition decodeFields :: "bytes \<Rightarrow> bool" where
  "decodeFields fields0 = False"

definition processDataInFrame :: "http2InFrame \<Rightarrow> http2Conn \<Rightarrow> processed" where
  "processDataInFrame f c = Some (None, c)"

definition processPriorityInFrame :: "http2InFrame \<Rightarrow> http2Conn \<Rightarrow> processed" where
  "processPriorityInFrame f c = Some (None, c)"

definition processResetStreamInFrame :: "http2InFrame \<Rightarrow> http2Conn \<Rightarrow> processed" where
  "processResetStreamInFrame f c =
     Some (if streamID f > lastStreamID c then Some (H2 ProtocolError) else None, c)"

text \<open>\<open>now\<close> is the time in nanoseconds.\<close>

definition processPingInFrame :: "int \<Rightarrow> http2InFrame \<Rightarrow> http2Conn \<Rightarrow> processed" where
  "processPingInFrame now f c =
     (if ack f then Some (if \<not> pingSent c then Some (H2 ProtocolError) else None, c)
      else if (case lastPingTime c of None \<Rightarrow> True | Some t \<Rightarrow> now - t \<ge> 1000000000) then do {
        let c = c\<lparr>lastPingTime := Some now\<rparr>;
        payload \<leftarrow> effective (theBuffer c) f;
        sendOutFrame (controlFrame http2FramePing True payload) c
      } else Some (Some (H2 EnhanceYourCalm), c))"

definition processWindowUpdateInFrame :: "http2InFrame \<Rightarrow> http2Conn \<Rightarrow> processed" where
  "processWindowUpdateInFrame f c = do {
     payload \<leftarrow> effective (theBuffer c) f;
     if length payload < 4 then None
     else let windowSize = be32 payload in
          Some (if windowSize = 0 \<or> windowSize > 2147483647 then (Some (H2 ProtocolError), c)
                else (None, c\<lparr>localWindow := windowSize\<rparr>)) }"

definition processSettingsInFrame :: "http2InFrame \<Rightarrow> http2Conn \<Rightarrow> processed" where
  "processSettingsInFrame f c = Some (None, if ack f then c\<lparr>acknowledged := True\<rparr> else c)"

definition getServer2Stream :: "uint32 \<Rightarrow> uint32 \<Rightarrow> http2Stream" where
  "getServer2Stream i window = \<lparr>nativeID = i, seatOf = 0, streamState = StateIdle, streamWindow = window\<rparr>"

definition processFieldsInFrame :: "(bytes \<Rightarrow> bool) \<Rightarrow> http2InFrame \<Rightarrow> http2Conn \<Rightarrow> processed" where
  "processFieldsInFrame decode f c =
     (if streamID f > lastStreamID c then
        if concurrentStreams c = word_of_nat http2MaxConcurrentStreams
        then Some (Some (H2 ProtocolError), c)
        else do {
          let c = c\<lparr>lastStreamID := streamID f\<rparr>;
          let stream = getServer2Stream (streamID f) (initialWindowSize (peerSettings c));
          block \<leftarrow> effective (theBuffer c) f;
          if \<not> decode block then Some (Some (H2 CompressionError), c)
          else do {
            let stream = stream\<lparr>streamState := (if endStream f then StateRemoteClosed else StateOpen)\<rparr>;
            (stream, c) \<leftarrow> appendStream stream c;
            Some (None, c\<lparr>concurrentStreams := concurrentStreams c + 1\<rparr>) } }
      else do {
        (stream, c) \<leftarrow> searchStream (streamID f) c;
        (case stream of
           None \<Rightarrow> Some (Some (H2 ProtocolError), c)
         | Some stream \<Rightarrow>
             if streamState stream \<noteq> StateOpen then Some (Some (H2 ProtocolError), c)
             else if \<not> endStream f then Some (Some (H2 ProtocolError), c)
             else do {
               block \<leftarrow> effective (theBuffer c) f;
               Some (if \<not> decode block then Some (H2 CompressionError) else None, c) }) })"

text \<open>The table \<open>server2InFrameProcessors\<close>; the processors of PUSH_PROMISE, GOAWAY and CONTINUATION
  panic.\<close>

definition server2InFrameProcessors :: "(bytes \<Rightarrow> bool) \<Rightarrow> int \<Rightarrow> http2InFrame \<Rightarrow> http2Conn \<Rightarrow> processed" where
  "server2InFrameProcessors decode now f c = do {
     process \<leftarrow> idx
       [processDataInFrame f, processFieldsInFrame decode f, processPriorityInFrame f,
        processResetStreamInFrame f, processSettingsInFrame f, \<lambda>c. None, processPingInFrame now f,
        \<lambda>c. None, processWindowUpdateInFrame f, \<lambda>c. None]
       (unat (kind f));
     process c }"

subsection \<open>The loop of \<open>manage\<close>\<close>

datatype phase = Serve | Drain | WaitReceive | Quit

record server2Conn =
  conn :: http2Conn
  phaseOf :: phase
  waitReceive :: bool

text \<open>What the select statement can receive; \<open>Timeout\<close> is a network error that is a timeout.\<close>

datatype incomingEvent = Frame http2InFrame | H2Err http2Error | Timeout | NetErr

text \<open>Leaving the loop: the streams that are still active are waited for.\<close>

definition afterServe :: "server2Conn \<Rightarrow> server2Conn" where
  "afterServe s =
     (if concurrentStreams (conn s) > 0 then s\<lparr>phaseOf := Drain\<rparr>
      else if waitReceive s then s\<lparr>phaseOf := WaitReceive\<rparr> else s\<lparr>phaseOf := Quit\<rparr>)"

definition goawayAndLeave :: "http2Error \<Rightarrow> bool \<Rightarrow> server2Conn \<Rightarrow> server2Conn option" where
  "goawayAndLeave h2e wait s = do {
     c \<leftarrow> goawayCloseConn h2e (conn s);
     Some (afterServe (s\<lparr>conn := c, waitReceive := waitReceive s \<or> wait\<rparr>)) }"

definition serveIncoming :: "(bytes \<Rightarrow> bool) \<Rightarrow> int \<Rightarrow> incomingEvent \<Rightarrow> server2Conn \<Rightarrow> server2Conn option" where
  "serveIncoming decode now e s =
     (case e of
        Frame f \<Rightarrow>
          if isUnknown f then Some s
          else do {
            (err, c) \<leftarrow> server2InFrameProcessors decode now f (conn s);
            (case err of
               None \<Rightarrow> Some (s\<lparr>conn := c\<rparr>)
             | Some (H2 h2e) \<Rightarrow> goawayAndLeave h2e True (s\<lparr>conn := c\<rparr>)
             | Some IoError \<Rightarrow> goawayAndLeave InternalError True (s\<lparr>conn := c\<rparr>)) }
      | H2Err h2e \<Rightarrow> goawayAndLeave h2e False s
      | Timeout \<Rightarrow> goawayAndLeave NoError False s
      | NetErr \<Rightarrow> Some (afterServe (s\<lparr>conn := closeConn (conn s)\<rparr>)))"

text \<open>An outgoing frame of \<open>stream\<close>: the end of a stream gives its seat back.\<close>

definition endOfStream :: "http2OutFrame \<Rightarrow> http2Stream \<Rightarrow> http2Conn \<Rightarrow> http2Conn option" where
  "endOfStream f stream c =
     (if outEndStream f then do {
        c \<leftarrow> retireStream stream c;
        Some (c\<lparr>concurrentStreams := concurrentStreams c - 1\<rparr>)
      } else Some c)"

definition serveOutgoing :: "http2OutFrame \<Rightarrow> http2Stream \<Rightarrow> server2Conn \<Rightarrow> server2Conn option" where
  "serveOutgoing f stream s = do {
     c \<leftarrow> endOfStream f stream (conn s);
     (err, c) \<leftarrow> sendOutFrame f c;
     Some (if err = None then s\<lparr>conn := c\<rparr>
           else afterServe (s\<lparr>conn := closeConn c, waitReceive := True\<rparr>)) }"

definition drainOutgoing :: "http2OutFrame \<Rightarrow> http2Stream \<Rightarrow> server2Conn \<Rightarrow> server2Conn option" where
  "drainOutgoing f stream s = do {
     c \<leftarrow> endOfStream f stream (conn s);
     let s = s\<lparr>conn := c\<rparr>;
     Some (if concurrentStreams c > 0 then s
           else if waitReceive s then s\<lparr>phaseOf := WaitReceive\<rparr> else s\<lparr>phaseOf := Quit\<rparr>) }"

text \<open>A stream sends frames while it is active, on the seat it was given.\<close>

definition activeStream :: "http2Stream \<Rightarrow> http2Conn \<Rightarrow> bool" where
  "activeStream stream c \<longleftrightarrow> unat (seatOf stream) < length (activeStreams c) \<and>
     activeStreams c ! unat (seatOf stream) = Some stream"

inductive serverStep :: "(bytes \<Rightarrow> bool) \<Rightarrow> server2Conn \<Rightarrow> server2Conn \<Rightarrow> bool" for decode where
  incoming: "phaseOf s = Serve \<Longrightarrow> serveIncoming decode now e s = Some s' \<Longrightarrow> serverStep decode s s'"
| outgoing: "phaseOf s = Serve \<Longrightarrow> activeStream stream (conn s) \<Longrightarrow> serveOutgoing f stream s = Some s' \<Longrightarrow>
    serverStep decode s s'"
| draining: "phaseOf s = Drain \<Longrightarrow> activeStream stream (conn s) \<Longrightarrow> drainOutgoing f stream s = Some s' \<Longrightarrow>
    serverStep decode s s'"
| receiveQuit: "phaseOf s = WaitReceive \<Longrightarrow> serverStep decode s (s\<lparr>phaseOf := Quit\<rparr>)"

text \<open>A connection enters the loop with fresh seats, no stream and an open socket.\<close>

inductive serverReach :: "(bytes \<Rightarrow> bool) \<Rightarrow> server2Conn \<Rightarrow> bool" for decode where
  start: "serverReach decode \<lparr>conn = (onGet (onPut c))\<lparr>closes := 0\<rparr>, phaseOf = Serve, waitReceive = False\<rparr>"
| step: "serverReach decode s \<Longrightarrow> serverStep decode s s' \<Longrightarrow> serverReach decode s'"

subsection \<open>The seats of a connection\<close>

definition seatCount :: "http2Conn \<Rightarrow> nat" where
  "seatCount c = unat (freeSeatsTop c + 1)"

definition freeStack :: "http2Conn \<Rightarrow> uint8 list" where
  "freeStack c = drop (seatCount c) (freeSeats c)"

definition seated :: "http2Conn \<Rightarrow> uint8 \<Rightarrow> http2Stream option" where
  "seated c seat = (if unat seat < length (activeStreams c) then activeStreams c ! unat seat else None)"

definition seatInv :: "http2Conn \<Rightarrow> bool" where
  "seatInv c \<longleftrightarrow> length (freeSeats c) = 127 \<and> length (activeStreams c) = 127 \<and>
     length (activeStreamIDs c) = 128 \<and> seatCount c \<le> 127 \<and> distinct (freeStack c) \<and>
     (\<forall>seat. seat \<in> set (freeStack c) \<longleftrightarrow> unat seat < 127 \<and> seated c seat = None) \<and>
     (\<forall>seat s. seated c seat = Some s \<longrightarrow> seatOf s = seat \<and> activeStreamIDs c ! unat seat = nativeID s) \<and>
     (\<forall>seat. unat seat < 127 \<longrightarrow> seated c seat = None \<longrightarrow> activeStreamIDs c ! unat seat = 0)"

lemma card_words_less: "card {seat :: uint8. unat seat < 127} = 127"
proof -
  have "unat ` {seat :: uint8. unat seat < 127} = {..<127}"
  proof
    show "{..<127} \<subseteq> unat ` {seat :: uint8. unat seat < 127}"
    proof
      fix n :: nat
      assume n: "n \<in> {..<127}"
      then have "unat (word_of_nat n :: uint8) = n" by (intro unat_word_of_nat_less) simp
      then show "n \<in> unat ` {seat :: uint8. unat seat < 127}"
        using n by (intro image_eqI [of _ _ "word_of_nat n"]) simp_all
    qed
  qed auto
  moreover have "inj_on unat {seat :: uint8. unat seat < 127}"
    by (intro inj_onI) (simp add: word_unat_eq_iff)
  ultimately show ?thesis by (metis card_image card_lessThan)
qed

text \<open>What the processors need of the seats, whatever holds them.\<close>

locale seat_pool =
  fixes inv :: "'c \<Rightarrow> bool" and free :: "'c \<Rightarrow> uint8 list" and at :: "'c \<Rightarrow> uint8 \<Rightarrow> http2Stream option"
    and enter :: "http2Stream \<Rightarrow> 'c \<Rightarrow> (http2Stream \<times> 'c) option"
    and leave :: "http2Stream \<Rightarrow> 'c \<Rightarrow> 'c option"
  assumes free_distinct: "inv c \<Longrightarrow> distinct (free c)"
    and free_iff: "inv c \<Longrightarrow> seat \<in> set (free c) \<longleftrightarrow> unat seat < 127 \<and> at c seat = None"
    and at_seat: "inv c \<Longrightarrow> at c seat = Some s \<Longrightarrow> seatOf s = seat \<and> unat seat < 127"
    and enter_next: "inv c \<Longrightarrow> free c = seat # rest \<Longrightarrow> \<exists>c'. enter s c = Some (s\<lparr>seatOf := seat\<rparr>, c') \<and>
      inv c' \<and> free c' = rest \<and> at c' = (at c)(seat \<mapsto> s\<lparr>seatOf := seat\<rparr>)"
    and enter_full: "inv c \<Longrightarrow> free c = [] \<Longrightarrow> enter s c = None"
    and leave_at: "inv c \<Longrightarrow> at c seat = Some s \<Longrightarrow> \<exists>c'. leave s c = Some c' \<and>
      inv c' \<and> free c' = seat # free c \<and> at c' = (at c)(seat := None)"
begin

lemma count_free_at:
  assumes "inv c"
  shows "card {seat. at c seat \<noteq> None} + length (free c) = 127"
proof -
  let ?all = "{seat :: uint8. unat seat < 127}"
  have "?all = {seat. at c seat \<noteq> None} \<union> set (free c)"
    unfolding set_eq_iff using free_iff [OF assms] at_seat [OF assms] by auto
  moreover have "{seat. at c seat \<noteq> None} \<inter> set (free c) = {}"
    using free_iff [OF assms] by auto
  moreover have "card ?all = 127"
    by (rule card_words_less)
  ultimately show ?thesis
    using distinct_card [OF free_distinct [OF assms]]
    by (metis card_Un_disjoint finite)
qed

lemma enter_possible:
  assumes "inv c" "card {seat. at c seat \<noteq> None} < 127"
  shows "\<exists>s' c'. enter s c = Some (s', c') \<and> inv c' \<and> at c (seatOf s') = None \<and>
    at c' = (at c)(seatOf s' \<mapsto> s') \<and> nativeID s' = nativeID s \<and> streamState s' = streamState s"
proof -
  obtain seat rest where "free c = seat # rest"
    using count_free_at [OF assms(1)] assms(2) by (cases "free c") auto
  moreover then have "at c seat = None" using free_iff [OF assms(1), of seat] by simp
  ultimately show ?thesis using enter_next [OF assms(1)] by fastforce
qed

lemma enter_leave:
  assumes "inv c" "enter s c = Some (s', c')"
  shows "\<exists>c''. leave s' c' = Some c'' \<and> inv c'' \<and> free c'' = free c \<and> at c'' = at c"
proof -
  obtain seat rest where fr: "free c = seat # rest"
    using enter_full [OF assms(1)] assms(2) by (cases "free c") auto
  with enter_next [OF assms(1) fr, of s] assms(2)
  have c': "s' = s\<lparr>seatOf := seat\<rparr>" "inv c'" "free c' = rest" "at c' = (at c)(seat \<mapsto> s')" by auto
  moreover have "at c seat = None" using free_iff [OF assms(1), of seat] fr by simp
  ultimately show ?thesis
    using leave_at [OF c'(2), of seat s'] fr by fastforce
qed

end

lemma seatInv_top:
  assumes "seatInv c"
  shows "seatCount c < 127 \<Longrightarrow> unat (freeSeatsTop c + 1 + 1) = seatCount c + 1"
    and "0 < seatCount c \<Longrightarrow> unat (freeSeatsTop c) = seatCount c - 1"
proof -
  have fs: "freeSeatsTop c = word_of_nat (seatCount c) - 1" by (simp add: seatCount_def)
  show "unat (freeSeatsTop c + 1 + 1) = seatCount c + 1" if "seatCount c < 127"
    using that unat_word_of_nat_less [of "seatCount c + 1", where 'a = 8] by (simp add: fs add.commute)
  show "unat (freeSeatsTop c) = seatCount c - 1" if "0 < seatCount c"
  proof -
    have "word_of_nat (seatCount c) - 1 = (word_of_nat (seatCount c - 1) :: uint8)"
      using that by (simp add: of_nat_diff)
    moreover have "unat (word_of_nat (seatCount c - 1) :: uint8) = seatCount c - 1"
      by (rule unat_word_of_nat_less) (use assms in \<open>auto simp: seatInv_def\<close>)
    ultimately show ?thesis by (simp only: fs)
  qed
qed

lemma appendStream_seatInv:
  assumes inv: "seatInv c" and fr: "freeStack c = seat # rest"
  shows "\<exists>c'. appendStream s c = Some (s\<lparr>seatOf := seat\<rparr>, c') \<and> seatInv c' \<and> freeStack c' = rest \<and>
    seated c' = (seated c)(seat \<mapsto> s\<lparr>seatOf := seat\<rparr>)"
proof -
  have k: "seatCount c < 127" and at: "freeSeats c ! seatCount c = seat" and rest: "drop (seatCount c + 1) (freeSeats c) = rest"
  proof -
    show k: "seatCount c < 127"
      using fr inv by (cases "seatCount c < 127") (auto simp: freeStack_def seatInv_def)
    then have "freeSeats c ! seatCount c # drop (seatCount c + 1) (freeSeats c) = seat # rest"
      using fr inv Cons_nth_drop_Suc [of "seatCount c" "freeSeats c"] by (simp add: freeStack_def seatInv_def)
    then show "freeSeats c ! seatCount c = seat" "drop (seatCount c + 1) (freeSeats c) = rest" by simp_all
  qed
  have seat: "unat seat < 127" "seated c seat = None"
    using inv fr by (auto simp: seatInv_def)
  let ?s = "s\<lparr>seatOf := seat\<rparr>"
  let ?c' = "c\<lparr>freeSeatsTop := freeSeatsTop c + 1, activeStreams := (activeStreams c)[unat seat := Some ?s],
    activeStreamIDs := (activeStreamIDs c)[unat seat := nativeID s]\<rparr>"
  have "appendStream s c = Some (?s, ?c')"
    using inv k seat at unfolding seatCount_def seatInv_def
    by (simp add: appendStream_def getFreeSeat_def idx_def put_def Let_def)
  moreover have st: "freeStack ?c' = rest" "seatCount ?c' = seatCount c + 1"
    using seatInv_top(1) [OF inv k] rest by (simp_all add: freeStack_def seatCount_def)
  moreover have sd: "seated ?c' = (seated c)(seat \<mapsto> ?s)"
    using inv seat by (auto simp: seated_def seatInv_def fun_eq_iff nth_list_update word_unat_eq_iff)
  moreover have "seatInv ?c'"
  proof -
    have d: "distinct (freeStack c)" "\<And>i. i \<in> set (freeStack c) \<longleftrightarrow> unat i < 127 \<and> seated c i = None"
      "\<And>i s. seated c i = Some s \<Longrightarrow> seatOf s = i \<and> activeStreamIDs c ! unat i = nativeID s"
      "length (activeStreamIDs c) = 128"
      using inv by (auto simp: seatInv_def)
    have empty: "\<And>i. unat i < 127 \<Longrightarrow> seated c i = None \<Longrightarrow> activeStreamIDs c ! unat i = 0"
      using inv by (auto simp: seatInv_def)
    have "i \<in> set rest \<longleftrightarrow> unat i < 127 \<and> seated ?c' i = None" for i
      using d(1) d(2) [of i] seat by (auto simp: sd fr)
    moreover have "activeStreamIDs ?c' ! unat i = 0" if "unat i < 127" "seated ?c' i = None" for i
      using that empty [of i] seat d(4) by (auto simp: sd nth_list_update word_unat_eq_iff split: if_splits)
    moreover have "seatOf t = i \<and> activeStreamIDs ?c' ! unat i = nativeID t" if "seated ?c' i = Some t" for i t
      using that d(3) [of i t] seat d(4) by (auto simp: sd nth_list_update word_unat_eq_iff split: if_splits)
    ultimately show ?thesis
      using inv st k d(1) unfolding seatInv_def by (simp add: fr)
  qed
  ultimately show ?thesis by blast
qed

lemma appendStream_full: "seatInv c \<Longrightarrow> freeStack c = [] \<Longrightarrow> appendStream s c = None"
  by (auto simp: appendStream_def getFreeSeat_def idx_def freeStack_def seatInv_def seatCount_def)

lemma retireStream_seatInv:
  assumes inv: "seatInv c" and at: "seated c seat = Some s"
  shows "\<exists>c'. retireStream s c = Some c' \<and> seatInv c' \<and> freeStack c' = seat # freeStack c \<and>
    seated c' = (seated c)(seat := None)"
proof -
  have d: "distinct (freeStack c)" "\<And>i. i \<in> set (freeStack c) \<longleftrightarrow> unat i < 127 \<and> seated c i = None"
    "\<And>i s. seated c i = Some s \<Longrightarrow> seatOf s = i \<and> activeStreamIDs c ! unat i = nativeID s"
    "length (activeStreamIDs c) = 128" "length (freeSeats c) = 127" "length (activeStreams c) = 127"
    using inv by (auto simp: seatInv_def)
  have empty: "\<And>i. unat i < 127 \<Longrightarrow> seated c i = None \<Longrightarrow> activeStreamIDs c ! unat i = 0"
    using inv by (auto simp: seatInv_def)
  have seat: "unat seat < 127" "seatOf s = seat"
    using at d(3) [OF at] d(6) by (auto simp: seated_def split: if_splits)
  have new: "seat \<notin> set (freeStack c)" using at d(2) by auto
  have k: "0 < seatCount c"
  proof (rule ccontr)
    assume "\<not> 0 < seatCount c"
    then have "length (freeStack c) = 127" using d(5) by (simp add: freeStack_def)
    then have "card (insert seat (set (freeStack c))) = 128"
      using new distinct_card [OF d(1)] by simp
    moreover have "insert seat (set (freeStack c)) \<subseteq> {seat. unat seat < 127}"
      using d(2) seat by auto
    ultimately show False
      using card_mono [of "{seat :: uint8. unat seat < 127}" "insert seat (set (freeStack c))"] card_words_less by simp
  qed
  note top = seatInv_top(2) [OF inv k]
  have k127: "seatCount c \<le> 127" using inv by (simp add: seatInv_def)
  let ?c' = "c\<lparr>activeStreams := (activeStreams c)[unat seat := None],
    activeStreamIDs := (activeStreamIDs c)[unat seat := 0],
    freeSeats := (freeSeats c)[unat (freeSeatsTop c) := seat], freeSeatsTop := freeSeatsTop c - 1\<rparr>"
  have "retireStream s c = Some ?c'"
    using seat d k k127 top by (simp add: retireStream_def putFreeSeat_def put_def Let_def)
  moreover have cnt: "seatCount ?c' = seatCount c - 1" using top by (simp add: seatCount_def)
  moreover have fr: "freeStack ?c' = seat # freeStack c"
  proof -
    have "drop (seatCount c - 1) ((freeSeats c)[seatCount c - 1 := seat]) =
        seat # drop (Suc (seatCount c - 1)) ((freeSeats c)[seatCount c - 1 := seat])"
      using k k127 d(5) by (subst Cons_nth_drop_Suc [symmetric]) auto
    then show ?thesis using k top unfolding freeStack_def cnt by simp
  qed
  moreover have sd: "seated ?c' = (seated c)(seat := None)"
    using d(6) seat by (auto simp: seated_def fun_eq_iff nth_list_update word_unat_eq_iff)
  moreover have "seatInv ?c'"
  proof -
    have "i \<in> set (freeStack ?c') \<longleftrightarrow> unat i < 127 \<and> seated ?c' i = None" for i
      using d(2) [of i] seat by (auto simp: sd fr)
    moreover have "activeStreamIDs ?c' ! unat i = 0" if "unat i < 127" "seated ?c' i = None" for i
      using that empty [of i] seat d(4) by (auto simp: sd nth_list_update word_unat_eq_iff split: if_splits)
    moreover have "seatOf t = i \<and> activeStreamIDs ?c' ! unat i = nativeID t" if "seated ?c' i = Some t" for i t
      using that d(3) [of i t] seat d(4) by (auto simp: sd nth_list_update word_unat_eq_iff split: if_splits)
    ultimately show ?thesis
      using d new cnt k127 unfolding seatInv_def by (simp add: fr)
  qed
  ultimately show ?thesis by blast
qed

interpretation seats: seat_pool seatInv freeStack seated appendStream retireStream
proof unfold_locales
  fix c seat s
  assume "seatInv c" "seated c seat = Some s"
  then show "seatOf s = seat \<and> unat seat < 127"
    by (auto simp: seatInv_def seated_def split: if_splits)
qed (use appendStream_seatInv appendStream_full retireStream_seatInv in \<open>auto simp: seatInv_def\<close>)

subsection \<open>Looking a stream up\<close>

lemma searchSeat_spec:
  assumes "length ids = 128" "ids ! 127 = target" "seat \<le> 127"
  shows "\<exists>i. searchSeat ids target seat = Some i \<and> seat \<le> i \<and> i \<le> 127 \<and> ids ! i = target \<and>
    (\<forall>j. seat \<le> j \<longrightarrow> j < i \<longrightarrow> ids ! j \<noteq> target)"
  using assms
proof (induction "127 - seat" arbitrary: seat)
  case 0
  then have "seat = 127" by simp
  then show ?case using 0 by (subst searchSeat.simps) auto
next
  case (Suc n)
  show ?case
  proof (cases "ids ! seat = target")
    case True
    then show ?thesis using Suc.prems by (subst searchSeat.simps) auto
  next
    case False
    then have "seat \<noteq> 127" using Suc.prems by auto
    then obtain i where "searchSeat ids target (Suc seat) = Some i" "Suc seat \<le> i" "i \<le> 127" "ids ! i = target"
      "\<forall>j. Suc seat \<le> j \<longrightarrow> j < i \<longrightarrow> ids ! j \<noteq> target"
      using Suc.hyps(1) [of "Suc seat"] Suc.hyps(2) Suc.prems by fastforce
    moreover then have "\<forall>j. seat \<le> j \<longrightarrow> j < i \<longrightarrow> ids ! j \<noteq> target"
      using False by (metis Suc_leI le_neq_implies_less)
    ultimately show ?thesis
      using False Suc.prems \<open>seat \<noteq> 127\<close> by (subst searchSeat.simps) (auto intro: exI [of _ i])
  qed
qed

lemma searchStream_spec:
  assumes inv: "seatInv c" and t: "target \<noteq> 0"
  shows "\<exists>r. searchStream target c = Some (r, c\<lparr>activeStreamIDs := (activeStreamIDs c)[127 := target]\<rparr>) \<and>
    (case r of None \<Rightarrow> \<forall>seat s. seated c seat = Some s \<longrightarrow> nativeID s \<noteq> target
     | Some s \<Rightarrow> nativeID s = target \<and> seated c (seatOf s) = Some s)"
proof -
  have d: "\<And>i s. seated c i = Some s \<Longrightarrow> seatOf s = i \<and> activeStreamIDs c ! unat i = nativeID s"
    "\<And>i. unat i < 127 \<Longrightarrow> seated c i = None \<Longrightarrow> activeStreamIDs c ! unat i = 0"
    "length (activeStreamIDs c) = 128" "length (activeStreams c) = 127"
    using inv by (auto simp: seatInv_def)
  let ?ids = "(activeStreamIDs c)[127 := target]"
  obtain i where i: "searchSeat ?ids target 0 = Some i" "i \<le> 127" "?ids ! i = target"
    "\<forall>j. j < i \<longrightarrow> ?ids ! j \<noteq> target"
    using searchSeat_spec [of ?ids target 0] d(3) by auto
  show ?thesis
  proof (cases "i = 127")
    case True
    have "nativeID s \<noteq> target" if "seated c seat = Some s" for seat s
      using i(4) [rule_format, of "unat seat"] d(1) [OF that] that d(4) True
      by (auto simp: seated_def split: if_splits)
    then show ?thesis
      using i True d(3) by (simp add: searchStream_def put_def Let_def)
  next
    case False
    let ?seat = "word_of_nat i :: uint8"
    have u: "unat ?seat = i" by (rule unat_word_of_nat_less) (use i(2) in simp)
    have eq: "activeStreamIDs c ! i = target" using i(3) False by simp
    then obtain s where s: "seated c ?seat = Some s"
      using d(2) [of ?seat] u i(2) False t by (cases "seated c ?seat") auto
    then have "activeStreams c ! i = Some s" using u d(4) i(2) False by (simp add: seated_def split: if_splits)
    then show ?thesis
      using i False d(1) [OF s] s eq u d(3,4) by (simp add: searchStream_def put_def idx_def Let_def)
  qed
qed

lemma seatInv_ids127: "seatInv c \<Longrightarrow> seatInv (c\<lparr>activeStreamIDs := (activeStreamIDs c)[127 := target]\<rparr>)"
  unfolding seatInv_def
  by (auto simp: seated_def freeStack_def seatCount_def nth_list_update split: if_splits)

subsection \<open>The invariant of a serving connection\<close>

definition idsInv :: "http2Conn \<Rightarrow> bool" where
  "idsInv c \<longleftrightarrow>
     (\<forall>a s. seated c a = Some s \<longrightarrow> 0 < nativeID s \<and> nativeID s \<le> lastStreamID c) \<and>
     (\<forall>a b s t. seated c a = Some s \<longrightarrow> seated c b = Some t \<longrightarrow> nativeID s = nativeID t \<longrightarrow> a = b)"

definition connOk :: "http2Conn \<Rightarrow> bool" where
  "connOk c \<longleftrightarrow> seatInv c \<and> unat (concurrentStreams c) = seatCount c \<and> idsInv c"

definition serverInv :: "server2Conn \<Rightarrow> bool" where
  "serverInv s \<longleftrightarrow> connOk (conn s) \<and> closes (conn s) = (if phaseOf s = Serve then 0 else 1) \<and>
     (phaseOf s = Drain \<longrightarrow> 0 < seatCount (conn s)) \<and>
     (phaseOf s = WaitReceive \<or> phaseOf s = Quit \<longrightarrow> seatCount (conn s) = 0)"

text \<open>What the seats do not depend on.\<close>

definition sameSeats :: "http2Conn \<Rightarrow> http2Conn \<Rightarrow> bool" where
  "sameSeats c c' \<longleftrightarrow> freeSeats c' = freeSeats c \<and> freeSeatsTop c' = freeSeatsTop c \<and>
     activeStreams c' = activeStreams c \<and> length (activeStreamIDs c') = length (activeStreamIDs c) \<and>
     (\<forall>i<127. activeStreamIDs c' ! i = activeStreamIDs c ! i) \<and>
     lastStreamID c \<le> lastStreamID c' \<and> concurrentStreams c' = concurrentStreams c \<and> closes c' = closes c"

lemma sameSeats_refl [simp]: "sameSeats c c"
  by (simp add: sameSeats_def)

lemma sameSeats_trans: "sameSeats a b \<Longrightarrow> sameSeats b c \<Longrightarrow> sameSeats a c"
  by (auto simp: sameSeats_def)

lemma sameSeats_seated:
  assumes "sameSeats c c'"
  shows "seated c' = seated c" "freeStack c' = freeStack c" "seatCount c' = seatCount c"
  using assms by (auto simp: sameSeats_def seated_def freeStack_def seatCount_def fun_eq_iff)

lemma sameSeats_seatInv:
  assumes same: "sameSeats c c'" and inv: "seatInv c"
  shows "seatInv c'"
proof -
  note [simp] = sameSeats_seated [OF same]
  have lt: "seated c a = Some s \<Longrightarrow> unat a < 127" for a s
    using inv by (auto simp: seatInv_def seated_def split: if_splits)
  have ids: "unat a < 127 \<Longrightarrow> activeStreamIDs c' ! unat a = activeStreamIDs c ! unat a" for a :: uint8
    using same by (simp add: sameSeats_def)
  have "length (freeSeats c') = length (freeSeats c)" "length (activeStreams c') = length (activeStreams c)"
    "length (activeStreamIDs c') = length (activeStreamIDs c)"
    using same by (simp_all add: sameSeats_def)
  then show ?thesis
    using inv lt ids unfolding seatInv_def by auto
qed

lemma sameSeats_connOk:
  assumes same: "sameSeats c c'" and ok: "connOk c"
  shows "connOk c'"
proof -
  have "idsInv c'"
    using same ok unfolding idsInv_def connOk_def sameSeats_seated [OF same]
    by (auto simp: sameSeats_def) (meson order_trans)
  then show ?thesis
    using ok sameSeats_seatInv [OF same] same by (auto simp: connOk_def sameSeats_def sameSeats_seated [OF same])
qed

lemma unat_inc: "unat x < 255 \<Longrightarrow> unat (x + 1) = unat x + 1" for x :: uint8
  using unat_word_of_nat_less [of "unat x + 1", where 'a = 8] by (simp add: add.commute)

lemma unat_dec: "0 < unat x \<Longrightarrow> unat (x - 1) = unat x - 1" for x :: uint8
  by (simp add: unat_sub word_le_nat_alt Suc_le_eq)

lemma tryIO_sameSeats: "tryIO c = (e, c') \<Longrightarrow> sameSeats c c'"
  by (auto simp: tryIO_def sameSeats_def split: list.splits)

lemma sendOutFrame_sameSeats: "sendOutFrame f c = Some (e, c') \<Longrightarrow> sameSeats c c'"
  by (auto simp: sendOutFrame_def Let_def split: bind_splits prod.splits if_splits dest!: tryIO_sameSeats)
    (auto simp: sameSeats_def)

lemma searchStream_sameSeats: "searchStream target c = Some (r, c') \<Longrightarrow> sameSeats c c'"
  by (auto simp: searchStream_def Let_def put_def sameSeats_def split: bind_splits if_splits)

lemma concurrent_update:
  "seatInv (c\<lparr>concurrentStreams := n\<rparr>) = seatInv c" "idsInv (c\<lparr>concurrentStreams := n\<rparr>) = idsInv c"
  "seatCount (c\<lparr>concurrentStreams := n\<rparr>) = seatCount c" "seated (c\<lparr>concurrentStreams := n\<rparr>) = seated c"
  by (simp_all add: seatInv_def idsInv_def seated_def freeStack_def seatCount_def fun_eq_iff)

lemma connOk_append:
  assumes ok: "connOk c" and room: "concurrentStreams c \<noteq> 127" and new: "lastStreamID c < sid"
    and c1: "c1 = c\<lparr>lastStreamID := sid\<rparr>" and s: "nativeID s = sid"
  shows "\<exists>s' c'. appendStream s c1 = Some (s', c') \<and> connOk (c'\<lparr>concurrentStreams := concurrentStreams c' + 1\<rparr>) \<and>
    closes c' = closes c \<and> nativeID s' = sid \<and> seated c (seatOf s') = None \<and>
    seated c' = (seated c)(seatOf s' \<mapsto> s') \<and> lastStreamID c' = sid \<and> concurrentStreams c' = concurrentStreams c"
proof -
  have inv: "seatInv c1" "seatInv c" using ok by (auto simp: connOk_def c1 seatInv_def seated_def freeStack_def seatCount_def)
  have eq: "seated c1 = seated c" "seatCount c1 = seatCount c" "freeStack c1 = freeStack c"
    by (simp_all add: c1 seated_def seatCount_def freeStack_def fun_eq_iff)
  have "seatCount c \<noteq> 127"
  proof
    assume "seatCount c = 127"
    then have "unat (concurrentStreams c) = unat (127 :: uint8)" using ok by (simp add: connOk_def)
    then show False using room by (simp only: word_unat_eq_iff)
  qed
  then have lt: "seatCount c < 127" using ok by (simp add: connOk_def seatInv_def)
  then obtain seat rest where fr: "freeStack c1 = seat # rest"
    using inv(2) eq by (cases "freeStack c1") (auto simp: freeStack_def seatInv_def)
  have free: "seated c seat = None" using inv(1) fr eq by (auto simp: seatInv_def)
  let ?s = "s\<lparr>seatOf := seat\<rparr>"
  obtain c' where c': "appendStream s c1 = Some (?s, c')" "seatInv c'" "freeStack c' = rest"
    "seated c' = (seated c)(seat \<mapsto> ?s)"
    using appendStream_seatInv [OF inv(1) fr, of s] eq by auto
  have fields: "closes c' = closes c" "lastStreamID c' = sid" "concurrentStreams c' = concurrentStreams c"
    using c'(1) by (auto simp: appendStream_def getFreeSeat_def Let_def c1 split: bind_splits)
  have cnt: "seatCount c' = seatCount c + 1"
    using c'(2,3) inv(2) fr eq by (auto simp: freeStack_def seatInv_def dest: arg_cong [of _ _ length])
  have "unat (concurrentStreams c + 1) = seatCount c + 1"
    using ok lt unat_inc [of "concurrentStreams c"] by (simp add: connOk_def)
  moreover have "idsInv c'"
  proof -
    have old: "0 < nativeID t \<and> nativeID t < sid" if "seated c a = Some t" for a t
      using ok new that unfolding connOk_def idsInv_def by (meson order_le_less_trans)
    have sid: "0 < sid" using new word_zero_le order_le_less_trans by blast
    have uniq: "a = b" if "seated c a = Some t" "seated c b = Some u" "nativeID t = nativeID u" for a b t u
      using ok that by (auto simp: connOk_def idsInv_def)
    show ?thesis
      using old sid s uniq fields unfolding idsInv_def c'(4)
      by (auto dest: less_imp_le) (metis less_irrefl)+
  qed
  ultimately show ?thesis
    using c' cnt fields free s
    by (intro exI [of _ ?s] exI [of _ c']) (auto simp: connOk_def simp: concurrent_update)
qed

lemma seatCount_freeStack: "seatInv c \<Longrightarrow> seatCount c + length (freeStack c) = 127"
  by (simp add: seatInv_def freeStack_def)

lemma endOfStream_ok:
  assumes ok: "connOk c" and act: "activeStream st c"
  shows "\<exists>c'. endOfStream f st c = Some c' \<and> connOk c' \<and> closes c' = closes c \<and>
    seatCount c' = (if outEndStream f then seatCount c - 1 else seatCount c) \<and>
    seated c' = (if outEndStream f then (seated c)(seatOf st := None) else seated c)"
proof (cases "outEndStream f")
  case False
  then show ?thesis using ok by (simp add: endOfStream_def)
next
  case True
  have inv: "seatInv c" using ok by (simp add: connOk_def)
  have at: "seated c (seatOf st) = Some st" using act by (simp add: activeStream_def seated_def)
  obtain c1 where c1: "retireStream st c = Some c1" "seatInv c1" "freeStack c1 = seatOf st # freeStack c"
    "seated c1 = (seated c)(seatOf st := None)"
    using retireStream_seatInv [OF inv at] by blast
  have fields: "closes c1 = closes c" "lastStreamID c1 = lastStreamID c" "concurrentStreams c1 = concurrentStreams c"
    using c1(1) by (auto simp: retireStream_def putFreeSeat_def Let_def split: bind_splits)
  have cnt: "seatCount c = seatCount c1 + 1"
    using seatCount_freeStack [OF inv] seatCount_freeStack [OF c1(2)] c1(3) by simp
  have "idsInv c1"
    using ok unfolding connOk_def idsInv_def c1(4) fields by (auto split: if_splits)
  moreover have "unat (concurrentStreams c1 - 1) = seatCount c1"
    using ok cnt fields unat_dec [of "concurrentStreams c1"] by (simp add: connOk_def)
  ultimately show ?thesis
    using True c1 fields cnt by (simp add: endOfStream_def connOk_def concurrent_update)
qed

lemma processFields_ok:
  assumes ok: "connOk c" and p: "processFieldsInFrame decode f c = Some (e, c')"
  shows "connOk c' \<and> closes c' = closes c"
proof (cases "streamID f > lastStreamID c \<and> concurrentStreams c \<noteq> 127")
  case True
  let ?st = "(getServer2Stream (streamID f) (initialWindowSize (peerSettings c)))
    \<lparr>streamState := (if endStream f then StateRemoteClosed else StateOpen)\<rparr>"
  let ?c1 = "c\<lparr>lastStreamID := streamID f\<rparr>"
  have same: "sameSeats c ?c1" using True by (auto simp: sameSeats_def)
  obtain s' c2 where a: "appendStream ?st ?c1 = Some (s', c2)"
    "connOk (c2\<lparr>concurrentStreams := concurrentStreams c2 + 1\<rparr>)" "closes c2 = closes c"
    using connOk_append [OF ok, of "streamID f" ?c1 ?st] True by (auto simp: getServer2Stream_def)
  obtain block where b: "effective (theBuffer c) f = Some block"
    using p True by (auto simp: processFieldsInFrame_def Let_def http2MaxConcurrentStreams_def split: bind_splits if_splits)
  show ?thesis
    using p True a same ok sameSeats_connOk [OF same ok] b
    by (auto simp: processFieldsInFrame_def Let_def http2MaxConcurrentStreams_def split: if_splits)
next
  case False
  then show ?thesis
    using p ok sameSeats_connOk
    by (auto simp: processFieldsInFrame_def Let_def http2MaxConcurrentStreams_def split: bind_splits if_splits option.splits
        dest!: searchStream_sameSeats dest: sameSeats_connOk) (auto simp: sameSeats_def)
qed

lemma processors_ok:
  assumes ok: "connOk c" and p: "server2InFrameProcessors decode now f c = Some (e, c')"
  shows "connOk c' \<and> closes c' = closes c"
proof -
  have same: "sameSeats c c'" if "processPingInFrame now f c = Some (e, c')"
    using that by (auto simp: processPingInFrame_def Let_def split: bind_splits if_splits option.splits
        dest!: sendOutFrame_sameSeats) (auto simp: sameSeats_def)
  have win: "sameSeats c c'" if "processWindowUpdateInFrame f c = Some (e, c')"
    using that by (auto simp: processWindowUpdateInFrame_def Let_def sameSeats_def split: bind_splits if_splits)
  have set: "sameSeats c c'" if "processSettingsInFrame f c = Some (e, c')"
    using that by (auto simp: processSettingsInFrame_def sameSeats_def split: if_splits)
  have rst: "sameSeats c c'" if "processResetStreamInFrame f c = Some (e, c')"
    using that by (auto simp: processResetStreamInFrame_def split: if_splits)
  obtain process where pr: "idx [processDataInFrame f, processFieldsInFrame decode f, processPriorityInFrame f,
        processResetStreamInFrame f, processSettingsInFrame f, \<lambda>c. None, processPingInFrame now f,
        \<lambda>c. None, processWindowUpdateInFrame f, \<lambda>c. None] (unat (kind f)) = Some process" "process c = Some (e, c')"
    using p by (auto simp: server2InFrameProcessors_def split: bind_splits)
  then have "process \<in> {processDataInFrame f, processFieldsInFrame decode f, processPriorityInFrame f,
        processResetStreamInFrame f, processSettingsInFrame f, \<lambda>c. None, processPingInFrame now f,
        processWindowUpdateInFrame f}"
    using nth_mem [of "unat (kind f)" "[processDataInFrame f, processFieldsInFrame decode f, processPriorityInFrame f,
        processResetStreamInFrame f, processSettingsInFrame f, \<lambda>c. None, processPingInFrame now f,
        \<lambda>c. None, processWindowUpdateInFrame f, \<lambda>c. None]"]
    unfolding idx_eq_Some_iff by auto
  then consider "process = processFieldsInFrame decode f" | "sameSeats c c'"
    using pr(2) same win set rst by (auto simp: processDataInFrame_def processPriorityInFrame_def)
  then show ?thesis
  proof cases
    case 1
    then show ?thesis using processFields_ok [OF ok] pr(2) by simp
  next
    case 2
    then show ?thesis using sameSeats_connOk [OF 2 ok] by (simp add: sameSeats_def)
  qed
qed

lemma closeConn_ok: "connOk (closeConn c) = connOk c" "closes (closeConn c) = closes c + 1"
  by (simp_all add: closeConn_def connOk_def seatInv_def idsInv_def seated_def freeStack_def seatCount_def)

lemma goaway_ok:
  "goawayCloseConn h2e c = Some c' \<Longrightarrow> connOk c \<Longrightarrow> connOk c' \<and> closes c' = closes c + 1"
  by (auto simp: goawayCloseConn_def closeConn_ok split: bind_splits prod.splits
      dest!: sendOutFrame_sameSeats dest: sameSeats_connOk) (auto simp: sameSeats_def)

lemma count_positive: "connOk c \<Longrightarrow> 0 < concurrentStreams c \<longleftrightarrow> 0 < seatCount c"
  by (simp add: connOk_def word_less_nat_alt)

lemma afterServe_inv: "connOk (conn s) \<Longrightarrow> closes (conn s) = 1 \<Longrightarrow> serverInv (afterServe s)"
  using count_positive [of "conn s"] by (auto simp: afterServe_def serverInv_def)

lemma afterServe_phase: "phaseOf (afterServe s) \<noteq> Serve" "conn (afterServe s) = conn s"
  by (simp_all add: afterServe_def)

lemma goawayAndLeave_inv:
  "goawayAndLeave h2e w s = Some s' \<Longrightarrow> connOk (conn s) \<Longrightarrow> closes (conn s) = 0 \<Longrightarrow> serverInv s'"
  by (auto simp: goawayAndLeave_def split: bind_splits intro!: afterServe_inv dest: goaway_ok)

inductive_cases serverStepE: "serverStep decode s s'"

lemma serveIncoming_inv:
  assumes s: "connOk (conn s)" "closes (conn s) = 0" "phaseOf s = Serve" and st: "serveIncoming decode now e s = Some s'"
  shows "serverInv s'"
proof -
  have same: "serverInv s" using s by (simp add: serverInv_def)
  show ?thesis
  proof (cases e)
    case (Frame f)
    show ?thesis
    proof (cases "isUnknown f")
      case True
      then show ?thesis using st same Frame by (simp add: serveIncoming_def)
    next
      case False
      with st Frame obtain err c where p: "server2InFrameProcessors decode now f (conn s) = Some (err, c)"
        and s': "(case err of None \<Rightarrow> Some (s\<lparr>conn := c\<rparr>)
           | Some (H2 h2e) \<Rightarrow> goawayAndLeave h2e True (s\<lparr>conn := c\<rparr>)
           | Some IoError \<Rightarrow> goawayAndLeave InternalError True (s\<lparr>conn := c\<rparr>)) = Some s'"
        by (auto simp: serveIncoming_def split: bind_splits)
      have c: "connOk c" "closes c = 0" using processors_ok [OF s(1) p] s(2) by simp_all
      consider "err = None" "s' = s\<lparr>conn := c\<rparr>" | h2e where "goawayAndLeave h2e True (s\<lparr>conn := c\<rparr>) = Some s'"
        using s' by (cases err) (auto split: connError.splits)
      then show ?thesis
      proof cases
        case 1
        then show ?thesis using c s(3) by (simp add: serverInv_def)
      next
        case 2
        then show ?thesis by (rule goawayAndLeave_inv) (use c in simp_all)
      qed
    qed
  next
    case NetErr
    then show ?thesis using s st by (auto simp: serveIncoming_def closeConn_ok intro: afterServe_inv)
  qed (use s st goawayAndLeave_inv in \<open>auto simp: serveIncoming_def\<close>)
qed

lemma serveOutgoing_inv:
  assumes s: "connOk (conn s)" "closes (conn s) = 0" "phaseOf s = Serve" "activeStream st (conn s)"
    and st: "serveOutgoing f st s = Some s'"
  shows "serverInv s'"
proof -
  obtain c where c: "endOfStream f st (conn s) = Some c" "connOk c" "closes c = 0"
    using endOfStream_ok [OF s(1,4), of f] s(2) by auto
  with st obtain e c' where c': "sendOutFrame f c = Some (e, c')"
    "s' = (if e = None then s\<lparr>conn := c'\<rparr> else afterServe (s\<lparr>conn := closeConn c', waitReceive := True\<rparr>))"
    by (auto simp: serveOutgoing_def split: bind_splits)
  note same = sendOutFrame_sameSeats [OF c'(1)]
  have "connOk c'" "closes c' = 0"
    using sameSeats_connOk [OF same c(2)] same c(3) by (simp_all add: sameSeats_def)
  then show ?thesis
    using c'(2) s(3) afterServe_inv [of "s\<lparr>conn := closeConn c', waitReceive := True\<rparr>"]
    by (auto simp: serverInv_def closeConn_ok)
qed

lemma drainOutgoing_inv:
  assumes s: "connOk (conn s)" "closes (conn s) = 1" "activeStream st (conn s)" "phaseOf s = Drain"
    "0 < seatCount (conn s)"
    and st: "drainOutgoing f st s = Some s'"
  shows "serverInv s'"
proof -
  obtain c where c: "endOfStream f st (conn s) = Some c" "connOk c" "closes c = 1"
    using endOfStream_ok [OF s(1,3), of f] s(2) by auto
  then show ?thesis
    using st s(4) count_positive [OF c(2)] by (auto simp: drainOutgoing_def serverInv_def Let_def split: if_splits)
qed

lemma serverInvD:
  assumes "serverInv s"
  shows "connOk (conn s)" "phaseOf s = Serve \<Longrightarrow> closes (conn s) = 0" "phaseOf s \<noteq> Serve \<Longrightarrow> closes (conn s) = 1"
    "phaseOf s = Drain \<Longrightarrow> 0 < seatCount (conn s)" "phaseOf s = WaitReceive \<Longrightarrow> seatCount (conn s) = 0"
    "phaseOf s = Quit \<Longrightarrow> seatCount (conn s) = 0"
  using assms by (simp_all add: serverInv_def)

lemma serverStep_inv: "serverStep decode s s' \<Longrightarrow> serverInv s \<Longrightarrow> serverInv s'"
proof (induction rule: serverStep.induct)
  case (incoming s now e s')
  show ?case
    by (rule serveIncoming_inv [OF serverInvD(1) [OF incoming(3)] serverInvD(2) [OF incoming(3,1)] incoming(1,2)])
next
  case (outgoing s stream f s')
  show ?case
    by (rule serveOutgoing_inv [OF serverInvD(1) [OF outgoing(4)] serverInvD(2) [OF outgoing(4,1)] outgoing(1,2,3)])
next
  case (draining s stream f s')
  have "closes (conn s) = 1" by (rule serverInvD(3) [OF draining(4)]) (simp add: draining(1))
  then show ?case
    by (rule drainOutgoing_inv [OF serverInvD(1) [OF draining(4)] _ draining(2,1) serverInvD(4) [OF draining(4,1)] draining(3)])
next
  case (receiveQuit s)
  then show ?case by (simp add: serverInv_def)
qed

lemma http2FreeSeats_props:
  "length http2FreeSeats = 127" "distinct http2FreeSeats" "seat \<in> set http2FreeSeats \<longleftrightarrow> unat seat < 127"
proof -
  have u: "unat (word_of_nat n :: uint8) = n" if "n < 127" for n
    by (rule unat_word_of_nat_less) (use that in simp)
  show "length http2FreeSeats = 127" by (simp add: http2FreeSeats_def)
  show "distinct http2FreeSeats"
    unfolding http2FreeSeats_def distinct_map by (auto intro!: inj_onI dest!: arg_cong [of _ _ unat] simp: u)
  show "seat \<in> set http2FreeSeats \<longleftrightarrow> unat seat < 127"
  proof
    assume "unat seat < 127"
    then show "seat \<in> set http2FreeSeats"
      unfolding http2FreeSeats_def by (auto intro!: image_eqI [of _ _ "unat seat"])
  next
    assume "seat \<in> set http2FreeSeats"
    then show "unat seat < 127" unfolding http2FreeSeats_def using u by auto
  qed
qed

lemma connOk_start: "connOk ((onGet (onPut c))\<lparr>closes := n\<rparr>)"
proof -
  let ?c = "(onGet (onPut c))\<lparr>closes := n\<rparr>"
  have c: "freeSeats ?c = http2FreeSeats" "freeSeatsTop ?c = 255" "activeStreams ?c = replicate 127 None"
    "activeStreamIDs ?c = replicate 128 0" "concurrentStreams ?c = 0"
    by (simp_all add: onGet_def onPut_def Let_def)
  have none: "seated ?c seat = None" for seat by (simp add: seated_def c(3))
  moreover have "seatCount ?c = 0" "freeStack ?c = http2FreeSeats"
    using c(1,2) by (simp_all add: seatCount_def freeStack_def)
  ultimately show ?thesis
    unfolding connOk_def seatInv_def idsInv_def c using http2FreeSeats_props by (simp add: c)
qed

lemma serverReach_inv: "serverReach decode s \<Longrightarrow> serverInv s"
proof (induction rule: serverReach.induct)
  case (start c)
  then show ?case by (simp add: serverInv_def connOk_start)
next
  case (step s s')
  then show ?case using serverStep_inv by blast
qed

text \<open>C13: an active stream sits on a seat below 127 of its own, and giving its seat back leaves
  the connection's seats as they were before it was entered; while fewer than 127 streams are
  active, a stream can be entered, and with 127 it panics.\<close>

theorem appendStream_retireStream:
  assumes "seatInv c"
  shows "if card {seat. seated c seat \<noteq> None} < 127
    then \<exists>s' c' c''. appendStream s c = Some (s', c') \<and> unat (seatOf s') < 127 \<and>
      seated c (seatOf s') = None \<and> seated c' = (seated c)(seatOf s' \<mapsto> s') \<and>
      retireStream s' c' = Some c'' \<and> seated c'' = seated c \<and> freeStack c'' = freeStack c
    else appendStream s c = None"
proof (cases "card {seat. seated c seat \<noteq> None} < 127")
  case True
  obtain s' c' where a: "appendStream s c = Some (s', c')" "seatInv c'" "seated c (seatOf s') = None"
    "seated c' = (seated c)(seatOf s' \<mapsto> s')"
    using seats.enter_possible [OF assms True] by blast
  moreover obtain c'' where "retireStream s' c' = Some c''" "freeStack c'' = freeStack c" "seated c'' = seated c"
    using seats.enter_leave [OF assms a(1)] by blast
  moreover have "unat (seatOf s') < 127"
    using seats.at_seat [OF a(2), of "seatOf s'" s'] a(4) by simp
  ultimately show ?thesis using True by auto
next
  case False
  then have "length (freeStack c) = 0" using seats.count_free_at [OF assms] by linarith
  then have "freeStack c = []" by simp
  then show ?thesis using False appendStream_full [OF assms] by simp
qed

lemma seatInv_start: "seatInv (onGet (onPut c))"
  using connOk_start [of "closes c" c]
  by (simp add: connOk_def onGet_def onPut_def Let_def seatInv_def seated_def freeStack_def seatCount_def)

lemma seated_start: "seated (onGet (onPut c)) = (\<lambda>seat. None)"
  by (simp add: onGet_def onPut_def Let_def seated_def fun_eq_iff)

theorem appendStream_retireStream_witness:
  "\<forall>c. \<exists>s' c'. appendStream (getServer2Stream 1 65535) (onGet (onPut c)) = Some (s', c') \<and>
     seated c' (seatOf s') = Some s'"
proof
  fix c
  show "\<exists>s' c'. appendStream (getServer2Stream 1 65535) (onGet (onPut c)) = Some (s', c') \<and>
     seated c' (seatOf s') = Some s'"
    using appendStream_retireStream [OF seatInv_start, of c "getServer2Stream 1 65535"]
    by (auto simp: seated_start)
qed

text \<open>C14: looking up a stream id never runs off the table of ids and finds a stream exactly when
  one with that id is active.\<close>

theorem searchStream_correct:
  assumes "seatInv c" "target \<noteq> 0"
  shows "\<exists>r c'. searchStream target c = Some (r, c') \<and> seatInv c' \<and> seated c' = seated c \<and>
    (case r of None \<Rightarrow> \<forall>seat s. seated c seat = Some s \<longrightarrow> nativeID s \<noteq> target
     | Some s \<Rightarrow> nativeID s = target \<and> seated c (seatOf s) = Some s)"
  using searchStream_spec [OF assms] seatInv_ids127 [OF assms(1), of target]
  by (auto simp: seated_def fun_eq_iff)

theorem searchStream_correct_witness:
  "\<forall>c. \<exists>c'. searchStream 5 (onGet (onPut c)) = Some (None, c')"
proof
  fix c
  show "\<exists>c'. searchStream 5 (onGet (onPut c)) = Some (None, c')"
    using searchStream_correct [OF seatInv_start, of 5 c] by (auto simp: seated_start split: option.splits)
qed

text \<open>C8: whatever the peer and the streams send, and for every field decoder: the counter of
  streams is the number of active streams, no two active streams share an id, every active id is
  at most the last one, the socket is closed exactly once, on leaving the serving loop, and
  \<open>manage\<close> quits only when no stream is active.\<close>

theorem serverReach_safe:
  assumes "serverReach decode s"
  shows "let c = conn s in
    unat (concurrentStreams c) = card {seat. seated c seat \<noteq> None} \<and>
    (\<forall>a b x y. seated c a = Some x \<longrightarrow> seated c b = Some y \<longrightarrow> nativeID x = nativeID y \<longrightarrow> a = b) \<and>
    (\<forall>a x. seated c a = Some x \<longrightarrow> nativeID x \<le> lastStreamID c) \<and>
    closes c = (if phaseOf s = Serve then 0 else 1) \<and>
    (phaseOf s = Quit \<longrightarrow> (\<forall>seat. seated c seat = None))"
proof -
  note inv = serverReach_inv [OF assms]
  note ok = serverInvD(1) [OF inv]
  then have si: "seatInv (conn s)" and cnt: "unat (concurrentStreams (conn s)) = seatCount (conn s)" and ids: "idsInv (conn s)"
    by (simp_all add: connOk_def)
  have card: "seatCount (conn s) = card {seat. seated (conn s) seat \<noteq> None}"
    using seats.count_free_at [OF si] seatCount_freeStack [OF si] by simp
  have "\<forall>seat. seated (conn s) seat = None" if "phaseOf s = Quit"
    using serverInvD(6) [OF inv that] card by simp
  then show ?thesis
    using cnt card ids inv by (auto simp: Let_def idsInv_def serverInv_def)
qed

theorem serverReach_safe_witness:
  "\<forall>c. let s = \<lparr>conn = (onGet (onPut c))\<lparr>closes := 0\<rparr>, phaseOf = Serve, waitReceive = False\<rparr> in
     serverReach decodeFields s \<and> closes (conn s) = 0"
  using serverReach_safe [OF serverReach.start [of decodeFields]] by (auto simp: Let_def intro: serverReach.start)

text \<open>C9: waiting for the streams ends: in a reachable draining state, the last frame of any active
  stream is taken without a panic and leaves one active stream less, and after the last of them
  \<open>manage\<close> goes on to wait for \<open>receive\<close> or quits.\<close>

theorem drain_progress:
  assumes "serverReach decode s" "phaseOf s = Drain" "activeStream stream (conn s)" "outEndStream f"
  shows "\<exists>s'. drainOutgoing f stream s = Some s' \<and> serverReach decode s' \<and>
    card {seat. seated (conn s') seat \<noteq> None} + 1 = card {seat. seated (conn s) seat \<noteq> None} \<and>
    (phaseOf s' = Drain \<longleftrightarrow> (\<exists>seat. seated (conn s') seat \<noteq> None))"
proof -
  have inv: "connOk (conn s)" "0 < seatCount (conn s)"
    using serverInvD [OF serverReach_inv [OF assms(1)]] assms(2) by simp_all
  obtain c' where c': "endOfStream f stream (conn s) = Some c'" "connOk c'" "seatCount c' = seatCount (conn s) - 1"
    using endOfStream_ok [OF inv(1) assms(3), of f] assms(4) by auto
  then obtain s' where s': "drainOutgoing f stream s = Some s'" "conn s' = c'"
    "phaseOf s' = Drain \<longleftrightarrow> 0 < concurrentStreams c'"
    using assms(2) by (auto simp: drainOutgoing_def Let_def)
  have card: "seatCount c = card {seat. seated c seat \<noteq> None}" if "connOk c" for c
    using that seats.count_free_at [of c] seatCount_freeStack [of c] by (simp add: connOk_def)
  have "serverReach decode s'"
    using serverReach.step [OF assms(1) serverStep.draining [OF assms(2,3) s'(1)]] .
  moreover have "0 < card {seat. seated c' seat \<noteq> None} \<longleftrightarrow> (\<exists>seat. seated c' seat \<noteq> None)"
    by (auto simp: card_gt_0_iff)
  ultimately show ?thesis
    using s' c' inv(2) card [OF inv(1)] card [OF c'(2)] count_positive [OF c'(2)] by auto
qed

lemma seated_closeConn: "seated (closeConn c) = seated c"
  by (simp add: closeConn_def seated_def fun_eq_iff)

definition openFrame :: http2InFrame where
  "openFrame = http2InFrame_zero\<lparr>streamID := 1, kind := 1\<rparr>"

definition freshServer :: "http2Conn \<Rightarrow> server2Conn" where
  "freshServer c = \<lparr>conn = (onGet (onPut c))\<lparr>closes := 0\<rparr>, phaseOf = Serve, waitReceive = False\<rparr>"

lemma open_then_close:
  "\<exists>s stream. serverReach (\<lambda>_. True) s \<and> phaseOf s = Drain \<and> activeStream stream (conn s) \<and>
     seated (conn s) = [seatOf stream \<mapsto> stream]"
proof -
  obtain c0 :: http2Conn where True by simp
  let ?c = "conn (freshServer c0)"
  let ?st = "(getServer2Stream 1 (initialWindowSize (peerSettings ?c)))\<lparr>streamState := StateOpen\<rparr>"
  have c: "lastStreamID ?c = 0" "concurrentStreams ?c = 0" "closes ?c = 0"
    by (simp_all add: freshServer_def onGet_def onPut_def Let_def)
  have ok: "connOk ?c" using connOk_start by (simp add: freshServer_def)
  obtain st' c1 where a: "appendStream ?st (?c\<lparr>lastStreamID := 1\<rparr>) = Some (st', c1)"
    "connOk (c1\<lparr>concurrentStreams := concurrentStreams c1 + 1\<rparr>)" "closes c1 = 0"
    "seated c1 = (seated ?c)(seatOf st' \<mapsto> st')" "concurrentStreams c1 = 0"
    using connOk_append [OF ok, of 1 "?c\<lparr>lastStreamID := 1\<rparr>" ?st] c by (auto simp: getServer2Stream_def)
  let ?c2 = "c1\<lparr>concurrentStreams := concurrentStreams c1 + 1\<rparr>"
  have sd: "seated ?c2 = [seatOf st' \<mapsto> st']"
    using a(4) by (simp add: concurrent_update freshServer_def seated_def onGet_def onPut_def Let_def fun_eq_iff)
  have eff: "effective (theBuffer (?c\<lparr>lastStreamID := 1\<rparr>)) openFrame = Some []"
    by (simp add: effective_def sub_def openFrame_def http2InFrame_zero_def)
  have flds: "streamID openFrame = 1" "kind openFrame = 1" "\<not> endStream openFrame" "\<not> isUnknown openFrame"
    by (simp_all add: openFrame_def http2InFrame_zero_def isUnknown_def frame_kinds word_le_nat_alt)
  have "server2InFrameProcessors (\<lambda>_. True) 0 openFrame ?c = Some (None, ?c2)"
    using a(1) c eff flds
    by (simp add: server2InFrameProcessors_def idx_def processFieldsInFrame_def Let_def http2MaxConcurrentStreams_def)
  then have s1: "serveIncoming (\<lambda>_. True) 0 (Frame openFrame) (freshServer c0) = Some ((freshServer c0)\<lparr>conn := ?c2\<rparr>)"
    using flds by (simp add: serveIncoming_def)
  have start: "serverReach (\<lambda>_. True) (freshServer c0)"
    unfolding freshServer_def by (rule serverReach.start)
  have r1: "serverReach (\<lambda>_. True) ((freshServer c0)\<lparr>conn := ?c2\<rparr>)"
    by (rule serverReach.step [OF start serverStep.incoming [OF _ s1]]) (simp add: freshServer_def)
  let ?s2 = "(freshServer c0)\<lparr>conn := closeConn ?c2, phaseOf := Drain\<rparr>"
  have cc: "concurrentStreams (closeConn ?c2) = 1" using a(5) by (simp add: closeConn_def)
  have "serveIncoming (\<lambda>_. True) 0 NetErr ((freshServer c0)\<lparr>conn := ?c2\<rparr>) = Some ?s2"
    using cc by (simp add: serveIncoming_def afterServe_def freshServer_def)
  then have r2: "serverReach (\<lambda>_. True) ?s2"
    by (intro serverReach.step [OF r1 serverStep.incoming]) (auto simp: freshServer_def)
  have sd2: "seated (conn ?s2) = [seatOf st' \<mapsto> st']"
    using sd by (simp add: seated_closeConn)
  then have "activeStream st' (conn ?s2)"
    by (auto simp: activeStream_def seated_def dest!: fun_cong [of _ _ "seatOf st'"] split: if_splits)
  then show ?thesis using r2 sd2 by (intro exI [of _ ?s2] exI [of _ st']) simp
qed

theorem drain_progress_witness:
  "\<exists>s s' stream. phaseOf s = Drain \<and> activeStream stream (conn s) \<and>
     drainOutgoing (pongFrame\<lparr>outEndStream := True\<rparr>) stream s = Some s' \<and> phaseOf s' \<noteq> Drain"
proof -
  obtain s stream where s: "serverReach (\<lambda>_. True) s" "phaseOf s = Drain" "activeStream stream (conn s)"
    "seated (conn s) = [seatOf stream \<mapsto> stream]"
    using open_then_close by blast
  then have "{seat. seated (conn s) seat \<noteq> None} = {seatOf stream}" by auto
  then have "card {seat. seated (conn s) seat \<noteq> None} = 1" by simp
  then show ?thesis
    using drain_progress [OF s(1-3), of "pongFrame\<lparr>outEndStream := True\<rparr>"] s
    by (auto simp: card_eq_0_iff)
qed

subsection \<open>Settings\<close>

text \<open>The pairs of identifier and value in a settings payload.\<close>

fun settingPairs :: "bytes \<Rightarrow> (uint16 \<times> uint32) list" where
  "settingPairs (a # b # c # d # e # f # rest) = (be16 [a, b], be32 [c, d, e, f]) # settingPairs rest"
| "settingPairs _ = []"

text \<open>RFC 9113, section 6.5.2: the value of a setting is checked alone.\<close>

definition settingError :: "bool \<Rightarrow> uint16 \<times> uint32 \<Rightarrow> http2Error option" where
  "settingError asClient = (\<lambda>(ident, val).
     if ident = 2 \<and> (val > 1 \<or> val = 1 \<and> asClient) then Some ProtocolError
     else if ident = 4 \<and> val > 0x7fffffff then Some FlowControlError
     else if ident = 5 \<and> (val < 16384 \<or> val > 16777215) then Some ProtocolError
     else None)"

text \<open>The last value given for an identifier, if any.\<close>

definition lastValue :: "uint16 \<Rightarrow> (uint16 \<times> uint32) list \<Rightarrow> uint32 \<Rightarrow> uint32" where
  "lastValue ident ps old = (case filter (\<lambda>p. fst p = ident) (rev ps) of [] \<Rightarrow> old | p # _ \<Rightarrow> snd p)"

definition settingsAfter :: "(uint16 \<times> uint32) list \<Rightarrow> http2Settings \<Rightarrow> http2Settings" where
  "settingsAfter ps s = \<lparr>maxHeaderTableSize = lastValue 1 ps (maxHeaderTableSize s),
     enablePush = (enablePush s \<and> 2 \<notin> fst ` set ps),
     maxConcurrentStreams = lastValue 3 ps (maxConcurrentStreams s),
     initialWindowSize = lastValue 4 ps (initialWindowSize s),
     maxFrameSize = lastValue 5 ps (maxFrameSize s),
     maxHeaderListSize = lastValue 6 ps (maxHeaderListSize s)\<rparr>"

lemma lastValue_Cons: "lastValue i (p # ps) old = lastValue i ps (if fst p = i then snd p else old)"
  by (auto simp: lastValue_def split: list.splits)

lemma lastValue_Nil [simp]: "lastValue i [] old = old"
  by (simp add: lastValue_def)

text \<open>The state of the loop: the settings with the window delta not yet added.\<close>

definition withDelta :: "http2Settings \<times> uint32 \<Rightarrow> http2Settings" where
  "withDelta = (\<lambda>(s, d). s\<lparr>initialWindowSize := initialWindowSize s + d\<rparr>)"

lemma applySetting_spec:
  "applySetting asClient ident val (s, d) =
     (case settingError asClient (ident, val) of
        Some e \<Rightarrow> Fail (H2 e)
      | None \<Rightarrow> Done (if ident = 4 then (s, val - initialWindowSize s)
                       else (s\<lparr>maxHeaderTableSize := (if ident = 1 then val else maxHeaderTableSize s),
                              enablePush := (enablePush s \<and> ident \<noteq> 2),
                              maxConcurrentStreams := (if ident = 3 then val else maxConcurrentStreams s),
                              maxFrameSize := (if ident = 5 then val else maxFrameSize s),
                              maxHeaderListSize := (if ident = 6 then val else maxHeaderListSize s)\<rparr>, d)))"
  by (auto simp: applySetting_def settingError_def)

lemma settingsAfter_Cons:
  assumes "settingError asClient p = None" "applySetting asClient (fst p) (snd p) sd = Done sd'"
  shows "settingsAfter (p # ps) (withDelta sd) = settingsAfter ps (withDelta sd') \<and>
     initialWindowSize (fst sd') = initialWindowSize (fst sd)"
  using assms
  by (cases sd; cases p) (auto simp: applySetting_spec withDelta_def settingsAfter_def lastValue_Cons split: if_splits)

fun settingsOutcome :: "bool \<Rightarrow> (uint16 \<times> uint32) list \<Rightarrow> http2Error option" where
  "settingsOutcome asClient [] = None"
| "settingsOutcome asClient (p # ps) =
     (case settingError asClient p of Some e \<Rightarrow> Some e | None \<Rightarrow> settingsOutcome asClient ps)"

lemma be_slice:
  "be16 (slice (xs @ [a, b, c, d, e, f] @ ys) (length xs) (length xs + 2)) = be16 [a, b]"
  "be32 (slice (xs @ [a, b, c, d, e, f] @ ys) (length xs + 2) (length xs + 6)) = be32 [c, d, e, f]"
  by (simp_all add: slice_def)

lemma updateLoop_spec:
  "length rest = 6 * n \<Longrightarrow>
   (case settingsOutcome asClient (settingPairs rest) of
      Some e \<Rightarrow> updateLoop asClient (pre @ rest) (length pre) n sd = Fail (H2 e)
    | None \<Rightarrow> \<exists>sd'. updateLoop asClient (pre @ rest) (length pre) n sd = Done sd' \<and>
        initialWindowSize (fst sd') = initialWindowSize (fst sd) \<and>
        withDelta sd' = settingsAfter (settingPairs rest) (withDelta sd))"
proof (induction n arbitrary: pre rest sd)
  case 0
  then show ?case by (cases sd) (simp add: settingsAfter_def withDelta_def)
next
  case (Suc n)
  then obtain a b c d e f rest' where r: "rest = [a, b, c, d, e, f] @ rest'" "length rest' = 6 * n"
    by (auto simp: length_Suc_conv numeral_eq_Suc)
  let ?pre = "pre @ [a, b, c, d, e, f]"
  let ?p = "(be16 [a, b], be32 [c, d, e, f])"
  have step: "updateLoop asClient (pre @ rest) (length pre) (Suc n) sd =
      andThen (applySetting asClient (fst ?p) (snd ?p) sd)
        (\<lambda>s. updateLoop asClient (?pre @ rest') (length pre + 6) n s)"
    using r be_slice [of pre a b c d e f rest'] by (simp add: sub_def)
  have lp: "length pre + 6 = length ?pre" by simp
  have pairs: "settingPairs rest = ?p # settingPairs rest'" using r by simp
  show ?case
  proof (cases "settingError asClient ?p")
    case (Some x)
    then show ?thesis unfolding step pairs by (cases sd) (simp add: applySetting_spec)
  next
    case None
    then obtain sd1 where sd1: "applySetting asClient (fst ?p) (snd ?p) sd = Done sd1"
      by (cases sd) (simp add: applySetting_spec)
    note eq = settingsAfter_Cons [OF None sd1]
    show ?thesis
      using Suc.IH [OF r(2), of ?pre sd1] None sd1 eq unfolding step pairs lp
      by (auto split: option.splits)
  qed
qed

text \<open>a settings frame is applied as RFC 9113 says: the first setting with an illegal value makes
  the call fail with the error for that setting, and otherwise each setting takes the last value
  given for it, unknown identifiers ignored; the initial window is set through a difference of
  32-bit words and still ends exactly at that value.\<close>

theorem updatePeerSettings_correct:
  assumes "effective (theBuffer c) f = Some payload" "frameLength f = length payload" "6 dvd length payload"
  shows "updatePeerSettings f asClient c =
    (case settingsOutcome asClient (settingPairs payload) of
       Some e \<Rightarrow> Fail (H2 e)
     | None \<Rightarrow> Done (c\<lparr>peerSettings := settingsAfter (settingPairs payload) (peerSettings c)\<rparr>))"
proof -
  obtain n where n: "length payload = 6 * n" using assms(3) by blast
  have sd: "withDelta (peerSettings c, 0) = peerSettings c" by (simp add: withDelta_def)
  show ?thesis
  proof (cases "settingsOutcome asClient (settingPairs payload)")
    case None
    then obtain s d where sd': "updateLoop asClient payload 0 n (peerSettings c, 0) = Done (s, d)"
      "withDelta (s, d) = settingsAfter (settingPairs payload) (peerSettings c)"
      using updateLoop_spec [OF n, of asClient "[]" "(peerSettings c, 0)"] sd by (auto simp: split: prod.splits)
    have "(if d \<noteq> 0 then s\<lparr>initialWindowSize := initialWindowSize s + d\<rparr> else s) = withDelta (s, d)"
      by (simp add: withDelta_def)
    then have "updatePeerSettings f asClient c = Done (c\<lparr>peerSettings := withDelta (s, d)\<rparr>)"
      using sd'(1) assms(1,2) n by (auto simp: updatePeerSettings_def Let_def split: if_splits)
    then show ?thesis using sd'(2) None by simp
  next
    case (Some e)
    then show ?thesis
      using updateLoop_spec [OF n, of asClient "[]" "(peerSettings c, 0)"] assms n
      by (simp add: updatePeerSettings_def)
  qed
qed

text \<open>The server's own preface settings, as a peer of this implementation would apply them.\<close>

definition prefaceSettings :: bytes where
  "prefaceSettings = [0, 1, 0x00, 0x00, 0x10, 0x00, 0, 3, 0x00, 0x00, 0x00, 0x7f, 0, 4, 0x00, 0x00, 0xff, 0xff,
     0, 5, 0x00, 0x00, 0x40, 0x00, 0, 6, 0x00, 0x00, 0x40, 0x00]"

definition settingsConn :: http2Conn where
  "settingsConn = setBuffer 0 prefaceSettings (idleConn [] [])"

theorem updatePeerSettings_correct_witness:
  "updatePeerSettings (openFrame\<lparr>frameLength := 30, efctFrom := 0, efctEdge := 30\<rparr>) False settingsConn =
     Done (settingsConn\<lparr>peerSettings := http2InitialSettings\<rparr>)"
proof -
  have c: "theBuffer settingsConn = prefaceSettings" "peerSettings settingsConn = http2InitialSettings"
    by (simp_all add: settingsConn_def idleConn_def setBuffer_def)
  let ?f = "openFrame\<lparr>frameLength := 30, efctFrom := 0, efctEdge := 30\<rparr>"
  have len: "length prefaceSettings = 30" by (simp add: prefaceSettings_def)
  have e: "effective (theBuffer settingsConn) ?f = Some prefaceSettings" "frameLength ?f = length prefaceSettings"
    "6 dvd length prefaceSettings"
    unfolding len by (simp_all add: c effective_def sub_def len slice_def)
  have p: "settingPairs prefaceSettings = [(1, 4096), (3, 127), (4, 65535), (5, 16384), (6, 16384)]"
    by (simp add: prefaceSettings_def be16_def be32_def)
  show ?thesis
    using updatePeerSettings_correct [OF e, of False]
    by (simp add: c p settingError_def settingsAfter_def lastValue_def http2InitialSettings_def)
qed

end
