(* ===== verification/Lexer.thy ===== *)
theory Lexer
  imports Utilities "HOL-Library.Sublist"
begin

text \<open>
  The lexer of the configurator (\<open>hemi/hemi_configurator.go\<close>, from the token list on), together
  with the tables it consults: \<open>signedComps\<close> of \<open>hemi/hemi_components.go\<close> and \<open>varCodes\<close> of
  \<open>hemi/mix.go\<close>.

  A \<open>panic(error)\<close> is a \<open>Fail\<close>, a run-time panic of Go (an index out of range) is \<open>Panic\<close>, and the
  process exits of \<open>UseExitln\<close> and \<open>BugExitln\<close> are \<open>Fail (Exit \<dots>)\<close>, because \<open>recover\<close> does not see
  them.  The lexer's \<open>index\<close> is passed along; its \<open>limit\<close> is the length of the text.  Reading a
  file and fetching a URL are parameters, held in the record \<open>lexEnv\<close>.

  The first lemmas bound the index at every step (\<open>scanStep_progress\<close>), which makes the scan
  loop total; the properties are that scanning a text cannot hit a run-time panic, that every
  token it returns is well formed, and that every list of well-formed tokens is read back from
  its own text.
\<close>

type_synonym int32 = "32 word"

subsection \<open>Tokens\<close>

datatype tokenKind =
    tokenComponent | tokenProperty
  | tokenLeftBrace | tokenRightBrace | tokenLeftBracket | tokenRightBracket
  | tokenLeftParen | tokenRightParen | tokenComma | tokenColon | tokenPlus | tokenEqual
  | tokenCompare | tokenFSCheck | tokenAND | tokenOR
  | tokenBool | tokenInteger | tokenString | tokenDuration | tokenList | tokenDict | tokenVariable

fun tokenNames :: "tokenKind \<Rightarrow> string" where
  "tokenNames tokenComponent = ''component''"
| "tokenNames tokenProperty = ''property''"
| "tokenNames tokenLeftBrace = ''leftBrace''"
| "tokenNames tokenRightBrace = ''rightBrace''"
| "tokenNames tokenLeftBracket = ''leftBracket''"
| "tokenNames tokenRightBracket = ''rightBracket''"
| "tokenNames tokenLeftParen = ''leftParen''"
| "tokenNames tokenRightParen = ''rightParen''"
| "tokenNames tokenComma = ''comma''"
| "tokenNames tokenColon = ''colon''"
| "tokenNames tokenPlus = ''plus''"
| "tokenNames tokenEqual = ''equal''"
| "tokenNames tokenCompare = ''compare''"
| "tokenNames tokenFSCheck = ''fsCheck''"
| "tokenNames tokenAND = ''and''"
| "tokenNames tokenOR = ''or''"
| "tokenNames tokenBool = ''bool''"
| "tokenNames tokenInteger = ''integer''"
| "tokenNames tokenString = ''string''"
| "tokenNames tokenDuration = ''duration''"
| "tokenNames tokenList = ''list''"
| "tokenNames tokenDict = ''dict''"
| "tokenNames tokenVariable = ''variable''"

text \<open>\<open>soloKinds\<close> and \<open>soloTexts\<close>: the tokens of one character; the text is the character itself.\<close>

definition soloKinds :: "byte \<Rightarrow> tokenKind option" where
  "soloKinds b =
    (if b = ch CHR ''{'' then Some tokenLeftBrace
     else if b = ch CHR ''}'' then Some tokenRightBrace
     else if b = ch CHR ''['' then Some tokenLeftBracket
     else if b = ch CHR '']'' then Some tokenRightBracket
     else if b = ch CHR ''('' then Some tokenLeftParen
     else if b = ch CHR '')'' then Some tokenRightParen
     else if b = ch CHR '','' then Some tokenComma
     else if b = ch CHR '':'' then Some tokenColon
     else if b = ch CHR ''+'' then Some tokenPlus
     else None)"

record token =
  kind :: tokenKind
  info :: int
  line :: int32
  tfile :: bytes
  ttext :: bytes

definition token_name :: "token \<Rightarrow> string" where
  "token_name t = tokenNames (kind t)"

subsection \<open>Tables\<close>

datatype compType =
    compTypeStage | compTypeFixture | compTypeBackend | compTypeNode | compTypeService
  | compTypeHstate | compTypeHcache | compTypeWebapp | compTypeRule | compTypeHandlet
  | compTypeReviser | compTypeSocklet | compTypeQUIXRouter | compTypeTCPXRouter
  | compTypeUDPXRouter | compTypeCase | compTypeQUIXDealet | compTypeTCPXDealet
  | compTypeUDPXDealet | compTypeServer | compTypeCronjob

text \<open>The numbers \<open>1 + iota\<close> gives the component types; the token's \<open>info\<close> field holds them.\<close>

fun compNumber :: "compType \<Rightarrow> int" where
  "compNumber compTypeStage = 1"
| "compNumber compTypeFixture = 2"
| "compNumber compTypeBackend = 3"
| "compNumber compTypeNode = 4"
| "compNumber compTypeService = 5"
| "compNumber compTypeHstate = 6"
| "compNumber compTypeHcache = 7"
| "compNumber compTypeWebapp = 8"
| "compNumber compTypeRule = 9"
| "compNumber compTypeHandlet = 10"
| "compNumber compTypeReviser = 11"
| "compNumber compTypeSocklet = 12"
| "compNumber compTypeQUIXRouter = 13"
| "compNumber compTypeTCPXRouter = 14"
| "compNumber compTypeUDPXRouter = 15"
| "compNumber compTypeCase = 16"
| "compNumber compTypeQUIXDealet = 17"
| "compNumber compTypeTCPXDealet = 18"
| "compNumber compTypeUDPXDealet = 19"
| "compNumber compTypeServer = 20"
| "compNumber compTypeCronjob = 21"

lemma compNumber_inject [simp]: "compNumber a = compNumber b \<longleftrightarrow> a = b"
  by (cases a; cases b; simp)

definition signedComps0 :: "bytes \<rightharpoonup> int" where
  "signedComps0 = map_of
    [(bs ''stage'', compNumber compTypeStage), (bs ''node'', compNumber compTypeNode),
     (bs ''service'', compNumber compTypeService), (bs ''webapp'', compNumber compTypeWebapp),
     (bs ''rule'', compNumber compTypeRule), (bs ''quixRouter'', compNumber compTypeQUIXRouter),
     (bs ''tcpxRouter'', compNumber compTypeTCPXRouter),
     (bs ''udpxRouter'', compNumber compTypeUDPXRouter), (bs ''case'', compNumber compTypeCase)]"

definition varCodes :: "bytes \<rightharpoonup> int" where
  "varCodes = map_of
    [(bs ''srcHost'', 0), (bs ''srcPort'', 1), (bs ''udsMode'', 2), (bs ''tlsMode'', 3),
     (bs ''serverName'', 4), (bs ''nextProto'', 5),
     (bs ''method'', 0), (bs ''scheme'', 1), (bs ''authority'', 2), (bs ''hostname'', 3),
     (bs ''colonport'', 4), (bs ''path'', 5), (bs ''uri'', 6), (bs ''encodedPath'', 7),
     (bs ''queryString'', 8), (bs ''contentType'', 9)]"

subsection \<open>Errors and environment\<close>

datatype exitCode = CodeBug | CodeUse | CodeEnv

datatype configError =
    UnknownCharacter byte int32 bytes
  | LexUnexpectedEOF
  | IncludeInTextMode
  | BadConstant bytes int32 bytes
  | BadFSCheck int32 bytes
  | BadCompareOrFSCheck int32 bytes
  | BadAND int32 bytes
  | BadOR int32 bytes
  | BadComponent bytes int32 bytes
  | CannotLoad bytes
  | StackOverflow
  | ParseError string
  | OutOfFuel
  | Exit exitCode string

record lexEnv =
  topDir :: bytes
  logDir :: bytes
  tmpDir :: bytes
  varDir :: bytes
  signedComps :: "bytes \<Rightarrow> int option"
  readFile :: "bytes \<Rightarrow> bytes option"
  parseURL :: "bytes \<Rightarrow> (bytes \<times> bytes \<times> bytes) option"
  loadURL :: "bytes \<Rightarrow> bytes \<Rightarrow> bytes \<Rightarrow> bytes option"

text \<open>\<open>_signComp\<close>: a sign may be registered once.\<close>

definition signComp :: "bytes \<Rightarrow> compType \<Rightarrow> (bytes \<rightharpoonup> int) \<Rightarrow> (configError, bytes \<rightharpoonup> int) outcome" where
  "signComp compSign type comps =
    (if comps compSign \<noteq> None then Fail (Exit CodeBug ''conflicting component sign'')
     else Done (comps(compSign \<mapsto> compNumber type)))"

record lexer =
  ltext :: bytes
  lbase :: bytes
  lfile :: bytes

definition limit :: "lexer \<Rightarrow> nat" where
  "limit l = length (ltext l)"

subsection \<open>Moving the index\<close>

definition nextUntil :: "lexer \<Rightarrow> byte \<Rightarrow> nat \<Rightarrow> nat" where
  "nextUntil l b i =
    (case indexByte (drop i (ltext l)) b of None \<Rightarrow> limit l | Some k \<Rightarrow> i + k)"

definition nextTokenIs :: "lexer \<Rightarrow> byte \<Rightarrow> nat \<Rightarrow> (configError, bool) outcome" where
  "nextTokenIs l b i =
    (if i + 1 \<noteq> limit l then andThen (checked (idx (ltext l) (i + 1))) (\<lambda>c. Done (c = b))
     else Done False)"

definition checkEOF :: "lexer \<Rightarrow> nat \<Rightarrow> (configError, unit) outcome" where
  "checkEOF l i = failUnless (i \<noteq> limit l) LexUnexpectedEOF"

definition mustNext :: "lexer \<Rightarrow> nat \<Rightarrow> (configError, byte) outcome" where
  "mustNext l i = andThen (checkEOF l (i + 1)) (\<lambda>_. checked (idx (ltext l) (i + 1)))"

function nextWhile :: "lexer \<Rightarrow> (byte \<Rightarrow> bool) \<Rightarrow> nat \<Rightarrow> nat" where
  "nextWhile l P i =
    (if i < limit l \<and> P (ltext l ! i) then nextWhile l P (i + 1) else i)"
  by pat_completeness auto
termination by (relation "measure (\<lambda>(l, P, i). limit l - i)") auto

declare nextWhile.simps [simp del]

definition nextAlnums :: "lexer \<Rightarrow> nat \<Rightarrow> nat" where
  "nextAlnums l i = nextWhile l byteIsAlnum (i + 1)"

definition nextIdents :: "lexer \<Rightarrow> nat \<Rightarrow> nat" where
  "nextIdents l i = nextWhile l byteIsIdent (i + 1)"

definition nextDigits :: "lexer \<Rightarrow> nat \<Rightarrow> nat" where
  "nextDigits l i = nextWhile l byteIsDigit (i + 1)"

text \<open>The loop over a stream comment: the index of its closing slash, or the end of the text.\<close>

function skipComment :: "lexer \<Rightarrow> nat \<Rightarrow> int32 \<Rightarrow> (configError, nat \<times> int32) outcome" where
  "skipComment l i n =
    (if i < limit l then
       let d = ltext l ! i in
       andThen (if d = ch CHR ''/'' then
                  andThen (checked (idx (ltext l) (i - 1))) (\<lambda>p. Done (p = ch CHR ''*''))
                else Done False) (\<lambda>stop.
       if stop then Done (i, n)
       else skipComment l (i + 1) (if d = ch CHR 0x0A then n + 1 else n))
     else Done (i, n))"
  by pat_completeness auto
termination by (relation "measure (\<lambda>(l, i, n). limit l - i)") auto

declare skipComment.simps [simp del]

subsection \<open>One token\<close>

text \<open>
  The cases of the switch in \<open>scan\<close>, each from the index of the token's first byte: the tokens
  appended, the index after them, and the line.
\<close>

type_synonym scanned = "(configError, token list \<times> nat \<times> int32) outcome"

definition mkToken :: "lexer \<Rightarrow> int32 \<Rightarrow> tokenKind \<Rightarrow> int \<Rightarrow> bytes \<Rightarrow> token" where
  "mkToken l n k v t = \<lparr>kind = k, info = v, line = n, tfile = lfile l, ttext = t\<rparr>"

definition emit :: "lexer \<Rightarrow> int32 \<Rightarrow> tokenKind \<Rightarrow> nat \<Rightarrow> nat \<Rightarrow> nat \<Rightarrow> scanned" where
  "emit l n k a b i =
    andThen (checked (sub (ltext l) a b)) (\<lambda>t. Done ([mkToken l n k 0 t], i, n))"

definition unknownCharacter :: "lexer \<Rightarrow> int32 \<Rightarrow> byte \<Rightarrow> scanned" where
  "unknownCharacter l n b = Fail (UnknownCharacter b n (lfile l))"

definition scanSlash :: "lexer \<Rightarrow> nat \<Rightarrow> int32 \<Rightarrow> scanned" where
  "scanSlash l i n =
    andThen (mustNext l i) (\<lambda>c.
    if c = ch CHR ''/'' then Done ([], nextUntil l 0x0A (i + 1), n)
    else if c = ch CHR ''*'' then
      andThen (skipComment l (i + 2) n) (\<lambda>(j, m).
      andThen (checkEOF l j) (\<lambda>_. Done ([], j + 1, m)))
    else unknownCharacter l n (ch CHR ''/''))"

definition scanEqual :: "lexer \<Rightarrow> nat \<Rightarrow> int32 \<Rightarrow> scanned" where
  "scanEqual l i n =
    andThen (if i + 1 < limit l
             then andThen (checked (idx (ltext l) (i + 1))) (\<lambda>c. Done (c = ch CHR ''=''))
             else Done False) (\<lambda>double.
    if double then Done ([mkToken l n tokenCompare 0 (bs ''=='')], i + 2, n)
    else Done ([mkToken l n tokenEqual 0 (bs ''='')], i + 1, n))"

definition scanString :: "lexer \<Rightarrow> byte \<Rightarrow> nat \<Rightarrow> int32 \<Rightarrow> scanned" where
  "scanString l s i n =
    (let j = nextUntil l s (i + 1) in
     andThen (checkEOF l j) (\<lambda>_. emit l n tokenString (i + 1) j (j + 1)))"

definition scanInclude ::
  "(bytes \<Rightarrow> bytes \<Rightarrow> (configError, token list) outcome) \<Rightarrow> lexer \<Rightarrow> nat \<Rightarrow> int32 \<Rightarrow> scanned" where
  "scanInclude inc l i n =
    (if lbase l = [] then Fail IncludeInTextMode
     else let j = nextUntil l (ch CHR ''>'') (i + 1) in
       andThen (checkEOF l j) (\<lambda>_.
       andThen (checked (sub (ltext l) (i + 1) j)) (\<lambda>f.
       andThen (inc (lbase l) f) (\<lambda>ts. Done (ts, j + 1, n)))))"

definition scanConstant :: "lexEnv \<Rightarrow> lexer \<Rightarrow> nat \<Rightarrow> int32 \<Rightarrow> scanned" where
  "scanConstant env l i n =
    (let j = nextAlnums l i in
     andThen (checked (sub (ltext l) (i + 1) j)) (\<lambda>name.
     andThen (if name = bs ''topDir'' then Done (topDir env)
              else if name = bs ''logDir'' then Done (logDir env)
              else if name = bs ''tmpDir'' then Done (tmpDir env)
              else if name = bs ''varDir'' then Done (varDir env)
              else Fail (BadConstant name n (lfile l))) (\<lambda>v.
     Done ([mkToken l n tokenString 0 v], j, n))))"

definition scanProperty :: "lexer \<Rightarrow> nat \<Rightarrow> int32 \<Rightarrow> scanned" where
  "scanProperty l i n =
    (let j = nextAlnums l i in emit l n tokenProperty (i + 1) j j)"

definition scanCompare :: "lexer \<Rightarrow> byte \<Rightarrow> nat \<Rightarrow> int32 \<Rightarrow> scanned" where
  "scanCompare l b i n =
    andThen (mustNext l i) (\<lambda>c.
    if c \<noteq> ch CHR ''='' then unknownCharacter l n b
    else emit l n tokenCompare i (i + 2) (i + 2))"

definition scanVariable :: "lexer \<Rightarrow> nat \<Rightarrow> int32 \<Rightarrow> scanned" where
  "scanVariable l i n =
    andThen (nextTokenIs l (ch CHR ''='') i) (\<lambda>cmp.
    if \<not> cmp then
      let j = nextIdents l i in
      andThen (checked (sub (ltext l) (i + 1) j)) (\<lambda>name.
      let code = (case varCodes name of Some c \<Rightarrow> c | None \<Rightarrow> - 1) in
      Done ([mkToken l n tokenVariable code name], j, n))
    else scanCompare l (ch CHR ''$'') i n)"

definition scanFSCheck :: "lexer \<Rightarrow> nat \<Rightarrow> int32 \<Rightarrow> scanned" where
  "scanFSCheck l i n =
    andThen (mustNext l i) (\<lambda>c.
    if c \<noteq> ch CHR ''f'' \<and> c \<noteq> ch CHR ''d'' \<and> c \<noteq> ch CHR ''e'' \<and> c \<noteq> ch CHR ''D'' \<and> c \<noteq> ch CHR ''E''
    then Fail (BadFSCheck n (lfile l))
    else emit l n tokenFSCheck i (i + 2) (i + 2))"

definition scanBang :: "lexer \<Rightarrow> nat \<Rightarrow> int32 \<Rightarrow> scanned" where
  "scanBang l i n =
    andThen (mustNext l i) (\<lambda>c.
    if c = ch CHR ''='' \<or> c = ch CHR ''^'' \<or> c = ch CHR ''$'' \<or> c = ch CHR ''*'' \<or> c = ch CHR ''~''
    then emit l n tokenCompare i (i + 2) (i + 2)
    else if c = ch CHR ''f'' \<or> c = ch CHR ''d'' \<or> c = ch CHR ''e''
    then emit l n tokenFSCheck i (i + 2) (i + 2)
    else Fail (BadCompareOrFSCheck n (lfile l)))"

definition scanAND :: "lexer \<Rightarrow> nat \<Rightarrow> int32 \<Rightarrow> scanned" where
  "scanAND l i n =
    andThen (mustNext l i) (\<lambda>c.
    if c \<noteq> ch CHR ''&'' then Fail (BadAND n (lfile l))
    else Done ([mkToken l n tokenAND 0 (bs ''&&'')], i + 2, n))"

definition scanOR :: "lexer \<Rightarrow> nat \<Rightarrow> int32 \<Rightarrow> scanned" where
  "scanOR l i n =
    andThen (mustNext l i) (\<lambda>c.
    if c \<noteq> ch CHR ''|'' then Fail (BadOR n (lfile l))
    else Done ([mkToken l n tokenOR 0 (bs ''||'')], i + 2, n))"

definition scanIdentifier :: "lexEnv \<Rightarrow> lexer \<Rightarrow> nat \<Rightarrow> int32 \<Rightarrow> scanned" where
  "scanIdentifier env l i n =
    (let j = nextAlnums l i in
     andThen (checked (sub (ltext l) i j)) (\<lambda>identifier.
     if identifier = bs ''true'' \<or> identifier = bs ''false''
     then Done ([mkToken l n tokenBool 0 identifier], j, n)
     else case signedComps env identifier of
            Some type \<Rightarrow> Done ([mkToken l n tokenComponent type identifier], j, n)
          | None \<Rightarrow> Fail (BadComponent identifier n (lfile l))))"

definition isDurationUnit :: "byte \<Rightarrow> bool" where
  "isDurationUnit c \<longleftrightarrow> c = ch CHR ''s'' \<or> c = ch CHR ''m'' \<or> c = ch CHR ''h'' \<or> c = ch CHR ''d''"

definition isSizeUnit :: "byte \<Rightarrow> bool" where
  "isSizeUnit c \<longleftrightarrow> c = ch CHR ''K'' \<or> c = ch CHR ''M'' \<or> c = ch CHR ''G'' \<or> c = ch CHR ''T''"

definition scanNumber :: "lexer \<Rightarrow> nat \<Rightarrow> int32 \<Rightarrow> scanned" where
  "scanNumber l i n =
    (let j = nextDigits l i in
     if j < limit l then
       andThen (checked (idx (ltext l) j)) (\<lambda>c.
       if isDurationUnit c then emit l n tokenDuration i (j + 1) (j + 1)
       else if isSizeUnit c then emit l n tokenInteger i (j + 1) (j + 1)
       else emit l n tokenInteger i j j)
     else emit l n tokenInteger i j j)"

definition scanDefault :: "lexEnv \<Rightarrow> lexer \<Rightarrow> byte \<Rightarrow> nat \<Rightarrow> int32 \<Rightarrow> scanned" where
  "scanDefault env l b i n =
    (case soloKinds b of
       Some k \<Rightarrow> Done ([mkToken l n k 0 [b]], i + 1, n)
     | None \<Rightarrow>
         if byteIsAlpha b then scanIdentifier env l i n
         else if byteIsDigit b then scanNumber l i n
         else unknownCharacter l n b)"

definition scanStep ::
  "lexEnv \<Rightarrow> (bytes \<Rightarrow> bytes \<Rightarrow> (configError, token list) outcome) \<Rightarrow> lexer \<Rightarrow> nat \<Rightarrow> int32 \<Rightarrow> scanned" where
  "scanStep env inc l i n =
    (let b = ltext l ! i in
     if b = ch CHR '' '' \<or> b = 0x09 \<or> b = 0x0D then Done ([], i + 1, n)
     else if b = 0x0A then Done ([], i + 1, n + 1)
     else if b = ch CHR ''#'' then Done ([], nextUntil l 0x0A i, n)
     else if b = ch CHR ''/'' then scanSlash l i n
     else if b = ch CHR ''='' then scanEqual l i n
     else if b = 0x22 \<or> b = ch CHR 0x60 then scanString l b i n
     else if b = ch CHR ''<'' then scanInclude inc l i n
     else if b = ch CHR ''%'' then scanConstant env l i n
     else if b = ch CHR ''.'' then scanProperty l i n
     else if b = ch CHR ''$'' then scanVariable l i n
     else if b = ch CHR ''^'' \<or> b = ch CHR ''*'' \<or> b = ch CHR ''~'' then scanCompare l b i n
     else if b = ch CHR ''-'' then scanFSCheck l i n
     else if b = ch CHR ''!'' then scanBang l i n
     else if b = ch CHR ''&'' then scanAND l i n
     else if b = ch CHR ''|'' then scanOR l i n
     else scanDefault env l b i n)"

subsection \<open>Every step moves the index forward\<close>

lemma nextUntil_bounds: "i \<le> limit l \<Longrightarrow> i \<le> nextUntil l b i \<and> nextUntil l b i \<le> limit l"
  by (auto simp: nextUntil_def limit_def dest!: indexByte_Some split: option.splits)

lemma nextUntil_less: "i < limit l \<Longrightarrow> ltext l ! i \<noteq> b \<Longrightarrow> i < nextUntil l b i"
proof (cases "indexByte (drop i (ltext l)) b")
  case (Some k)
  assume "i < limit l" "ltext l ! i \<noteq> b"
  moreover have "drop i (ltext l) ! k = b" "k < length (drop i (ltext l))"
    using indexByte_Some [OF Some] by auto
  ultimately have "k \<noteq> 0"
    by (intro notI) (simp add: limit_def)
  with Some show ?thesis by (simp add: nextUntil_def)
qed (simp add: nextUntil_def)

lemma nextWhile_bounds: "i \<le> limit l \<Longrightarrow> i \<le> nextWhile l P i \<and> nextWhile l P i \<le> limit l"
proof (induction l P i rule: nextWhile.induct)
  case (1 l P i)
  then show ?case by (subst (1 2) nextWhile.simps) auto
qed

lemma scans_bounds:
  assumes "i < limit l"
  shows "i < nextAlnums l i" "nextAlnums l i \<le> limit l"
    "i < nextIdents l i" "nextIdents l i \<le> limit l"
    "i < nextDigits l i" "nextDigits l i \<le> limit l"
  using assms nextWhile_bounds [of "i + 1" l]
  by (auto simp: nextAlnums_def nextIdents_def nextDigits_def Suc_le_eq)

lemma skipComment_bounds:
  "i \<le> limit l \<Longrightarrow> skipComment l i n = Done (j, m) \<Longrightarrow> i \<le> j \<and> j \<le> limit l"
proof (induction l i n rule: skipComment.induct)
  case (1 l i n)
  show ?case
    using 1(2,3) 1(1) [OF _ refl]
    by (subst (asm) skipComment.simps)
       (fastforce simp: andThen_Done_iff Let_def split: if_splits)
qed

lemma mustNext_iff:
  "i < limit l \<Longrightarrow> mustNext l i = Done c \<longleftrightarrow> i + 1 < limit l \<and> ltext l ! (i + 1) = c"
  by (auto simp: mustNext_def checkEOF_def outcome_iffs limit_def idx_def checked_def)

lemma emit_iff:
  "a \<le> b \<Longrightarrow> b \<le> limit l \<Longrightarrow>
   emit l n k a b i = Done r \<longleftrightarrow> r = ([mkToken l n k 0 (slice (ltext l) a b)], i, n)"
  by (auto simp: emit_def limit_def sub_Some)

lemmas scan_defs = scanEqual_def scanString_def scanInclude_def scanConstant_def
  scanProperty_def scanCompare_def scanVariable_def scanFSCheck_def scanBang_def scanAND_def
  scanOR_def scanIdentifier_def scanNumber_def unknownCharacter_def

definition moves :: "lexer \<Rightarrow> nat \<Rightarrow> scanned \<Rightarrow> bool" where
  "moves l i r \<longleftrightarrow> (\<forall>ts j m. r = Done (ts, j, m) \<longrightarrow> i < j \<and> j \<le> limit l)"

lemma moves_Fail [simp]: "moves l i (Fail e)"
  by (simp add: moves_def)

lemma moves_Done [simp]: "moves l i (Done (ts, j, m)) \<longleftrightarrow> i < j \<and> j \<le> limit l"
  by (simp add: moves_def)

lemma moves_andThen: "(\<And>x. m = Done x \<Longrightarrow> moves l i (g x)) \<Longrightarrow> moves l i (andThen m g)"
  by (cases m) (auto simp: moves_def)

lemma moves_emit: "i < j \<Longrightarrow> j \<le> limit l \<Longrightarrow> moves l i (emit l n k a b j)"
  unfolding emit_def by (intro moves_andThen) simp

lemma scanSlash_moves: "i < limit l \<Longrightarrow> moves l i (scanSlash l i n)"
  unfolding scanSlash_def
  apply (intro moves_andThen)
  apply (simp add: mustNext_iff split del: if_split)
  using nextUntil_bounds [of "i + 1" l "0x0A"]
  apply (auto intro!: moves_andThen simp: checkEOF_def unknownCharacter_def dest!: skipComment_bounds [rotated])
  done

lemma scanCompare_moves: "i < limit l \<Longrightarrow> moves l i (scanCompare l b i n)"
  unfolding scanCompare_def unknownCharacter_def
  by (intro moves_andThen) (auto simp: mustNext_iff intro!: moves_emit)

lemma scanEqual_moves: "i < limit l \<Longrightarrow> moves l i (scanEqual l i n)"
  unfolding scanEqual_def by (intro moves_andThen) (auto simp: outcome_iffs split: if_splits)

lemma scanString_moves: "i < limit l \<Longrightarrow> moves l i (scanString l s i n)"
  using nextUntil_bounds [of "i + 1" l s]
  by (auto simp: scanString_def Let_def checkEOF_def intro!: moves_andThen moves_emit)

lemma scanInclude_moves: "i < limit l \<Longrightarrow> moves l i (scanInclude inc l i n)"
  using nextUntil_bounds [of "i + 1" l "ch CHR ''>''"]
  by (auto simp: scanInclude_def Let_def checkEOF_def intro!: moves_andThen)

lemma scanConstant_moves: "i < limit l \<Longrightarrow> moves l i (scanConstant env l i n)"
  by (auto simp: scanConstant_def Let_def scans_bounds intro!: moves_andThen)

lemma scanVariable_moves: "i < limit l \<Longrightarrow> moves l i (scanVariable l i n)"
  by (auto simp: scanVariable_def Let_def scans_bounds intro!: moves_andThen scanCompare_moves)

lemma scanTwo_moves:
  assumes "i < limit l"
  shows "moves l i (scanFSCheck l i n)" "moves l i (scanBang l i n)"
    "moves l i (scanAND l i n)" "moves l i (scanOR l i n)"
  using assms unfolding scanFSCheck_def scanBang_def scanAND_def scanOR_def
  by (auto simp: mustNext_iff intro!: moves_andThen moves_emit)

lemma scanIdentifier_moves: "i < limit l \<Longrightarrow> moves l i (scanIdentifier env l i n)"
  by (auto simp: scanIdentifier_def Let_def scans_bounds intro!: moves_andThen split: option.splits)

lemma scanNumber_moves: "i < limit l \<Longrightarrow> moves l i (scanNumber l i n)"
  by (auto simp: scanNumber_def Let_def scans_bounds less_SucI intro!: moves_andThen moves_emit)

lemma scanDefault_moves: "i < limit l \<Longrightarrow> moves l i (scanDefault env l b i n)"
  by (auto simp: scanDefault_def scanIdentifier_moves scanNumber_moves unknownCharacter_def
      split: option.splits)

lemma scanStep_moves: "i < limit l \<Longrightarrow> moves l i (scanStep env inc l i n)"
  using nextUntil_bounds [of i l "0x0A"] nextUntil_less [of i l "0x0A"]
  by (auto simp: scanStep_def Let_def scanProperty_def scans_bounds
      scanSlash_moves scanEqual_moves scanString_moves scanInclude_moves scanConstant_moves
      scanVariable_moves scanCompare_moves scanTwo_moves scanDefault_moves intro!: moves_emit)

lemma scanStep_progress:
  "scanStep env inc l i n = Done (ts, j, m) \<Longrightarrow> i < limit l \<Longrightarrow> i < j \<and> j \<le> limit l"
  using scanStep_moves [of i l env inc n] by (simp add: moves_def)

subsection \<open>The scan\<close>

function scanLoop ::
  "lexEnv \<Rightarrow> (bytes \<Rightarrow> bytes \<Rightarrow> (configError, token list) outcome) \<Rightarrow> lexer \<Rightarrow>
   nat \<Rightarrow> int32 \<Rightarrow> (configError, token list) outcome" where
  "scanLoop env inc l i n =
    (if i < limit l then
       andThen (scanStep env inc l i n) (\<lambda>(ts, j, m).
       andThen (scanLoop env inc l j m) (\<lambda>rest. Done (ts @ rest)))
     else Done [])"
  by pat_completeness auto
termination
  by (relation "measure (\<lambda>(env, inc, l, i, n). limit l - i)") (auto dest: scanStep_progress)

declare scanLoop.simps [simp del]

definition scan ::
  "lexEnv \<Rightarrow> (bytes \<Rightarrow> bytes \<Rightarrow> (configError, token list) outcome) \<Rightarrow> lexer \<Rightarrow>
   (configError, token list) outcome" where
  "scan env inc l = scanLoop env inc l 0 1"

definition loadLFS :: "lexEnv \<Rightarrow> bytes \<Rightarrow> bytes \<Rightarrow> (configError, bytes) outcome" where
  "loadLFS env base f =
    andThen (checked (idx f 0)) (\<lambda>c.
    andThen (if c \<noteq> ch CHR ''/'' then
               andThen (if base = [] then Panic else Done (List.last base)) (\<lambda>e.
               if e = ch CHR ''/'' then Done (base @ f) else Done (base @ bs ''/'' @ f))
             else Done f) (\<lambda>path.
    case readFile env path of None \<Rightarrow> Fail (CannotLoad path) | Some data \<Rightarrow> Done data))"

definition loadFromURL :: "lexEnv \<Rightarrow> bytes \<Rightarrow> bytes \<Rightarrow> (configError, bytes) outcome" where
  "loadFromURL env base f =
    (case parseURL env base of
       None \<Rightarrow> Fail (CannotLoad base)
     | Some (scheme, host, path) \<Rightarrow>
         (case loadURL env scheme host (path @ f) of
            None \<Rightarrow> Fail (CannotLoad (path @ f)) | Some data \<Rightarrow> Done data))"

definition hasPrefix :: "bytes \<Rightarrow> bytes \<Rightarrow> bool" where
  "hasPrefix s p \<longleftrightarrow> length p \<le> length s \<and> take (length p) s = p"

definition load :: "lexEnv \<Rightarrow> bytes \<Rightarrow> bytes \<Rightarrow> (configError, bytes) outcome" where
  "load env base f =
    (if hasPrefix base (bs ''http://'') \<or> hasPrefix base (bs ''https://'')
     then loadFromURL env base f else loadLFS env base f)"

text \<open>
  \<open>scanFile\<close> calls itself on included files.  Nothing bounds the recursion, so the model counts
  the nested calls: at zero the process dies of stack exhaustion, which \<open>recover\<close> cannot catch.
\<close>

primrec scanFile :: "nat \<Rightarrow> lexEnv \<Rightarrow> bytes \<Rightarrow> bytes \<Rightarrow> (configError, token list) outcome" where
  "scanFile 0 env base f = Fail StackOverflow"
| "scanFile (Suc depth) env base f =
    andThen (load env base f) (\<lambda>data.
    scan env (scanFile depth env) \<lparr>ltext = data, lbase = base, lfile = f\<rparr>)"

text \<open>In \<open>scanText\<close> the base is empty and no file is ever included.\<close>

definition scanText :: "lexEnv \<Rightarrow> bytes \<Rightarrow> (configError, token list) outcome" where
  "scanText env configText =
    scan env (scanFile 0 env) \<lparr>ltext = configText, lbase = [], lfile = []\<rparr>"

subsection \<open>Scanning a text cannot hit a run-time panic\<close>

text \<open>The errors a text can give: everything the lexer itself diagnoses, but no file error.\<close>

fun lexicalError :: "configError \<Rightarrow> bool" where
  "lexicalError (UnknownCharacter _ _ _) = True"
| "lexicalError LexUnexpectedEOF = True"
| "lexicalError IncludeInTextMode = True"
| "lexicalError (BadConstant _ _ _) = True"
| "lexicalError (BadFSCheck _ _) = True"
| "lexicalError (BadCompareOrFSCheck _ _) = True"
| "lexicalError (BadAND _ _) = True"
| "lexicalError (BadOR _ _) = True"
| "lexicalError (BadComponent _ _ _) = True"
| "lexicalError _ = False"

fun lexes :: "(configError, 'a) outcome \<Rightarrow> bool" where
  "lexes Panic = False"
| "lexes (Fail e) = lexicalError e"
| "lexes (Done x) = True"

lemma lexes_andThen: "lexes m \<Longrightarrow> (\<And>x. m = Done x \<Longrightarrow> lexes (g x)) \<Longrightarrow> lexes (andThen m g)"
  by (cases m) auto

lemma lexes_checkEOF [simp]: "lexes (checkEOF l i)"
  by (simp add: checkEOF_def failUnless_def)

lemma lexes_mustNext: "i < limit l \<Longrightarrow> lexes (mustNext l i)"
  by (auto simp: mustNext_def checkEOF_def failUnless_def idx_def limit_def)

lemma lexes_sub: "a \<le> b \<Longrightarrow> b \<le> limit l \<Longrightarrow> lexes (checked (sub (ltext l) a b))"
  by (simp add: sub_Some limit_def)

lemma lexes_idx: "i < limit l \<Longrightarrow> lexes (checked (idx (ltext l) i))"
  by (simp add: idx_Some limit_def)

lemma lexes_emit: "a \<le> b \<Longrightarrow> b \<le> limit l \<Longrightarrow> lexes (emit l n k a b j)"
  unfolding emit_def by (intro lexes_andThen lexes_sub) auto

lemma lexes_skipComment: "0 < i \<Longrightarrow> i \<le> limit l \<Longrightarrow> lexes (skipComment l i n)"
proof (induction l i n rule: skipComment.induct)
  case (1 l i n)
  show ?case
    using 1(2,3) 1(1) [OF _ refl]
    by (subst skipComment.simps)
       (auto simp: Let_def intro!: lexes_andThen lexes_idx split: if_splits)
qed

lemma lexes_nextTokenIs: "i < limit l \<Longrightarrow> lexes (nextTokenIs l b i)"
  by (auto simp: nextTokenIs_def limit_def intro!: lexes_andThen lexes_idx)

lemma lexes_scanSlash: "i < limit l \<Longrightarrow> lexes (scanSlash l i n)"
  by (auto simp: scanSlash_def unknownCharacter_def mustNext_iff
      intro!: lexes_andThen lexes_mustNext lexes_skipComment)

lemma lexes_scanCompare: "i < limit l \<Longrightarrow> lexes (scanCompare l b i n)"
  by (auto simp: scanCompare_def unknownCharacter_def mustNext_iff
      intro!: lexes_andThen lexes_mustNext lexes_emit)

lemma lexes_scanQuoted:
  assumes "i < limit l"
  shows "lexes (scanString l s i n)" "lbase l = [] \<Longrightarrow> lexes (scanInclude inc l i n)"
  using assms nextUntil_bounds [of "i + 1" l s]
  by (auto simp: scanString_def scanInclude_def Let_def intro!: lexes_andThen lexes_emit)

lemma lexes_scanNamed:
  assumes "i < limit l"
  shows "lexes (scanConstant env l i n)" "lexes (scanVariable l i n)"
    "lexes (scanProperty l i n)" "lexes (scanIdentifier env l i n)"
  using assms scans_bounds [of i l]
  by (auto simp: scanConstant_def scanVariable_def scanProperty_def scanIdentifier_def Let_def
      intro!: lexes_andThen lexes_emit lexes_sub lexes_nextTokenIs lexes_scanCompare
      split: option.splits)

lemma lexes_scanTwo:
  assumes "i < limit l"
  shows "lexes (scanFSCheck l i n)" "lexes (scanBang l i n)"
    "lexes (scanAND l i n)" "lexes (scanOR l i n)" "lexes (scanEqual l i n)"
  using assms
  by (auto simp: scanFSCheck_def scanBang_def scanAND_def scanOR_def scanEqual_def mustNext_iff
      intro!: lexes_andThen lexes_emit lexes_mustNext lexes_idx)

lemma lexes_scanNumber: "i < limit l \<Longrightarrow> lexes (scanNumber l i n)"
  using scans_bounds [of i l]
  by (auto simp: scanNumber_def Let_def intro!: lexes_andThen lexes_emit lexes_idx)

lemma lexes_scanStep: "i < limit l \<Longrightarrow> lbase l = [] \<Longrightarrow> lexes (scanStep env inc l i n)"
  by (auto simp: scanStep_def Let_def scanDefault_def unknownCharacter_def lexes_scanSlash
      lexes_scanCompare lexes_scanQuoted lexes_scanNamed lexes_scanTwo lexes_scanNumber
      split: option.splits)

lemma lexes_scanLoop: "lbase l = [] \<Longrightarrow> lexes (scanLoop env inc l i n)"
proof (induction env inc l i n rule: scanLoop.induct)
  case (1 env inc l i n)
  show ?case
    using 1(2) 1(1)
    by (subst scanLoop.simps) (auto intro!: lexes_andThen lexes_scanStep)
qed

text \<open>C20: Scanning a configuration text never indexes or slices out of range: \<open>scanText\<close> returns
  tokens or one of the errors the lexer itself diagnoses (an unknown character, an unexpected end,
  an include, a bad constant, comparison, check or component); it never reads a file.\<close>

theorem scanText_no_panic: "lexes (scanText env configText)"
  by (simp add: scanText_def scan_def lexes_scanLoop)

subsection \<open>Every token is well formed\<close>

definition compares :: "bytes list" where
  "compares = [bs ''=='', bs ''^='', bs ''$='', bs ''*='', bs ''~='', bs ''!='', bs ''!^'', bs ''!$'',
     bs ''!*'', bs ''!~'']"

definition fsChecks :: "bytes list" where
  "fsChecks = [bs ''-f'', bs ''-d'', bs ''-e'', bs ''-D'', bs ''-E'', bs ''!f'', bs ''!d'', bs ''!e'']"

definition isDigits :: "bytes \<Rightarrow> bool" where
  "isDigits w \<longleftrightarrow> w \<noteq> [] \<and> list_all byteIsDigit w"

definition isWord :: "bytes \<Rightarrow> bool" where
  "isWord w \<longleftrightarrow> w \<noteq> [] \<and> byteIsAlpha (hd w) \<and> list_all byteIsAlnum w"

fun wellFormed :: "lexEnv \<Rightarrow> tokenKind \<Rightarrow> int \<Rightarrow> bytes \<Rightarrow> bool" where
  "wellFormed env tokenComponent v t \<longleftrightarrow>
     isWord t \<and> t \<noteq> bs ''true'' \<and> t \<noteq> bs ''false'' \<and> signedComps env t = Some v"
| "wellFormed env tokenProperty v t \<longleftrightarrow> v = 0 \<and> list_all byteIsAlnum t"
| "wellFormed env tokenEqual v t \<longleftrightarrow> v = 0 \<and> t = bs ''=''"
| "wellFormed env tokenCompare v t \<longleftrightarrow> v = 0 \<and> t \<in> set compares"
| "wellFormed env tokenFSCheck v t \<longleftrightarrow> v = 0 \<and> t \<in> set fsChecks"
| "wellFormed env tokenAND v t \<longleftrightarrow> v = 0 \<and> t = bs ''&&''"
| "wellFormed env tokenOR v t \<longleftrightarrow> v = 0 \<and> t = bs ''||''"
| "wellFormed env tokenBool v t \<longleftrightarrow> v = 0 \<and> t \<in> {bs ''true'', bs ''false''}"
| "wellFormed env tokenInteger v t \<longleftrightarrow> v = 0 \<and>
     (isDigits t \<or> t \<noteq> [] \<and> isDigits (butlast t) \<and> isSizeUnit (last t))"
| "wellFormed env tokenDuration v t \<longleftrightarrow>
     v = 0 \<and> t \<noteq> [] \<and> isDigits (butlast t) \<and> isDurationUnit (last t)"
| "wellFormed env tokenString v t \<longleftrightarrow> v = 0"
| "wellFormed env tokenVariable v t \<longleftrightarrow> list_all byteIsIdent t \<and>
     v = (case varCodes t of Some c \<Rightarrow> c | None \<Rightarrow> - 1)"
| "wellFormed env tokenList v t \<longleftrightarrow> False"
| "wellFormed env tokenDict v t \<longleftrightarrow> False"
| "wellFormed env k v t \<longleftrightarrow> v = 0 \<and> (\<exists>b. t = [b] \<and> soloKinds b = Some k)"

definition wfToken :: "lexEnv \<Rightarrow> token \<Rightarrow> bool" where
  "wfToken env t = wellFormed env (kind t) (info t) (ttext t)"

lemma wfToken_mk [simp]: "wfToken env (mkToken l n k v t) = wellFormed env k v t"
  by (simp add: wfToken_def mkToken_def)

definition yields :: "lexEnv \<Rightarrow> scanned \<Rightarrow> bool" where
  "yields env r \<longleftrightarrow> (\<forall>ts j m. r = Done (ts, j, m) \<longrightarrow> list_all (wfToken env) ts)"

lemma yields_Fail [simp]: "yields env (Fail e)"
  by (simp add: yields_def)

lemma yields_Done [simp]: "yields env (Done (ts, j, m)) \<longleftrightarrow> list_all (wfToken env) ts"
  by (simp add: yields_def)

lemma yields_andThen: "(\<And>x. m = Done x \<Longrightarrow> yields env (g x)) \<Longrightarrow> yields env (andThen m g)"
  by (cases m) (auto simp: yields_def)

lemma yields_emit:
  "a \<le> b \<Longrightarrow> b \<le> limit l \<Longrightarrow> wellFormed env k 0 (slice (ltext l) a b) \<Longrightarrow>
   yields env (emit l n k a b j)"
  by (auto simp: yields_def emit_iff)

lemma nextWhile_holds:
  "i \<le> k \<Longrightarrow> k < nextWhile l P i \<Longrightarrow> P (ltext l ! k)"
proof (induction l P i rule: nextWhile.induct)
  case (1 l P i)
  show ?case
    using 1(2,3) 1(1)
    by (subst (asm) nextWhile.simps, cases "k = i") (auto split: if_splits)
qed

lemma nextWhile_slice:
  assumes "i \<le> limit l" "a \<le> i" "\<And>k. a \<le> k \<Longrightarrow> k < i \<Longrightarrow> P (ltext l ! k)"
  shows "list_all P (slice (ltext l) a (nextWhile l P i))"
proof -
  have "P (slice (ltext l) a (nextWhile l P i) ! k)"
    if "k < length (slice (ltext l) a (nextWhile l P i))" for k
  proof -
    have "a + k < nextWhile l P i" "nextWhile l P i \<le> length (ltext l)"
      using that nextWhile_bounds [OF assms(1)] by (auto simp: limit_def)
    then show ?thesis
      using assms(3) [of "a + k"] nextWhile_holds [of i "a + k" l P]
      by (cases "a + k < i") (auto simp: nth_slice)
  qed
  then show ?thesis by (simp add: list_all_length)
qed

lemma yields_scanSlash: "yields env (scanSlash l i n)"
  by (auto simp: scanSlash_def unknownCharacter_def intro!: yields_andThen)

lemma slice_two:
  "Suc i < limit l \<Longrightarrow> slice (ltext l) i (Suc (Suc i)) = [ltext l ! i, ltext l ! Suc i]"
  by (simp add: slice_Suc limit_def)

lemma yields_emit_two:
  "Suc i < limit l \<Longrightarrow> wellFormed env k 0 [ltext l ! i, ltext l ! Suc i] \<Longrightarrow>
   yields env (emit l n k i (Suc (Suc i)) (Suc (Suc i)))"
  using slice_two [of i l] by (intro yields_emit) auto

lemma yields_scanCompare:
  "i < limit l \<Longrightarrow> ltext l ! i \<in> {ch CHR ''^'', ch CHR ''*'', ch CHR ''~'', ch CHR ''$''} \<Longrightarrow>
   yields env (scanCompare l b i n)"
  unfolding scanCompare_def unknownCharacter_def
  by (intro yields_andThen) (auto simp: mustNext_iff compares_def intro!: yields_emit_two)

lemma yields_scanFSCheck:
  "i < limit l \<Longrightarrow> ltext l ! i = ch CHR ''-'' \<Longrightarrow> yields env (scanFSCheck l i n)"
  unfolding scanFSCheck_def
  by (intro yields_andThen) (auto simp: mustNext_iff fsChecks_def intro!: yields_emit_two)

lemma yields_scanBang:
  "i < limit l \<Longrightarrow> ltext l ! i = ch CHR ''!'' \<Longrightarrow> yields env (scanBang l i n)"
  unfolding scanBang_def
  by (intro yields_andThen) (auto simp: mustNext_iff fsChecks_def compares_def intro!: yields_emit_two)

lemma yields_scanOperators:
  "yields env (scanEqual l i n)" "yields env (scanAND l i n)" "yields env (scanOR l i n)"
  by (auto simp: scanEqual_def scanAND_def scanOR_def compares_def intro!: yields_andThen)

lemma yields_scanString: "i < limit l \<Longrightarrow> yields env (scanString l s i n)"
  using nextUntil_bounds [of "i + 1" l s]
  by (auto simp: scanString_def Let_def intro!: yields_andThen yields_emit)

lemma yields_scanInclude:
  "(\<And>b f ts. inc b f = Done ts \<Longrightarrow> list_all (wfToken env) ts) \<Longrightarrow> yields env (scanInclude inc l i n)"
  by (auto simp: scanInclude_def Let_def intro!: yields_andThen)

lemma yields_scanConstant: "yields env (scanConstant env l i n)"
  by (auto simp: scanConstant_def Let_def intro!: yields_andThen)

lemma scanned_word:
  assumes "i < limit l"
  shows "list_all P (slice (ltext l) (i + 1) (nextWhile l P (i + 1)))"
    "P (ltext l ! i) \<Longrightarrow> list_all P (slice (ltext l) i (nextWhile l P (i + 1)))"
  using assms nextWhile_slice [of "i + 1" l "i + 1" P] nextWhile_slice [of "i + 1" l i P]
  by (auto simp: less_Suc_eq)

lemma yields_scanProperty: "i < limit l \<Longrightarrow> yields env (scanProperty l i n)"
  using scans_bounds [of i l] scanned_word(1) [of i l byteIsAlnum]
  by (auto simp: scanProperty_def Let_def nextAlnums_def intro!: yields_emit)

lemma yields_scanVariable:
  "i < limit l \<Longrightarrow> ltext l ! i = ch CHR ''$'' \<Longrightarrow> yields env (scanVariable l i n)"
  using scans_bounds [of i l] scanned_word(1) [of i l byteIsIdent]
  by (auto simp: scanVariable_def Let_def nextIdents_def sub_Some limit_def
      intro!: yields_andThen yields_scanCompare)

lemma slice_head:
  "i < j \<Longrightarrow> j \<le> limit l \<Longrightarrow> slice (ltext l) i j \<noteq> [] \<and> hd (slice (ltext l) i j) = ltext l ! i"
  by (simp add: slice_Suc limit_def)

lemma slice_last:
  "i \<le> j \<Longrightarrow> j < limit l \<Longrightarrow> slice (ltext l) i (Suc j) = slice (ltext l) i j @ [ltext l ! j]"
  by (simp add: slice_def limit_def Suc_diff_le take_Suc_conv_app_nth)

lemma yields_scanIdentifier:
  assumes "i < limit l" "byteIsAlpha (ltext l ! i)"
  shows "yields env (scanIdentifier env l i n)"
proof -
  have "isWord (slice (ltext l) i (nextAlnums l i))"
    using slice_head [of i "nextAlnums l i" l] scans_bounds [OF assms(1)]
      scanned_word(2) [of i l byteIsAlnum] assms
    by (simp add: isWord_def nextAlnums_def byteIsAlnum_def)
  then show ?thesis
    using scans_bounds [OF assms(1)]
    by (auto simp: scanIdentifier_def Let_def sub_Some limit_def
        intro!: yields_andThen split: option.splits)
qed

lemma yields_scanNumber:
  assumes "i < limit l" "byteIsDigit (ltext l ! i)"
  shows "yields env (scanNumber l i n)"
proof -
  define j where "j = nextDigits l i"
  have j: "i < j" "j \<le> limit l"
    using scans_bounds [OF assms(1)] by (auto simp: j_def)
  have "isDigits (slice (ltext l) i j)"
    using slice_head [of i j l] j scanned_word(2) [of i l byteIsDigit] assms
    by (simp add: isDigits_def nextDigits_def j_def)
  then show ?thesis
    using j slice_last [of i j l]
    by (auto simp: scanNumber_def idx_Some limit_def simp flip: j_def intro!: yields_andThen yields_emit)
qed

lemma solo_wellFormed: "soloKinds b = Some k \<Longrightarrow> wellFormed env k 0 [b]"
  by (cases k) (auto simp: soloKinds_def split: if_splits)

lemma yields_scanStep:
  assumes "i < limit l" "\<And>b f ts. inc b f = Done ts \<Longrightarrow> list_all (wfToken env) ts"
  shows "yields env (scanStep env inc l i n)"
  using assms
  by (auto simp: scanStep_def Let_def scanDefault_def unknownCharacter_def yields_scanSlash
      yields_scanOperators yields_scanString yields_scanInclude yields_scanConstant
      yields_scanProperty yields_scanVariable yields_scanCompare yields_scanFSCheck yields_scanBang
      yields_scanIdentifier yields_scanNumber solo_wellFormed split: option.splits)

lemma scanLoop_wf:
  assumes "\<And>b f ts. inc b f = Done ts \<Longrightarrow> list_all (wfToken env) ts"
  shows "scanLoop env inc l i n = Done ts \<Longrightarrow> list_all (wfToken env) ts"
  using assms
proof (induction env inc l i n arbitrary: ts rule: scanLoop.induct)
  case (1 env inc l i n)
  show ?case
  proof (cases "i < limit l")
    case True
    then obtain ts1 j m rest where "scanStep env inc l i n = Done (ts1, j, m)"
      "scanLoop env inc l j m = Done rest" "ts = ts1 @ rest"
      using 1(2) by (subst (asm) scanLoop.simps) (auto simp: andThen_Done_iff)
    then show ?thesis
      using 1(1) [OF True] 1(3) yields_scanStep [OF True, of inc env n] by (auto simp: yields_def)
  next
    case False
    then show ?thesis using 1(2) by (subst (asm) scanLoop.simps) simp
  qed
qed

lemma scanFile_wf: "scanFile d env b f = Done ts \<Longrightarrow> list_all (wfToken env) ts"
proof (induction d arbitrary: b f ts)
  case (Suc d)
  then show ?case by (auto simp: andThen_Done_iff scan_def elim!: scanLoop_wf [rotated])
qed simp

text \<open>C21: Type of the tokens: whatever \<open>scanText\<close> or \<open>scanFile\<close> returns consists of well-formed
  tokens only: the text of a component is a registered sign and its \<open>info\<close> the registered type,
  an integer is digits with an optional size unit, a duration digits with a unit, a comparison one
  of the ten operators, a variable carries the code of \<open>varCodes\<close> or -1, and so on; tokens of kind
  list and dict never appear.\<close>

theorem scan_wellFormed:
  "scanText env t = Done ts \<or> scanFile depth env b f = Done ts \<Longrightarrow> list_all (wfToken env) ts"
  by (auto simp: scanText_def scan_def elim: scanFile_wf scanLoop_wf [rotated])

subsection \<open>Reading back what was written\<close>

definition render :: "token \<Rightarrow> bytes" where
  "render t =
    (case kind t of
       tokenProperty \<Rightarrow> ch CHR ''.'' # ttext t
     | tokenVariable \<Rightarrow> ch CHR ''$'' # ttext t
     | tokenString \<Rightarrow>
         (let q = (if 0x22 \<in> set (ttext t) then ch CHR 0x60 else 0x22) in q # ttext t @ [q])
     | _ \<Rightarrow> ttext t)"

definition printable :: "lexEnv \<Rightarrow> token \<Rightarrow> bool" where
  "printable env t \<longleftrightarrow> wfToken env t \<and>
     (kind t = tokenString \<longrightarrow> 0x22 \<notin> set (ttext t) \<or> ch CHR 0x60 \<notin> set (ttext t))"

fun numbered :: "bytes \<Rightarrow> int32 \<Rightarrow> token list \<Rightarrow> token list" where
  "numbered f n [] = []"
| "numbered f n (t # ts) = t\<lparr>line := n, tfile := f\<rparr> # numbered f (n + 1) ts"

lemma text_at:
  "drop i (ltext l) = x # xs \<Longrightarrow> i < limit l \<and> ltext l ! i = x \<and> drop (Suc i) (ltext l) = xs"
  by (metis Cons_nth_drop_Suc drop_all limit_def linorder_not_less list.discI list.inject)

lemma text_after:
  "drop i (ltext l) = w @ r \<Longrightarrow> drop (i + length w) (ltext l) = r"
  by (metis add.commute append_eq_conv_conj drop_drop)

lemma sub_word: "drop i (ltext l) = w @ r \<Longrightarrow> w \<noteq> [] \<or> i \<le> limit l \<Longrightarrow>
    sub (ltext l) i (i + length w) = Some w"
proof -
  assume *: "drop i (ltext l) = w @ r" "w \<noteq> [] \<or> i \<le> limit l"
  then have "length (ltext l) - i = length w + length r"
    by (metis length_append length_drop)
  with * show ?thesis
    by (cases w) (auto simp: sub_def slice_def limit_def)
qed

lemma nextWhile_word:
  "drop i (ltext l) = w @ c # r \<Longrightarrow> list_all P w \<Longrightarrow> \<not> P c \<Longrightarrow> nextWhile l P i = i + length w"
proof (induction w arbitrary: i)
  case Nil
  then show ?case using text_at [of i l c r] by (subst nextWhile.simps) simp
next
  case (Cons x w)
  have "i < limit l" "ltext l ! i = x" "drop (Suc i) (ltext l) = w @ c # r"
    using text_at [of i l x "w @ c # r"] Cons.prems by auto
  then show ?case using Cons by (subst nextWhile.simps) simp
qed

lemma indexByte_word: "s \<notin> set w \<Longrightarrow> indexByte (w @ s # r) s = Some (length w)"
  by (induction w) auto

lemma nextUntil_word:
  "drop i (ltext l) = w @ s # r \<Longrightarrow> s \<notin> set w \<Longrightarrow> nextUntil l s i = i + length w"
  by (simp add: nextUntil_def indexByte_word)

lemma blank_classes [simp]:
  "\<not> byteIsAlnum 0x0A" "\<not> byteIsIdent 0x0A" "\<not> byteIsDigit 0x0A"
  by (simp_all add: byteIsAlnum_def byteIsAlpha_def byteIsDigit_def byteIsIdent_def)

lemma alpha_special:
  "byteIsAlpha b \<Longrightarrow> b \<notin> {ch CHR '' '', 0x09, 0x0D, 0x0A, ch CHR ''#'', ch CHR ''/'', ch CHR ''='',
     0x22, ch CHR 0x60, ch CHR ''<'', ch CHR ''%'', ch CHR ''.'', ch CHR ''$'', ch CHR ''^'',
     ch CHR ''*'', ch CHR ''~'', ch CHR ''-'', ch CHR ''!'', ch CHR ''&'', ch CHR ''|''}"
  "byteIsAlpha b \<Longrightarrow> soloKinds b = None"
  by (auto simp: byteIsAlpha_def soloKinds_def)

lemma digit_special:
  "byteIsDigit b \<Longrightarrow> b \<notin> {ch CHR '' '', 0x09, 0x0D, 0x0A, ch CHR ''#'', ch CHR ''/'', ch CHR ''='',
     0x22, ch CHR 0x60, ch CHR ''<'', ch CHR ''%'', ch CHR ''.'', ch CHR ''$'', ch CHR ''^'',
     ch CHR ''*'', ch CHR ''~'', ch CHR ''-'', ch CHR ''!'', ch CHR ''&'', ch CHR ''|''}"
  "byteIsDigit b \<Longrightarrow> soloKinds b = None" "byteIsDigit b \<Longrightarrow> \<not> byteIsAlpha b"
  by (auto simp: byteIsAlpha_def byteIsDigit_def soloKinds_def word_le_nat_alt)

lemma unit_special:
  "isSizeUnit c \<Longrightarrow> \<not> byteIsDigit c \<and> \<not> isDurationUnit c" "isDurationUnit c \<Longrightarrow> \<not> byteIsDigit c"
  by (auto simp: isSizeUnit_def isDurationUnit_def byteIsDigit_def)

definition reads :: "lexEnv \<Rightarrow> token \<Rightarrow> bool" where
  "reads env t \<longleftrightarrow> (\<forall>inc l i n r. drop i (ltext l) = render t @ 0x0A # r \<longrightarrow>
     scanStep env inc l i n =
       Done ([t\<lparr>line := n, tfile := lfile l\<rparr>], i + length (render t), n))"

lemma mkToken_eq: "mkToken l n (kind t) (info t) (ttext t) = t\<lparr>line := n, tfile := lfile l\<rparr>"
  by (cases t) (simp add: mkToken_def)

lemma reads_word:
  assumes "isWord (ttext t)" "kind t \<in> {tokenComponent, tokenBool}" "wfToken env t"
  shows "reads env t"
  unfolding reads_def
proof (intro allI impI)
  fix inc and l :: lexer and i n r
  assume "drop i (ltext l) = render t @ 0x0A # r"
  then have d: "drop i (ltext l) = ttext t @ 0x0A # r"
    using assms(2) by (auto simp: render_def)
  obtain x w where w: "ttext t = x # w" "byteIsAlpha x" "list_all byteIsAlnum w"
    using assms(1) by (cases "ttext t") (auto simp: isWord_def)
  have at: "i < limit l" "ltext l ! i = x" "drop (Suc i) (ltext l) = w @ 0x0A # r"
    using text_at [of i l x "w @ 0x0A # r"] d w by auto
  have j: "nextAlnums l i = i + length (ttext t)"
    using nextWhile_word [OF at(3) w(3)] w(1) by (simp add: nextAlnums_def)
  have s: "sub (ltext l) i (i + length (ttext t)) = Some (ttext t)"
    using sub_word [OF d] w(1) by simp
  have "scanStep env inc l i n = scanIdentifier env l i n"
    using at alpha_special [OF w(2)] w(2) by (simp add: scanStep_def scanDefault_def)
  also have "\<dots> = Done ([mkToken l n (kind t) (info t) (ttext t)], i + length (ttext t), n)"
    using assms(2,3) by (auto simp: scanIdentifier_def j s wfToken_def)
  also have "length (ttext t) = length (render t)"
    using assms(2) by (auto simp: render_def)
  finally show "scanStep env inc l i n =
      Done ([t\<lparr>line := n, tfile := lfile l\<rparr>], i + length (render t), n)"
    by (simp add: mkToken_eq)
qed

lemma reads_number:
  assumes "kind t \<in> {tokenInteger, tokenDuration}" "wfToken env t"
  shows "reads env t"
  unfolding reads_def
proof (intro allI impI)
  fix inc and l :: lexer and i n r
  assume "drop i (ltext l) = render t @ 0x0A # r"
  then have d: "drop i (ltext l) = ttext t @ 0x0A # r"
    using assms(1) by (auto simp: render_def)
  obtain x w u where w: "ttext t = x # w @ u" "byteIsDigit x" "list_all byteIsDigit w"
    "u = [] \<and> kind t = tokenInteger \<or> (\<exists>c. u = [c] \<and>
       (kind t = tokenInteger \<and> isSizeUnit c \<or> kind t = tokenDuration \<and> isDurationUnit c))"
  proof -
    consider "isDigits (ttext t)" "kind t = tokenInteger"
      | ds c where "ttext t = ds @ [c]" "isDigits ds"
        "kind t = tokenInteger \<and> isSizeUnit c \<or> kind t = tokenDuration \<and> isDurationUnit c"
      using assms by (auto simp: wfToken_def) (metis append_butlast_last_id)+
    then show thesis
    proof cases
      case 1
      then show thesis
        using that [of "hd (ttext t)" "tl (ttext t)" "[]"]
        by (cases "ttext t") (auto simp: isDigits_def)
    next
      case 2
      then show thesis
        using that [of "hd ds" "tl ds" "[c]"] by (cases ds) (auto simp: isDigits_def)
    qed
  qed
  have i0: "info t = 0" using assms by (auto simp: wfToken_def)
  obtain c r' where cr: "u @ 0x0A # r = c # r'" "\<not> byteIsDigit c"
    using w(4) unit_special by (cases u) auto
  have at: "i < limit l" "ltext l ! i = x" "drop (Suc i) (ltext l) = w @ c # r'"
    using text_at [of i l x "w @ c # r'"] d w cr by auto
  define j where "j = i + Suc (length w)"
  have j: "nextDigits l i = j"
    using nextWhile_word [OF at(3) w(3) cr(2)] by (simp add: nextDigits_def j_def)
  have atj: "j < limit l" "ltext l ! j = c"
    using text_at [of j l c r'] text_after [OF at(3)] by (auto simp: j_def)
  have s: "sub (ltext l) i j = Some (x # w)"
    using sub_word [of i l "x # w" "u @ 0x0A # r"] d w(1) by (simp add: j_def)
  have su: "u = [c] \<Longrightarrow> sub (ltext l) i (Suc j) = Some (ttext t)"
    using sub_word [OF d] w(1) by (simp add: j_def)
  have units: "\<not> isDurationUnit 0x0A" "\<not> isSizeUnit 0x0A"
    by (auto simp: isSizeUnit_def isDurationUnit_def)
  have "scanStep env inc l i n = scanNumber l i n"
    using at digit_special [OF w(2)] w(2) by (simp add: scanStep_def scanDefault_def)
  also have "\<dots> = Done ([mkToken l n (kind t) (info t) (ttext t)], i + length (ttext t), n)"
    using w(4)
  proof (elim disjE exE conjE)
    assume "u = []" "kind t = tokenInteger"
    then show ?thesis
      using atj j s w(1) cr units i0
      by (auto simp: scanNumber_def idx_Some limit_def emit_def j_def)
  next
    fix c' assume "u = [c']"  "kind t = tokenInteger" "isSizeUnit c'"
    then show ?thesis
      using atj j su w(1) cr unit_special i0
      by (auto simp: scanNumber_def idx_Some limit_def emit_def j_def)
  next
    fix c' assume "u = [c']" "kind t = tokenDuration" "isDurationUnit c'"
    then show ?thesis
      using atj j su w(1) cr i0
      by (auto simp: scanNumber_def idx_Some limit_def emit_def j_def)
  qed
  also have "length (ttext t) = length (render t)"
    using assms(1) by (auto simp: render_def)
  finally show "scanStep env inc l i n =
      Done ([t\<lparr>line := n, tfile := lfile l\<rparr>], i + length (render t), n)"
    by (simp add: mkToken_eq)
qed

lemma reads_property:
  assumes "kind t = tokenProperty" "wfToken env t"
  shows "reads env t"
  unfolding reads_def
proof (intro allI impI)
  fix inc and l :: lexer and i n r
  assume d: "drop i (ltext l) = render t @ 0x0A # r"
  have w: "list_all byteIsAlnum (ttext t)" "info t = 0"
    using assms by (auto simp: wfToken_def)
  have at: "i < limit l" "ltext l ! i = ch CHR ''.''" "drop (Suc i) (ltext l) = ttext t @ 0x0A # r"
    using text_at [of i l "ch CHR ''.''" "ttext t @ 0x0A # r"] d assms(1) by (auto simp: render_def)
  have j: "nextAlnums l i = Suc i + length (ttext t)"
    using nextWhile_word [OF at(3) w(1)] by (simp add: nextAlnums_def)
  have "sub (ltext l) (Suc i) (Suc i + length (ttext t)) = Some (ttext t)"
    using sub_word [OF at(3)] at(1) by simp
  then have "scanStep env inc l i n =
      Done ([mkToken l n (kind t) (info t) (ttext t)], i + length (render t), n)"
    using at w(2) assms(1) by (simp add: scanStep_def scanProperty_def emit_def j render_def)
  then show "scanStep env inc l i n =
      Done ([t\<lparr>line := n, tfile := lfile l\<rparr>], i + length (render t), n)"
    by (simp add: mkToken_eq)
qed

lemma reads_variable:
  assumes "kind t = tokenVariable" "wfToken env t"
  shows "reads env t"
  unfolding reads_def
proof (intro allI impI)
  fix inc and l :: lexer and i n r
  assume d: "drop i (ltext l) = render t @ 0x0A # r"
  have w: "list_all byteIsIdent (ttext t)"
    and v: "info t = (case varCodes (ttext t) of Some c \<Rightarrow> c | None \<Rightarrow> - 1)"
    using assms by (auto simp: wfToken_def)
  have at: "i < limit l" "ltext l ! i = ch CHR ''$''" "drop (Suc i) (ltext l) = ttext t @ 0x0A # r"
    using text_at [of i l "ch CHR ''$''" "ttext t @ 0x0A # r"] d assms(1) by (auto simp: render_def)
  have j: "nextIdents l i = Suc i + length (ttext t)"
    using nextWhile_word [OF at(3) w(1)] by (simp add: nextIdents_def)
  have s: "sub (ltext l) (Suc i) (Suc (i + length (ttext t))) = Some (ttext t)"
    using sub_word [OF at(3)] at(1) by simp
  obtain c r' where c: "ttext t @ 0x0A # r = c # r'" "c \<noteq> ch CHR ''=''"
  proof (cases "ttext t")
    case (Cons c w)
    with w have "c \<noteq> ch CHR ''=''"
      by (auto simp: byteIsIdent_def byteIsAlnum_def byteIsAlpha_def byteIsDigit_def)
    with Cons show thesis using that by simp
  qed (use that in auto)
  have "nextTokenIs l (ch CHR ''='') i = Done False"
    using text_at [of "Suc i" l c r'] at(3) c by (auto simp: nextTokenIs_def idx_Some limit_def)
  then have "scanStep env inc l i n =
      Done ([mkToken l n (kind t) (info t) (ttext t)], i + length (render t), n)"
    using at assms(1) by (simp add: scanStep_def scanVariable_def j s render_def v)
  then show "scanStep env inc l i n =
      Done ([t\<lparr>line := n, tfile := lfile l\<rparr>], i + length (render t), n)"
    by (simp add: mkToken_eq)
qed

lemma reads_string:
  assumes "kind t = tokenString" "printable env t"
  shows "reads env t"
  unfolding reads_def
proof (intro allI impI)
  fix inc and l :: lexer and i n r
  assume d: "drop i (ltext l) = render t @ 0x0A # r"
  define q :: byte where "q = (if 0x22 \<in> set (ttext t) then ch CHR 0x60 else 0x22)"
  have rt: "render t = q # ttext t @ [q]" and q: "q = 0x22 \<or> q = ch CHR 0x60"
    and nq: "q \<notin> set (ttext t)" and i0: "info t = 0"
    using assms by (auto simp: render_def q_def printable_def wfToken_def Let_def)
  have at: "i < limit l" "ltext l ! i = q" "drop (Suc i) (ltext l) = ttext t @ q # 0x0A # r"
    using text_at [of i l q "ttext t @ q # 0x0A # r"] d rt by auto
  have j: "nextUntil l q (Suc i) = Suc i + length (ttext t)"
    using nextUntil_word [OF at(3) nq] by simp
  have lt: "Suc i + length (ttext t) < limit l"
    using text_at [of "Suc i + length (ttext t)" l q "0x0A # r"] text_after [OF at(3)] by simp
  have "sub (ltext l) (Suc i) (Suc i + length (ttext t)) = Some (ttext t)"
    using sub_word [OF at(3)] at(1) by simp
  then have "scanString l q i n =
      Done ([mkToken l n (kind t) (info t) (ttext t)], i + length (render t), n)"
    using lt assms(1) i0 by (simp add: scanString_def emit_def j rt checkEOF_def failUnless_def)
  moreover have "scanStep env inc l i n = scanString l q i n"
    using q at(2) by (auto simp: scanStep_def)
  ultimately show "scanStep env inc l i n =
      Done ([t\<lparr>line := n, tfile := lfile l\<rparr>], i + length (render t), n)"
    by (simp add: mkToken_eq)
qed

lemma scan_two:
  assumes "drop i (ltext l) = a # b # r"
  shows "i < limit l" "ltext l ! i = a" "Suc i < limit l" "ltext l ! Suc i = b"
    "mustNext l i = Done b" "sub (ltext l) i (Suc (Suc i)) = Some [a, b]"
    "nextTokenIs l c i = Done (b = c)" "idx (ltext l) (Suc i) = Some b"
proof -
  have *: "i < limit l" "ltext l ! i = a" "drop (Suc i) (ltext l) = b # r"
    using text_at [OF assms] by auto
  have **: "Suc i < limit l" "ltext l ! Suc i = b" using text_at [OF *(3)] by auto
  show "i < limit l" "ltext l ! i = a" "Suc i < limit l" "ltext l ! Suc i = b"
    using * ** by auto
  show "mustNext l i = Done b"
    using mustNext_iff [OF *(1)] ** by auto
  show "sub (ltext l) i (Suc (Suc i)) = Some [a, b]"
    using sub_word [of i l "[a, b]" r] assms by simp
  show "idx (ltext l) (Suc i) = Some b" "nextTokenIs l c i = Done (b = c)"
    using ** by (auto simp: nextTokenIs_def idx_Some limit_def)
qed

lemma dispatch:
  "ltext l ! i = ch CHR ''='' \<Longrightarrow> scanStep env inc l i n = scanEqual l i n"
  "ltext l ! i = ch CHR ''$'' \<Longrightarrow> scanStep env inc l i n = scanVariable l i n"
  "ltext l ! i \<in> {ch CHR ''^'', ch CHR ''*'', ch CHR ''~''} \<Longrightarrow>
   scanStep env inc l i n = scanCompare l (ltext l ! i) i n"
  "ltext l ! i = ch CHR ''-'' \<Longrightarrow> scanStep env inc l i n = scanFSCheck l i n"
  "ltext l ! i = ch CHR ''!'' \<Longrightarrow> scanStep env inc l i n = scanBang l i n"
  "ltext l ! i = ch CHR ''&'' \<Longrightarrow> scanStep env inc l i n = scanAND l i n"
  "ltext l ! i = ch CHR ''|'' \<Longrightarrow> scanStep env inc l i n = scanOR l i n"
  by (auto simp: scanStep_def)

lemma reads_operator:
  assumes "kind t \<in> {tokenEqual, tokenCompare, tokenFSCheck, tokenAND, tokenOR}" "wfToken env t"
  shows "reads env t"
  unfolding reads_def
proof (intro allI impI)
  fix inc and l :: lexer and i n r
  assume "drop i (ltext l) = render t @ 0x0A # r"
  then have d: "drop i (ltext l) = ttext t @ 0x0A # r" and ln: "length (render t) = length (ttext t)"
    using assms(1) by (auto simp: render_def)
  have i0: "info t = 0" using assms by (auto simp: wfToken_def)
  have "scanStep env inc l i n =
      Done ([mkToken l n (kind t) 0 (ttext t)], i + length (ttext t), n)"
  proof (cases "kind t = tokenEqual")
    case True
    then have tt: "ttext t = bs ''=''" using assms(2) by (simp add: wfToken_def)
    then show ?thesis
      using scan_two [of i l "ch CHR ''=''" "0x0A" r] d True by (simp add: dispatch scanEqual_def)
  next
    case False
    then obtain a b where ab: "ttext t = [a, b]"
      using assms by (auto simp: wfToken_def compares_def fsChecks_def)
    have two: "drop i (ltext l) = a # b # 0x0A # r"
      using d ab by simp
    note facts = scan_two [OF two]
    have emits: "emit l n k i (Suc (Suc i)) (Suc (Suc i)) =
        Done ([mkToken l n k 0 (ttext t)], i + length (ttext t), n)" for k
      by (simp add: emit_def facts ab)
    have "wellFormed env (kind t) 0 [a, b]"
      using assms(2) i0 ab by (simp add: wfToken_def)
    then consider
        "kind t = tokenCompare" "a = ch CHR ''=''" "b = ch CHR ''=''"
      | "kind t = tokenCompare" "a \<in> {ch CHR ''^'', ch CHR ''*'', ch CHR ''~''}" "b = ch CHR ''=''"
      | "kind t = tokenCompare" "a = ch CHR ''$''" "b = ch CHR ''=''"
      | "kind t = tokenCompare" "a = ch CHR ''!''"
          "b \<in> {ch CHR ''='', ch CHR ''^'', ch CHR ''$'', ch CHR ''*'', ch CHR ''~''}"
      | "kind t = tokenFSCheck" "a = ch CHR ''-''"
          "b \<in> {ch CHR ''f'', ch CHR ''d'', ch CHR ''e'', ch CHR ''D'', ch CHR ''E''}"
      | "kind t = tokenFSCheck" "a = ch CHR ''!''" "b \<in> {ch CHR ''f'', ch CHR ''d'', ch CHR ''e''}"
      | "kind t = tokenAND" "a = ch CHR ''&''" "b = ch CHR ''&''"
      | "kind t = tokenOR" "a = ch CHR ''|''" "b = ch CHR ''|''"
      using False assms(1) by (auto simp: compares_def fsChecks_def)
    then show ?thesis
    proof cases
      case 1 then show ?thesis using facts ab by (simp add: dispatch scanEqual_def)
    next
      case 2 then show ?thesis using facts emits by (simp add: dispatch scanCompare_def)
    next
      case 3 then show ?thesis using facts emits by (simp add: dispatch scanVariable_def scanCompare_def)
    next
      case 4 then show ?thesis using facts emits by (auto simp: dispatch scanBang_def)
    next
      case 5 then show ?thesis using facts emits by (auto simp: dispatch scanFSCheck_def)
    next
      case 6 then show ?thesis using facts emits by (auto simp: dispatch scanBang_def)
    next
      case 7 then show ?thesis using facts ab by (simp add: dispatch scanAND_def)
    next
      case 8 then show ?thesis using facts ab by (simp add: dispatch scanOR_def)
    qed
  qed
  then show "scanStep env inc l i n =
      Done ([t\<lparr>line := n, tfile := lfile l\<rparr>], i + length (render t), n)"
    by (simp add: mkToken_eq ln flip: i0)
qed

lemma reads_solo:
  assumes "soloKinds b = Some (kind t)" "ttext t = [b]" "info t = 0"
  shows "reads env t"
  unfolding reads_def
proof (intro allI impI)
  fix inc and l :: lexer and i n r
  assume d: "drop i (ltext l) = render t @ 0x0A # r"
  have rt: "render t = [b]"
    using assms by (auto simp: render_def soloKinds_def split: if_splits)
  have "ltext l ! i = b"
    using text_at [of i l b "0x0A # r"] d rt by auto
  moreover have "scanDefault env l b i n = Done ([mkToken l n (kind t) 0 [b]], i + 1, n)"
    using assms by (simp add: scanDefault_def)
  ultimately have "scanStep env inc l i n = Done ([mkToken l n (kind t) 0 [b]], i + 1, n)"
    using assms(1) by (auto simp: scanStep_def soloKinds_def split: if_splits)
  then show "scanStep env inc l i n =
      Done ([t\<lparr>line := n, tfile := lfile l\<rparr>], i + length (render t), n)"
    using rt assms(2,3) by (simp add: flip: mkToken_eq)
qed

lemma printable_reads: "printable env t \<Longrightarrow> reads env t"
  by (cases "kind t")
     (auto simp: printable_def wfToken_def isWord_def byteIsAlpha_def byteIsAlnum_def
       intro: reads_word reads_property reads_operator reads_number reads_variable reads_string
         reads_solo)

lemma scanLoop_skip:
  "i < limit l \<Longrightarrow> scanStep env inc l i n = Done (ts, j, m) \<Longrightarrow>
   scanLoop env inc l i n = andThen (scanLoop env inc l j m) (\<lambda>rest. Done (ts @ rest))"
  by (subst scanLoop.simps) simp

lemma scanLoop_render:
  "list_all (printable env) ts \<Longrightarrow> i \<le> limit l \<Longrightarrow>
   drop i (ltext l) = concat (map (\<lambda>t. render t @ [0x0A]) ts) \<Longrightarrow>
   scanLoop env inc l i n = Done (numbered (lfile l) n ts)"
proof (induction ts arbitrary: i n)
  case Nil
  then have "\<not> i < limit l" by (simp add: limit_def)
  then show ?case by (subst scanLoop.simps) simp
next
  case (Cons t ts)
  define r where "r = concat (map (\<lambda>t. render t @ [0x0A]) ts)"
  have d: "drop i (ltext l) = render t @ 0x0A # r"
    using Cons.prems(3) by (simp add: r_def)
  have st: "scanStep env inc l i n = Done ([t\<lparr>line := n, tfile := lfile l\<rparr>], i + length (render t), n)"
    using printable_reads [of env t] Cons.prems(1) d by (auto simp: reads_def)
  have i: "i < limit l"
    using d text_at [of i l] by (cases "render t") auto
  define j where "j = i + length (render t)"
  have at: "j < limit l" "ltext l ! j = 0x0A" "drop (Suc j) (ltext l) = r"
    using text_at [of j l "0x0A" r] text_after [OF d] by (auto simp: j_def)
  have nl: "scanStep env inc l j n = Done ([], Suc j, n + 1)"
    using at(2) by (simp add: scanStep_def)
  show ?case
    using Cons.IH [of "Suc j" "n + 1"] Cons.prems(1) at(1,3)
      scanLoop_skip [OF i st] scanLoop_skip [OF at(1) nl]
    by (simp add: r_def flip: j_def)
qed


subsection \<open>Included files\<close>

lemma load_not_overflow: "load env base f \<noteq> Fail StackOverflow"
  by (auto simp: load_def loadLFS_def loadFromURL_def outcome_iffs checked_def
      split: option.splits)

lemma step_not_overflow:
  "scanSlash l i n \<noteq> Fail StackOverflow" "scanEqual l i n \<noteq> Fail StackOverflow"
  "scanString l s i n \<noteq> Fail StackOverflow" "scanConstant env l i n \<noteq> Fail StackOverflow"
  "scanProperty l i n \<noteq> Fail StackOverflow" "scanVariable l i n \<noteq> Fail StackOverflow"
  "scanCompare l b i n \<noteq> Fail StackOverflow" "scanFSCheck l i n \<noteq> Fail StackOverflow"
  "scanBang l i n \<noteq> Fail StackOverflow" "scanAND l i n \<noteq> Fail StackOverflow"
  "scanOR l i n \<noteq> Fail StackOverflow" "scanDefault env l b i n \<noteq> Fail StackOverflow"
  if "i < limit l"
proof -
  have no: "lexes r \<Longrightarrow> r \<noteq> Fail StackOverflow" for r :: scanned by auto
  show "scanSlash l i n \<noteq> Fail StackOverflow" "scanEqual l i n \<noteq> Fail StackOverflow"
    "scanString l s i n \<noteq> Fail StackOverflow" "scanConstant env l i n \<noteq> Fail StackOverflow"
    "scanProperty l i n \<noteq> Fail StackOverflow" "scanVariable l i n \<noteq> Fail StackOverflow"
    "scanCompare l b i n \<noteq> Fail StackOverflow" "scanFSCheck l i n \<noteq> Fail StackOverflow"
    "scanBang l i n \<noteq> Fail StackOverflow" "scanAND l i n \<noteq> Fail StackOverflow"
    "scanOR l i n \<noteq> Fail StackOverflow"
    using that by (auto intro!: no simp: lexes_scanSlash lexes_scanCompare lexes_scanQuoted
        lexes_scanNamed lexes_scanTwo)
  show "scanDefault env l b i n \<noteq> Fail StackOverflow"
    using that by (intro no) (auto simp: scanDefault_def unknownCharacter_def lexes_scanNamed
        lexes_scanNumber split: option.splits)
qed

definition mentions :: "bytes \<Rightarrow> bytes \<Rightarrow> bool" where
  "mentions data f \<longleftrightarrow> sublist (ch CHR ''<'' # f @ [ch CHR ''>'']) data"

lemma mentions_slice:
  assumes "i < j" "j < limit l" "ltext l ! i = ch CHR ''<''" "ltext l ! j = ch CHR ''>''"
  shows "mentions (ltext l) (slice (ltext l) (i + 1) j)"
proof -
  have "ltext l = take i (ltext l) @ slice (ltext l) i (Suc j) @ drop (Suc j) (ltext l)"
    using assms by (simp add: slice_def flip: drop_drop)
      (metis append_take_drop_id drop_drop add.commute le_add_diff_inverse less_imp_le_nat less_Suc_eq)
  moreover have "slice (ltext l) i (Suc j) = ch CHR ''<'' # slice (ltext l) (i + 1) j @ [ch CHR ''>'']"
    using assms slice_last [of i j l] slice_Suc [of i j "ltext l"] by (simp add: limit_def)
  ultimately show ?thesis
    unfolding mentions_def sublist_def by metis
qed

lemma nextUntil_hit: "nextUntil l b i < limit l \<Longrightarrow> ltext l ! nextUntil l b i = b"
  by (auto simp: nextUntil_def limit_def dest: indexByte_Some split: option.splits)

definition follows ::
  "(bytes \<Rightarrow> (configError, token list) outcome) \<Rightarrow> (bytes \<Rightarrow> (configError, token list) outcome) \<Rightarrow> bool"
  where "follows g h \<longleftrightarrow> (\<forall>f. g f \<noteq> Fail StackOverflow \<longrightarrow> h f = g f)"

lemma scanStep_follows:
  assumes "i < limit l" "follows (inc (lbase l)) (inc' (lbase l))"
    "scanStep env inc l i n \<noteq> Fail StackOverflow"
  shows "scanStep env inc' l i n = scanStep env inc l i n"
proof (cases "ltext l ! i = ch CHR ''<''")
  case True
  then have "scanStep env g l i n = scanInclude g l i n" for g
    by (simp add: scanStep_def)
  then show ?thesis
    using assms(2,3)
    by (cases "inc (lbase l) (slice (ltext l) (i + 1) (nextUntil l (ch CHR ''>'') (i + 1)))")
       (auto simp: scanInclude_def Let_def follows_def checked_def outcome_iffs sub_def checkEOF_def
         failUnless_def split: option.splits if_splits)
next
  case False
  then show ?thesis by (simp only: scanStep_def Let_def if_False)
qed

lemma scanLoop_here:
  "i < limit l \<Longrightarrow> scanLoop env inc l i n =
     andThen (scanStep env inc l i n) (\<lambda>(ts, j, m).
     andThen (scanLoop env inc l j m) (\<lambda>rest. Done (ts @ rest)))"
  by (subst scanLoop.simps) simp

lemma scanLoop_follows:
  assumes "follows (inc (lbase l)) (inc' (lbase l))"
  shows "scanLoop env inc l i n \<noteq> Fail StackOverflow \<Longrightarrow>
    scanLoop env inc' l i n = scanLoop env inc l i n"
  using assms
proof (induction env inc l i n rule: scanLoop.induct)
  case (1 env inc l i n)
  show ?case
  proof (cases "i < limit l")
    case True
    have "scanStep env inc l i n \<noteq> Fail StackOverflow"
      using 1(2) unfolding scanLoop_here [OF True] by auto
    then have st: "scanStep env inc' l i n = scanStep env inc l i n"
      using scanStep_follows [of i l inc inc' env n] True 1(3) by simp
    show ?thesis
    proof (cases "scanStep env inc l i n")
      case (Done x)
      obtain ts j m where x: "x = (ts, j, m)" by (cases x)
      have "scanLoop env inc l j m \<noteq> Fail StackOverflow"
        using 1(2) unfolding scanLoop_here [OF True] Done x by auto
      then have "scanLoop env inc' l j m = scanLoop env inc l j m"
        using 1(1) [OF True Done x [symmetric] refl] 1(3) by blast
      then show ?thesis
        unfolding scanLoop_here [OF True] st Done x by simp
    qed (simp_all add: scanLoop_here [OF True] st)
  next
    case False
    then show ?thesis by (subst (1 2) scanLoop.simps) simp
  qed
qed

lemma scanLoop_overflow:
  "scanLoop env inc l i n = Fail StackOverflow \<Longrightarrow>
   \<exists>f. mentions (ltext l) f \<and> inc (lbase l) f = Fail StackOverflow"
proof (induction env inc l i n rule: scanLoop.induct)
  case (1 env inc l i n)
  have i: "i < limit l"
    using 1(2) by (subst (asm) scanLoop.simps) (simp split: if_splits)
  consider ts j m where "scanLoop env inc l j m = Fail StackOverflow" "scanStep env inc l i n = Done (ts, j, m)"
    | "scanStep env inc l i n = Fail StackOverflow"
    using 1(2) unfolding scanLoop_here [OF i] by (auto simp: outcome_iffs)
  then show ?case
  proof cases
    case 1
    then show ?thesis using "1.IH" [OF i 1(2)] by simp
  next
    case 2
    define j where "j = nextUntil l (ch CHR ''>'') (i + 1)"
    have lt: "ltext l ! i = ch CHR ''<''"
      using 2 step_not_overflow [OF i] lexes_scanQuoted(1) [OF i]
      by (auto simp: scanStep_def Let_def split: if_splits)
    then have "scanInclude inc l i n = Fail StackOverflow"
      using 2 by (simp add: scanStep_def)
    then have "inc (lbase l) (slice (ltext l) (i + 1) j) = Fail StackOverflow" "j \<noteq> limit l"
      unfolding j_def by (auto simp: scanInclude_def Let_def outcome_iffs checkEOF_def checked_def sub_def
          split: if_splits option.splits)
    moreover have "i < j" "j \<le> limit l"
      using nextUntil_bounds [of "i + 1" l "ch CHR ''>''"] i by (auto simp: j_def)
    ultimately show ?thesis
      using mentions_slice [of i j l] lt nextUntil_hit [of l "ch CHR ''>''" "i + 1"]
      by (fold j_def) auto
  qed
qed

lemma scanFile_mono:
  "scanFile d env b f \<noteq> Fail StackOverflow \<Longrightarrow> d \<le> d' \<Longrightarrow> scanFile d' env b f = scanFile d env b f"
proof (induction d arbitrary: d' b f)
  case (Suc d)
  obtain d'' where d': "d' = Suc d''" "d \<le> d''"
    using Suc.prems(2) by (cases d') auto
  have fol: "follows (scanFile d env b) (scanFile d'' env b)"
    unfolding follows_def using Suc.IH [OF _ d'(2)] by blast
  show ?case
  proof (cases "load env b f")
    case (Done data)
    define l where "l = \<lparr>ltext = data, lbase = b, lfile = f\<rparr>"
    have "scanLoop env (scanFile d env) l 0 1 \<noteq> Fail StackOverflow"
      using Suc.prems(1) Done by (simp add: scan_def l_def)
    then have "scanLoop env (scanFile d'' env) l 0 1 = scanLoop env (scanFile d env) l 0 1"
      using fol by (intro scanLoop_follows) (simp_all add: l_def)
    with Done show ?thesis by (simp add: d'(1) scan_def l_def)
  qed (simp_all add: d'(1))
qed simp

text \<open>C23: Scanning a file ends when its includes are acyclic: if a rank decreases from every file
  to each file it mentions between angle brackets, then the nesting needed is at most the rank
  plus one: at that depth the recursion of \<open>scanFile\<close> does not overflow, and a deeper stack gives
  the same result.\<close>

theorem scanFile_terminates:
  assumes "\<And>f data g. load env b f = Done data \<Longrightarrow> mentions data g \<Longrightarrow> rank g < rank f"
    and "rank f < depth"
  shows "scanFile depth env b f = scanFile (Suc (rank f)) env b f \<and>
    scanFile depth env b f \<noteq> Fail StackOverflow"
proof -
  have "scanFile (Suc (rank f)) env b f \<noteq> Fail StackOverflow"
  proof (induction "rank f" arbitrary: f rule: less_induct)
    case less
    show ?case
    proof
      assume "scanFile (Suc (rank f)) env b f = Fail StackOverflow"
      then obtain data where data: "load env b f = Done data"
        "scan env (scanFile (rank f) env) \<lparr>ltext = data, lbase = b, lfile = f\<rparr> = Fail StackOverflow"
        using load_not_overflow by (auto simp: outcome_iffs)
      then obtain g where g: "mentions data g" "scanFile (rank f) env b g = Fail StackOverflow"
        using scanLoop_overflow unfolding scan_def by fastforce
      have "rank g < rank f"
        using assms(1) data(1) g(1) .
      then show False
        using less [of g] scanFile_mono [of "Suc (rank g)" env b g "rank f"] g(2) by (simp del: scanFile.simps)
    qed
  qed
  then show ?thesis
    using scanFile_mono [of "Suc (rank f)" env b f depth] assms(2) by simp
qed

text \<open>A file that includes itself exhausts the stack, whatever its size.\<close>

lemma scanFile_cycle:
  assumes "load env b f = Done (ch CHR ''<'' # f @ [ch CHR ''>''])" "b \<noteq> []" "ch CHR ''>'' \<notin> set f"
  shows "scanFile depth env b f = Fail StackOverflow"
proof (induction depth)
  case (Suc depth)
  define l where "l = \<lparr>ltext = ch CHR ''<'' # f @ [ch CHR ''>''], lbase = b, lfile = f\<rparr>"
  have d: "drop 0 (ltext l) = ch CHR ''<'' # f @ [ch CHR ''>'']" by (simp add: l_def)
  have at: "0 < limit l" "ltext l ! 0 = ch CHR ''<''" "drop (Suc 0) (ltext l) = f @ ch CHR ''>'' # []"
    using text_at [of 0 l "ch CHR ''<''" "f @ [ch CHR ''>'']"] d by auto
  have j: "nextUntil l (ch CHR ''>'') (Suc 0) = Suc (length f)"
    using nextUntil_word [OF at(3) assms(3)] by simp
  have "sub (ltext l) (Suc 0) (Suc (length f)) = Some f"
    using sub_word [OF at(3)] at(1) by simp
  moreover have "checkEOF l (Suc (length f)) = Done ()"
    by (simp add: checkEOF_def failUnless_def limit_def l_def)
  ultimately have "scanStep env (scanFile depth env) l 0 1 = Fail StackOverflow"
    using assms(2) Suc at(2) j by (simp add: scanStep_def scanInclude_def) (simp add: l_def)
  then have "scanLoop env (scanFile depth env) l 0 1 = Fail StackOverflow"
    unfolding scanLoop_here [OF at(1)] by simp
  then show ?case
    using assms(1) by (simp add: scan_def l_def)
qed simp

subsection \<open>Examples\<close>

definition demoEnv :: lexEnv where
  "demoEnv = \<lparr>topDir = bs ''/opt'', logDir = bs ''/log'', tmpDir = bs ''/tmp'', varDir = bs ''/var'',
     signedComps = signedComps0,
     readFile = (\<lambda>p. if p = bs ''/a'' then Some (bs ''<b>'') else if p = bs ''/b'' then Some [] else None),
     parseURL = (\<lambda>u. None), loadURL = (\<lambda>s h p. None)\<rparr>"

lemma demo_stage: "scanText demoEnv (bs ''stage{.a=%topDir}'') =
  Done [\<lparr>kind = tokenComponent, info = 1, line = 1, tfile = [], ttext = bs ''stage''\<rparr>,
    \<lparr>kind = tokenLeftBrace, info = 0, line = 1, tfile = [], ttext = bs ''{''\<rparr>,
    \<lparr>kind = tokenProperty, info = 0, line = 1, tfile = [], ttext = bs ''a''\<rparr>,
    \<lparr>kind = tokenEqual, info = 0, line = 1, tfile = [], ttext = bs ''=''\<rparr>,
    \<lparr>kind = tokenString, info = 0, line = 1, tfile = [], ttext = bs ''/opt''\<rparr>,
    \<lparr>kind = tokenRightBrace, info = 0, line = 1, tfile = [], ttext = bs ''}''\<rparr>]"
  by code_simp

theorem scan_wellFormed_witness:
  "wfToken demoEnv \<lparr>kind = tokenComponent, info = 1, line = 1, tfile = [], ttext = bs ''stage''\<rparr>"
proof -
  note scan_wellFormed [of demoEnv "bs ''stage{.a=%topDir}''", OF disjI1, OF demo_stage]
  then show ?thesis by simp
qed


lemma mentions_demo: "mentions (bs ''<b>'') g \<Longrightarrow> g = bs ''b''"
  by (cases g) (auto simp: mentions_def sublist_Cons_right prefix_Cons append_eq_Cons_conv)

theorem scanFile_terminates_witness:
  "scanFile 5 demoEnv (bs ''/'') (bs ''a'') \<noteq> Fail StackOverflow"
proof -
  define rank :: "bytes \<Rightarrow> nat" where "rank f = (if f \<in> {bs ''a'', bs ''/a''} then 1 else 0)" for f
  have "rank g < rank f"
    if "load demoEnv (bs ''/'') f = Done data" "mentions data g" for f data g
  proof -
    have "data = bs ''<b>'' \<and> f \<in> {bs ''a'', bs ''/a''} \<or> data = []"
      using that(1) by (auto simp: load_def loadLFS_def hasPrefix_def demoEnv_def checked_def
          idx_def outcome_iffs split: if_splits option.splits)
    then show ?thesis
      using that(2) mentions_demo [of g] by (auto simp: rank_def mentions_def)
  qed
  then show ?thesis
    using scanFile_terminates [of demoEnv "bs ''/''" rank "bs ''a''" 5] by (auto simp: rank_def)
qed

end
