(* ===== verification/Components.thy ===== *)
theory Components
  imports Lexer
begin

text \<open>
  Configurable components (\<open>hemi/hemi_components.go\<close>, \<open>hemi/web.go\<close>, \<open>hemi/net_*_router.go\<close>) and
  their values (\<open>Value\<close> in \<open>hemi/hemi_configurator.go\<close>).

  A component is an object the configurator creates, links to its parent and fills with
  properties.  The objects live in a store, a list; the pointer to a component is its position.
  A \<open>compDict\<close> field (\<open>stage.backends\<close>, \<open>webapp.handlets\<close>, ...) is the map \<open>dict\<close> of its owner at
  the type of the components it holds, and a slice of pointers (\<open>backend.nodes\<close>, \<open>webapp.rules\<close>,
  \<open>router.cases\<close>, \<open>rule.handlets\<close>, ...) is the list \<open>members\<close> at that type.  What a creator
  function sets beyond \<open>MakeComp\<close> is the component's own business and not modelled; which signs have
  a creator is the registry.
\<close>

subsection \<open>Values\<close>

datatype valueData =
    NoData
  | BoolData bool
  | IntData int64
  | StringData bytes
  | DurationData int64
  | ListData "confValue list"
  | DictData "bytes \<Rightarrow> confValue option"
and confValue = Value (vkind: "tokenKind option") (vcode: int) (vname: bytes) (vdata: valueData)
    (vbytes: bytes)

text \<open>The zero \<open>Value\<close> of Go has kind 0, which is no token kind.\<close>

definition zeroValue :: confValue where
  "zeroValue = Value None 0 [] NoData []"

definition asBool :: "confValue \<Rightarrow> bool \<times> bool" where
  "asBool v = (case vdata v of BoolData b \<Rightarrow> (b, True) | _ \<Rightarrow> (False, False))"

definition asInt64 :: "confValue \<Rightarrow> int64 \<times> bool" where
  "asInt64 v = (case vdata v of IntData n \<Rightarrow> (n, True) | _ \<Rightarrow> (0, False))"

text \<open>\<open>toInt[T]\<close> for a signed type and for an unsigned one: convert, convert back and compare.\<close>

definition toIntSigned :: "confValue \<Rightarrow> 'a::len word \<times> bool" where
  "toIntSigned v =
    (let (i64, ok) = asInt64 v; i = ucast i64 in
     (i, if ok \<and> scast i \<noteq> i64 then False else ok))"

definition toIntUnsigned :: "confValue \<Rightarrow> 'a::len word \<times> bool" where
  "toIntUnsigned v =
    (let (i64, ok) = asInt64 v; i = ucast i64 in
     (i, if ok \<and> ucast i \<noteq> i64 then False else ok))"

definition asUint32 :: "confValue \<Rightarrow> 32 word \<times> bool" where
  "asUint32 v = toIntUnsigned v"

definition asInt32 :: "confValue \<Rightarrow> 32 word \<times> bool" where
  "asInt32 v = toIntSigned v"

definition asInt16 :: "confValue \<Rightarrow> 16 word \<times> bool" where
  "asInt16 v = toIntSigned v"

definition asInt8 :: "confValue \<Rightarrow> 8 word \<times> bool" where
  "asInt8 v = toIntSigned v"

definition asInt :: "confValue \<Rightarrow> 64 word \<times> bool" where
  "asInt v = toIntSigned v"

definition asString :: "confValue \<Rightarrow> bytes \<times> bool" where
  "asString v = (case vdata v of StringData s \<Rightarrow> (s, True) | _ \<Rightarrow> ([], False))"

definition asBytes :: "confValue \<Rightarrow> bytes \<times> bool" where
  "asBytes v = (if vkind v = Some tokenString then (vbytes v, True) else ([], False))"

definition asDuration :: "confValue \<Rightarrow> int64 \<times> bool" where
  "asDuration v = (case vdata v of DurationData d \<Rightarrow> (d, True) | _ \<Rightarrow> (0, False))"

definition asList :: "confValue \<Rightarrow> confValue list \<times> bool" where
  "asList v = (case vdata v of ListData l \<Rightarrow> (l, True) | _ \<Rightarrow> ([], False))"

definition asListN :: "int \<Rightarrow> confValue \<Rightarrow> confValue list \<times> bool" where
  "asListN n v =
    (let (l, ok) = asList v in (l, if ok \<and> n \<ge> 0 \<and> int (length l) \<noteq> n then False else ok))"

definition strings :: "confValue list \<Rightarrow> bytes list" where
  "strings l = concat (map (\<lambda>v. let (s, ok) = asString v in if ok then [s] else []) l)"

definition asStringList :: "confValue \<Rightarrow> bytes list \<times> bool" where
  "asStringList v = (let (l, ok) = asList v in if ok then (strings l, ok) else ([], ok))"

definition asBytesList :: "confValue \<Rightarrow> bytes list \<times> bool" where
  "asBytesList v =
    (let (l, ok) = asList v in
     if ok then (concat (map (\<lambda>v. if vkind v = Some tokenString then [vbytes v] else []) l), ok)
     else ([], ok))"

definition asStringListN :: "int \<Rightarrow> confValue \<Rightarrow> bytes list \<times> bool" where
  "asStringListN n v =
    (let (l, ok) = asList v in
     if \<not> ok then ([], False)
     else if n \<ge> 0 \<and> int (length l) \<noteq> n then ([], False)
     else (strings l, True))"

definition asDict :: "confValue \<Rightarrow> (bytes \<Rightarrow> confValue option) \<times> bool" where
  "asDict v = (case vdata v of DictData d \<Rightarrow> (d, True) | _ \<Rightarrow> (Map.empty, False))"

definition asStringDict :: "confValue \<Rightarrow> (bytes \<Rightarrow> bytes option) \<times> bool" where
  "asStringDict v =
    (let (d, ok) = asDict v in
     if ok then ((\<lambda>name. case d name of
                    None \<Rightarrow> None
                  | Some x \<Rightarrow> (let (s, isString) = asString x in if isString then Some s else None)), ok)
     else (Map.empty, ok))"

subsection \<open>Components\<close>

record condition =
  varCode :: int
  varName :: bytes
  compare :: bytes
  patterns :: "bytes list"

datatype compInfo = CaseCond condition | RuleCond condition

record component =
  ctype :: compType
  sign :: bytes
  parent :: "nat option"
  compName :: bytes
  props :: "bytes \<Rightarrow> confValue option"
  cinfo :: "compInfo option"
  dict :: "compType \<Rightarrow> bytes \<Rightarrow> nat option"
  members :: "compType \<Rightarrow> nat list"
  numRevisers :: uint8
  reviserID :: uint8
  revisersByID :: "uint8 \<Rightarrow> nat option"

type_synonym comps = "component list"

text \<open>\<open>MakeComp\<close> and \<open>onCreate\<close>: \<open>numRevisers\<close> starts at 1 in a webapp.\<close>

definition makeComp :: "compType \<Rightarrow> bytes \<Rightarrow> bytes \<Rightarrow> component" where
  "makeComp type compSign name =
    \<lparr>ctype = type, sign = compSign, parent = None, compName = name, props = Map.empty,
     cinfo = None, dict = (\<lambda>_. Map.empty), members = (\<lambda>_. []),
     numRevisers = (if type = compTypeWebapp then 1 else 0), reviserID = 0,
     revisersByID = Map.empty\<rparr>"

definition updComp :: "nat \<Rightarrow> (component \<Rightarrow> component) \<Rightarrow> comps \<Rightarrow> comps" where
  "updComp a f cs = cs[a := f (cs ! a)]"

definition setParent :: "nat \<Rightarrow> nat \<Rightarrow> comps \<Rightarrow> comps" where
  "setParent a p = updComp a (\<lambda>x. x\<lparr>parent := Some p\<rparr>)"

definition setName :: "nat \<Rightarrow> bytes \<Rightarrow> comps \<Rightarrow> comps" where
  "setName a name = updComp a (\<lambda>x. x\<lparr>compName := name\<rparr>)"

definition setInfo :: "nat \<Rightarrow> compInfo \<Rightarrow> comps \<Rightarrow> comps" where
  "setInfo a i = updComp a (\<lambda>x. x\<lparr>cinfo := Some i\<rparr>)"

definition setProp :: "nat \<Rightarrow> bytes \<Rightarrow> confValue \<Rightarrow> comps \<Rightarrow> comps" where
  "setProp a name v = updComp a (\<lambda>x. x\<lparr>props := (props x)(name \<mapsto> v)\<rparr>)"

definition propOf :: "comps \<Rightarrow> nat \<Rightarrow> bytes \<Rightarrow> confValue option" where
  "propOf cs a name = props (cs ! a) name"

text \<open>
  \<open>Find\<close> climbs the chain of parents.  The first argument counts the components it may still
  visit; a parent is created before its children, so as many as the address says are enough
  (\<open>findProp_unfold\<close>).
\<close>

primrec findUp :: "nat \<Rightarrow> comps \<Rightarrow> nat \<Rightarrow> bytes \<Rightarrow> confValue option" where
  "findUp 0 cs a name = None"
| "findUp (Suc n) cs a name =
    (case propOf cs a name of
       Some v \<Rightarrow> Some v
     | None \<Rightarrow> (case parent (cs ! a) of None \<Rightarrow> None | Some p \<Rightarrow> findUp n cs p name))"

definition findProp :: "comps \<Rightarrow> nat \<Rightarrow> bytes \<Rightarrow> confValue option" where
  "findProp cs a name = findUp (Suc a) cs a name"

text \<open>\<open>_configureProp\<close>: the property found is converted and checked, or the default is used.\<close>

definition configureProp ::
  "comps \<Rightarrow> nat \<Rightarrow> bytes \<Rightarrow> (confValue \<Rightarrow> 'v \<times> bool) \<Rightarrow> ('v \<Rightarrow> bool) option \<Rightarrow> 'v \<Rightarrow> (configError, 'v) outcome"
  where
  "configureProp cs a name conv check def =
    (case findProp cs a name of
       None \<Rightarrow> Done def
     | Some pv \<Rightarrow>
         (let (v, ok) = conv pv in
          case (ok, check) of
            (True, None) \<Rightarrow> Done v
          | (True, Some good) \<Rightarrow> if good v then Done v else Fail (Exit CodeUse ''is error'')
          | (False, _) \<Rightarrow> Fail (Exit CodeUse ''invalid'')))"

subsection \<open>Registering signs\<close>

text \<open>The creators of each kind of component, and \<open>signedComps\<close>.\<close>

record registry =
  creators :: "compType \<Rightarrow> bytes \<Rightarrow> bool"
  signed :: "bytes \<Rightarrow> int option"

definition emptyRegistry :: registry where
  "emptyRegistry = \<lparr>creators = (\<lambda>_ _. False), signed = signedComps0\<rparr>"

definition registerComponent :: "compType \<Rightarrow> bytes \<Rightarrow> registry \<Rightarrow> (configError, registry) outcome" where
  "registerComponent type compSign r =
    (if creators r type compSign then Fail (Exit CodeBug ''component sign conflicted'')
     else andThen (signComp compSign type (signed r)) (\<lambda>s.
       Done (r\<lparr>creators := (creators r)(type := (creators r type)(compSign := True)), signed := s\<rparr>)))"

subsection \<open>Creating components\<close>

definition allocate :: "component \<Rightarrow> comps \<Rightarrow> nat \<times> comps" where
  "allocate x cs = (length cs, cs @ [x])"

definition addDict :: "nat \<Rightarrow> compType \<Rightarrow> bytes \<Rightarrow> nat \<Rightarrow> comps \<Rightarrow> comps" where
  "addDict w type name a = updComp w (\<lambda>x. x\<lparr>dict := (dict x)(type := (dict x type)(name \<mapsto> a))\<rparr>)"

definition addMember :: "nat \<Rightarrow> compType \<Rightarrow> nat \<Rightarrow> comps \<Rightarrow> comps" where
  "addMember w type a = updComp w (\<lambda>x. x\<lparr>members := (members x)(type := members x type @ [a])\<rparr>)"

text \<open>The common body of the create functions that fill a \<open>compDict\<close> of their owner: a name clash
  exits, then, for the kinds with creators, an unknown sign exits.\<close>

definition createIn ::
  "registry \<Rightarrow> nat \<Rightarrow> compType \<Rightarrow> bool \<Rightarrow> bytes \<Rightarrow> bytes \<Rightarrow> comps \<Rightarrow> (configError, nat \<times> comps) outcome" where
  "createIn r w type needsCreator compSign name cs =
    (if dict (cs ! w) type name \<noteq> None then Fail (Exit CodeUse ''conflicting component name'')
     else if needsCreator \<and> \<not> creators r type compSign then Fail (Exit CodeUse ''unknown component sign'')
     else let (a, cs) = allocate (makeComp type compSign name) cs in
          Done (a, addDict w type name a cs))"

text \<open>The create functions of the stage.\<close>

definition createBackend :: "registry \<Rightarrow> nat \<Rightarrow> bytes \<Rightarrow> bytes \<Rightarrow> comps \<Rightarrow> (configError, nat \<times> comps) outcome" where
  "createBackend r stage = createIn r stage compTypeBackend True"

definition createService :: "registry \<Rightarrow> nat \<Rightarrow> bytes \<Rightarrow> comps \<Rightarrow> (configError, nat \<times> comps) outcome" where
  "createService r stage = createIn r stage compTypeService False (bs ''service'')"

definition createHstate :: "registry \<Rightarrow> nat \<Rightarrow> bytes \<Rightarrow> bytes \<Rightarrow> comps \<Rightarrow> (configError, nat \<times> comps) outcome" where
  "createHstate r stage = createIn r stage compTypeHstate True"

definition createHcache :: "registry \<Rightarrow> nat \<Rightarrow> bytes \<Rightarrow> bytes \<Rightarrow> comps \<Rightarrow> (configError, nat \<times> comps) outcome" where
  "createHcache r stage = createIn r stage compTypeHcache True"

definition createWebapp :: "registry \<Rightarrow> nat \<Rightarrow> bytes \<Rightarrow> comps \<Rightarrow> (configError, nat \<times> comps) outcome" where
  "createWebapp r stage = createIn r stage compTypeWebapp False (bs ''webapp'')"

definition createQUIXRouter :: "registry \<Rightarrow> nat \<Rightarrow> bytes \<Rightarrow> comps \<Rightarrow> (configError, nat \<times> comps) outcome" where
  "createQUIXRouter r stage = createIn r stage compTypeQUIXRouter False (bs ''quixRouter'')"

definition createTCPXRouter :: "registry \<Rightarrow> nat \<Rightarrow> bytes \<Rightarrow> comps \<Rightarrow> (configError, nat \<times> comps) outcome" where
  "createTCPXRouter r stage = createIn r stage compTypeTCPXRouter False (bs ''tcpxRouter'')"

definition createUDPXRouter :: "registry \<Rightarrow> nat \<Rightarrow> bytes \<Rightarrow> comps \<Rightarrow> (configError, nat \<times> comps) outcome" where
  "createUDPXRouter r stage = createIn r stage compTypeUDPXRouter False (bs ''udpxRouter'')"

definition createServer :: "registry \<Rightarrow> nat \<Rightarrow> bytes \<Rightarrow> bytes \<Rightarrow> comps \<Rightarrow> (configError, nat \<times> comps) outcome" where
  "createServer r stage = createIn r stage compTypeServer True"

definition createCronjob :: "registry \<Rightarrow> nat \<Rightarrow> bytes \<Rightarrow> bytes \<Rightarrow> comps \<Rightarrow> (configError, nat \<times> comps) outcome" where
  "createCronjob r stage = createIn r stage compTypeCronjob True"

text \<open>The create functions of the webapp and of the routers.\<close>

definition createHandlet :: "registry \<Rightarrow> nat \<Rightarrow> bytes \<Rightarrow> bytes \<Rightarrow> comps \<Rightarrow> (configError, nat \<times> comps) outcome" where
  "createHandlet r webapp = createIn r webapp compTypeHandlet True"

definition createSocklet :: "registry \<Rightarrow> nat \<Rightarrow> bytes \<Rightarrow> bytes \<Rightarrow> comps \<Rightarrow> (configError, nat \<times> comps) outcome" where
  "createSocklet r webapp = createIn r webapp compTypeSocklet True"

definition createReviser :: "registry \<Rightarrow> nat \<Rightarrow> bytes \<Rightarrow> bytes \<Rightarrow> comps \<Rightarrow> (configError, nat \<times> comps) outcome" where
  "createReviser r webapp compSign name cs =
    (if numRevisers (cs ! webapp) = 255 then Fail (Exit CodeUse ''too many revisers'')
     else andThen (createIn r webapp compTypeReviser True compSign name cs) (\<lambda>(a, cs).
       let n = numRevisers (cs ! webapp);
           cs = updComp a (\<lambda>x. x\<lparr>reviserID := n\<rparr>) cs;
           cs = updComp webapp (\<lambda>x. x\<lparr>revisersByID := (revisersByID x)(n \<mapsto> a), numRevisers := n + 1\<rparr>) cs
       in Done (a, cs)))"

definition createQUIXDealet :: "registry \<Rightarrow> nat \<Rightarrow> bytes \<Rightarrow> bytes \<Rightarrow> comps \<Rightarrow> (configError, nat \<times> comps) outcome" where
  "createQUIXDealet r router = createIn r router compTypeQUIXDealet True"

definition createTCPXDealet :: "registry \<Rightarrow> nat \<Rightarrow> bytes \<Rightarrow> bytes \<Rightarrow> comps \<Rightarrow> (configError, nat \<times> comps) outcome" where
  "createTCPXDealet r router = createIn r router compTypeTCPXDealet True"

definition createUDPXDealet :: "registry \<Rightarrow> nat \<Rightarrow> bytes \<Rightarrow> bytes \<Rightarrow> comps \<Rightarrow> (configError, nat \<times> comps) outcome" where
  "createUDPXDealet r router = createIn r router compTypeUDPXDealet True"

text \<open>Rules and cases are kept in order in a slice; the name clash is looked for in it.\<close>

definition hasMember :: "comps \<Rightarrow> nat \<Rightarrow> compType \<Rightarrow> bytes \<Rightarrow> bool" where
  "hasMember cs w type name \<longleftrightarrow> list_ex (\<lambda>a. compName (cs ! a) = name) (members (cs ! w) type)"

definition createListed ::
  "nat \<Rightarrow> compType \<Rightarrow> bytes \<Rightarrow> bytes \<Rightarrow> comps \<Rightarrow> (configError, nat \<times> comps) outcome" where
  "createListed w type compSign name cs =
    (if hasMember cs w type name then Fail (Exit CodeUse ''conflicting with a same component name'')
     else let (a, cs) = allocate (makeComp type compSign name) cs in Done (a, addMember w type a cs))"

definition createRule :: "nat \<Rightarrow> bytes \<Rightarrow> comps \<Rightarrow> (configError, nat \<times> comps) outcome" where
  "createRule webapp = createListed webapp compTypeRule (bs ''rule'')"

definition createQUIXCase :: "nat \<Rightarrow> bytes \<Rightarrow> comps \<Rightarrow> (configError, nat \<times> comps) outcome" where
  "createQUIXCase router = createListed router compTypeCase (bs ''case'')"

definition createTCPXCase :: "nat \<Rightarrow> bytes \<Rightarrow> comps \<Rightarrow> (configError, nat \<times> comps) outcome" where
  "createTCPXCase router = createListed router compTypeCase (bs ''case'')"

definition createUDPXCase :: "nat \<Rightarrow> bytes \<Rightarrow> comps \<Rightarrow> (configError, nat \<times> comps) outcome" where
  "createUDPXCase router = createListed router compTypeCase (bs ''case'')"

text \<open>\<open>CreateNode\<close> of every backend: no check of the name.\<close>

definition createNode :: "nat \<Rightarrow> bytes \<Rightarrow> comps \<Rightarrow> nat \<times> comps" where
  "createNode backend name cs =
    (let (a, cs) = allocate (makeComp compTypeNode (bs ''node'') name) cs in
     (a, addMember backend compTypeNode a cs))"

text \<open>\<open>createStage\<close>: the stage and its three fixtures, whose parent is set when they are parsed.\<close>

definition createStage :: comps where
  "createStage =
    (let cs = [makeComp compTypeStage (bs ''stage'') (bs ''stage''),
               makeComp compTypeFixture (bs ''clock'') (bs ''clock''),
               makeComp compTypeFixture (bs ''fcache'') (bs ''fcache''),
               makeComp compTypeFixture (bs ''resolv'') (bs ''resolv'')] in
     addDict 0 compTypeFixture (bs ''resolv'') 3
      (addDict 0 compTypeFixture (bs ''fcache'') 2
       (addDict 0 compTypeFixture (bs ''clock'') 1 cs)))"

subsection \<open>Values of the integer accessors\<close>

lemma asInt64_iff: "asInt64 v = (n, True) \<longleftrightarrow> vdata v = IntData n"
  by (auto simp: asInt64_def split: valueData.splits)

lemma ucast_as_signed:
  "LENGTH('a::len) \<le> 64 \<Longrightarrow> (ucast n :: 'a word) = word_of_int (sint n)" for n :: int64
  by transfer (simp add: take_bit_signed_take_bit)

lemma sint_word_of_int_iff:
  "sint (word_of_int k :: 'a::len word) = k \<longleftrightarrow> - (2 ^ (LENGTH('a) - 1)) \<le> k \<and> k < 2 ^ (LENGTH('a) - 1)"
  by (simp add: sint_sbintrunc' signed_take_bit_int_eq_self_iff)

lemma scast_ucast_iff:
  fixes n :: int64
  assumes "LENGTH('a::len) \<le> 64"
  shows "scast (ucast n :: 'a word) = n \<longleftrightarrow>
    - (2 ^ (LENGTH('a) - 1)) \<le> sint n \<and> sint n < 2 ^ (LENGTH('a) - 1)"
proof -
  define i :: "'a word" where "i = ucast n"
  have "sint (scast i :: int64) = sint i"
    using assms
    by transfer (simp add: signed_take_bit_signed_take_bit min_absorb2 le_diff_conv)
  then have "scast i = n \<longleftrightarrow> sint i = sint n"
    by (metis signed_word_eqI)
  also have "\<dots> \<longleftrightarrow> - (2 ^ (LENGTH('a) - 1)) \<le> sint n \<and> sint n < 2 ^ (LENGTH('a) - 1)"
    unfolding i_def ucast_as_signed [OF assms] by (rule sint_word_of_int_iff)
  finally show ?thesis by (simp add: i_def)
qed

lemma sint_ucast_iff:
  fixes n :: int64
  assumes "LENGTH('a::len) \<le> 64"
  shows "sint (ucast n :: 'a word) = sint n \<longleftrightarrow>
    - (2 ^ (LENGTH('a) - 1)) \<le> sint n \<and> sint n < 2 ^ (LENGTH('a) - 1)"
  unfolding ucast_as_signed [OF assms] by (rule sint_word_of_int_iff)

text \<open>C24: The integer accessors of a configuration value are exact: \<open>Int32\<close>, \<open>Int16\<close> and \<open>Int8\<close>
  succeed on an integer exactly when it fits the narrower type, and then return the same number.\<close>

theorem toInt_exact:
  assumes "vdata v = IntData n"
  shows "snd (asInt32 v) = (- (2 ^ 31) \<le> sint n \<and> sint n < 2 ^ 31) \<and>
    snd (asInt16 v) = (- (2 ^ 15) \<le> sint n \<and> sint n < 2 ^ 15) \<and>
    snd (asInt8 v) = (- (2 ^ 7) \<le> sint n \<and> sint n < 2 ^ 7) \<and>
    (snd (asInt32 v) \<longrightarrow> sint (fst (asInt32 v)) = sint n) \<and>
    (snd (asInt16 v) \<longrightarrow> sint (fst (asInt16 v)) = sint n) \<and>
    (snd (asInt8 v) \<longrightarrow> sint (fst (asInt8 v)) = sint n)"
  using assms sint_ucast_iff [where 'a = 32, of n] sint_ucast_iff [where 'a = 16, of n]
    sint_ucast_iff [where 'a = 8, of n] scast_ucast_iff [where 'a = 32, of n] scast_ucast_iff [where 'a = 16, of n]
    scast_ucast_iff [where 'a = 8, of n]
  by (simp add: asInt32_def asInt16_def asInt8_def toIntSigned_def asInt64_def)

theorem toInt_exact_witness:
  "snd (asInt8 (Value (Some tokenInteger) 0 [] (IntData 300) [])) = False"
  using toInt_exact [of "Value (Some tokenInteger) 0 [] (IntData 300) []" 300] by simp

subsection \<open>The store invariant\<close>

text \<open>
  A parent is older than its children; a component found in a dictionary has the type of that
  dictionary and the name it is found under; a component in a slice has the slice's type; and a
  reviser found by its number carries that number, which is below the webapp's next number.  Rules
  and cases, whose names the configurator may change, are in no dictionary.
\<close>

definition keyed :: "compType \<Rightarrow> bool" where
  "keyed t \<longleftrightarrow> t \<noteq> compTypeRule \<and> t \<noteq> compTypeCase"

definition wellKept :: "comps \<Rightarrow> component \<Rightarrow> nat \<Rightarrow> bool" where
  "wellKept cs x a \<longleftrightarrow>
     (\<forall>p. parent x = Some p \<longrightarrow> p < a) \<and>
     (\<forall>t n b. dict x t n = Some b \<longrightarrow>
        b < length cs \<and> ctype (cs ! b) = t \<and> compName (cs ! b) = n \<and> keyed t) \<and>
     (\<forall>t b. b \<in> set (members x t) \<longrightarrow> b < length cs \<and> ctype (cs ! b) = t) \<and>
     (\<forall>i b. revisersByID x i = Some b \<longrightarrow>
        b < length cs \<and> ctype (cs ! b) = compTypeReviser \<and> reviserID (cs ! b) = i \<and> i < numRevisers x)"

definition wfComps :: "comps \<Rightarrow> bool" where
  "wfComps cs \<longleftrightarrow> cs \<noteq> [] \<and> (\<forall>a < length cs. wellKept cs (cs ! a) a)"

definition extends :: "comps \<Rightarrow> comps \<Rightarrow> bool" where
  "extends cs cs' \<longleftrightarrow> length cs \<le> length cs' \<and>
     (\<forall>a < length cs. ctype (cs' ! a) = ctype (cs ! a) \<and> reviserID (cs' ! a) = reviserID (cs ! a) \<and>
        (keyed (ctype (cs ! a)) \<longrightarrow> compName (cs' ! a) = compName (cs ! a)))"

lemma extends_refl [simp]: "extends cs cs"
  by (simp add: extends_def)

lemma extends_trans: "extends cs cs' \<Longrightarrow> extends cs' cs'' \<Longrightarrow> extends cs cs''"
  unfolding extends_def by (metis order_trans order_less_le_trans)

lemma extends_ctype: "extends cs cs' \<Longrightarrow> a < length cs \<Longrightarrow> a < length cs' \<and> ctype (cs' ! a) = ctype (cs ! a)"
  by (auto simp: extends_def)

lemma extends_at:
  "extends cs cs' \<Longrightarrow> b < length cs \<Longrightarrow> b < length cs' \<and> ctype (cs' ! b) = ctype (cs ! b) \<and>
     reviserID (cs' ! b) = reviserID (cs ! b) \<and>
     (keyed (ctype (cs ! b)) \<longrightarrow> compName (cs' ! b) = compName (cs ! b))"
  by (simp add: extends_def)

lemma wellKept_extends:
  assumes "wellKept cs x a" "extends cs cs'"
  shows "wellKept cs' x a"
  using assms(1) extends_at [OF assms(2)] unfolding wellKept_def by simp

lemma wellKept_dict:
  "wellKept cs x a \<Longrightarrow> b < length cs \<Longrightarrow> ctype (cs ! b) = t \<Longrightarrow> compName (cs ! b) = n \<Longrightarrow> keyed t \<Longrightarrow>
   wellKept cs (x\<lparr>dict := (dict x)(t := (dict x t)(n \<mapsto> b))\<rparr>) a"
  by (auto simp: wellKept_def)

lemma wellKept_members:
  "wellKept cs x a \<Longrightarrow> b < length cs \<Longrightarrow> ctype (cs ! b) = t \<Longrightarrow>
   wellKept cs (x\<lparr>members := (members x)(t := members x t @ [b])\<rparr>) a"
  by (auto simp: wellKept_def)

lemma length_updComp [simp]: "length (updComp a f cs) = length cs"
  by (simp add: updComp_def)

lemma nth_updComp: "b < length cs \<Longrightarrow> updComp a f cs ! b = (if b = a then f (cs ! b) else cs ! b)"
  by (simp add: updComp_def nth_list_update)

lemma wfComps_kept: "wfComps cs \<Longrightarrow> a < length cs \<Longrightarrow> wellKept cs (cs ! a) a"
  by (simp add: wfComps_def)

lemma updComp_keeps:
  assumes "wfComps cs" "a < length cs" "extends cs (updComp a f cs)"
    "wellKept (updComp a f cs) (f (cs ! a)) a"
  shows "wfComps (updComp a f cs)"
  unfolding wfComps_def
proof (intro conjI allI impI)
  show "updComp a f cs \<noteq> []" using assms(2) by (metis length_updComp list.size(3) not_less_zero)
next
  fix b assume "b < length (updComp a f cs)"
  then show "wellKept (updComp a f cs) (updComp a f cs ! b) b"
    using assms wellKept_extends [OF wfComps_kept [OF assms(1)] assms(3)] by (auto simp: nth_updComp)
qed

lemma extends_updComp:
  "(\<And>x. ctype (f x) = ctype x \<and> reviserID (f x) = reviserID x \<and> (keyed (ctype x) \<longrightarrow> compName (f x) = compName x)) \<Longrightarrow>
   extends cs (updComp a f cs)"
  by (auto simp: extends_def nth_updComp)

lemma setters_extend [simp]:
  "extends cs (setParent a p cs)" "extends cs (setInfo a i cs)" "extends cs (setProp a n v cs)"
  "extends cs (addDict w t n a cs)" "extends cs (addMember w t a cs)"
  by (auto simp: setParent_def setInfo_def setProp_def addDict_def addMember_def intro!: extends_updComp)

lemma setName_extends: "a < length cs \<Longrightarrow> \<not> keyed (ctype (cs ! a)) \<Longrightarrow> extends cs (setName a n cs)"
  by (auto simp: extends_def setName_def nth_updComp)

lemma setters_keep:
  assumes "wfComps cs" "a < length cs"
  shows "p < a \<Longrightarrow> wfComps (setParent a p cs)" "wfComps (setInfo a i cs)" "wfComps (setProp a n v cs)"
    "\<not> keyed (ctype (cs ! a)) \<Longrightarrow> wfComps (setName a n cs)"
proof -
  have k: "extends cs cs' \<Longrightarrow> wellKept cs' (cs ! a) a" for cs'
    by (rule wellKept_extends [OF wfComps_kept [OF assms]])
  have k': "wellKept cs' (cs ! a) a \<Longrightarrow> wellKept cs' ((cs ! a)\<lparr>cinfo := y\<rparr>) a"
    "wellKept cs' (cs ! a) a \<Longrightarrow> wellKept cs' ((cs ! a)\<lparr>props := q\<rparr>) a"
    "wellKept cs' (cs ! a) a \<Longrightarrow> wellKept cs' ((cs ! a)\<lparr>compName := n\<rparr>) a"
    "wellKept cs' (cs ! a) a \<Longrightarrow> p < a \<Longrightarrow> wellKept cs' ((cs ! a)\<lparr>parent := Some p\<rparr>) a" for cs' y q n p
    by (simp_all add: wellKept_def)
  show "p < a \<Longrightarrow> wfComps (setParent a p cs)"
    using setters_extend(1) [of cs a p] assms unfolding setParent_def
    by (intro updComp_keeps k') (simp_all add: k)
  show "wfComps (setInfo a i cs)"
    using setters_extend(2) [of cs a i] assms unfolding setInfo_def
    by (intro updComp_keeps k') (simp_all add: k)
  show "wfComps (setProp a n v cs)"
    using setters_extend(3) [of cs a n v] assms unfolding setProp_def
    by (intro updComp_keeps k') (simp_all add: k)
  show "\<not> keyed (ctype (cs ! a)) \<Longrightarrow> wfComps (setName a n cs)"
    using setName_extends [of a cs n] assms unfolding setName_def
    by (intro updComp_keeps k') (simp_all add: k)
qed

lemma addMember_keeps:
  assumes "wfComps cs" "w < length cs" "a < length cs" "ctype (cs ! a) = t"
  shows "wfComps (addMember w t a cs)"
proof -
  let ?cs = "addMember w t a cs"
  have ext: "extends cs ?cs" by simp
  have "wellKept ?cs ((cs ! w)\<lparr>members := (members (cs ! w))(t := members (cs ! w) t @ [a])\<rparr>) w"
    using wellKept_extends [OF wfComps_kept [OF assms(1,2)] ext] extends_ctype [OF ext assms(3)] assms(4)
    by (intro wellKept_members) auto
  with ext show ?thesis
    unfolding addMember_def using assms by (intro updComp_keeps)
qed

lemma addDict_keeps:
  assumes "wfComps cs" "w < length cs" "a < length cs" "ctype (cs ! a) = t" "compName (cs ! a) = n" "keyed t"
  shows "wfComps (addDict w t n a cs)"
proof -
  let ?cs = "addDict w t n a cs"
  have ext: "extends cs ?cs" by simp
  moreover have "compName (?cs ! a) = n"
    using ext assms by (auto simp: extends_def)
  ultimately have "wellKept ?cs ((cs ! w)\<lparr>dict := (dict (cs ! w))(t := (dict (cs ! w) t)(n \<mapsto> a))\<rparr>) w"
    using wellKept_extends [OF wfComps_kept [OF assms(1,2)] ext] extends_ctype [OF ext assms(3)] assms(4,6)
    by (intro wellKept_dict) auto
  with ext show ?thesis
    unfolding addDict_def using assms by (intro updComp_keeps)
qed

lemma makeComp_kept: "wellKept cs (makeComp t s n) a"
  by (simp add: wellKept_def makeComp_def)

lemma extends_append [simp]: "extends cs (cs @ [x])"
  by (simp add: extends_def nth_append)

lemma append_keeps: "wfComps cs \<Longrightarrow> wellKept (cs @ [x]) x (length cs) \<Longrightarrow> wfComps (cs @ [x])"
  using wellKept_extends [OF wfComps_kept extends_append]
  by (auto simp: wfComps_def less_Suc_eq nth_append)

lemma new_comp:
  assumes "wfComps cs"
  shows "wfComps (cs @ [makeComp t s n])" "extends cs (cs @ [makeComp t s n])"
    "ctype ((cs @ [makeComp t s n]) ! length cs) = t" "compName ((cs @ [makeComp t s n]) ! length cs) = n"
  using assms by (auto intro: append_keeps makeComp_kept) (simp_all add: makeComp_def)

lemma createIn_Done:
  assumes "wfComps cs" "w < length cs" "keyed t" "createIn r w t needs s n cs = Done (a, cs')"
  shows "a = length cs" "length cs' = Suc a" "extends cs cs'" "wfComps cs'" "cs' ! a = makeComp t s n"
    "dict (cs ! w) t n = None" "needs \<Longrightarrow> creators r t s"
    "cs' = addDict w t n a (cs @ [makeComp t s n])"
proof -
  show *: "a = length cs" and ct: "cs' = addDict w t n a (cs @ [makeComp t s n])"
    and "dict (cs ! w) t n = None" "needs \<Longrightarrow> creators r t s"
    using assms(4) by (auto simp: createIn_def allocate_def split: if_splits)
  show "length cs' = Suc a" "cs' ! a = makeComp t s n"
    using assms(2) by (auto simp: ct * addDict_def nth_updComp)
  show "extends cs cs'"
    unfolding ct by (rule extends_trans [OF extends_append setters_extend(4)])
  show "wfComps cs'"
    unfolding ct * using assms(2,3) new_comp [OF assms(1), of t s n] by (intro addDict_keeps) auto
qed

lemma createListed_Done:
  assumes "wfComps cs" "w < length cs" "createListed w t s n cs = Done (a, cs')"
  shows "a = length cs" "length cs' = Suc a" "extends cs cs'" "wfComps cs'" "cs' ! a = makeComp t s n"
    "\<not> hasMember cs w t n"
proof -
  show *: "a = length cs" and "\<not> hasMember cs w t n"
    using assms(3) by (auto simp: createListed_def allocate_def split: if_splits)
  have ct: "cs' = addMember w t a (cs @ [makeComp t s n])"
    using assms(3) by (auto simp: createListed_def allocate_def split: if_splits)
  show "length cs' = Suc a" "cs' ! a = makeComp t s n"
    using assms(2) by (auto simp: ct * addMember_def nth_updComp)
  show "extends cs cs'"
    unfolding ct by (rule extends_trans [OF extends_append setters_extend(5)])
  show "wfComps cs'"
    unfolding ct * using assms(2) new_comp [OF assms(1), of t s n] by (intro addMember_keeps) auto
qed

lemma createNode_Done:
  assumes "wfComps cs" "w < length cs" "createNode w n cs = (a, cs')"
  shows "a = length cs" "length cs' = Suc a" "extends cs cs'" "wfComps cs'"
proof -
  let ?x = "makeComp compTypeNode (bs ''node'') n"
  show *: "a = length cs"
    using assms(3) by (auto simp: createNode_def allocate_def)
  have ct: "cs' = addMember w compTypeNode a (cs @ [?x])"
    using assms(3) by (auto simp: createNode_def allocate_def)
  show "length cs' = Suc a" by (simp add: ct * addMember_def)
  show "extends cs cs'"
    unfolding ct by (rule extends_trans [OF extends_append setters_extend(5)])
  show "wfComps cs'"
    unfolding ct * using assms(2) new_comp [OF assms(1), of compTypeNode "bs ''node''" n]
    by (intro addMember_keeps) auto
qed

lemma minus_one_word: "(- 1 :: uint8) = 255"
  by simp

lemma createReviser_Done:
  assumes "wfComps cs" "w < length cs" "createReviser r w s n cs = Done (a, cs')"
  shows "a = length cs" "length cs' = Suc a" "extends cs cs'" "wfComps cs'"
    "creators r compTypeReviser s" "reviserID (cs' ! a) = numRevisers (cs ! w)"
    "revisersByID (cs' ! w) (numRevisers (cs ! w)) = Some a"
    "numRevisers (cs' ! w) = numRevisers (cs ! w) + 1"
proof -
  define m where "m = numRevisers (cs ! w)"
  have m: "m \<noteq> 255" using assms(3) by (auto simp: createReviser_def m_def split: if_splits)
  obtain a1 cs1 where new: "createIn r w compTypeReviser True s n cs = Done (a1, cs1)"
    using assms(3) m by (auto simp: createReviser_def andThen_Done_iff m_def)
  note new' = createIn_Done [OF assms(1,2) _ new, unfolded keyed_def, simplified]
  have dw: "cs1 ! w = (cs ! w)\<lparr>dict := (dict (cs ! w))(compTypeReviser := (dict (cs ! w) compTypeReviser)(n \<mapsto> a1))\<rparr>"
    using new' assms(2) by (simp add: addDict_def nth_updComp nth_append)
  then have nm: "numRevisers (cs1 ! w) = m" by (simp add: m_def)
  define cs2 where "cs2 = updComp a1 (\<lambda>x. x\<lparr>reviserID := m\<rparr>) cs1"
  define f where "f = (\<lambda>x :: component. x\<lparr>revisersByID := (revisersByID x)(m \<mapsto> a1), numRevisers := m + 1\<rparr>)"
  have res: "a = a1" "cs' = updComp w f cs2"
    using assms(3) m new nm by (auto simp: createReviser_def cs2_def f_def Let_def m_def)
  have aw: "w < a1" "a1 < length cs1" using new'(1,2) assms(2) by auto
  show "a = length cs" "length cs' = Suc a" "creators r compTypeReviser s"
    using new' res by (auto simp: cs2_def)
  have e2: "extends cs cs2"
    using new'(1,2,3) by (auto simp: extends_def cs2_def nth_updComp)
  have ef: "extends cs2 (updComp w f cs2)"
    by (auto simp: extends_def nth_updComp f_def)
  show ext: "extends cs cs'"
    unfolding res(2) by (rule extends_trans [OF e2 ef])
  have x: "cs2 ! a1 = (makeComp compTypeReviser s n)\<lparr>reviserID := m\<rparr>" "cs2 ! w = cs1 ! w"
    using new'(5) aw by (auto simp: cs2_def nth_updComp)
  then show "reviserID (cs' ! a) = numRevisers (cs ! w)"
    "revisersByID (cs' ! w) (numRevisers (cs ! w)) = Some a"
    "numRevisers (cs' ! w) = numRevisers (cs ! w) + 1"
    using aw by (auto simp: res f_def nth_updComp cs2_def m_def)
  have kept1: "wellKept cs2 (cs1 ! b) b" if "b < length cs1" for b
  proof (cases "b < length cs")
    case True
    then show ?thesis
    proof (cases "b = w")
      case True
      have "ctype (cs2 ! a1) = compTypeReviser" "compName (cs2 ! a1) = n" by (simp_all add: x makeComp_def)
      then show ?thesis
        unfolding True dw using aw by (intro wellKept_dict wellKept_extends [OF wfComps_kept [OF assms(1,2)] e2])
          (auto simp: cs2_def keyed_def)
    next
      case False
      then show ?thesis
        using True wellKept_extends [OF wfComps_kept [OF assms(1) True] e2] new'(8)
        by (simp add: addDict_def nth_updComp nth_append)
    qed
  next
    case False
    then have "b = a1" using that new'(1,2) by simp
    then show ?thesis using new'(5) by (simp add: makeComp_kept)
  qed
  have kept2: "wellKept cs2 (cs2 ! b) b" if "b < length cs2" for b
  proof (cases "b = a1")
    case True
    then show ?thesis unfolding True x(1) by (simp add: wellKept_def makeComp_def)
  next
    case False
    have "cs2 ! b = cs1 ! b" "b < length cs1" using False that by (auto simp: cs2_def nth_updComp)
    then show ?thesis using kept1 [of b] by simp
  qed
  moreover have "cs2 \<noteq> []"
    using aw(2) by (metis cs2_def length_updComp list.size(3) not_less_zero)
  ultimately have wf2: "wfComps cs2"
    by (simp add: wfComps_def)
  have "m \<noteq> - 1" using m by (simp add: minus_one_word)
  then have "unat (m + 1) = Suc (unat m)"
    using unatSuc [of m] by (auto simp: add.commute add_eq_0_iff)
  then have less: "i < m \<Longrightarrow> i < m + 1" "m < m + 1" for i
    by (auto simp: word_less_nat_alt)
  have "w < length cs2" using aw by (simp add: cs2_def)
  then show "wfComps cs'"
    unfolding res(2)
  proof (intro updComp_keeps wf2 ef)
    have wk: "wellKept (updComp w f cs2) (cs2 ! w) w"
      by (rule wellKept_extends [OF kept2 [OF \<open>w < length cs2\<close>] ef])
    have "updComp w f cs2 ! a1 = cs2 ! a1" "a1 < length cs2"
      using aw by (auto simp: nth_updComp cs2_def)
    then show "wellKept (updComp w f cs2) (f (cs2 ! w)) w"
      using wk nm less x unfolding wellKept_def by (auto simp: f_def makeComp_def)
  qed
qed

lemma createStage_wf: "wfComps createStage" "length createStage = 4"
proof -
  let ?cs = "[makeComp compTypeStage (bs ''stage'') (bs ''stage''),
               makeComp compTypeFixture (bs ''clock'') (bs ''clock''),
               makeComp compTypeFixture (bs ''fcache'') (bs ''fcache''),
               makeComp compTypeFixture (bs ''resolv'') (bs ''resolv'')]"
  have "wfComps ?cs"
    using makeComp_kept by (simp add: wfComps_def less_Suc_eq all_conj_distrib imp_conjL)
  then show "wfComps createStage"
    unfolding createStage_def Let_def
    by (intro addDict_keeps) (auto simp: makeComp_def keyed_def addDict_def updComp_def)
  show "length createStage = 4" by (simp add: createStage_def addDict_def)
qed

subsection \<open>Finding a property\<close>

definition up :: "comps \<Rightarrow> (nat \<times> nat) set" where
  "up cs = {(a, p). parent (cs ! a) = Some p}"

lemma findUp_enough:
  assumes "wfComps cs"
  shows "a < length cs \<Longrightarrow> a < n \<Longrightarrow> findUp n cs a name = findUp (Suc a) cs a name"
proof (induction a arbitrary: n rule: less_induct)
  case (less a)
  obtain m where n: "n = Suc m" "a \<le> m" using less.prems(2) by (cases n) auto
  have "findUp m cs p name = findUp a cs p name" if "parent (cs ! a) = Some p" for p
  proof -
    have p: "p < a" using wfComps_kept [OF assms less.prems(1)] that by (simp add: wellKept_def)
    then show ?thesis
      using less.IH [OF p, of m] less.IH [OF p, of a] less.prems(1) n(2) by simp
  qed
  then show ?case by (auto simp: n split: option.splits)
qed

lemma findProp_unfold:
  assumes "wfComps cs" "a < length cs"
  shows "findProp cs a name =
    (case propOf cs a name of
       Some v \<Rightarrow> Some v
     | None \<Rightarrow> (case parent (cs ! a) of None \<Rightarrow> None | Some p \<Rightarrow> findProp cs p name))"
proof -
  have "findUp a cs p name = findUp (Suc p) cs p name" if "parent (cs ! a) = Some p" for p
  proof -
    have "p < a" using wfComps_kept [OF assms] that by (simp add: wellKept_def)
    then show ?thesis using findUp_enough [OF assms(1), of p a] assms(2) by simp
  qed
  then show ?thesis
    unfolding findProp_def by (subst findUp.simps) (auto split: option.splits simp del: findUp.simps)
qed

text \<open>\<open>Find\<close> returns the nearest definition: in a well-formed tree it finds a property exactly
  when the component or one of its ancestors has it, and the value returned is that of the first
  one, going up, that does.\<close>

theorem findProp_correct:
  assumes "wfComps cs" "a < length cs"
  shows "case findProp cs a name of
     Some v \<Rightarrow> (\<exists>b. (a, b) \<in> (up cs)\<^sup>* \<and> propOf cs b name = Some v \<and>
       (\<forall>c. (a, c) \<in> (up cs)\<^sup>* \<and> (c, b) \<in> (up cs)\<^sup>+ \<longrightarrow> propOf cs c name = None))
   | None \<Rightarrow> (\<forall>b. (a, b) \<in> (up cs)\<^sup>* \<longrightarrow> propOf cs b name = None)"
  using assms(2)
proof (induction a rule: less_induct)
  case (less a)
  have below: "c < b" if "(b, c) \<in> (up cs)\<^sup>+" "b < length cs" for b c
    using that
  proof (induction rule: trancl_induct)
    case (base c)
    then show ?case using wfComps_kept [OF assms(1), of b] by (simp add: up_def wellKept_def)
  next
    case (step c d)
    then show ?case using wfComps_kept [OF assms(1), of c] by (fastforce simp: up_def wellKept_def)
  qed
  show ?case
  proof (cases "propOf cs a name")
    case (Some v)
    moreover have "c < a" if "(a, c) \<in> (up cs)\<^sup>*" "(c, a) \<in> (up cs)\<^sup>+" for c
      using below [of a a] that less.prems by (meson rtrancl_trancl_trancl order_less_irrefl)
    ultimately show ?thesis
      using findProp_unfold [OF assms(1) less.prems, of name] below [of a a] less.prems
      by (auto intro!: exI [of _ a]) (meson rtrancl_trancl_trancl order_less_irrefl)
  next
    case None
    show ?thesis
    proof (cases "parent (cs ! a)")
      case None': None
      then have "(a, b) \<in> (up cs)\<^sup>* \<Longrightarrow> b = a" for b
        by (auto simp: up_def elim: converse_rtranclE)
      then show ?thesis
        using findProp_unfold [OF assms(1) less.prems, of name] None None' by auto
    next
      case (Some p)
      have p: "p < a" using below [of a p] Some less.prems by (auto simp: up_def)
      have step: "(a, b) \<in> (up cs)\<^sup>* \<longleftrightarrow> b = a \<or> (p, b) \<in> (up cs)\<^sup>*" for b
        using Some by (auto simp: up_def elim: converse_rtranclE intro: converse_rtrancl_into_rtrancl)
      have "findProp cs a name = findProp cs p name"
        using findProp_unfold [OF assms(1) less.prems, of name] None Some by simp
      then show ?thesis
        using less.IH [OF p] p less.prems None
        by (auto simp: step split: option.splits)
    qed
  qed
qed

lemma length_setters [simp]:
  "length (setParent a p cs) = length cs" "length (setName a n cs) = length cs"
  "length (setInfo a i cs) = length cs" "length (setProp a n v cs) = length cs"
  "length (addDict w t n a cs) = length cs" "length (addMember w t a cs) = length cs"
  by (simp_all add: setParent_def setName_def setInfo_def setProp_def addDict_def addMember_def)

subsection \<open>The contract of properties\<close>

text \<open>
  What the configurator relies on when it assigns properties: an assignment is seen by the next
  lookup of that name and by no other.  The laws hold where a state invariant does.
\<close>

locale property_scope =
  fixes ok :: "'s \<Rightarrow> bool"
    and lookup :: "'s \<Rightarrow> bytes \<Rightarrow> 'v option"
    and assign :: "bytes \<Rightarrow> 'v \<Rightarrow> 's \<Rightarrow> 's"
  assumes ok_assign: "ok s \<Longrightarrow> ok (assign n v s)"
    and lookup_assign: "ok s \<Longrightarrow> lookup (assign n v s) m = (if m = n then Some v else lookup s m)"
begin

definition assigns :: "(bytes \<times> 'v) list \<Rightarrow> 's \<Rightarrow> 's" where
  "assigns ps s = fold (\<lambda>(n, v). assign n v) ps s"

lemma assigns_simps [simp]:
  "assigns [] s = s" "assigns ((n, v) # ps) s = assigns ps (assign n v s)"
  by (simp_all add: assigns_def)

lemma ok_assigns: "ok s \<Longrightarrow> ok (assigns ps s)"
  by (induction ps arbitrary: s) (auto simp: ok_assign)

lemma lookup_assigns:
  "ok s \<Longrightarrow> lookup (assigns ps s) m = (case map_of (rev ps) m of Some v \<Rightarrow> Some v | None \<Rightarrow> lookup s m)"
proof (induction ps arbitrary: s)
  case (Cons p ps)
  obtain n v where "p = (n, v)" by (cases p)
  with Cons show ?case
    by (auto simp: lookup_assign ok_assign map_add_def split: option.splits)
qed simp

end

lemma propOf_setProp:
  "a < length cs \<Longrightarrow> propOf (setProp a n v cs) b m = (if b = a \<and> m = n then Some v else propOf cs b m)"
  by (auto simp: propOf_def setProp_def updComp_def nth_list_update)

lemma parent_setProp: "a < length cs \<Longrightarrow> parent (setProp a n v cs ! b) = parent (cs ! b)"
  by (auto simp: setProp_def updComp_def nth_list_update)

theorem findProp_correct_witness:
  "\<exists>b. (1, b) \<in> (up (setParent 1 0 createStage))\<^sup>* \<and>
     propOf (setProp 0 (bs ''x'') zeroValue (setParent 1 0 createStage)) b (bs ''x'') = Some zeroValue"
proof -
  let ?cs = "setProp 0 (bs ''x'') zeroValue (setParent 1 0 createStage)"
  have "wfComps ?cs" "1 < length ?cs"
    by (intro setters_keep createStage_wf) (simp_all add: createStage_wf)
  moreover have "findProp ?cs 1 (bs ''x'') = Some zeroValue"
    by (simp add: findProp_def propOf_def setProp_def setParent_def updComp_def createStage_def
        addDict_def makeComp_def)
  moreover have "up ?cs = up (setParent 1 0 createStage)"
    by (simp add: up_def parent_setProp createStage_wf)
  ultimately show ?thesis
    using findProp_correct [of ?cs 1 "bs ''x''"] by auto
qed

lemma findProp_setProp:
  assumes "wfComps cs" "a < length cs"
  shows "findProp (setProp a n v cs) a m = (if m = n then Some v else findProp cs a m)"
proof -
  have same: "findProp (setProp a n v cs) b m = findProp cs b m"
    if "m \<noteq> n \<or> b < a" "b < length cs" for b
    using that
  proof (induction b rule: less_induct)
    case (less b)
    have wf: "wfComps (setProp a n v cs)" "length (setProp a n v cs) = length cs"
      using assms by (auto intro: setters_keep)
    show ?case
    proof (cases "parent (cs ! b)")
      case None
      then show ?thesis
        using findProp_unfold [OF assms(1) less.prems(2)] findProp_unfold [OF wf(1), of b] wf(2) less.prems
          assms(2) by (auto simp: propOf_setProp parent_setProp split: option.splits)
    next
      case (Some p)
      have p: "p < b" using wfComps_kept [OF assms(1) less.prems(2)] Some by (simp add: wellKept_def)
      then show ?thesis
        using findProp_unfold [OF assms(1) less.prems(2)] findProp_unfold [OF wf(1), of b] wf(2) less.prems
          assms(2) less.IH [OF p] Some by (auto simp: propOf_setProp parent_setProp split: option.splits)
    qed
  qed
  have "findProp (setProp a n v cs) a n = Some v"
    using assms by (simp add: findProp_def propOf_setProp)
  with same [of a] assms(2) show ?thesis by auto
qed

interpretation scope: property_scope "\<lambda>cs. wfComps cs \<and> a < length cs" "\<lambda>cs. findProp cs a" "setProp a"
  for a
  by unfold_locales (auto simp: findProp_setProp setters_keep)

interpretation own: property_scope "\<lambda>cs. a < length cs" "\<lambda>cs. propOf cs a" "setProp a"
  for a
  by unfold_locales (auto simp: propOf_setProp)

subsection \<open>The registry\<close>

definition hasCreators :: "compType \<Rightarrow> bool" where
  "hasCreators t \<longleftrightarrow> t \<in> {compTypeBackend, compTypeHstate, compTypeHcache, compTypeHandlet,
     compTypeReviser, compTypeSocklet, compTypeQUIXDealet, compTypeTCPXDealet, compTypeUDPXDealet,
     compTypeServer, compTypeCronjob}"

definition consistent :: "registry \<Rightarrow> bool" where
  "consistent r \<longleftrightarrow> (\<forall>t s. hasCreators t \<longrightarrow> (creators r t s \<longleftrightarrow> signed r s = Some (compNumber t)))"

lemma emptyRegistry_consistent: "consistent emptyRegistry"
  unfolding consistent_def emptyRegistry_def signedComps0_def hasCreators_def
  by (auto dest!: map_of_SomeD)

lemma registerComponent_consistent:
  assumes "consistent r" "hasCreators t" "registerComponent t s r = Done r'"
  shows "consistent r'"
proof -
  have "creators r' = (creators r)(t := (creators r t)(s := True))"
    "signed r' = (signed r)(s \<mapsto> compNumber t)" "signed r s = None"
    using assms(3) by (auto simp: registerComponent_def signComp_def andThen_Done_iff split: if_splits)
  then show ?thesis
    using assms(1,2) unfolding consistent_def by auto
qed

end
