(* ===== verification/Configurator.thy ===== *)
theory Configurator
  imports Components
begin

text \<open>
  The parser of the configurator (\<open>hemi/hemi_configurator.go\<close>): tokens to a tree of components.

  The state is the record \<open>configurator\<close> with the token list, the index of the current token, the
  counter for names, and the store of the components created so far (in Go, the heap).  Every
  \<open>panic(error)\<close> is a \<open>Fail\<close>, every index out of range a \<open>Panic\<close>.

  The parser is recursive over nested values and components.  Its definitions count the calls
  still allowed; \<open>stageFromText\<close> starts with three more than twice the number of tokens, and
  this is always enough, as is shown below.
\<close>

record configurator =
  tokens :: "token list"
  index :: nat
  counter :: int
  store :: comps

type_synonym 'a parsed = "(configError, 'a \<times> configurator) outcome"

subsection \<open>Moving over the tokens\<close>

definition currentToken :: "configurator \<Rightarrow> (configError, token) outcome" where
  "currentToken c = checked (idx (tokens c) (index c))"

definition currentTokenIs :: "tokenKind \<Rightarrow> configurator \<Rightarrow> (configError, bool) outcome" where
  "currentTokenIs k c = andThen (currentToken c) (\<lambda>t. Done (kind t = k))"

definition peekTokenIs :: "tokenKind \<Rightarrow> configurator \<Rightarrow> (configError, bool) outcome" where
  "peekTokenIs k c =
    (if index c = length (tokens c) then Done False
     else andThen (checked (idx (tokens c) (index c + 1))) (\<lambda>t. Done (kind t = k)))"

definition forwardCheckEOF :: "configurator \<Rightarrow> (configError, configurator) outcome" where
  "forwardCheckEOF c =
    (if index c + 1 = length (tokens c) then Fail (ParseError ''unexpected EOF'')
     else Done (c\<lparr>index := index c + 1\<rparr>))"

definition forwardToken :: "configurator \<Rightarrow> token parsed" where
  "forwardToken c =
    andThen (forwardCheckEOF c) (\<lambda>c. andThen (currentToken c) (\<lambda>t. Done (t, c)))"

definition expectToken :: "tokenKind \<Rightarrow> configurator \<Rightarrow> (configError, token) outcome" where
  "expectToken k c =
    andThen (currentToken c) (\<lambda>t.
    if kind t \<noteq> k then Fail (ParseError (''expect '' @ tokenNames k @ '', but get '' @ token_name t))
    else Done t)"

definition forwardExpectToken :: "tokenKind \<Rightarrow> configurator \<Rightarrow> token parsed" where
  "forwardExpectToken k c =
    andThen (forwardCheckEOF c) (\<lambda>c. andThen (expectToken k c) (\<lambda>t. Done (t, c)))"

text \<open>\<open>strconv.Itoa\<close> of the counter, a positive number.\<close>

fun itoa :: "nat \<Rightarrow> bytes" where
  "itoa n = (if n < 10 then [ch CHR ''0'' + of_nat n]
             else itoa (n div 10) @ [ch CHR ''0'' + of_nat (n mod 10)])"

declare itoa.simps [simp del]

definition makeCompName :: "configurator \<Rightarrow> bytes \<times> configurator" where
  "makeCompName c = (itoa (nat (counter c + 1)), c\<lparr>counter := counter c + 1\<rparr>)"

text \<open>An operation of the component store, run on the store of the configurator.\<close>

definition onStore :: "(comps \<Rightarrow> (configError, 'a \<times> comps) outcome) \<Rightarrow> configurator \<Rightarrow> 'a parsed" where
  "onStore f c = andThen (f (store c)) (\<lambda>(x, cs). Done (x, c\<lparr>store := cs\<rparr>))"

definition modifyStore :: "(comps \<Rightarrow> comps) \<Rightarrow> configurator \<Rightarrow> configurator" where
  "modifyStore f c = c\<lparr>store := f (store c)\<rparr>"

subsection \<open>Numbers\<close>

text \<open>\<open>strconv.ParseInt(s, 10, 64)\<close>: an optional sign, at least one digit, and the range of \<open>int64\<close>.\<close>

fun decimalValue :: "nat \<Rightarrow> bytes \<Rightarrow> nat option" where
  "decimalValue acc [] = Some acc"
| "decimalValue acc (b # s) =
    (if byteIsDigit b then decimalValue (10 * acc + unat (b - ch CHR ''0'')) s else None)"

definition parseInt :: "bytes \<Rightarrow> int64 option" where
  "parseInt s =
    (let neg = (s \<noteq> [] \<and> hd s = ch CHR ''-'');
         digits = (if s \<noteq> [] \<and> (hd s = ch CHR ''-'' \<or> hd s = ch CHR ''+'') then tl s else s) in
     if digits = [] then None
     else case decimalValue 0 digits of
         None \<Rightarrow> None
       | Some n \<Rightarrow>
           if neg then (if n \<le> 2 ^ 63 then Some (word_of_int (- int n)) else None)
           else (if n < 2 ^ 63 then Some (word_of_nat n) else None))"

definition sizeUnit :: "byte \<Rightarrow> int64" where
  "sizeUnit c =
    (if c = ch CHR ''K'' then 2 ^ 10 else if c = ch CHR ''M'' then 2 ^ 20
     else if c = ch CHR ''G'' then 2 ^ 30 else if c = ch CHR ''T'' then 2 ^ 40 else 1)"

text \<open>The nanoseconds of a duration unit; for any other letter the duration stays zero.\<close>

definition durationUnit :: "byte \<Rightarrow> int64" where
  "durationUnit c =
    (if c = ch CHR ''s'' then 1000000000 else if c = ch CHR ''m'' then 60 * 1000000000
     else if c = ch CHR ''h'' then 3600 * 1000000000
     else if c = ch CHR ''d'' then 24 * (3600 * 1000000000) else 0)"

text \<open>The text of an integer token and of a duration token; both products wrap.\<close>

definition parseInteger :: "bytes \<Rightarrow> (configError, int64) outcome" where
  "parseInteger t =
    (if t = [] then Panic
     else if byteIsDigit (last t) then
       (case parseInt t of
          None \<Rightarrow> Fail (ParseError ''bad integer'')
        | Some n \<Rightarrow> if sint n < 0 then Fail (ParseError ''negative integers are not allowed'') else Done n)
     else
       (case parseInt (butlast t) of
          None \<Rightarrow> Fail (ParseError ''bad size'')
        | Some n \<Rightarrow> if sint n < 0 then Fail (ParseError ''negative sizes are not allowed'')
                    else Done (n * sizeUnit (last t))))"

definition parseDuration :: "bytes \<Rightarrow> (configError, int64) outcome" where
  "parseDuration t =
    (if t = [] then Panic
     else case parseInt (butlast t) of
         None \<Rightarrow> Fail (ParseError ''bad duration'')
       | Some n \<Rightarrow> if sint n < 0 then Fail (ParseError ''negative durations are not allowed'')
                   else Done (n * durationUnit (last t)))"

subsection \<open>Values\<close>

text \<open>A reference to another property of the component or its ancestors.\<close>

definition findRef :: "nat \<Rightarrow> bytes \<Rightarrow> token \<Rightarrow> configurator \<Rightarrow> (configError, confValue) outcome" where
  "findRef cp prop current c =
    (if prop = [] \<or> prop = ttext current then Fail (ParseError ''cannot refer to self'')
     else case findProp (store c) cp (ttext current) of
         None \<Rightarrow> Fail (ParseError ''refer to a prop that does not exist'')
       | Some v \<Rightarrow> Done v)"

text \<open>Appending a string to a value; the type assertions fail on anything but two strings.\<close>

definition concatStrings :: "confValue \<Rightarrow> confValue \<Rightarrow> (configError, confValue) outcome" where
  "concatStrings v w =
    (case (vdata v, vdata w) of
       (StringData s, StringData t) \<Rightarrow>
         Done (Value (vkind v) (vcode v) (vname v) (StringData (s @ t)) (vbytes v @ vbytes w))
     | _ \<Rightarrow> Panic)"

text \<open>
  The bodies of \<open>_parseValue\<close>, of its concatenation loop, and of the loops of \<open>_parseList\<close> and
  \<open>_parseDict\<close>; the parsers they call are arguments, and the recursion is tied below.
\<close>

definition valueSwitch ::
  "(configurator \<Rightarrow> confValue list parsed) \<Rightarrow> (configurator \<Rightarrow> (bytes \<Rightarrow> confValue option) parsed) \<Rightarrow>
   nat \<Rightarrow> bytes \<Rightarrow> token \<Rightarrow> configurator \<Rightarrow> confValue parsed" where
  "valueSwitch readList readDict cp prop current c =
    (case kind current of
        tokenBool \<Rightarrow> Done (Value (Some tokenBool) 0 [] (BoolData (ttext current = bs ''true'')) [], c)
      | tokenInteger \<Rightarrow>
          andThen (parseInteger (ttext current)) (\<lambda>n.
          Done (Value (Some tokenInteger) 0 [] (IntData n) [], c))
      | tokenString \<Rightarrow>
          Done (Value (Some tokenString) 0 [] (StringData (ttext current)) (ttext current), c)
      | tokenDuration \<Rightarrow>
          andThen (parseDuration (ttext current)) (\<lambda>d.
          Done (Value (Some tokenDuration) 0 [] (DurationData d) [], c))
      | tokenVariable \<Rightarrow> Done (Value (Some tokenVariable) (- 1) (ttext current) NoData [], c)
      | tokenLeftParen \<Rightarrow>
          andThen (expectToken tokenLeftParen c) (\<lambda>_.
          andThen (readList c) (\<lambda>(l, c). Done (Value (Some tokenList) 0 [] (ListData l) [], c)))
      | tokenLeftBracket \<Rightarrow>
          andThen (expectToken tokenLeftBracket c) (\<lambda>_.
          andThen (readDict c) (\<lambda>(d, c). Done (Value (Some tokenDict) 0 [] (DictData d) [], c)))
      | tokenProperty \<Rightarrow> andThen (findRef cp prop current c) (\<lambda>v. Done (v, c))
      | _ \<Rightarrow> Fail (ParseError ''expect a value''))"

definition valueBody ::
  "(configurator \<Rightarrow> confValue list parsed) \<Rightarrow> (configurator \<Rightarrow> (bytes \<Rightarrow> confValue option) parsed) \<Rightarrow>
   (confValue \<Rightarrow> configurator \<Rightarrow> confValue parsed) \<Rightarrow> nat \<Rightarrow> bytes \<Rightarrow> configurator \<Rightarrow> confValue parsed" where
  "valueBody readList readDict readMore cp prop c =
    andThen (currentToken c) (\<lambda>current.
    andThen (valueSwitch readList readDict cp prop current c) (\<lambda>(v, c).
    if vkind v \<noteq> Some tokenString then Done (v, c) else readMore v c))"

definition concatBody ::
  "(configurator \<Rightarrow> confValue parsed) \<Rightarrow> (confValue \<Rightarrow> configurator \<Rightarrow> confValue parsed) \<Rightarrow>
   nat \<Rightarrow> bytes \<Rightarrow> confValue \<Rightarrow> configurator \<Rightarrow> confValue parsed" where
  "concatBody value again cp prop v c =
    andThen (peekTokenIs tokenPlus c) (\<lambda>plus.
    if \<not> plus then Done (v, c)
    else andThen (forwardToken c) (\<lambda>(_, c).
      andThen (forwardToken c) (\<lambda>(current, c).
      andThen (if kind current = tokenString then value c
               else if kind current = tokenProperty then
                 andThen (findRef cp prop current c) (\<lambda>w.
                 if vkind w = Some tokenString then Done (w, c)
                 else Fail (ParseError ''cannot concat string with other types''))
               else Fail (ParseError ''cannot concat string with other types'')) (\<lambda>(w, c).
      andThen (concatStrings v w) (\<lambda>v. again v c)))))"

definition listBody ::
  "(configurator \<Rightarrow> confValue parsed) \<Rightarrow> (confValue list \<Rightarrow> configurator \<Rightarrow> confValue list parsed) \<Rightarrow>
   confValue list \<Rightarrow> configurator \<Rightarrow> confValue list parsed" where
  "listBody value again l c =
    andThen (forwardToken c) (\<lambda>(current, c).
    if kind current = tokenRightParen then Done (l, c)
    else andThen (value c) (\<lambda>(elem, c).
      andThen (forwardToken c) (\<lambda>(current, c).
      if kind current = tokenRightParen then Done (l @ [elem], c)
      else if kind current \<noteq> tokenComma then Fail (ParseError ''bad list'')
      else again (l @ [elem]) c)))"

definition dictBody ::
  "(configurator \<Rightarrow> confValue parsed) \<Rightarrow>
   ((bytes \<Rightarrow> confValue option) \<Rightarrow> configurator \<Rightarrow> (bytes \<Rightarrow> confValue option) parsed) \<Rightarrow>
   (bytes \<Rightarrow> confValue option) \<Rightarrow> configurator \<Rightarrow> (bytes \<Rightarrow> confValue option) parsed" where
  "dictBody value again d c =
    andThen (forwardToken c) (\<lambda>(current, c).
    if kind current = tokenRightBracket then Done (d, c)
    else andThen (expectToken tokenString c) (\<lambda>k.
      andThen (forwardExpectToken tokenColon c) (\<lambda>(_, c).
      andThen (forwardToken c) (\<lambda>(_, c).
      andThen (value c) (\<lambda>(v, c).
      andThen (forwardToken c) (\<lambda>(current, c).
      if kind current = tokenRightBracket then Done (d(ttext k \<mapsto> v), c)
      else if kind current \<noteq> tokenComma then Fail (ParseError ''bad dict'')
      else again (d(ttext k \<mapsto> v)) c))))))"

function (sequential) parseValue :: "nat \<Rightarrow> nat \<Rightarrow> bytes \<Rightarrow> configurator \<Rightarrow> confValue parsed"
and concatLoop :: "nat \<Rightarrow> nat \<Rightarrow> bytes \<Rightarrow> confValue \<Rightarrow> configurator \<Rightarrow> confValue parsed"
and parseListFrom :: "nat \<Rightarrow> nat \<Rightarrow> bytes \<Rightarrow> confValue list \<Rightarrow> configurator \<Rightarrow> confValue list parsed"
and parseDictFrom :: "nat \<Rightarrow> nat \<Rightarrow> bytes \<Rightarrow> (bytes \<Rightarrow> confValue option) \<Rightarrow> configurator \<Rightarrow>
  (bytes \<Rightarrow> confValue option) parsed" where
  "parseValue 0 cp prop c = Fail OutOfFuel"
| "parseValue (Suc f) cp prop c =
    valueBody (parseListFrom f cp prop []) (parseDictFrom f cp prop Map.empty) (concatLoop f cp prop)
      cp prop c"
| "concatLoop 0 cp prop v c = Fail OutOfFuel"
| "concatLoop (Suc f) cp prop v c =
    concatBody (parseValue f cp prop) (concatLoop f cp prop) cp prop v c"
| "parseListFrom 0 cp prop l c = Fail OutOfFuel"
| "parseListFrom (Suc f) cp prop l c = listBody (parseValue f cp prop) (parseListFrom f cp prop) l c"
| "parseDictFrom 0 cp prop d c = Fail OutOfFuel"
| "parseDictFrom (Suc f) cp prop d c = dictBody (parseValue f cp prop) (parseDictFrom f cp prop) d c"
  by pat_completeness auto
termination
  by (relation "measure (case_sum (case_sum (\<lambda>(f, _). f) (\<lambda>(f, _). f)) (case_sum (\<lambda>(f, _). f) (\<lambda>(f, _). f)))") auto

subsection \<open>Leaf components\<close>

definition parseAssign :: "nat \<Rightarrow> token \<Rightarrow> nat \<Rightarrow> configurator \<Rightarrow> (configError, configurator) outcome" where
  "parseAssign f prop cp c =
    andThen (peekTokenIs tokenLeftBrace c) (\<lambda>brace.
    if brace then Fail (ParseError ''unknown component'')
    else andThen (forwardExpectToken tokenEqual c) (\<lambda>(_, c).
      andThen (forwardToken c) (\<lambda>(_, c).
      andThen (parseValue f cp (ttext prop) c) (\<lambda>(v, c).
      Done (modifyStore (setProp cp (ttext prop) v) c)))))"

text \<open>
  The loop shared by every component with a body: properties are assigned to \<open>cp\<close>, components
  are handed to \<open>inner\<close>, and the closing brace ends it.
\<close>

primrec parseBody ::
  "(nat \<Rightarrow> token \<Rightarrow> configurator \<Rightarrow> (configError, configurator) outcome) \<Rightarrow> nat \<Rightarrow> nat \<Rightarrow> configurator \<Rightarrow>
   (configError, configurator) outcome" where
  "parseBody inner 0 cp c = Fail OutOfFuel"
| "parseBody inner (Suc f) cp c =
    andThen (forwardToken c) (\<lambda>(current, c).
    if kind current = tokenRightBrace then Done c
    else if kind current = tokenProperty then
      andThen (parseAssign f current cp c) (\<lambda>c. parseBody inner f cp c)
    else if kind current \<noteq> tokenComponent then Fail (ParseError ''unknown token'')
    else andThen (inner f current c) (\<lambda>c. parseBody inner f cp c))"

declare parseBody.simps(2) [simp del]

definition parseLeaf :: "nat \<Rightarrow> nat \<Rightarrow> configurator \<Rightarrow> (configError, configurator) outcome" where
  "parseLeaf f cp c =
    andThen (expectToken tokenLeftBrace c) (\<lambda>_.
    parseBody (\<lambda>_ _ _. Fail (ParseError ''unknown token'')) f cp c)"

subsection \<open>Conditions\<close>

text \<open>The patterns of a condition: one string, or a parenthesised list of strings.\<close>

primrec patternLoop :: "nat \<Rightarrow> bytes list \<Rightarrow> configurator \<Rightarrow> bytes list parsed" where
  "patternLoop 0 ps c = Fail OutOfFuel"
| "patternLoop (Suc f) ps c =
    andThen (forwardToken c) (\<lambda>(current, c).
    if kind current = tokenRightParen then Done (ps, c)
    else if kind current = tokenString then
      let ps = ps @ [ttext current] in
      andThen (forwardToken c) (\<lambda>(current, c).
      if kind current = tokenRightParen then Done (ps, c)
      else if kind current \<noteq> tokenComma then Fail (ParseError ''bad string list in cond'')
      else patternLoop f ps c)
    else Fail (ParseError ''only strings are allowed in cond''))"

definition parsePatterns :: "nat \<Rightarrow> configurator \<Rightarrow> bytes list parsed" where
  "parsePatterns f c =
    andThen (forwardToken c) (\<lambda>(current, c).
    if kind current = tokenString then Done ([ttext current], c)
    else if kind current = tokenLeftParen then patternLoop f [] c
    else Fail (ParseError ''bad cond pattern''))"

definition parseCaseCond :: "nat \<Rightarrow> nat \<Rightarrow> configurator \<Rightarrow> (configError, configurator) outcome" where
  "parseCaseCond f kase c =
    andThen (expectToken tokenVariable c) (\<lambda>v.
    andThen (forwardToken c) (\<lambda>(_, c).
    andThen (currentTokenIs tokenFSCheck c) (\<lambda>fs.
    if fs then Fail (ParseError ''fs check is not allowed in case'')
    else andThen (expectToken tokenCompare c) (\<lambda>cmp.
      andThen (parsePatterns f c) (\<lambda>(ps, c).
      Done (modifyStore (setInfo kase (CaseCond
        \<lparr>varCode = info v, varName = ttext v, compare = ttext cmp, patterns = ps\<rparr>)) c))))))"

definition parseRuleCond :: "nat \<Rightarrow> nat \<Rightarrow> configurator \<Rightarrow> (configError, configurator) outcome" where
  "parseRuleCond f rule c =
    andThen (expectToken tokenVariable c) (\<lambda>v.
    andThen (forwardToken c) (\<lambda>(current, c).
    andThen (currentTokenIs tokenFSCheck c) (\<lambda>fs.
    andThen (if fs then
        (if ttext v \<noteq> bs ''path'' then Fail (ParseError ''only path is allowed to test against file system'')
         else Done (ttext current, [], c))
      else andThen (expectToken tokenCompare c) (\<lambda>cmp.
        andThen (parsePatterns f c) (\<lambda>(ps, c). Done (ttext cmp, ps, c)))) (\<lambda>(cmp, ps, c).
    Done (modifyStore (setInfo rule (RuleCond
      \<lparr>varCode = info v, varName = ttext v, compare = cmp, patterns = ps\<rparr>)) c)))))"

subsection \<open>Components\<close>

text \<open>\<open>parseComponent0\<close>: hstates, hcaches, servers and cronjobs.\<close>

definition parseComponent0 ::
  "(bytes \<Rightarrow> bytes \<Rightarrow> comps \<Rightarrow> (configError, nat \<times> comps) outcome) \<Rightarrow> nat \<Rightarrow> token \<Rightarrow> nat \<Rightarrow> configurator \<Rightarrow>
   (configError, configurator) outcome" where
  "parseComponent0 create f compSign stage c =
    andThen (forwardExpectToken tokenString c) (\<lambda>(name, c).
    andThen (onStore (create (ttext compSign) (ttext name)) c) (\<lambda>(a, c).
    andThen (forwardToken (modifyStore (setParent a stage) c)) (\<lambda>(_, c).
    parseLeaf f a c)))"

definition parseService :: "nat \<Rightarrow> nat \<Rightarrow> registry \<Rightarrow> configurator \<Rightarrow> (configError, configurator) outcome" where
  "parseService f stage r c =
    andThen (forwardExpectToken tokenString c) (\<lambda>(name, c).
    andThen (onStore (createService r stage (ttext name)) c) (\<lambda>(a, c).
    andThen (forwardToken (modifyStore (setParent a stage) c)) (\<lambda>(_, c).
    parseLeaf f a c)))"

definition parseFixture :: "nat \<Rightarrow> token \<Rightarrow> nat \<Rightarrow> configurator \<Rightarrow> (configError, configurator) outcome" where
  "parseFixture f compSign stage c =
    (case dict (store c ! stage) compTypeFixture (ttext compSign) of
       None \<Rightarrow> Fail (ParseError ''unknown fixture'')
     | Some a \<Rightarrow>
         andThen (forwardToken (modifyStore (setParent a stage) c)) (\<lambda>(_, c). parseLeaf f a c))"

text \<open>
  A name is optional: without one the sign is the name, unless the component is inside a case or a
  rule, where a number is drawn.
\<close>

definition optionalName :: "token \<Rightarrow> bool \<Rightarrow> configurator \<Rightarrow> bytes parsed" where
  "optionalName compSign inside c =
    andThen (forwardToken c) (\<lambda>(current, c).
    if kind current = tokenString then
      andThen (forwardToken c) (\<lambda>(_, c). Done (ttext current, c))
    else if inside then Done (makeCompName c)
    else Done (ttext compSign, c))"

definition parseNode :: "nat \<Rightarrow> nat \<Rightarrow> configurator \<Rightarrow> (configError, configurator) outcome" where
  "parseNode f backend c =
    andThen (forwardToken c) (\<lambda>(current, c).
    andThen (if kind current = tokenString then
               andThen (forwardToken c) (\<lambda>(_, c). Done (ttext current, c))
             else Done (makeCompName c)) (\<lambda>(name, c).
    andThen (onStore (\<lambda>cs. Done (createNode backend name cs)) c) (\<lambda>(a, c).
    parseLeaf f a (modifyStore (setParent a backend) c))))"

definition parseBackend :: "registry \<Rightarrow> nat \<Rightarrow> token \<Rightarrow> nat \<Rightarrow> configurator \<Rightarrow> (configError, configurator) outcome" where
  "parseBackend r f compSign stage c =
    andThen (forwardExpectToken tokenString c) (\<lambda>(name, c).
    andThen (onStore (createBackend r stage (ttext compSign) (ttext name)) c) (\<lambda>(a, c).
    andThen (forwardExpectToken tokenLeftBrace (modifyStore (setParent a stage) c)) (\<lambda>(_, c).
    parseBody (\<lambda>f current c.
      if info current = compNumber compTypeNode then parseNode f a c
      else Fail (ParseError ''unknown component in backend'')) f a c)))"

text \<open>
  \<open>parseComponentD\<close> and \<open>parseComponentW\<close>: a dealet of a router, a handlet, reviser or socklet of a
  webapp.  Inside a case or a rule (\<open>inside\<close>) the component is also added to its slice.
\<close>

definition parseComponentIn ::
  "compType \<Rightarrow> (bytes \<Rightarrow> bytes \<Rightarrow> comps \<Rightarrow> (configError, nat \<times> comps) outcome) \<Rightarrow> nat \<Rightarrow> token \<Rightarrow> nat \<Rightarrow>
   nat option \<Rightarrow> configurator \<Rightarrow> (configError, configurator) outcome" where
  "parseComponentIn type create f compSign w inside c =
    andThen (optionalName compSign (inside \<noteq> None) c) (\<lambda>(name, c).
    andThen (onStore (create (ttext compSign) name) c) (\<lambda>(a, c).
    let c = modifyStore (setParent a w) c;
        c = (case inside of None \<Rightarrow> c | Some k \<Rightarrow> modifyStore (addMember k type a) c) in
    parseLeaf f a c))"

definition parseQUIXDealet ::
  "registry \<Rightarrow> nat \<Rightarrow> token \<Rightarrow> nat \<Rightarrow> nat option \<Rightarrow> configurator \<Rightarrow> (configError, configurator) outcome" where
  "parseQUIXDealet r f compSign router kase c =
    parseComponentIn compTypeQUIXDealet (createQUIXDealet r router) f compSign router kase c"

definition parseTCPXDealet ::
  "registry \<Rightarrow> nat \<Rightarrow> token \<Rightarrow> nat \<Rightarrow> nat option \<Rightarrow> configurator \<Rightarrow> (configError, configurator) outcome" where
  "parseTCPXDealet r f compSign router kase c =
    parseComponentIn compTypeTCPXDealet (createTCPXDealet r router) f compSign router kase c"

definition parseUDPXDealet ::
  "registry \<Rightarrow> nat \<Rightarrow> token \<Rightarrow> nat \<Rightarrow> nat option \<Rightarrow> configurator \<Rightarrow> (configError, configurator) outcome" where
  "parseUDPXDealet r f compSign router kase c =
    parseComponentIn compTypeUDPXDealet (createUDPXDealet r router) f compSign router kase c"

definition parseHandlet ::
  "registry \<Rightarrow> nat \<Rightarrow> token \<Rightarrow> nat \<Rightarrow> nat option \<Rightarrow> configurator \<Rightarrow> (configError, configurator) outcome" where
  "parseHandlet r f compSign webapp rule c =
    parseComponentIn compTypeHandlet (createHandlet r webapp) f compSign webapp rule c"

definition parseReviser ::
  "registry \<Rightarrow> nat \<Rightarrow> token \<Rightarrow> nat \<Rightarrow> nat option \<Rightarrow> configurator \<Rightarrow> (configError, configurator) outcome" where
  "parseReviser r f compSign webapp rule c =
    parseComponentIn compTypeReviser (createReviser r webapp) f compSign webapp rule c"

definition parseSocklet ::
  "registry \<Rightarrow> nat \<Rightarrow> token \<Rightarrow> nat \<Rightarrow> nat option \<Rightarrow> configurator \<Rightarrow> (configError, configurator) outcome" where
  "parseSocklet r f compSign webapp rule c =
    parseComponentIn compTypeSocklet (createSocklet r webapp) f compSign webapp rule c"

text \<open>
  The head of a case or a rule, up to its opening brace: a name may replace the number it was
  created with, and a condition may follow.
\<close>

definition parseHead ::
  "(nat \<Rightarrow> nat \<Rightarrow> configurator \<Rightarrow> (configError, configurator) outcome) \<Rightarrow> nat \<Rightarrow> nat \<Rightarrow> configurator \<Rightarrow>
   (configError, configurator) outcome" where
  "parseHead cond f a c =
    andThen (forwardToken c) (\<lambda>(current, c).
    if kind current = tokenLeftBrace then Done c
    else andThen (if kind current = tokenString then
        (let c = (if ttext current \<noteq> [] then modifyStore (setName a (ttext current)) c else c) in
         andThen (forwardToken c) (\<lambda>(_, c). Done c))
      else Done c) (\<lambda>c.
    andThen (currentTokenIs tokenLeftBrace c) (\<lambda>brace.
    if brace then Done c
    else andThen (cond f a c) (\<lambda>c.
      andThen (forwardExpectToken tokenLeftBrace c) (\<lambda>(_, c). Done c)))))"

text \<open>
  The three functions for cases have one body; they differ in the router's \<open>createCase\<close>, the type of
  dealet expected and the function that parses it.
\<close>

definition caseBody ::
  "(nat \<Rightarrow> bytes \<Rightarrow> comps \<Rightarrow> (configError, nat \<times> comps) outcome) \<Rightarrow> compType \<Rightarrow>
   (nat \<Rightarrow> token \<Rightarrow> nat \<Rightarrow> nat option \<Rightarrow> configurator \<Rightarrow> (configError, configurator) outcome) \<Rightarrow>
   nat \<Rightarrow> nat \<Rightarrow> configurator \<Rightarrow> (configError, configurator) outcome" where
  "caseBody create dealet parseDealet f router c =
    (let (name, c) = makeCompName c in
     andThen (onStore (create router name) c) (\<lambda>(kase, c).
     andThen (parseHead parseCaseCond f kase (modifyStore (setParent kase router) c)) (\<lambda>c.
     parseBody (\<lambda>f current c.
       if info current = compNumber dealet then parseDealet f current router (Some kase) c
       else Fail (ParseError ''unknown component in quixCase'')) f kase c)))"

definition parseQUIXCase :: "registry \<Rightarrow> nat \<Rightarrow> nat \<Rightarrow> configurator \<Rightarrow> (configError, configurator) outcome" where
  "parseQUIXCase r = caseBody createQUIXCase compTypeQUIXDealet (parseQUIXDealet r)"

definition parseTCPXCase :: "registry \<Rightarrow> nat \<Rightarrow> nat \<Rightarrow> configurator \<Rightarrow> (configError, configurator) outcome" where
  "parseTCPXCase r = caseBody createTCPXCase compTypeTCPXDealet (parseTCPXDealet r)"

definition parseUDPXCase :: "registry \<Rightarrow> nat \<Rightarrow> nat \<Rightarrow> configurator \<Rightarrow> (configError, configurator) outcome" where
  "parseUDPXCase r = caseBody createUDPXCase compTypeUDPXDealet (parseUDPXDealet r)"

definition parseRule :: "registry \<Rightarrow> nat \<Rightarrow> nat \<Rightarrow> configurator \<Rightarrow> (configError, configurator) outcome" where
  "parseRule r f webapp c =
    (let (name, c) = makeCompName c in
     andThen (onStore (createRule webapp name) c) (\<lambda>(rule, c).
     andThen (parseHead parseRuleCond f rule (modifyStore (setParent rule webapp) c)) (\<lambda>c.
     parseBody (\<lambda>f current c.
       if info current = compNumber compTypeHandlet then parseHandlet r f current webapp (Some rule) c
       else if info current = compNumber compTypeReviser then parseReviser r f current webapp (Some rule) c
       else if info current = compNumber compTypeSocklet then parseSocklet r f current webapp (Some rule) c
       else Fail (ParseError ''unknown component in rule'')) f rule c)))"

text \<open>\<open>parseComponentR\<close>: a router with its dealets and cases.\<close>

definition parseComponentR ::
  "(bytes \<Rightarrow> comps \<Rightarrow> (configError, nat \<times> comps) outcome) \<Rightarrow> compType \<Rightarrow>
   (nat \<Rightarrow> token \<Rightarrow> nat \<Rightarrow> nat option \<Rightarrow> configurator \<Rightarrow> (configError, configurator) outcome) \<Rightarrow>
   (nat \<Rightarrow> nat \<Rightarrow> configurator \<Rightarrow> (configError, configurator) outcome) \<Rightarrow>
   nat \<Rightarrow> nat \<Rightarrow> configurator \<Rightarrow> (configError, configurator) outcome" where
  "parseComponentR create infoDealet parseDealet parseCase f stage c =
    andThen (forwardExpectToken tokenString c) (\<lambda>(name, c).
    andThen (onStore (create (ttext name)) c) (\<lambda>(a, c).
    andThen (forwardExpectToken tokenLeftBrace (modifyStore (setParent a stage) c)) (\<lambda>(_, c).
    parseBody (\<lambda>f current c.
      if info current = compNumber infoDealet then parseDealet f current a None c
      else if info current = compNumber compTypeCase then parseCase f a c
      else Fail (ParseError ''unknown component in router'')) f a c)))"

definition parseQUIXRouter :: "registry \<Rightarrow> nat \<Rightarrow> nat \<Rightarrow> configurator \<Rightarrow> (configError, configurator) outcome" where
  "parseQUIXRouter r f stage c =
    parseComponentR (createQUIXRouter r stage) compTypeQUIXDealet (parseQUIXDealet r) (parseQUIXCase r) f stage c"

definition parseTCPXRouter :: "registry \<Rightarrow> nat \<Rightarrow> nat \<Rightarrow> configurator \<Rightarrow> (configError, configurator) outcome" where
  "parseTCPXRouter r f stage c =
    parseComponentR (createTCPXRouter r stage) compTypeTCPXDealet (parseTCPXDealet r) (parseTCPXCase r) f stage c"

definition parseUDPXRouter :: "registry \<Rightarrow> nat \<Rightarrow> nat \<Rightarrow> configurator \<Rightarrow> (configError, configurator) outcome" where
  "parseUDPXRouter r f stage c =
    parseComponentR (createUDPXRouter r stage) compTypeUDPXDealet (parseUDPXDealet r) (parseUDPXCase r) f stage c"

definition parseWebapp :: "registry \<Rightarrow> nat \<Rightarrow> nat \<Rightarrow> configurator \<Rightarrow> (configError, configurator) outcome" where
  "parseWebapp r f stage c =
    andThen (forwardExpectToken tokenString c) (\<lambda>(name, c).
    andThen (onStore (createWebapp r stage (ttext name)) c) (\<lambda>(a, c).
    andThen (forwardExpectToken tokenLeftBrace (modifyStore (setParent a stage) c)) (\<lambda>(_, c).
    parseBody (\<lambda>f current c.
      if info current = compNumber compTypeHandlet then parseHandlet r f current a None c
      else if info current = compNumber compTypeReviser then parseReviser r f current a None c
      else if info current = compNumber compTypeSocklet then parseSocklet r f current a None c
      else if info current = compNumber compTypeRule then parseRule r f a c
      else Fail (ParseError ''unknown component in webapp'')) f a c)))"

subsection \<open>The stage\<close>

definition parseInStage :: "registry \<Rightarrow> nat \<Rightarrow> nat \<Rightarrow> token \<Rightarrow> configurator \<Rightarrow> (configError, configurator) outcome" where
  "parseInStage r stage f current c =
    (let is = (\<lambda>t. info current = compNumber t) in
     if is compTypeFixture then parseFixture f current stage c
     else if is compTypeBackend then parseBackend r f current stage c
     else if is compTypeQUIXRouter then parseQUIXRouter r f stage c
     else if is compTypeTCPXRouter then parseTCPXRouter r f stage c
     else if is compTypeUDPXRouter then parseUDPXRouter r f stage c
     else if is compTypeService then parseService f stage r c
     else if is compTypeHstate then parseComponent0 (createHstate r stage) f current stage c
     else if is compTypeHcache then parseComponent0 (createHcache r stage) f current stage c
     else if is compTypeWebapp then parseWebapp r f stage c
     else if is compTypeServer then parseComponent0 (createServer r stage) f current stage c
     else if is compTypeCronjob then parseComponent0 (createCronjob r stage) f current stage c
     else Fail (ParseError ''unknown component in stage''))"

definition parseStage :: "registry \<Rightarrow> nat \<Rightarrow> nat \<Rightarrow> configurator \<Rightarrow> (configError, configurator) outcome" where
  "parseStage r f stage c =
    andThen (forwardExpectToken tokenLeftBrace c) (\<lambda>(_, c).
    parseBody (parseInStage r stage) f stage c)"

text \<open>\<open>newStage\<close>: the stage is the component at 0 of the store.\<close>

definition newStage :: "registry \<Rightarrow> nat \<Rightarrow> configurator \<Rightarrow> (configError, configurator) outcome" where
  "newStage r f c =
    andThen (currentToken c) (\<lambda>current.
    if kind current \<noteq> tokenComponent \<or> info current \<noteq> compNumber compTypeStage
    then Fail (ParseError ''root component is not stage'')
    else parseStage r f 0 (c\<lparr>store := createStage\<rparr>))"

text \<open>What \<open>recover\<close> makes of an outcome: errors and run-time panics are returned, exits are not.\<close>

datatype 'a recovered = Returned 'a | Errored "configError option" | Exited exitCode | Died

fun recoverFrom :: "(configError, 'a) outcome \<Rightarrow> 'a recovered" where
  "recoverFrom Panic = Errored None"
| "recoverFrom (Fail (Exit code m)) = Exited code"
| "recoverFrom (Fail StackOverflow) = Died"
| "recoverFrom (Fail e) = Errored (Some e)"
| "recoverFrom (Done x) = Returned x"

definition enough :: "token list \<Rightarrow> nat" where
  "enough ts = 2 * length ts + 3"

definition startWith :: "token list \<Rightarrow> configurator" where
  "startWith ts = \<lparr>tokens = ts, index = 0, counter = 0, store = []\<rparr>"

definition stageFromTokens :: "registry \<Rightarrow> token list \<Rightarrow> (configError, comps) outcome" where
  "stageFromTokens r ts = andThen (newStage r (enough ts) (startWith ts)) (\<lambda>c. Done (store c))"

definition stageFromText :: "lexEnv \<Rightarrow> registry \<Rightarrow> bytes \<Rightarrow> comps recovered" where
  "stageFromText env r configText =
    recoverFrom (andThen (scanText env configText) (stageFromTokens r))"

definition stageFromFile :: "nat \<Rightarrow> lexEnv \<Rightarrow> registry \<Rightarrow> bytes \<Rightarrow> bytes \<Rightarrow> comps recovered" where
  "stageFromFile depth env r base f =
    recoverFrom (andThen (scanFile depth env base f) (stageFromTokens r))"

subsection \<open>Typed values\<close>

text \<open>The values the parser can produce: kind and data agree, and so do the two copies of a string.\<close>

inductive wtValue :: "confValue \<Rightarrow> bool" where
  bool: "wtValue (Value (Some tokenBool) 0 [] (BoolData b) [])"
| int: "wtValue (Value (Some tokenInteger) 0 [] (IntData n) [])"
| string: "wtValue (Value (Some tokenString) 0 [] (StringData s) s)"
| duration: "wtValue (Value (Some tokenDuration) 0 [] (DurationData d) [])"
| variable: "wtValue (Value (Some tokenVariable) (- 1) x NoData [])"
| list: "(\<And>v. v \<in> set l \<Longrightarrow> wtValue v) \<Longrightarrow> wtValue (Value (Some tokenList) 0 [] (ListData l) [])"
| dict: "(\<And>k v. d k = Some v \<Longrightarrow> wtValue v) \<Longrightarrow> wtValue (Value (Some tokenDict) 0 [] (DictData d) [])"

inductive_simps wtValue_string: "wtValue (Value (Some tokenString) k n d b)"

inductive_cases wtValueE: "wtValue v"

lemmas wt_simps = wtValue.bool wtValue.int wtValue.string wtValue.duration wtValue.variable

lemma wtValue_kind:
  "wtValue v \<Longrightarrow> vkind v = Some tokenString \<longleftrightarrow> (\<exists>s. v = Value (Some tokenString) 0 [] (StringData s) s)"
  by (cases v) (auto simp: wtValue_string)

definition typed :: "comps \<Rightarrow> bool" where
  "typed cs \<longleftrightarrow> (\<forall>a < length cs. \<forall>n v. propOf cs a n = Some v \<longrightarrow> wtValue v)"

lemma findProp_typed:
  assumes "typed cs" "wfComps cs" "a < length cs" "findProp cs a n = Some v"
  shows "wtValue v"
proof -
  have "findUp k cs b n = Some v \<Longrightarrow> b < length cs \<Longrightarrow> wtValue v" for k b
  proof (induction k arbitrary: b)
    case (Suc k)
    have "parent (cs ! b) = Some p \<Longrightarrow> p < length cs" for p
      using wfComps_kept [OF assms(2) Suc.prems(2)] Suc.prems(2) by (fastforce simp: wellKept_def)
    then show ?case
      using Suc assms(1) by (fastforce simp: typed_def split: option.splits)
  qed simp
  then show ?thesis using assms(3,4) unfolding findProp_def by blast
qed

subsection \<open>What every parser guarantees\<close>

text \<open>
  \<open>ok\<close> is the guarantee of a parser run: it does not run out of calls; it hits a run-time panic
  only on a token list that is empty or ends with a string or a property; it meets an unknown sign
  only when the registry and the tokens disagree; and its result satisfies the postcondition.
\<close>

definition tame :: "token list \<Rightarrow> bool" where
  "tame ts \<longleftrightarrow> ts \<noteq> [] \<and> kind (last ts) \<notin> {tokenString, tokenProperty} \<and>
     (\<forall>t \<in> set ts. kind t \<in> {tokenInteger, tokenDuration} \<longrightarrow> ttext t \<noteq> [])"

definition lawful :: "registry \<Rightarrow> token list \<Rightarrow> bool" where
  "lawful r ts \<longleftrightarrow> consistent r \<and>
     (\<forall>t \<in> set ts. kind t = tokenComponent \<longrightarrow> signed r (ttext t) = Some (info t))"

definition unknownSign :: configError where
  "unknownSign = Exit CodeUse ''unknown component sign''"

definition ok :: "registry \<Rightarrow> token list \<Rightarrow> (configError, 'a) outcome \<Rightarrow> ('a \<Rightarrow> bool) \<Rightarrow> bool" where
  "ok r ts m P =
    (case m of
       Panic \<Rightarrow> \<not> tame ts
     | Fail e \<Rightarrow> e \<noteq> OutOfFuel \<and> (e = unknownSign \<longrightarrow> \<not> lawful r ts)
     | Done x \<Rightarrow> P x)"

lemma ok_Done [simp]: "ok r ts (Done x) P \<longleftrightarrow> P x"
  by (simp add: ok_def)

lemma ok_Fail [simp]: "ok r ts (Fail (ParseError s)) P"
  by (simp add: ok_def unknownSign_def)

lemma ok_andThen: "ok r ts m (\<lambda>x. ok r ts (g x) P) \<Longrightarrow> ok r ts (andThen m g) P"
  by (cases m) (auto simp: ok_def)

lemma ok_mono: "ok r ts m P \<Longrightarrow> (\<And>x. m = Done x \<Longrightarrow> P x \<Longrightarrow> Q x) \<Longrightarrow> ok r ts m Q"
  by (cases m) (auto simp: ok_def)

lemma ok_if: "(b \<Longrightarrow> ok r ts m P) \<Longrightarrow> (\<not> b \<Longrightarrow> ok r ts n P) \<Longrightarrow> ok r ts (if b then m else n) P"
  by simp

definition inv :: "token list \<Rightarrow> configurator \<Rightarrow> bool" where
  "inv ts c \<longleftrightarrow> tokens c = ts \<and> index c < length ts \<and> wfComps (store c) \<and> typed (store c) \<and>
     ctype (store c ! 0) = compTypeStage"

definition left :: "configurator \<Rightarrow> nat" where
  "left c = length (tokens c) - index c"

definition here :: "configurator \<Rightarrow> tokenKind" where
  "here c = kind (tokens c ! index c)"

text \<open>Reading a value moves the index and nothing else.\<close>

definition moved :: "configurator \<Rightarrow> configurator \<Rightarrow> bool" where
  "moved c c' \<longleftrightarrow> index c \<le> index c' \<and> index c' < length (tokens c) \<and> c' = c\<lparr>index := index c'\<rparr>"

lemma moved_refl: "inv ts c \<Longrightarrow> moved c c"
  by (auto simp: moved_def inv_def)

lemma moved_trans: "moved c c' \<Longrightarrow> moved c' c'' \<Longrightarrow> moved c c''"
  by (cases c; cases c'; cases c'') (auto simp: moved_def)

lemma moved_inv: "moved c c' \<Longrightarrow> inv ts c \<Longrightarrow> inv ts c' \<and> left c' \<le> left c \<and> store c' = store c"
  by (cases c; cases c') (auto simp: moved_def inv_def left_def)

lemma currentToken_ok:
  "inv ts c \<Longrightarrow> (\<And>t. t \<in> set ts \<Longrightarrow> kind t = here c \<Longrightarrow> P t) \<Longrightarrow> ok r ts (currentToken c) P"
  by (simp add: currentToken_def inv_def idx_Some here_def)

lemma forwardToken_ok:
  assumes "inv ts c"
    "\<And>t c'. t \<in> set ts \<Longrightarrow> inv ts c' \<Longrightarrow> moved c c' \<Longrightarrow> left c' < left c \<Longrightarrow> here c' = kind t \<Longrightarrow> P (t, c')"
  shows "ok r ts (forwardToken c) P"
proof (cases "index c + 1 = length (tokens c)")
  case False
  define c' where "c' = c\<lparr>index := index c + 1\<rparr>"
  have "index c + 1 < length (tokens c)" "tokens c = ts"
    using False assms(1) by (auto simp: inv_def)
  then show ?thesis
    using assms(1) assms(2) [of "ts ! (index c + 1)" c'] False
    by (auto simp: forwardToken_def forwardCheckEOF_def currentToken_def idx_Some c'_def inv_def
        moved_def left_def here_def)
qed (simp add: forwardToken_def forwardCheckEOF_def)

lemma expectToken_ok:
  "inv ts c \<Longrightarrow> (\<And>t. t \<in> set ts \<Longrightarrow> kind t = k \<Longrightarrow> here c = k \<Longrightarrow> P t) \<Longrightarrow> ok r ts (expectToken k c) P"
  unfolding expectToken_def by (intro ok_andThen currentToken_ok) auto

lemma forwardExpectToken_ok:
  assumes "inv ts c"
    "\<And>t c'. t \<in> set ts \<Longrightarrow> inv ts c' \<Longrightarrow> moved c c' \<Longrightarrow> left c' < left c \<Longrightarrow> kind t = k \<Longrightarrow> here c' = k \<Longrightarrow> P (t, c')"
  shows "ok r ts (forwardExpectToken k c) P"
proof -
  have "ok r ts (forwardToken c) (\<lambda>(t, c'). t \<in> set ts \<and> inv ts c' \<and> moved c c' \<and> left c' < left c \<and> here c' = kind t)"
    using assms(1) by (intro forwardToken_ok) auto
  then have "ok r ts (forwardCheckEOF c) (\<lambda>c'. inv ts c' \<and> moved c c' \<and> left c' < left c)"
    using assms(1) by (auto simp: forwardToken_def forwardCheckEOF_def currentToken_def ok_def
        idx_def inv_def moved_def left_def split: if_splits)
  then show ?thesis
    unfolding forwardExpectToken_def
    by (intro ok_andThen) (rule ok_mono, assumption, intro ok_andThen expectToken_ok, use assms(2) in auto)
qed

lemma currentTokenIs_ok:
  "inv ts c \<Longrightarrow> P (here c = k) \<Longrightarrow> ok r ts (currentTokenIs k c) P"
  unfolding currentTokenIs_def by (intro ok_andThen currentToken_ok) auto

lemma peekTokenIs_ok:
  assumes "inv ts c" "here c \<in> {tokenString, tokenProperty}"
    "\<And>b. b = (index c + 1 < length ts \<and> kind (ts ! (index c + 1)) = k) \<Longrightarrow> P b"
  shows "ok r ts (peekTokenIs k c) P"
proof (cases "index c + 1 < length ts")
  case True
  then show ?thesis using assms by (simp add: peekTokenIs_def inv_def idx_Some)
next
  case False
  then have "index c = length ts - 1"
    using assms(1) by (auto simp: inv_def)
  then have "\<not> tame ts"
    using assms(1,2) by (auto simp: inv_def here_def tame_def last_conv_nth)
  then show ?thesis using False assms(1) by (simp add: peekTokenIs_def inv_def idx_def ok_def)
qed

subsection \<open>Reading a value\<close>

lemma parseInteger_ok:
  "inv ts c \<Longrightarrow> t \<in> set ts \<Longrightarrow> kind t = tokenInteger \<Longrightarrow> (\<And>n. P n) \<Longrightarrow> ok r ts (parseInteger (ttext t)) P"
  by (auto simp: parseInteger_def ok_def tame_def unknownSign_def split: option.splits)

lemma parseDuration_ok:
  "inv ts c \<Longrightarrow> t \<in> set ts \<Longrightarrow> kind t = tokenDuration \<Longrightarrow> (\<And>n. P n) \<Longrightarrow> ok r ts (parseDuration (ttext t)) P"
  by (auto simp: parseDuration_def ok_def tame_def unknownSign_def split: option.splits)

lemma findRef_ok:
  "inv ts c \<Longrightarrow> cp < length (store c) \<Longrightarrow> (\<And>v. wtValue v \<Longrightarrow> P v) \<Longrightarrow> ok r ts (findRef cp prop t c) P"
  by (auto simp: findRef_def inv_def dest: findProp_typed split: option.splits)

definition valueRead :: "token list \<Rightarrow> configurator \<Rightarrow> confValue \<times> configurator \<Rightarrow> bool" where
  "valueRead ts c = (\<lambda>(v, c'). moved c c' \<and> inv ts c' \<and> wtValue v \<and>
     (vkind v = Some tokenString \<longrightarrow> here c' \<in> {tokenString, tokenProperty}) \<and>
     (here c = tokenString \<longrightarrow> vkind v = Some tokenString))"

lemma valueRead_moved:
  "moved c c' \<Longrightarrow> valueRead ts c' x \<Longrightarrow> vkind (fst x) = Some tokenString \<Longrightarrow> valueRead ts c x"
  by (auto simp: valueRead_def intro: moved_trans)

lemma valueSwitch_ok:
  assumes c: "inv ts c" "cp < length (store c)" and t: "t \<in> set ts" "kind t = here c"
    and lists: "ok r ts (readList c) (\<lambda>(l, c'). moved c c' \<and> inv ts c' \<and> (\<forall>v \<in> set l. wtValue v))"
    and dicts: "ok r ts (readDict c) (\<lambda>(d, c'). moved c c' \<and> inv ts c' \<and> (\<forall>k v. d k = Some v \<longrightarrow> wtValue v))"
  shows "ok r ts (valueSwitch readList readDict cp prop t c)
    (\<lambda>(v, c'). wtValue v \<and> moved c c' \<and> inv ts c' \<and>
      (vkind v = Some tokenString \<longrightarrow> c' = c \<and> here c \<in> {tokenString, tokenProperty}) \<and>
      (here c = tokenString \<longrightarrow> vkind v = Some tokenString))"
    (is "ok r ts ?m ?P")
proof -
  note m = moved_refl [OF c(1)]
  show ?thesis
  proof (cases "kind t")
    case tokenInteger
    then show ?thesis
      using t(2) by (auto simp: valueSwitch_def wt_simps m c intro!: ok_andThen parseInteger_ok [OF c(1) t(1)])
  next
    case tokenDuration
    then show ?thesis
      using t(2) by (auto simp: valueSwitch_def wt_simps m c intro!: ok_andThen parseDuration_ok [OF c(1) t(1)])
  next
    case tokenLeftParen
    have "ok r ts (andThen (expectToken tokenLeftParen c) (\<lambda>_.
        andThen (readList c) (\<lambda>(l, c). Done (Value (Some tokenList) 0 [] (ListData l) [], c)))) ?P"
      by (intro ok_andThen expectToken_ok [OF c(1)] ok_mono [OF lists]) (auto intro!: wtValue.list)
    with tokenLeftParen show ?thesis by (simp add: valueSwitch_def)
  next
    case tokenLeftBracket
    have "ok r ts (andThen (expectToken tokenLeftBracket c) (\<lambda>_.
        andThen (readDict c) (\<lambda>(d, c). Done (Value (Some tokenDict) 0 [] (DictData d) [], c)))) ?P"
      by (intro ok_andThen expectToken_ok [OF c(1)] ok_mono [OF dicts]) (auto intro!: wtValue.dict)
    with tokenLeftBracket show ?thesis by (simp add: valueSwitch_def)
  next
    case tokenProperty
    then show ?thesis
      using t(2) by (auto simp: valueSwitch_def m c intro!: ok_andThen findRef_ok [OF c])
  qed (use t(2) in \<open>auto simp: valueSwitch_def wt_simps m c\<close>)
qed

lemma valueBody_ok:
  assumes c: "inv ts c" "cp < length (store c)"
    and lists: "ok r ts (readList c) (\<lambda>(l, c'). moved c c' \<and> inv ts c' \<and> (\<forall>v \<in> set l. wtValue v))"
    and dicts: "ok r ts (readDict c) (\<lambda>(d, c'). moved c c' \<and> inv ts c' \<and> (\<forall>k v. d k = Some v \<longrightarrow> wtValue v))"
    and more: "\<And>v. vkind v = Some tokenString \<Longrightarrow> wtValue v \<Longrightarrow> here c \<in> {tokenString, tokenProperty} \<Longrightarrow>
       ok r ts (readMore v c) (valueRead ts c)"
  shows "ok r ts (valueBody readList readDict readMore cp prop c) (valueRead ts c)"
  unfolding valueBody_def
proof (intro ok_andThen currentToken_ok [OF c(1)])
  fix t assume "t \<in> set ts" "kind t = here c"
  then show "ok r ts (valueSwitch readList readDict cp prop t c)
     (\<lambda>x. ok r ts (case x of (v, c) \<Rightarrow> if vkind v \<noteq> Some tokenString then Done (v, c) else readMore v c)
       (valueRead ts c))"
  proof (rule ok_mono [OF valueSwitch_ok [where readList = readList and readDict = readDict and c = c,
        OF c _ _ lists dicts]])
    fix x
    assume "case x of (v, c') \<Rightarrow> wtValue v \<and> moved c c' \<and> inv ts c' \<and>
      (vkind v = Some tokenString \<longrightarrow> c' = c \<and> here c \<in> {tokenString, tokenProperty}) \<and>
      (here c = tokenString \<longrightarrow> vkind v = Some tokenString)"
    then show "ok r ts (case x of (v, c) \<Rightarrow> if vkind v \<noteq> Some tokenString then Done (v, c) else readMore v c)
       (valueRead ts c)"
      using more by (cases x) (auto simp: valueRead_def)
  qed
qed

lemma concatStrings_ok:
  assumes "wtValue v" "vkind v = Some tokenString" "wtValue w" "vkind w = Some tokenString"
  shows "\<exists>s. concatStrings v w = Done (Value (Some tokenString) 0 [] (StringData s) s)"
  using assms by (auto simp: wtValue_kind concatStrings_def)

lemma concatBody_ok:
  assumes c: "inv ts c" "cp < length (store c)" and at: "here c \<in> {tokenString, tokenProperty}"
    and v: "wtValue v" "vkind v = Some tokenString"
    and val: "\<And>c'. inv ts c' \<Longrightarrow> moved c c' \<Longrightarrow> left c' + 2 \<le> left c \<Longrightarrow> here c' = tokenString \<Longrightarrow>
      ok r ts (value c') (\<lambda>x. valueRead ts c' x \<and> vkind (fst x) = Some tokenString)"
    and again: "\<And>v c'. inv ts c' \<Longrightarrow> moved c c' \<Longrightarrow> left c' + 2 \<le> left c \<Longrightarrow> here c' \<in> {tokenString, tokenProperty} \<Longrightarrow>
      wtValue v \<Longrightarrow> vkind v = Some tokenString \<Longrightarrow>
      ok r ts (again v c') (\<lambda>x. valueRead ts c' x \<and> vkind (fst x) = Some tokenString)"
  shows "ok r ts (concatBody value again cp prop v c)
    (\<lambda>x. valueRead ts c x \<and> vkind (fst x) = Some tokenString)"
  unfolding concatBody_def
proof (intro ok_andThen peekTokenIs_ok [OF c(1) at] ok_if)
  show "ok r ts (Done (v, c)) (\<lambda>x. valueRead ts c x \<and> vkind (fst x) = Some tokenString)"
    using c v at moved_refl [OF c(1)] by (auto simp: valueRead_def)
next
  show "ok r ts (forwardToken c) (\<lambda>x. ok r ts (case x of (_, c) \<Rightarrow>
      andThen (forwardToken c) (\<lambda>(current, c).
      andThen (if kind current = tokenString then value c
               else if kind current = tokenProperty then
                 andThen (findRef cp prop current c) (\<lambda>w.
                 if vkind w = Some tokenString then Done (w, c)
                 else Fail (ParseError ''cannot concat string with other types''))
               else Fail (ParseError ''cannot concat string with other types'')) (\<lambda>(w, c).
      andThen (concatStrings v w) (\<lambda>v. again v c))))
      (\<lambda>x. valueRead ts c x \<and> vkind (fst x) = Some tokenString))"
  proof (intro forwardToken_ok [OF c(1)], unfold prod.case, intro ok_andThen, intro forwardToken_ok,
      assumption, unfold prod.case, intro ok_andThen)
    fix t1 :: token and c1 and t :: token and c2
    assume 1: "inv ts c1" "moved c c1" "left c1 < left c"
      and 2: "inv ts c2" "moved c1 c2" "left c2 < left c1" "here c2 = kind t"
    have m2: "moved c c2" "left c2 + 2 \<le> left c" using 1 2 by (auto intro: moved_trans)
    have cp2: "cp < length (store c2)" using moved_inv [OF m2(1) c(1)] c(2) by simp
    have finish: "ok r ts (andThen (concatStrings v w) (\<lambda>v. again v c3))
        (\<lambda>x. valueRead ts c x \<and> vkind (fst x) = Some tokenString)"
      if "moved c2 c3" "inv ts c3" "here c3 \<in> {tokenString, tokenProperty}" "wtValue w" "vkind w = Some tokenString"
      for w c3
    proof -
      have m3: "moved c c3" "left c3 + 2 \<le> left c"
        using that(1) m2 moved_inv [OF that(1) 2(1)] by (auto intro: moved_trans)
      from concatStrings_ok [OF v that(4,5)]
      obtain s where s: "concatStrings v w = Done (Value (Some tokenString) 0 [] (StringData s) s)" ..
      show ?thesis
        unfolding s using again [OF that(2) m3 that(3), of "Value (Some tokenString) 0 [] (StringData s) s"]
          valueRead_moved [OF m3(1)]
        by (auto simp: wt_simps elim!: ok_mono)
    qed
    show "ok r ts (if kind t = tokenString then value c2
               else if kind t = tokenProperty then
                 andThen (findRef cp prop t c2) (\<lambda>w.
                 if vkind w = Some tokenString then Done (w, c2)
                 else Fail (ParseError ''cannot concat string with other types''))
               else Fail (ParseError ''cannot concat string with other types''))
       (\<lambda>x. ok r ts (case x of (w, c) \<Rightarrow> andThen (concatStrings v w) (\<lambda>v. again v c))
          (\<lambda>x. valueRead ts c x \<and> vkind (fst x) = Some tokenString))"
    proof (intro ok_if ok_andThen findRef_ok [OF 2(1) cp2])
      assume "kind t = tokenString"
      then show "ok r ts (value c2) (\<lambda>x. ok r ts (case x of (w, c) \<Rightarrow> andThen (concatStrings v w) (\<lambda>v. again v c))
          (\<lambda>x. valueRead ts c x \<and> vkind (fst x) = Some tokenString))"
        using val [OF 2(1) m2] 2(4) finish by (auto elim!: ok_mono simp: valueRead_def)
    next
      fix w assume "kind t = tokenProperty" "wtValue w" "vkind w = Some tokenString"
      then show "ok r ts (Done (w, c2)) (\<lambda>x. ok r ts (case x of (w, c) \<Rightarrow> andThen (concatStrings v w) (\<lambda>v. again v c))
          (\<lambda>x. valueRead ts c x \<and> vkind (fst x) = Some tokenString))"
        using finish [OF moved_refl [OF 2(1)] 2(1)] 2(4) by simp
    qed auto
  qed
qed

lemma listBody_ok:
  assumes c: "inv ts c" and l: "\<forall>v \<in> set l. wtValue v"
    and val: "\<And>c'. inv ts c' \<Longrightarrow> moved c c' \<Longrightarrow> left c' < left c \<Longrightarrow> ok r ts (value c') (valueRead ts c')"
    and again: "\<And>l c'. inv ts c' \<Longrightarrow> moved c c' \<Longrightarrow> left c' < left c \<Longrightarrow> \<forall>v \<in> set l. wtValue v \<Longrightarrow>
      ok r ts (again l c') (\<lambda>(l, c''). moved c' c'' \<and> inv ts c'' \<and> (\<forall>v \<in> set l. wtValue v))"
  shows "ok r ts (listBody value again l c) (\<lambda>(l, c'). moved c c' \<and> inv ts c' \<and> (\<forall>v \<in> set l. wtValue v))"
    (is "ok r ts _ ?P")
  unfolding listBody_def
proof (intro ok_andThen forwardToken_ok [OF c], unfold prod.case, intro ok_if ok_andThen)
  fix t c1 assume "inv ts c1" "moved c c1"
  then show "ok r ts (Done (l, c1)) ?P" using l by simp
next
  fix t c1 assume 1: "inv ts c1" "moved c c1" "left c1 < left c"
  show "ok r ts (value c1) (\<lambda>x. ok r ts (case x of (elem, c) \<Rightarrow>
      andThen (forwardToken c) (\<lambda>(current, c).
      if kind current = tokenRightParen then Done (l @ [elem], c)
      else if kind current \<noteq> tokenComma then Fail (ParseError ''bad list'')
      else again (l @ [elem]) c)) ?P)"
  proof (rule ok_mono [OF val [OF 1]])
    fix x assume "valueRead ts c1 x"
    then obtain v c2 where x: "x = (v, c2)" and v: "moved c1 c2" "inv ts c2" "wtValue v"
      by (cases x) (auto simp: valueRead_def)
    show "ok r ts (case x of (elem, c) \<Rightarrow>
      andThen (forwardToken c) (\<lambda>(current, c).
      if kind current = tokenRightParen then Done (l @ [elem], c)
      else if kind current \<noteq> tokenComma then Fail (ParseError ''bad list'')
      else again (l @ [elem]) c)) ?P"
      unfolding x prod.case
    proof (intro ok_andThen forwardToken_ok [OF v(2)], unfold prod.case, intro ok_if)
      fix t c3 assume 3: "inv ts c3" "moved c2 c3" "left c3 < left c2"
      have m: "moved c c3" "left c3 < left c"
        using 1 v(1) 3 moved_inv [OF v(1) 1(1)] by (auto intro: moved_trans)
      show "ok r ts (Done (l @ [v], c3)) ?P" using m 3 l v by auto
      show "ok r ts (again (l @ [v]) c3) ?P"
        using again [OF 3(1) m, of "l @ [v]"] l v m(1)
        by (auto elim!: ok_mono intro: moved_trans)
    qed auto
  qed
qed

lemma dictBody_ok:
  assumes c: "inv ts c" and d: "\<forall>k v. d k = Some v \<longrightarrow> wtValue v"
    and val: "\<And>c'. inv ts c' \<Longrightarrow> moved c c' \<Longrightarrow> left c' < left c \<Longrightarrow> ok r ts (value c') (valueRead ts c')"
    and again: "\<And>d c'. inv ts c' \<Longrightarrow> moved c c' \<Longrightarrow> left c' < left c \<Longrightarrow> \<forall>k v. d k = Some v \<longrightarrow> wtValue v \<Longrightarrow>
      ok r ts (again d c') (\<lambda>(d, c''). moved c' c'' \<and> inv ts c'' \<and> (\<forall>k v. d k = Some v \<longrightarrow> wtValue v))"
  shows "ok r ts (dictBody value again d c)
    (\<lambda>(d, c'). moved c c' \<and> inv ts c' \<and> (\<forall>k v. d k = Some v \<longrightarrow> wtValue v))"
    (is "ok r ts _ ?P")
  unfolding dictBody_def
proof (intro ok_andThen forwardToken_ok [OF c], unfold prod.case, intro ok_if ok_andThen)
  fix t c1 assume "inv ts c1" "moved c c1"
  then show "ok r ts (Done (d, c1)) ?P" using d by simp
next
  fix t c1 assume 1: "inv ts c1" "moved c c1" "left c1 < left c"
  show "ok r ts (expectToken tokenString c1) (\<lambda>k. ok r ts (andThen (forwardExpectToken tokenColon c1) (\<lambda>(_, c).
      andThen (forwardToken c) (\<lambda>(_, c).
      andThen (value c) (\<lambda>(v, c).
      andThen (forwardToken c) (\<lambda>(current, c).
      if kind current = tokenRightBracket then Done (d(ttext k \<mapsto> v), c)
      else if kind current \<noteq> tokenComma then Fail (ParseError ''bad dict'')
      else again (d(ttext k \<mapsto> v)) c))))) ?P)"
  proof (intro expectToken_ok [OF 1(1)] ok_andThen forwardExpectToken_ok [OF 1(1)], unfold prod.case,
      intro ok_andThen, intro forwardToken_ok, assumption, unfold prod.case, intro ok_andThen)
    fix k :: token and t2 :: token and c2 and t3 :: token and c3
    assume 2: "inv ts c2" "moved c1 c2" "left c2 < left c1" and 3: "inv ts c3" "moved c2 c3" "left c3 < left c2"
    have m3: "moved c c3" "left c3 < left c" using 1 2 3 by (auto intro: moved_trans)
    show "ok r ts (value c3) (\<lambda>x. ok r ts (case x of (v, c) \<Rightarrow>
        andThen (forwardToken c) (\<lambda>(current, c).
        if kind current = tokenRightBracket then Done (d(ttext k \<mapsto> v), c)
        else if kind current \<noteq> tokenComma then Fail (ParseError ''bad dict'')
        else again (d(ttext k \<mapsto> v)) c)) ?P)"
    proof (rule ok_mono [OF val [OF 3(1) m3]])
      fix x assume "valueRead ts c3 x"
      then obtain v c4 where x: "x = (v, c4)" and v: "moved c3 c4" "inv ts c4" "wtValue v"
        by (cases x) (auto simp: valueRead_def)
      show "ok r ts (case x of (v, c) \<Rightarrow>
        andThen (forwardToken c) (\<lambda>(current, c).
        if kind current = tokenRightBracket then Done (d(ttext k \<mapsto> v), c)
        else if kind current \<noteq> tokenComma then Fail (ParseError ''bad dict'')
        else again (d(ttext k \<mapsto> v)) c)) ?P"
        unfolding x prod.case
      proof (intro ok_andThen forwardToken_ok [OF v(2)], unfold prod.case, intro ok_if)
        fix t c5 assume 5: "inv ts c5" "moved c4 c5" "left c5 < left c4"
        have m: "moved c c5" "left c5 < left c"
          using m3 v(1) 5 moved_inv [OF v(1) 3(1)] by (auto intro: moved_trans)
        show "ok r ts (Done (d(ttext k \<mapsto> v), c5)) ?P" using m 5 d v by auto
        have "\<forall>ka va. (d(ttext k \<mapsto> v)) ka = Some va \<longrightarrow> wtValue va" using d v(3) by simp
        then show "ok r ts (again (d(ttext k \<mapsto> v)) c5) ?P"
          using m(1) by (intro ok_mono [OF again [OF 5(1) m]]) (auto intro: moved_trans)
      qed auto
    qed
  qed
qed

lemma left_pos: "inv ts c \<Longrightarrow> 0 < left c"
  by (auto simp: inv_def left_def)

lemma value_parsers_ok:
  "inv ts c \<Longrightarrow> cp < length (store c) \<Longrightarrow> 2 * left c + 2 \<le> f \<Longrightarrow>
     ok r ts (parseValue f cp prop c) (valueRead ts c)"
  "inv ts c \<Longrightarrow> cp < length (store c) \<Longrightarrow> 2 * left c + 1 \<le> f \<Longrightarrow> here c \<in> {tokenString, tokenProperty} \<Longrightarrow>
     wtValue v \<Longrightarrow> vkind v = Some tokenString \<Longrightarrow>
     ok r ts (concatLoop f cp prop v c) (\<lambda>x. valueRead ts c x \<and> vkind (fst x) = Some tokenString)"
  "inv ts c \<Longrightarrow> cp < length (store c) \<Longrightarrow> 2 * left c + 1 \<le> f \<Longrightarrow> \<forall>v \<in> set l. wtValue v \<Longrightarrow>
     ok r ts (parseListFrom f cp prop l c) (\<lambda>(l, c'). moved c c' \<and> inv ts c' \<and> (\<forall>v \<in> set l. wtValue v))"
  "inv ts c \<Longrightarrow> cp < length (store c) \<Longrightarrow> 2 * left c + 1 \<le> f \<Longrightarrow> \<forall>k v. d k = Some v \<longrightarrow> wtValue v \<Longrightarrow>
     ok r ts (parseDictFrom f cp prop d c)
       (\<lambda>(d, c'). moved c c' \<and> inv ts c' \<and> (\<forall>k v. d k = Some v \<longrightarrow> wtValue v))"
proof (induction f arbitrary: c v l d)
  case (Suc f)
  have cp: "cp < length (store c')" if "inv ts c" "cp < length (store c)" "moved c c'" for c c'
    using moved_inv [OF that(3,1)] that(2) by simp
  {
    case 1
    then show ?case
      by (auto intro!: valueBody_ok Suc.IH ok_mono [OF Suc.IH(2)])
  next
    case 2
    have "ok r ts (concatBody (parseValue f cp prop) (concatLoop f cp prop) cp prop v c)
        (\<lambda>x. valueRead ts c x \<and> vkind (fst x) = Some tokenString)"
    proof (rule concatBody_ok [OF 2(1,2,4,5,6)])
      fix c' assume c': "inv ts c'" "moved c c'" "left c' + 2 \<le> left c" "here c' = tokenString"
      show "ok r ts (parseValue f cp prop c') (\<lambda>x. valueRead ts c' x \<and> vkind (fst x) = Some tokenString)"
        using c' 2(3) by (intro ok_mono [OF Suc.IH(1) [OF c'(1) cp [OF 2(1,2) c'(2)]]]) (auto simp: valueRead_def)
    next
      fix v c' assume c': "inv ts c'" "moved c c'" "left c' + 2 \<le> left c"
        "here c' \<in> {tokenString, tokenProperty}" "wtValue v" "vkind v = Some tokenString"
      show "ok r ts (concatLoop f cp prop v c') (\<lambda>x. valueRead ts c' x \<and> vkind (fst x) = Some tokenString)"
        using c' 2(3) by (intro Suc.IH(2) cp [OF 2(1,2) c'(2)]) auto
    qed
    then show ?case by simp
  next
    case 3
    show ?case
      unfolding parseListFrom.simps
      by (rule listBody_ok [OF 3(1,4)]; (rule Suc.IH(1) | rule Suc.IH(3)); (intro cp [OF 3(1,2)])?)
        (use 3 left_pos in auto)
  next
    case 4
    show ?case
      unfolding parseDictFrom.simps
      by (rule dictBody_ok [OF 4(1,4)]; (rule Suc.IH(1) | rule Suc.IH(4)); (intro cp [OF 4(1,2)])?)
        (use 4 left_pos in auto)
  }
qed simp_all

subsection \<open>Building the tree\<close>

text \<open>A step of the parser: the invariant, no more tokens than before, and an extended store.\<close>

definition adv :: "token list \<Rightarrow> configurator \<Rightarrow> configurator \<Rightarrow> bool" where
  "adv ts c c' \<longleftrightarrow> inv ts c' \<and> left c' \<le> left c \<and> extends (store c) (store c')"

lemma adv_trans: "adv ts c c' \<Longrightarrow> adv ts c' c'' \<Longrightarrow> adv ts c c''"
  by (auto simp: adv_def intro: extends_trans)

lemma adv_from: "adv ts c' x \<Longrightarrow> extends (store c) (store c') \<Longrightarrow> left c' \<le> left c \<Longrightarrow> adv ts c x"
  by (auto simp: adv_def intro: extends_trans)

lemma ok_fwd:
  assumes "inv ts c" "\<And>t c'. t \<in> set ts \<Longrightarrow> inv ts c' \<Longrightarrow> left c' < left c \<Longrightarrow> store c' = store c \<Longrightarrow>
    here c' = kind t \<Longrightarrow> ok r ts (g t c') P"
  shows "ok r ts (andThen (forwardToken c) (\<lambda>(t, c). g t c)) P"
proof (intro ok_andThen forwardToken_ok [OF assms(1)])
  fix t c' assume "t \<in> set ts" "inv ts c'" "moved c c'" "left c' < left c" "here c' = kind t"
  then show "ok r ts (case (t, c') of (t, c) \<Rightarrow> g t c) P"
    using assms(2) [of t c'] moved_inv [OF _ assms(1)] by simp
qed

lemma ok_fwdExpect:
  assumes "inv ts c" "\<And>t c'. t \<in> set ts \<Longrightarrow> inv ts c' \<Longrightarrow> left c' < left c \<Longrightarrow> store c' = store c \<Longrightarrow>
    kind t = k \<Longrightarrow> here c' = k \<Longrightarrow> ok r ts (g t c') P"
  shows "ok r ts (andThen (forwardExpectToken k c) (\<lambda>(t, c). g t c)) P"
proof (intro ok_andThen forwardExpectToken_ok [OF assms(1)])
  fix t c' assume "t \<in> set ts" "inv ts c'" "moved c c'" "left c' < left c" "kind t = k" "here c' = k"
  then show "ok r ts (case (t, c') of (t, c) \<Rightarrow> g t c) P"
    using assms(2) [of t c'] moved_inv [OF _ assms(1)] by simp
qed

lemma ok_expect:
  assumes "inv ts c" "\<And>t. t \<in> set ts \<Longrightarrow> kind t = k \<Longrightarrow> here c = k \<Longrightarrow> ok r ts (g t) P"
  shows "ok r ts (andThen (expectToken k c) g) P"
  by (intro ok_andThen expectToken_ok [OF assms(1)] assms(2))

lemma ok_currentIs:
  "inv ts c \<Longrightarrow> ok r ts (g (here c = k)) P \<Longrightarrow> ok r ts (andThen (currentTokenIs k c) g) P"
  by (intro ok_andThen currentTokenIs_ok)

lemma ok_step:
  assumes "ok r ts m (adv ts c)" "\<And>c'. adv ts c c' \<Longrightarrow> ok r ts (g c') P"
  shows "ok r ts (andThen m g) P"
  by (intro ok_andThen ok_mono [OF assms(1)] assms(2))

text \<open>Store operations.\<close>

lemma typed_updComp: "typed cs \<Longrightarrow> (\<And>x. props (f x) = props x) \<Longrightarrow> typed (updComp a f cs)"
  by (auto simp: typed_def propOf_def nth_updComp split: if_splits)

lemma typed_append: "typed cs \<Longrightarrow> props x = Map.empty \<Longrightarrow> typed (cs @ [x])"
  by (auto simp: typed_def propOf_def less_Suc_eq nth_append)

lemma typed_setters:
  assumes "typed cs"
  shows "typed (setParent a p cs)" "typed (setName a n cs)" "typed (setInfo a i cs)"
    "typed (addDict a t n b cs)" "typed (addMember a t b cs)"
  using assms unfolding setParent_def setName_def setInfo_def addDict_def addMember_def
  by (auto intro!: typed_updComp)

lemma typed_setProp: "typed cs \<Longrightarrow> wtValue v \<Longrightarrow> a < length cs \<Longrightarrow> typed (setProp a n v cs)"
  by (auto simp: typed_def propOf_setProp)

lemma modifyStore_inv:
  assumes "inv ts c" "wfComps (f (store c))" "typed (f (store c))" "extends (store c) (f (store c))"
  shows "adv ts c (modifyStore f c)" "here (modifyStore f c) = here c" "left (modifyStore f c) = left c"
    "store (modifyStore f c) = f (store c)"
  using assms by (auto simp: adv_def inv_def modifyStore_def here_def left_def wfComps_def extends_def)

lemma modify_simps [simp]:
  "here (modifyStore f c) = here c" "left (modifyStore f c) = left c"
  "store (modifyStore f c) = f (store c)"
  by (simp_all add: modifyStore_def here_def left_def)

lemma inv_setParent:
  assumes "inv ts c" "p < a" "a < length (store c)"
  shows "inv ts (modifyStore (setParent a p) c)"
  using assms modifyStore_inv(1) [OF assms(1), of "setParent a p"]
  by (auto simp: adv_def inv_def setters_keep typed_setters)

lemma inv_setInfo: "inv ts c \<Longrightarrow> a < length (store c) \<Longrightarrow> inv ts (modifyStore (setInfo a i) c)"
  using modifyStore_inv(1) [of ts c "setInfo a i"]
  by (auto simp: adv_def inv_def setters_keep typed_setters)

lemma inv_setName:
  "inv ts c \<Longrightarrow> a < length (store c) \<Longrightarrow> \<not> keyed (ctype (store c ! a)) \<Longrightarrow>
   inv ts (modifyStore (setName a n) c)"
  using modifyStore_inv(1) [of ts c "setName a n"]
  by (auto simp: adv_def inv_def setters_keep typed_setters setName_extends)

lemma inv_setProp:
  "inv ts c \<Longrightarrow> a < length (store c) \<Longrightarrow> wtValue v \<Longrightarrow> inv ts (modifyStore (setProp a n v) c)"
  using modifyStore_inv(1) [of ts c "setProp a n v"]
  by (auto simp: adv_def inv_def setters_keep typed_setProp)

lemma inv_addMember:
  "inv ts c \<Longrightarrow> w < length (store c) \<Longrightarrow> a < length (store c) \<Longrightarrow> ctype (store c ! a) = t \<Longrightarrow>
   inv ts (modifyStore (addMember w t a) c)"
  using modifyStore_inv(1) [of ts c "addMember w t a"]
  by (auto simp: adv_def inv_def addMember_keeps typed_setters)

text \<open>A component was created at \<open>a\<close>.\<close>

definition created :: "token list \<Rightarrow> compType \<Rightarrow> configurator \<Rightarrow> nat \<Rightarrow> configurator \<Rightarrow> bool" where
  "created ts t c a c' \<longleftrightarrow> inv ts c' \<and> left c' = left c \<and> here c' = here c \<and> extends (store c) (store c') \<and>
     a = length (store c) \<and> a < length (store c') \<and> ctype (store c' ! a) = t"

lemma createdI:
  assumes "inv ts c" "wfComps cs'" "typed cs'" "extends (store c) cs'" "a = length (store c)"
    "length cs' = Suc a" "ctype (cs' ! a) = t"
  shows "created ts t c a (c\<lparr>store := cs'\<rparr>)"
  using assms by (auto simp: created_def inv_def left_def here_def wfComps_def extends_def)

definition creates :: "registry \<Rightarrow> token list \<Rightarrow> compType \<Rightarrow> nat \<Rightarrow>
    (comps \<Rightarrow> (configError, nat \<times> comps) outcome) \<Rightarrow> bool" where
  "creates r ts t w f \<longleftrightarrow> (\<forall>c. inv ts c \<longrightarrow> w < length (store c) \<longrightarrow>
     ok r ts (onStore f c) (\<lambda>(a, c'). created ts t c a c'))"

lemma createIn_creates:
  assumes "keyed t" "needs \<Longrightarrow> lawful r ts \<Longrightarrow> creators r t s"
  shows "creates r ts t w (createIn r w t needs s n)"
  unfolding creates_def
proof (intro allI impI)
  fix c assume c: "inv ts c" "w < length (store c)"
  have wf: "wfComps (store c)" "typed (store c)" using c by (auto simp: inv_def)
  show "ok r ts (onStore (createIn r w t needs s n) c) (\<lambda>(a, c'). created ts t c a c')"
  proof (cases "createIn r w t needs s n (store c)")
    case (Done x)
    obtain a cs' where x: "x = (a, cs')" by (cases x)
    note new = createIn_Done [OF wf(1) c(2) assms(1) Done [unfolded x]]
    have "typed cs'" unfolding new(8) using wf(2) by (intro typed_setters typed_append) (auto simp: makeComp_def)
    then have "created ts t c a (c\<lparr>store := cs'\<rparr>)"
      using new by (intro createdI c) (auto simp: makeComp_def)
    then show ?thesis by (simp add: onStore_def Done x)
  qed (use assms(2) in \<open>auto simp: onStore_def createIn_def allocate_def ok_def unknownSign_def split: if_splits\<close>)
qed

lemma createReviser_creates:
  assumes "lawful r ts \<Longrightarrow> creators r compTypeReviser s"
  shows "creates r ts compTypeReviser w (createReviser r w s n)"
  unfolding creates_def
proof (intro allI impI)
  fix c assume c: "inv ts c" "w < length (store c)"
  have wf: "wfComps (store c)" "typed (store c)" using c by (auto simp: inv_def)
  show "ok r ts (onStore (createReviser r w s n) c) (\<lambda>(a, c'). created ts compTypeReviser c a c')"
  proof (cases "createReviser r w s n (store c)")
    case (Done x)
    obtain a cs' where x: "x = (a, cs')" by (cases x)
    note new = createReviser_Done [OF wf(1) c(2) Done [unfolded x]]
    obtain a1 cs1 where one: "createIn r w compTypeReviser True s n (store c) = Done (a1, cs1)"
      and cs': "a = a1" "\<exists>f g. cs' = updComp w f (updComp a1 g cs1) \<and> (\<forall>x. props (f x) = props x \<and> ctype (f x) = ctype x)
        \<and> (\<forall>x. props (g x) = props x \<and> ctype (g x) = ctype x)"
      using Done x by (fastforce simp: createReviser_def andThen_Done_iff Let_def split: if_splits)
    note new1 = createIn_Done [OF wf(1) c(2) _ one, unfolded keyed_def, simplified]
    have "typed cs1" unfolding new1(8) using wf(2) by (intro typed_setters typed_append) (auto simp: makeComp_def)
    then have "typed cs'" using cs'(2) by (auto intro!: typed_updComp)
    moreover have "ctype (cs' ! a) = compTypeReviser"
      using cs' new1(2,5) by (auto simp: nth_updComp makeComp_def)
    ultimately have "created ts compTypeReviser c a (c\<lparr>store := cs'\<rparr>)"
      using new by (intro createdI c) auto
    then show ?thesis by (simp add: onStore_def Done x)
  next
    case (Fail e)
    then show ?thesis
      using assms by (auto simp: onStore_def createReviser_def andThen_Fail_iff createIn_def allocate_def
          ok_def unknownSign_def Let_def split: if_splits)
  next
    case Panic
    then show ?thesis
      by (auto simp: createReviser_def andThen_Panic_iff createIn_def allocate_def Let_def split: if_splits)
  qed
qed

lemma createListed_creates: "creates r ts t w (createListed w t s n)"
  unfolding creates_def
proof (intro allI impI)
  fix c assume c: "inv ts c" "w < length (store c)"
  have wf: "wfComps (store c)" "typed (store c)" using c by (auto simp: inv_def)
  show "ok r ts (onStore (createListed w t s n) c) (\<lambda>(a, c'). created ts t c a c')"
  proof (cases "createListed w t s n (store c)")
    case (Done x)
    obtain a cs' where x: "x = (a, cs')" by (cases x)
    note new = createListed_Done [OF wf(1) c(2) Done [unfolded x]]
    have "cs' = addMember w t a (store c @ [makeComp t s n])"
      using Done x by (auto simp: createListed_def allocate_def split: if_splits)
    then have "typed cs'" using wf(2) by (auto intro!: typed_setters typed_append simp: makeComp_def)
    then have "created ts t c a (c\<lparr>store := cs'\<rparr>)"
      using new by (intro createdI c) (auto simp: makeComp_def)
    then show ?thesis by (simp add: onStore_def Done x)
  qed (auto simp: onStore_def createListed_def allocate_def ok_def unknownSign_def split: if_splits)
qed

lemma createNode_creates: "creates r ts compTypeNode w (\<lambda>cs. Done (createNode w n cs))"
  unfolding creates_def
proof (intro allI impI)
  fix c assume c: "inv ts c" "w < length (store c)"
  have wf: "wfComps (store c)" "typed (store c)" using c by (auto simp: inv_def)
  obtain a cs' where x: "createNode w n (store c) = (a, cs')" by (cases "createNode w n (store c)")
  note new = createNode_Done [OF wf(1) c(2) x]
  have cs': "cs' = addMember w compTypeNode a (store c @ [makeComp compTypeNode (bs ''node'') n])" "a = length (store c)"
    using x by (auto simp: createNode_def allocate_def)
  then have "typed cs'" using wf(2) by (auto intro!: typed_setters typed_append simp: makeComp_def)
  moreover have "ctype (cs' ! a) = compTypeNode"
    using cs' c(2) by (simp add: addMember_def nth_updComp makeComp_def)
  ultimately have "created ts compTypeNode c a (c\<lparr>store := cs'\<rparr>)"
    using new by (intro createdI c) auto
  then show "ok r ts (onStore (\<lambda>cs. Done (createNode w n cs)) c) (\<lambda>(a, c'). created ts compTypeNode c a c')"
    by (simp add: onStore_def x)
qed

lemma ok_create:
  assumes "creates r ts t w f" "inv ts c" "w < length (store c)"
    "\<And>a c'. created ts t c a c' \<Longrightarrow> ok r ts (g a c') P"
  shows "ok r ts (andThen (onStore f c) (\<lambda>(a, c). g a c)) P"
  by (intro ok_andThen ok_mono [OF assms(1) [unfolded creates_def, rule_format, OF assms(2,3)]])
    (use assms(4) in auto)

lemma parseAssign_ok:
  assumes c: "inv ts c" "cp < length (store c)" "here c = tokenProperty" and f: "2 * left c \<le> f"
  shows "ok r ts (parseAssign f prop cp c) (adv ts c)"
  unfolding parseAssign_def
proof (intro ok_andThen [of r ts "peekTokenIs tokenLeftBrace c"] peekTokenIs_ok [OF c(1)] ok_if ok_Fail)
  show "here c \<in> {tokenString, tokenProperty}" using c by simp
next
  show "ok r ts (andThen (forwardExpectToken tokenEqual c) (\<lambda>(_, c).
      andThen (forwardToken c) (\<lambda>(_, c).
      andThen (parseValue f cp (ttext prop) c) (\<lambda>(v, c).
      Done (modifyStore (setProp cp (ttext prop) v) c))))) (adv ts c)"
  proof (intro ok_fwdExpect [OF c(1)] ok_fwd, assumption)
    fix t1 t2 :: token and c1 c2
    assume 1: "left c1 < left c" "store c1 = store c"
      and 2: "inv ts c2" "left c2 < left c1" "store c2 = store c1"
    have cp2: "cp < length (store c2)" using 1 2 c by simp
    show "ok r ts (andThen (parseValue f cp (ttext prop) c2) (\<lambda>(v, c).
      Done (modifyStore (setProp cp (ttext prop) v) c))) (adv ts c)"
    proof (intro ok_andThen ok_mono [OF value_parsers_ok(1) [OF 2(1) cp2]])
      show "2 * left c2 + 2 \<le> f" using f 1 2 by simp
      fix x assume "valueRead ts c2 x"
      then obtain v c3 where x: "x = (v, c3)" and v: "moved c2 c3" "inv ts c3" "wtValue v"
        by (cases x) (auto simp: valueRead_def)
      have "left c3 \<le> left c2" "store c3 = store c2" using moved_inv [OF v(1) 2(1)] by auto
      then show "ok r ts (case x of (v, c) \<Rightarrow> Done (modifyStore (setProp cp (ttext prop) v) c)) (adv ts c)"
        using 1 2 inv_setProp [OF v(2) _ v(3), of cp "ttext prop"] cp2 by (simp add: x adv_def)
    qed
  qed
qed

definition handles :: "registry \<Rightarrow> token list \<Rightarrow> nat \<Rightarrow>
    (nat \<Rightarrow> token \<Rightarrow> configurator \<Rightarrow> (configError, configurator) outcome) \<Rightarrow> comps \<Rightarrow> bool" where
  "handles r ts n inner cs \<longleftrightarrow> (\<forall>f t c. t \<in> set ts \<longrightarrow> kind t = tokenComponent \<longrightarrow> inv ts c \<longrightarrow>
     extends cs (store c) \<longrightarrow> 2 * left c + 1 \<le> f \<longrightarrow> left c \<le> n \<longrightarrow> ok r ts (inner f t c) (adv ts c))"

lemma parseBody_ok:
  "inv ts c \<Longrightarrow> cp < length (store c) \<Longrightarrow> handles r ts n inner cs \<Longrightarrow> extends cs (store c) \<Longrightarrow>
   2 * left c + 1 \<le> f \<Longrightarrow> left c \<le> n \<Longrightarrow> ok r ts (parseBody inner f cp c) (adv ts c)"
proof (induction f arbitrary: c)
  case (Suc f)
  show ?case
    unfolding parseBody.simps
  proof (intro ok_fwd [OF Suc.prems(1)] ok_if)
    fix t c1
    assume 1: "t \<in> set ts" "inv ts c1" "left c1 < left c" "store c1 = store c" "here c1 = kind t"
    show "ok r ts (Done c1) (adv ts c)" using 1 by (simp add: adv_def)
    have again: "ok r ts (parseBody inner f cp c2) (adv ts c)" if "adv ts c1 c2" for c2
    proof -
      have "ok r ts (parseBody inner f cp c2) (adv ts c2)"
        using that Suc.prems 1 by (intro Suc.IH) (auto simp: adv_def intro: extends_trans dest: extends_at)
      then show ?thesis
        by (rule ok_mono) (use that 1 in \<open>auto simp: adv_def intro: extends_trans\<close>)
    qed
    show "ok r ts (andThen (parseAssign f t cp c1) (\<lambda>c. parseBody inner f cp c)) (adv ts c)"
      if "kind t = tokenProperty"
      using Suc.prems 1 that by (intro ok_step [OF parseAssign_ok] again) auto
    show "ok r ts (andThen (inner f t c1) (\<lambda>c. parseBody inner f cp c)) (adv ts c)"
      if "\<not> kind t \<noteq> tokenComponent"
      using Suc.prems 1 that by (intro ok_step [of r ts "inner f t c1" c1] again) (auto simp: handles_def)
  qed simp
qed simp

lemma parseLeaf_ok:
  assumes "inv ts c" "cp < length (store c)" "2 * left c + 1 \<le> f"
  shows "ok r ts (parseLeaf f cp c) (adv ts c)"
  unfolding parseLeaf_def using assms
  by (intro ok_expect parseBody_ok [where n = "left c" and cs = "store c"]) (auto simp: handles_def)

lemma parseLeaf_from:
  assumes "inv ts c'" "cp < length (store c')" "2 * left c' + 1 \<le> f"
    "left c' \<le> left c" "extends (store c) (store c')"
  shows "ok r ts (parseLeaf f cp c') (adv ts c)"
  by (rule ok_mono [OF parseLeaf_ok [OF assms(1-3)]]) (use assms(4,5) in \<open>auto intro: adv_from\<close>)

lemma created_parent:
  assumes "created ts t c0 a c" "p < length (store c0)"
  shows "inv ts (modifyStore (setParent a p) c)" "left (modifyStore (setParent a p) c) = left c0"
    "a < length (store (modifyStore (setParent a p) c))"
    "extends (store c0) (store (modifyStore (setParent a p) c))"
    "ctype (store (modifyStore (setParent a p) c) ! a) = t"
proof -
  show inv: "inv ts (modifyStore (setParent a p) c)" "left (modifyStore (setParent a p) c) = left c0"
    "a < length (store (modifyStore (setParent a p) c))"
    using assms by (auto simp: created_def intro!: inv_setParent)
  show "extends (store c0) (store (modifyStore (setParent a p) c))"
    using assms(1) by (auto simp: created_def intro: extends_trans [OF _ setters_extend(1)])
  show "ctype (store (modifyStore (setParent a p) c) ! a) = t"
    using assms(1) by (auto simp: created_def setParent_def nth_updComp)
qed

lemma parseComponent0_ok:
  assumes c: "inv ts c" "stage < length (store c)" "2 * left c + 1 \<le> f"
    and cr: "\<And>n. creates r ts t stage (create (ttext compSign) n)"
  shows "ok r ts (parseComponent0 create f compSign stage c) (adv ts c)"
  unfolding parseComponent0_def
proof (intro ok_fwdExpect [OF c(1)] ok_create [OF cr], assumption)
  fix c1 assume "store c1 = store c"
  then show "stage < length (store c1)" using c by simp
next
  fix c1 a c2
  assume 1: "inv ts c1" "left c1 < left c" "store c1 = store c" and 2: "created ts t c1 a c2"
  note p = created_parent [OF 2, of stage]
  show "ok r ts (andThen (forwardToken (modifyStore (setParent a stage) c2)) (\<lambda>(_, c). parseLeaf f a c)) (adv ts c)"
  proof (intro ok_fwd p(1))
    show "stage < length (store c1)" using 1 c by simp
    then show "ok r ts (parseLeaf f a c3) (adv ts c)"
      if "inv ts c3" "left c3 < left (modifyStore (setParent a stage) c2)"
        "store c3 = store (modifyStore (setParent a stage) c2)" for c3
      using that p 1 c by (intro parseLeaf_from) auto
  qed
qed

lemma parseService_ok:
  assumes c: "inv ts c" "stage < length (store c)" "2 * left c + 1 \<le> f"
  shows "ok r ts (parseService f stage r c) (adv ts c)"
proof -
  have "creates r ts compTypeService stage (createService r stage n)" for n
    unfolding createService_def by (rule createIn_creates) (auto simp: keyed_def)
  then show ?thesis
    using parseComponent0_ok [OF c, where create = "\<lambda>_. createService r stage" and t = compTypeService]
    by (simp add: parseComponent0_def parseService_def)
qed

lemma parseFixture_ok:
  assumes c: "inv ts c" "stage = 0" "2 * left c + 1 \<le> f"
  shows "ok r ts (parseFixture f compSign stage c) (adv ts c)"
proof (cases "dict (store c ! stage) compTypeFixture (ttext compSign)")
  case None
  then show ?thesis by (simp add: parseFixture_def)
next
  case (Some a)
  have "stage < length (store c)" using c by (auto simp: inv_def wfComps_def)
  then have a: "a < length (store c)" "ctype (store c ! a) = compTypeFixture"
    using wfComps_kept [of "store c" stage] Some c(1) by (auto simp: wellKept_def inv_def)
  then have "0 < a" using c(1) by (metis compType.distinct(1) gr0I inv_def)
  then have i: "inv ts (modifyStore (setParent a stage) c)" using inv_setParent c a by simp
  show ?thesis
    unfolding parseFixture_def Some option.case
    by (intro ok_fwd [OF i] parseLeaf_from) (use a c(3) in \<open>auto intro: setters_extend\<close>)
qed

lemma optionalName_ok:
  assumes "inv ts c"
    "\<And>n c'. inv ts c' \<Longrightarrow> left c' < left c \<Longrightarrow> store c' = store c \<Longrightarrow> P (n, c')"
  shows "ok r ts (optionalName compSign inside c) P"
proof -
  have mk: "inv ts c \<Longrightarrow> makeCompName c = (n, c') \<Longrightarrow> inv ts c' \<and> left c' = left c \<and> store c' = store c" for c n c'
    by (auto simp: makeCompName_def inv_def left_def)
  show ?thesis
    unfolding optionalName_def
  proof (intro ok_fwd [OF assms(1)] ok_if ok_fwd, assumption)
    fix t c1 assume 1: "inv ts c1" "left c1 < left c" "store c1 = store c"
    show "ok r ts (Done (makeCompName c1)) P"
      using mk [OF 1(1)] 1 assms(2) by (cases "makeCompName c1") auto
    show "ok r ts (Done (ttext compSign, c1)) P" using 1 assms(2) by simp
    show "ok r ts (Done (ttext t, c2)) P" if "inv ts c2" "left c2 < left c1" "store c2 = store c1" for c2
      using that 1 assms(2) by simp
  qed
qed

lemma parseComponentIn_ok:
  assumes c: "inv ts c" "w < length (store c)" "2 * left c + 1 \<le> f"
    and ins: "\<And>k. inside = Some k \<Longrightarrow> k < length (store c)"
    and cr: "\<And>n. creates r ts t w (create (ttext compSign) n)"
  shows "ok r ts (parseComponentIn t create f compSign w inside c) (adv ts c)"
  unfolding parseComponentIn_def
proof (intro ok_andThen optionalName_ok [OF c(1)], unfold prod.case, intro ok_create [OF cr], assumption)
  fix c1 assume "store c1 = store c"
  then show "w < length (store c1)" using c by simp
next
  fix c1 a c2
  assume 1: "inv ts c1" "left c1 < left c" "store c1 = store c" and 2: "created ts t c1 a c2"
  have w: "w < length (store c1)" using 1 c by simp
  note p = created_parent [OF 2, of w]
  let ?c = "modifyStore (setParent a w) c2"
  show "ok r ts (let c = ?c; c = (case inside of None \<Rightarrow> c | Some k \<Rightarrow> modifyStore (addMember k t a) c)
      in parseLeaf f a c) (adv ts c)"
  proof (cases inside)
    case None
    then show ?thesis
      using p w 1 c by (auto simp: Let_def intro!: parseLeaf_from)
  next
    case (Some k)
    then have k: "k < length (store ?c)"
      using ins [of k] 1 p(4) w extends_at by fastforce
    have "extends (store c) (store (modifyStore (addMember k t a) ?c))"
      using p(4) w 1 by (auto intro: extends_trans [OF _ setters_extend(5)])
    then show ?thesis
      using Some inv_addMember [OF p(1) k p(3) p(5)] p w 1 c
      by (auto simp: Let_def intro!: parseLeaf_from)
  qed
qed

lemma patternLoop_ok:
  "inv ts c \<Longrightarrow> left c < f \<Longrightarrow>
   ok r ts (patternLoop f ps c) (\<lambda>(ps, c'). inv ts c' \<and> left c' \<le> left c \<and> store c' = store c)"
proof (induction f arbitrary: ps c)
  case (Suc f)
  let ?P = "\<lambda>(ps :: bytes list, c'). inv ts c' \<and> left c' \<le> left c \<and> store c' = store c"
  show ?case
    unfolding patternLoop.simps Let_def
  proof (intro ok_fwd [OF Suc.prems(1)] ok_if ok_Fail)
    fix t c1 assume 1: "inv ts c1" "left c1 < left c" "store c1 = store c"
    then show "ok r ts (Done (ps, c1)) ?P" by simp
    show "ok r ts (andThen (forwardToken c1) (\<lambda>(current, c).
      if kind current = tokenRightParen then Done (ps @ [ttext t], c)
      else if kind current \<noteq> tokenComma then Fail (ParseError ''bad string list in cond'')
      else patternLoop f (ps @ [ttext t]) c)) ?P"
    proof (intro ok_fwd [OF 1(1)] ok_if ok_Fail)
      fix c2 assume 2: "inv ts c2" "left c2 < left c1" "store c2 = store c1"
      then show "ok r ts (Done (ps @ [ttext t], c2)) ?P" using 1 by simp
      show "ok r ts (patternLoop f (ps @ [ttext t]) c2) ?P"
        by (rule ok_mono [OF Suc.IH [OF 2(1)]]) (use Suc.prems 1 2 in auto)
    qed
  qed
qed simp

lemma parsePatterns_ok:
  assumes "inv ts c" "left c < f"
    "\<And>ps c'. inv ts c' \<Longrightarrow> left c' < left c \<Longrightarrow> store c' = store c \<Longrightarrow> P (ps, c')"
  shows "ok r ts (parsePatterns f c) P"
  unfolding parsePatterns_def
proof (intro ok_fwd [OF assms(1)] ok_if)
  fix t c1 assume 1: "inv ts c1" "left c1 < left c" "store c1 = store c"
  then show "ok r ts (Done ([ttext t], c1)) P" using assms(3) by simp
  show "ok r ts (patternLoop f [] c1) P"
    by (rule ok_mono [OF patternLoop_ok [OF 1(1)]]) (use 1 assms in auto)
qed simp

lemma parseCaseCond_ok:
  assumes c: "inv ts c" "left c < f" "kase < length (store c)"
  shows "ok r ts (parseCaseCond f kase c) (adv ts c)"
  unfolding parseCaseCond_def
proof (intro ok_expect [OF c(1)] ok_fwd [OF c(1)] ok_currentIs ok_if, assumption, simp, intro ok_expect, assumption,
    intro ok_andThen parsePatterns_ok)
  fix v :: token and c1 and cmp :: token and ps c2
  assume 1: "inv ts c1" "left c1 < left c" "store c1 = store c"
  then show "inv ts c1" "left c1 < f" using c by auto
  assume "inv ts c2" "left c2 < left c1" "store c2 = store c1"
  then show "ok r ts (case (ps, c2) of (ps, c) \<Rightarrow> Done (modifyStore (setInfo kase (CaseCond
        \<lparr>varCode = info v, varName = ttext v, compare = ttext cmp, patterns = ps\<rparr>)) c)) (adv ts c)"
    using 1 c by (auto simp: adv_def intro!: inv_setInfo)
qed

lemma parseRuleCond_ok:
  assumes c: "inv ts c" "left c < f" "rule < length (store c)"
  shows "ok r ts (parseRuleCond f rule c) (adv ts c)"
  unfolding parseRuleCond_def
proof (intro ok_expect [OF c(1)] ok_fwd [OF c(1)] ok_currentIs, assumption)
  fix v :: token and t :: token and c1
  assume 1: "inv ts c1" "left c1 < left c" "store c1 = store c"
  let ?P = "\<lambda>(cmp :: bytes, ps :: bytes list, c'). inv ts c' \<and> left c' < left c \<and> store c' = store c"
  have "ok r ts (if here c1 = tokenFSCheck then
        (if ttext v \<noteq> bs ''path'' then Fail (ParseError ''only path is allowed to test against file system'')
         else Done (ttext t, [], c1))
      else andThen (expectToken tokenCompare c1) (\<lambda>cmp.
        andThen (parsePatterns f c1) (\<lambda>(ps, c). Done (ttext cmp, ps, c)))) ?P"
    using 1 c by (intro ok_if ok_expect [OF 1(1)] ok_andThen parsePatterns_ok [OF 1(1)]) auto
  then show "ok r ts (andThen (if here c1 = tokenFSCheck then
        (if ttext v \<noteq> bs ''path'' then Fail (ParseError ''only path is allowed to test against file system'')
         else Done (ttext t, [], c1))
      else andThen (expectToken tokenCompare c1) (\<lambda>cmp.
        andThen (parsePatterns f c1) (\<lambda>(ps, c). Done (ttext cmp, ps, c)))) (\<lambda>(cmp, ps, c).
    Done (modifyStore (setInfo rule (RuleCond
      \<lparr>varCode = info v, varName = ttext v, compare = cmp, patterns = ps\<rparr>)) c))) (adv ts c)"
    by (intro ok_andThen) (erule ok_mono, use c in \<open>auto simp: adv_def intro!: inv_setInfo\<close>)
qed

lemma parseHead_ok:
  assumes c: "inv ts c" "left c \<le> f" "a < length (store c)" "\<not> keyed (ctype (store c ! a))"
    and cond: "\<And>c'. inv ts c' \<Longrightarrow> left c' < f \<Longrightarrow> a < length (store c') \<Longrightarrow> ok r ts (cond f a c') (adv ts c')"
  shows "ok r ts (parseHead cond f a c) (\<lambda>c'. adv ts c c' \<and> left c' < left c)"
  unfolding parseHead_def
proof (intro ok_fwd [OF c(1)] ok_if)
  fix t c1 assume 1: "inv ts c1" "left c1 < left c" "store c1 = store c"
  then show "ok r ts (Done c1) (\<lambda>c'. adv ts c c' \<and> left c' < left c)" by (simp add: adv_def)
  let ?c1 = "if ttext t \<noteq> [] then modifyStore (setName a (ttext t)) c1 else c1"
  have n: "inv ts ?c1" "left ?c1 = left c1" "extends (store c) (store ?c1)"
    using 1 c by (auto intro: inv_setName setName_extends)
  have "ok r ts (if kind t = tokenString then
        (let c = ?c1 in andThen (forwardToken c) (\<lambda>(_, c). Done c)) else Done c1)
      (\<lambda>c2. adv ts c c2 \<and> left c2 < left c)"
    unfolding Let_def using 1 n
    by (intro ok_if ok_fwd [OF n(1)]) (auto simp: adv_def)
  then show "ok r ts (andThen (if kind t = tokenString then
        (let c = ?c1 in andThen (forwardToken c) (\<lambda>(_, c). Done c)) else Done c1) (\<lambda>c.
    andThen (currentTokenIs tokenLeftBrace c) (\<lambda>brace.
    if brace then Done c
    else andThen (cond f a c) (\<lambda>c.
      andThen (forwardExpectToken tokenLeftBrace c) (\<lambda>(_, c). Done c))))) (\<lambda>c'. adv ts c c' \<and> left c' < left c)"
  proof (intro ok_andThen [of r ts "if kind t = tokenString then _ else _"], elim ok_mono)
    fix c2 assume 2: "adv ts c c2 \<and> left c2 < left c"
    then have i2: "inv ts c2" "left c2 < f" "a < length (store c2)"
      using c by (auto simp: adv_def dest: extends_at)
    show "ok r ts (andThen (currentTokenIs tokenLeftBrace c2) (\<lambda>brace.
      if brace then Done c2
      else andThen (cond f a c2) (\<lambda>c.
        andThen (forwardExpectToken tokenLeftBrace c) (\<lambda>(_, c). Done c)))) (\<lambda>c'. adv ts c c' \<and> left c' < left c)"
    proof (intro ok_currentIs [OF i2(1)] ok_if ok_step [OF cond [OF i2]])
      show "ok r ts (Done c2) (\<lambda>c'. adv ts c c' \<and> left c' < left c)" using 2 by simp
      fix c3 assume 3: "adv ts c2 c3"
      then have "inv ts c3" by (simp add: adv_def)
      then show "ok r ts (andThen (forwardExpectToken tokenLeftBrace c3) (\<lambda>(_, c). Done c))
          (\<lambda>c'. adv ts c c' \<and> left c' < left c)"
        using 2 3 by (intro ok_fwdExpect) (auto simp: adv_def intro: extends_trans)
    qed
  qed
qed

lemma sign_creators:
  "t \<in> set ts \<Longrightarrow> kind t = tokenComponent \<Longrightarrow> info t = compNumber ty \<Longrightarrow> hasCreators ty \<Longrightarrow> lawful r ts \<Longrightarrow>
   creators r ty (ttext t)"
  by (auto simp: lawful_def consistent_def)

lemma createIn_sign:
  "t \<in> set ts \<Longrightarrow> kind t = tokenComponent \<Longrightarrow> info t = compNumber ty \<Longrightarrow> hasCreators ty \<Longrightarrow>
   creates r ts ty w (createIn r w ty True (ttext t) n)"
  by (rule createIn_creates) (auto simp: hasCreators_def keyed_def intro: sign_creators)

lemma parseDealets_ok:
  assumes "inv ts c" "w < length (store c)" "2 * left c + 1 \<le> f" "\<And>k. inside = Some k \<Longrightarrow> k < length (store c)"
    "t \<in> set ts" "kind t = tokenComponent"
  shows "info t = compNumber compTypeQUIXDealet \<Longrightarrow> ok r ts (parseQUIXDealet r f t w inside c) (adv ts c)"
    "info t = compNumber compTypeTCPXDealet \<Longrightarrow> ok r ts (parseTCPXDealet r f t w inside c) (adv ts c)"
    "info t = compNumber compTypeUDPXDealet \<Longrightarrow> ok r ts (parseUDPXDealet r f t w inside c) (adv ts c)"
  unfolding parseQUIXDealet_def parseTCPXDealet_def parseUDPXDealet_def
    createQUIXDealet_def createTCPXDealet_def createUDPXDealet_def using assms
  by (intro parseComponentIn_ok createIn_sign; auto simp: hasCreators_def)+

lemma parseInWebapp_ok:
  assumes "inv ts c" "w < length (store c)" "2 * left c + 1 \<le> f" "\<And>k. inside = Some k \<Longrightarrow> k < length (store c)"
    "t \<in> set ts" "kind t = tokenComponent"
  shows "info t = compNumber compTypeHandlet \<Longrightarrow> ok r ts (parseHandlet r f t w inside c) (adv ts c)"
    "info t = compNumber compTypeReviser \<Longrightarrow> ok r ts (parseReviser r f t w inside c) (adv ts c)"
    "info t = compNumber compTypeSocklet \<Longrightarrow> ok r ts (parseSocklet r f t w inside c) (adv ts c)"
  unfolding parseHandlet_def parseReviser_def parseSocklet_def createHandlet_def createSocklet_def using assms
  by (intro parseComponentIn_ok createIn_sign createReviser_creates sign_creators;
      auto simp: hasCreators_def)+

lemma makeCompName_inv:
  "inv ts c \<Longrightarrow> makeCompName c = (n, c') \<Longrightarrow> inv ts c' \<and> left c' = left c \<and> store c' = store c"
  by (auto simp: makeCompName_def inv_def left_def)

lemma parseNode_ok:
  assumes c: "inv ts c" "w < length (store c)" "2 * left c + 1 \<le> f"
  shows "ok r ts (parseNode f w c) (adv ts c)"
  unfolding parseNode_def
proof (intro ok_fwd [OF c(1)])
  fix t c1 assume 1: "inv ts c1" "left c1 < left c" "store c1 = store c"
  have "ok r ts (if kind t = tokenString then andThen (forwardToken c1) (\<lambda>(_, c). Done (ttext t, c))
      else Done (makeCompName c1)) (\<lambda>(n, c'). inv ts c' \<and> left c' < left c \<and> store c' = store c)"
    using 1 makeCompName_inv [OF 1(1)]
    by (intro ok_if ok_fwd [OF 1(1)]) (auto split: prod.splits)
  then show "ok r ts (andThen (if kind t = tokenString then andThen (forwardToken c1) (\<lambda>(_, c). Done (ttext t, c))
      else Done (makeCompName c1)) (\<lambda>(name, c).
    andThen (onStore (\<lambda>cs. Done (createNode w name cs)) c) (\<lambda>(a, c).
    parseLeaf f a (modifyStore (setParent a w) c)))) (adv ts c)"
  proof (intro ok_andThen [of r ts "if _ then _ else _"], elim ok_mono, clarify, intro ok_create [OF createNode_creates])
    fix n c2 a c3 assume 2: "inv ts c2" "left c2 < left c" "store c2 = store c"
    then show "inv ts c2" "w < length (store c2)" using c by auto
    assume 3: "created ts compTypeNode c2 a c3"
    show "ok r ts (parseLeaf f a (modifyStore (setParent a w) c3)) (adv ts c)"
      using created_parent [OF 3, of w] 2 c by (intro parseLeaf_from) auto
  qed
qed

lemma addr: "extends cs cs' \<Longrightarrow> a < length cs \<Longrightarrow> a < length cs'"
  by (simp add: extends_def)

text \<open>A component with a body: created under \<open>w\<close>, then its opening brace, then the body.\<close>

lemma container_ok:
  assumes c: "inv ts c" "w < length (store c)" "2 * left c + 1 \<le> f"
    and cr: "creates r ts t w (create)"
    and h: "\<And>a cs. a < length cs \<Longrightarrow> ctype (cs ! a) = t \<Longrightarrow> handles r ts (left c) (inner a) cs"
  shows "ok r ts (andThen (onStore create c) (\<lambda>(a, c).
    andThen (forwardExpectToken tokenLeftBrace (modifyStore (setParent a w) c)) (\<lambda>(_, c).
    parseBody (inner a) f a c))) (adv ts c)"
proof (intro ok_create [OF cr c(1,2)])
  fix a c1 assume 1: "created ts t c a c1"
  note p = created_parent [OF 1 c(2)]
  show "ok r ts (andThen (forwardExpectToken tokenLeftBrace (modifyStore (setParent a w) c1)) (\<lambda>(_, c).
    parseBody (inner a) f a c)) (adv ts c)"
  proof (intro ok_fwdExpect [OF p(1)])
    fix c2 assume 2: "inv ts c2" "left c2 < left (modifyStore (setParent a w) c1)"
      "store c2 = store (modifyStore (setParent a w) c1)"
    have "ok r ts (parseBody (inner a) f a c2) (adv ts c2)"
      using 2 p c h [of a "store c2"] by (intro parseBody_ok [where n = "left c" and cs = "store c2"]) auto
    then show "ok r ts (parseBody (inner a) f a c2) (adv ts c)"
      by (rule ok_mono) (use 2 p in \<open>auto intro!: adv_from [of ts c2]\<close>)
  qed
qed

lemma named_container_ok:
  assumes c: "inv ts c" "w < length (store c)" "2 * left c + 1 \<le> f"
    and cr: "\<And>n. creates r ts t w (create n)"
    and h: "\<And>a cs. a < length cs \<Longrightarrow> ctype (cs ! a) = t \<Longrightarrow> handles r ts (left c) (inner a) cs"
  shows "ok r ts (andThen (forwardExpectToken tokenString c) (\<lambda>(name, c).
    andThen (onStore (create (ttext name)) c) (\<lambda>(a, c).
    andThen (forwardExpectToken tokenLeftBrace (modifyStore (setParent a w) c)) (\<lambda>(_, c).
    parseBody (inner a) f a c)))) (adv ts c)"
proof (intro ok_fwdExpect [OF c(1)])
  fix t1 c1 assume 1: "inv ts c1" "left c1 < left c" "store c1 = store c"
  have "ok r ts (andThen (onStore (create (ttext t1)) c1) (\<lambda>(a, c).
      andThen (forwardExpectToken tokenLeftBrace (modifyStore (setParent a w) c)) (\<lambda>(_, c).
      parseBody (inner a) f a c))) (adv ts c1)"
    using 1 c h by (intro container_ok [OF 1(1) _ _ cr]) (auto simp: handles_def)
  then show "ok r ts (andThen (onStore (create (ttext t1)) c1) (\<lambda>(a, c).
      andThen (forwardExpectToken tokenLeftBrace (modifyStore (setParent a w) c)) (\<lambda>(_, c).
      parseBody (inner a) f a c))) (adv ts c)"
    by (rule ok_mono) (use 1 in \<open>auto intro!: adv_from [of ts c1]\<close>)
qed

lemma parseBackend_ok:
  assumes "inv ts c" "w < length (store c)" "2 * left c + 1 \<le> f" "t \<in> set ts" "kind t = tokenComponent"
    "info t = compNumber compTypeBackend"
  shows "ok r ts (parseBackend r f t w c) (adv ts c)"
  unfolding parseBackend_def createBackend_def using assms
  by (intro named_container_ok [where t = compTypeBackend] createIn_sign)
    (auto simp: hasCreators_def handles_def intro!: parseNode_ok dest: addr)

text \<open>Cases and rules: created under a number, then the head, then the body.\<close>

lemma listed_ok:
  assumes c: "inv ts c" "w < length (store c)" "2 * left c + 1 \<le> f" and t: "\<not> keyed t"
    and cond: "\<And>a c'. inv ts c' \<Longrightarrow> left c' < f \<Longrightarrow> a < length (store c') \<Longrightarrow> ok r ts (cond f a c') (adv ts c')"
    and h: "\<And>a cs. a < length cs \<Longrightarrow> w < length cs \<Longrightarrow> handles r ts (left c) (inner a) cs"
  shows "ok r ts (let (name, c) = makeCompName c in
     andThen (onStore (createListed w t s name) c) (\<lambda>(a, c).
     andThen (parseHead cond f a (modifyStore (setParent a w) c)) (\<lambda>c.
     parseBody (inner a) f a c))) (adv ts c)"
proof -
  obtain n c0 where n: "makeCompName c = (n, c0)" by (cases "makeCompName c")
  note 0 = makeCompName_inv [OF c(1) n]
  have "ok r ts (andThen (onStore (createListed w t s n) c0) (\<lambda>(a, c).
     andThen (parseHead cond f a (modifyStore (setParent a w) c)) (\<lambda>c.
     parseBody (inner a) f a c))) (adv ts c)"
  proof (intro ok_create [OF createListed_creates])
    show "inv ts c0" "w < length (store c0)" using 0 c by auto
    fix a c1 assume 1: "created ts t c0 a c1"
    note p = created_parent [OF 1, of w]
    let ?c = "modifyStore (setParent a w) c1"
    have w0: "w < length (store c0)" using 0 c by simp
    have head: "ok r ts (parseHead cond f a ?c) (\<lambda>c'. adv ts ?c c' \<and> left c' < left ?c)"
      using p w0 0 c t cond by (intro parseHead_ok) auto
    show "ok r ts (andThen (parseHead cond f a ?c) (\<lambda>c. parseBody (inner a) f a c)) (adv ts c)"
    proof (intro ok_andThen ok_mono [OF head])
      fix c2 assume 2: "adv ts ?c c2 \<and> left c2 < left ?c"
      have ext: "extends (store c) (store c2)"
        using 2 p w0 0 by (auto simp: adv_def intro: extends_trans)
      have "ok r ts (parseBody (inner a) f a c2) (adv ts c2)"
        using 2 p w0 0 c h [of a "store c2"] addr [OF ext c(2)] addr [of _ "store c2" a]
        by (intro parseBody_ok [where n = "left c" and cs = "store c2"]) (auto simp: adv_def)
      then show "ok r ts (parseBody (inner a) f a c2) (adv ts c)"
        by (rule ok_mono) (use 2 p w0 0 ext in \<open>auto simp: adv_def intro: extends_trans\<close>)
    qed
  qed
  then show ?thesis by (simp add: n)
qed

lemma parseCases_ok:
  assumes "inv ts c" "w < length (store c)" "2 * left c + 1 \<le> f"
  shows "ok r ts (parseQUIXCase r f w c) (adv ts c)" "ok r ts (parseTCPXCase r f w c) (adv ts c)"
    "ok r ts (parseUDPXCase r f w c) (adv ts c)"
  unfolding parseQUIXCase_def parseTCPXCase_def parseUDPXCase_def caseBody_def
    createQUIXCase_def createTCPXCase_def createUDPXCase_def using assms
  by (intro listed_ok; auto simp: keyed_def handles_def intro!: parseCaseCond_ok parseDealets_ok dest: addr)+

lemma parseRule_ok:
  assumes "inv ts c" "w < length (store c)" "2 * left c + 1 \<le> f"
  shows "ok r ts (parseRule r f w c) (adv ts c)"
  unfolding parseRule_def createRule_def using assms
  by (intro listed_ok) (auto simp: keyed_def handles_def intro!: parseRuleCond_ok parseInWebapp_ok dest: addr)

lemma parseComponentR_ok:
  assumes "inv ts c" "w < length (store c)" "2 * left c + 1 \<le> f"
    and cr: "\<And>n. creates r ts t w (create n)"
    and d: "\<And>f k a c. k \<in> set ts \<Longrightarrow> kind k = tokenComponent \<Longrightarrow> info k = compNumber ty \<Longrightarrow> inv ts c \<Longrightarrow>
      a < length (store c) \<Longrightarrow> 2 * left c + 1 \<le> f \<Longrightarrow> ok r ts (parseDealet f k a None c) (adv ts c)"
    and k: "\<And>f a c. inv ts c \<Longrightarrow> a < length (store c) \<Longrightarrow> 2 * left c + 1 \<le> f \<Longrightarrow> ok r ts (parseCase f a c) (adv ts c)"
  shows "ok r ts (parseComponentR create ty parseDealet parseCase f w c) (adv ts c)"
  unfolding parseComponentR_def using assms(1-3)
  by (intro named_container_ok [OF _ _ _ cr])
    (auto simp: handles_def intro!: d k dest: addr)

lemma create_router_creates:
  "creates r ts compTypeQUIXRouter w (createQUIXRouter r w n)"
  "creates r ts compTypeTCPXRouter w (createTCPXRouter r w n)"
  "creates r ts compTypeUDPXRouter w (createUDPXRouter r w n)"
  "creates r ts compTypeWebapp w (createWebapp r w n)"
  unfolding createQUIXRouter_def createTCPXRouter_def createUDPXRouter_def createWebapp_def
  by (rule createIn_creates; simp add: keyed_def)+

lemma parseRouters_ok:
  assumes "inv ts c" "w < length (store c)" "2 * left c + 1 \<le> f"
  shows "ok r ts (parseQUIXRouter r f w c) (adv ts c)" "ok r ts (parseTCPXRouter r f w c) (adv ts c)"
    "ok r ts (parseUDPXRouter r f w c) (adv ts c)"
  unfolding parseQUIXRouter_def parseTCPXRouter_def parseUDPXRouter_def using assms
  by (auto intro!: parseComponentR_ok create_router_creates parseDealets_ok parseCases_ok)

lemma parseWebapp_ok:
  assumes "inv ts c" "w < length (store c)" "2 * left c + 1 \<le> f"
  shows "ok r ts (parseWebapp r f w c) (adv ts c)"
  unfolding parseWebapp_def using assms
  by (intro named_container_ok [where t = compTypeWebapp])
    (auto simp: create_router_creates handles_def intro!: parseInWebapp_ok parseRule_ok dest: addr)

lemma create_signed_creates:
  assumes "t \<in> set ts" "kind t = tokenComponent"
  shows "info t = compNumber compTypeHstate \<Longrightarrow> creates r ts compTypeHstate w (createHstate r w (ttext t) n)"
    "info t = compNumber compTypeHcache \<Longrightarrow> creates r ts compTypeHcache w (createHcache r w (ttext t) n)"
    "info t = compNumber compTypeServer \<Longrightarrow> creates r ts compTypeServer w (createServer r w (ttext t) n)"
    "info t = compNumber compTypeCronjob \<Longrightarrow> creates r ts compTypeCronjob w (createCronjob r w (ttext t) n)"
  unfolding createHstate_def createHcache_def createServer_def createCronjob_def using assms
  by (intro createIn_sign; simp add: hasCreators_def)+

lemma parseInStage_ok:
  assumes "inv ts c" "2 * left c + 1 \<le> f" "t \<in> set ts" "kind t = tokenComponent"
  shows "ok r ts (parseInStage r 0 f t c) (adv ts c)"
proof -
  have w: "0 < length (store c)" using assms(1) by (auto simp: inv_def wfComps_def)
  show ?thesis
    unfolding parseInStage_def Let_def
  proof (intro ok_if)
    show "ok r ts (parseFixture f t 0 c) (adv ts c)" using assms by (intro parseFixture_ok) auto
  next
    assume "info t = compNumber compTypeBackend"
    then show "ok r ts (parseBackend r f t 0 c) (adv ts c)" using assms w by (intro parseBackend_ok)
  next
    assume "info t = compNumber compTypeHstate"
    then show "ok r ts (parseComponent0 (createHstate r 0) f t 0 c) (adv ts c)"
      using assms w by (intro parseComponent0_ok [where t = compTypeHstate]) (auto intro: create_signed_creates)
  next
    assume "info t = compNumber compTypeHcache"
    then show "ok r ts (parseComponent0 (createHcache r 0) f t 0 c) (adv ts c)"
      using assms w by (intro parseComponent0_ok [where t = compTypeHcache]) (auto intro: create_signed_creates)
  next
    assume "info t = compNumber compTypeServer"
    then show "ok r ts (parseComponent0 (createServer r 0) f t 0 c) (adv ts c)"
      using assms w by (intro parseComponent0_ok [where t = compTypeServer]) (auto intro: create_signed_creates)
  next
    assume "info t = compNumber compTypeCronjob"
    then show "ok r ts (parseComponent0 (createCronjob r 0) f t 0 c) (adv ts c)"
      using assms w by (intro parseComponent0_ok [where t = compTypeCronjob]) (auto intro: create_signed_creates)
  qed (use assms w in \<open>auto intro: parseRouters_ok parseService_ok parseWebapp_ok\<close>)
qed

lemma typed_createStage: "typed createStage"
  unfolding createStage_def Let_def
  by (intro typed_setters) (auto simp: typed_def propOf_def makeComp_def less_Suc_eq)

lemma newStage_ok:
  assumes "2 * length ts + 1 \<le> f" "tokens c = ts" "index c = 0"
  shows "ok r ts (newStage r f c) (inv ts)"
proof (cases ts)
  case Nil
  then show ?thesis using assms by (simp add: newStage_def currentToken_def idx_def ok_def tame_def)
next
  case (Cons t ts')
  let ?c = "c\<lparr>store := createStage\<rparr>"
  have i: "inv ts ?c" "left ?c = length ts"
    using assms Cons createStage_wf typed_createStage
    by (auto simp: inv_def left_def createStage_def addDict_def updComp_def makeComp_def)
  have "ok r ts (parseStage r f 0 ?c) (inv ts)"
    unfolding parseStage_def
  proof (intro ok_fwdExpect [OF i(1)])
    fix c1 assume 1: "inv ts c1" "left c1 < left ?c" "store c1 = store ?c"
    have "ok r ts (parseBody (parseInStage r 0) f 0 c1) (adv ts c1)"
      using 1 i assms(1) createStage_wf
      by (intro parseBody_ok [where n = "left c1" and cs = "store c1"]) (auto simp: handles_def parseInStage_ok)
    then show "ok r ts (parseBody (parseInStage r 0) f 0 c1) (inv ts)"
      by (rule ok_mono) (simp add: adv_def)
  qed
  then show ?thesis
    using assms Cons by (simp add: newStage_def currentToken_def idx_def)
qed

lemma stageFromTokens_ok:
  "ok r ts (stageFromTokens r ts) (\<lambda>cs. wfComps cs \<and> typed cs)"
  unfolding stageFromTokens_def
  by (intro ok_andThen ok_mono [OF newStage_ok]) (auto simp: enough_def startWith_def inv_def)

subsection \<open>The properties of the parser\<close>

text \<open>C25: The parser always ends: on every token list, whatever the components registered, the calls
  counted by \<open>stageFromTokens\<close> are enough, so the parse returns a stage, an error, an exit or a
  run-time panic.\<close>

theorem newStage_terminates: "stageFromTokens r ts \<noteq> Fail OutOfFuel"
  using stageFromTokens_ok [of r ts] by (auto simp: ok_def)


text \<open>C27: Lexer, registry and parser agree: if the registry is consistent and is the one the lexer
  used, then on the tokens of any text the parser never meets a sign without a creator, and it
  never hits a run-time panic unless the text has no token or its last token is a string or a
  property.\<close>

theorem stage_no_panic:
  assumes "consistent r" "signedComps env = signed r" "scanText env t = Done ts"
  shows "stageFromTokens r ts \<noteq> Fail unknownSign \<and>
    (ts \<noteq> [] \<and> kind (last ts) \<notin> {tokenString, tokenProperty} \<longrightarrow> stageFromTokens r ts \<noteq> Panic)"
proof -
  have wf: "list_all (wfToken env) ts"
    using scanFile_wf scanLoop_wf [of "scanFile 0 env" env] assms(3)
    unfolding scanText_def scan_def by blast
  have "lawful r ts"
    using wf assms(1,2) by (auto simp: lawful_def list_all_iff wfToken_def)
  moreover have "ttext t \<noteq> []" if "t \<in> set ts" "kind t \<in> {tokenInteger, tokenDuration}" for t
    using wf that by (auto simp: list_all_iff wfToken_def isDigits_def)
  ultimately show ?thesis
    using stageFromTokens_ok [of r ts] by (auto simp: ok_def tame_def)
qed

subsection \<open>Numbers\<close>

lemma digit_byte:
  "d < 10 \<Longrightarrow> byteIsDigit (ch CHR ''0'' + of_nat d) \<and> unat ((ch CHR ''0'' + of_nat d :: byte) - ch CHR ''0'') = d"
  by (simp add: byteIsDigit_def word_le_nat_alt unat_word_ariths(1) unat_of_nat)

lemma decimalValue_append:
  "decimalValue acc (xs @ ys) = (case decimalValue acc xs of None \<Rightarrow> None | Some n \<Rightarrow> decimalValue n ys)"
  by (induction acc xs rule: decimalValue.induct) auto

lemma itoa_value: "decimalValue 0 (itoa n) = Some n"
proof (induction n rule: less_induct)
  case (less n)
  show ?case
  proof (cases "n < 10")
    case True
    then show ?thesis using digit_byte [of n] by (subst itoa.simps) simp
  next
    case False
    have "n mod 10 < 10" by simp
    then show ?thesis
      using False less [of "n div 10"] digit_byte [of "n mod 10"]
      by (subst itoa.simps) (simp add: decimalValue_append)
  qed
qed

lemma itoa_digits: "isDigits (itoa n)"
proof (induction n rule: less_induct)
  case (less n)
  show ?case
  proof (cases "n < 10")
    case True
    then show ?thesis using digit_byte [of n] by (subst itoa.simps) (simp add: isDigits_def)
  next
    case False
    have "n mod 10 < 10" by simp
    then show ?thesis
      using False less [of "n div 10"] digit_byte [of "n mod 10"]
      by (subst itoa.simps) (simp add: isDigits_def)
  qed
qed

lemma parseInt_itoa:
  assumes "n < 2 ^ 63"
  shows "parseInt (itoa n) = Some (word_of_nat n)" "sint (word_of_nat n :: int64) = int n"
proof -
  obtain b s where bs: "itoa n = b # s" "byteIsDigit b"
    using itoa_digits [of n] by (cases "itoa n") (auto simp: isDigits_def)
  have "b \<noteq> ch CHR ''-''" "b \<noteq> ch CHR ''+''" using bs(2) by (auto simp: byteIsDigit_def)
  then show "parseInt (itoa n) = Some (word_of_nat n)"
    using assms bs itoa_value [of n] by (simp add: parseInt_def Let_def)
  show "sint (word_of_nat n :: int64) = int n"
    using sint_word_of_int_iff [where 'a = 64 and k = "int n"] assms by simp
qed

lemma parseInteger_itoa:
  assumes "n < 2 ^ 63"
  shows "parseInteger (itoa n) = Done (word_of_nat n)"
    "isSizeUnit u \<Longrightarrow> parseInteger (itoa n @ [u]) = Done (word_of_nat n * sizeUnit u)"
    "isDurationUnit u \<Longrightarrow> parseDuration (itoa n @ [u]) = Done (word_of_nat n * durationUnit u)"
proof -
  have "byteIsDigit (last (itoa n))" "itoa n \<noteq> []"
    using itoa_digits [of n] by (auto simp: isDigits_def list_all_iff)
  then show "parseInteger (itoa n) = Done (word_of_nat n)"
    using parseInt_itoa [OF assms] by (simp add: parseInteger_def)
  show "isSizeUnit u \<Longrightarrow> parseInteger (itoa n @ [u]) = Done (word_of_nat n * sizeUnit u)"
    using parseInt_itoa [OF assms] unit_special by (simp add: parseInteger_def)
  show "isDurationUnit u \<Longrightarrow> parseDuration (itoa n @ [u]) = Done (word_of_nat n * durationUnit u)"
    using parseInt_itoa [OF assms] by (simp add: parseDuration_def)
qed

text \<open>Sizes are exact below the range of \<open>int64\<close> and wrap above it without an error: a size
  written as \<open>n\<close> and a unit is parsed, for every \<open>n\<close> below 2^63, to a number that equals the product
  exactly when the product is below 2^63.\<close>

theorem parseInteger_size:
  assumes "n < 2 ^ 63" "isSizeUnit u"
  shows "\<exists>k. parseInteger (itoa n @ [u]) = Done k \<and>
    (sint k = int n * int (unat (sizeUnit u)) \<longleftrightarrow> n * unat (sizeUnit u) < 2 ^ 63)"
proof -
  define m where "m = n * unat (sizeUnit u)"
  have "word_of_nat n * sizeUnit u = (word_of_nat m :: int64)"
    by (simp add: m_def)
  then have p: "parseInteger (itoa n @ [u]) = Done (word_of_nat m)"
    using parseInteger_itoa(2) [OF assms] by simp
  have "sint (word_of_nat m :: int64) = int m \<longleftrightarrow> m < 2 ^ 63"
  proof
    assume "sint (word_of_nat m :: int64) = int m"
    moreover have "sint (word_of_nat m :: int64) < 2 ^ 63"
      using sint_lt [of "word_of_nat m :: int64"] by simp
    ultimately have "int m < 2 ^ 63" by simp
    then show "m < 2 ^ 63" by simp
  qed (rule parseInt_itoa(2))
  with p show ?thesis by (auto simp: m_def)
qed

theorem parseInteger_size_witness:
  "\<exists>k. parseInteger (itoa 8388608 @ [ch CHR ''T'']) = Done k \<and> sint k \<noteq> 8388608 * 2 ^ 40"
  using parseInteger_size [of 8388608 "ch CHR ''T''"] by (auto simp: isSizeUnit_def sizeUnit_def)

subsection \<open>Reading back a value\<close>

text \<open>
  Literals, and the tokens they are written as: kinds and texts, with a comma after every element
  of a list or dict.
\<close>

datatype literal =
    LBool bool
  | LInt nat
  | LSize nat byte
  | LString bytes
  | LDuration nat byte
  | LVariable bytes
  | LList "literal list"
  | LDict "(bytes \<times> literal) list"

type_synonym shape = "tokenKind \<times> bytes"

primrec shapes :: "literal \<Rightarrow> shape list" where
  "shapes (LBool b) = [(tokenBool, if b then bs ''true'' else bs ''false'')]"
| "shapes (LInt n) = [(tokenInteger, itoa n)]"
| "shapes (LSize n u) = [(tokenInteger, itoa n @ [u])]"
| "shapes (LString s) = [(tokenString, s)]"
| "shapes (LDuration n u) = [(tokenDuration, itoa n @ [u])]"
| "shapes (LVariable x) = [(tokenVariable, x)]"
| "shapes (LList vs) = (tokenLeftParen, bs ''('') #
     concat (map (\<lambda>v. v @ [(tokenComma, bs '','')]) (map shapes vs)) @ [(tokenRightParen, bs '')'')]"
| "shapes (LDict kvs) = (tokenLeftBracket, bs ''['') #
     concat (map (\<lambda>(k, v). (tokenString, k) # (tokenColon, bs '':'') # v @ [(tokenComma, bs '','')])
       (map (map_prod id shapes) kvs)) @ [(tokenRightBracket, bs '']'')]"

primrec literalValue :: "literal \<Rightarrow> confValue" where
  "literalValue (LBool b) = Value (Some tokenBool) 0 [] (BoolData b) []"
| "literalValue (LInt n) = Value (Some tokenInteger) 0 [] (IntData (word_of_nat n)) []"
| "literalValue (LSize n u) = Value (Some tokenInteger) 0 [] (IntData (word_of_nat n * sizeUnit u)) []"
| "literalValue (LString s) = Value (Some tokenString) 0 [] (StringData s) s"
| "literalValue (LDuration n u) = Value (Some tokenDuration) 0 [] (DurationData (word_of_nat n * durationUnit u)) []"
| "literalValue (LVariable x) = Value (Some tokenVariable) (- 1) x NoData []"
| "literalValue (LList vs) = Value (Some tokenList) 0 [] (ListData (map literalValue vs)) []"
| "literalValue (LDict kvs) = Value (Some tokenDict) 0 []
     (DictData (map_of (rev (map (map_prod id literalValue) kvs)))) []"

primrec inRange :: "literal \<Rightarrow> bool" where
  "inRange (LBool b) = True"
| "inRange (LInt n) = (n < 2 ^ 63)"
| "inRange (LSize n u) = (n < 2 ^ 63 \<and> isSizeUnit u)"
| "inRange (LString s) = True"
| "inRange (LDuration n u) = (n < 2 ^ 63 \<and> isDurationUnit u)"
| "inRange (LVariable x) = True"
| "inRange (LList vs) = list_all id (map inRange vs)"
| "inRange (LDict kvs) = list_all snd (map (map_prod id inRange) kvs)"

definition ahead :: "configurator \<Rightarrow> shape list" where
  "ahead c = map (\<lambda>t. (kind t, ttext t)) (drop (index c) (tokens c))"

definition skip :: "nat \<Rightarrow> configurator \<Rightarrow> configurator" where
  "skip n c = c\<lparr>index := index c + n\<rparr>"

lemma skip_skip [simp]: "skip m (skip n c) = skip (n + m) c"
  by (simp add: skip_def add.assoc)

lemma skip_0 [simp]: "skip 0 c = c"
  by (simp add: skip_def)

lemma ahead_skip: "ahead (skip n c) = drop n (ahead c)"
  by (simp add: ahead_def skip_def drop_map add.commute)

lemma ahead_current:
  assumes "ahead c = (k, x) # r"
  shows "index c < length (tokens c)" "kind (tokens c ! index c) = k" "ttext (tokens c ! index c) = x"
    "currentToken c = Done (tokens c ! index c)"
proof -
  show *: "index c < length (tokens c)"
    using assms by (metis ahead_def drop_all list.distinct(1) list.simps(8) not_less)
  then show "kind (tokens c ! index c) = k" "ttext (tokens c ! index c) = x"
    using assms by (auto simp: ahead_def Cons_nth_drop_Suc [symmetric])
  show "currentToken c = Done (tokens c ! index c)"
    using * by (simp add: currentToken_def idx_Some)
qed

lemma ahead_forward:
  assumes "ahead c = s # (k, x) # r"
  shows "\<exists>t. forwardToken c = Done (t, skip 1 c) \<and> kind t = k \<and> ttext t = x"
    "ahead (skip 1 c) = (k, x) # r"
    "\<exists>t. forwardExpectToken k c = Done (t, skip 1 c)"
    "expectToken (fst s) c = Done (tokens c ! index c)"
    "peekTokenIs q c = Done (k = q)"
proof -
  show a: "ahead (skip 1 c) = (k, x) # r" using assms by (simp add: ahead_skip)
  note 1 = ahead_current [OF a]
  have 0: "ahead c = (fst s, snd s) # (k, x) # r" using assms by simp
  note c = ahead_current [OF 0]
  have fw: "forwardCheckEOF c = Done (skip 1 c)"
    using 1(1) by (simp add: forwardCheckEOF_def skip_def)
  then show "\<exists>t. forwardToken c = Done (t, skip 1 c) \<and> kind t = k \<and> ttext t = x"
    using 1 by (simp add: forwardToken_def)
  show "\<exists>t. forwardExpectToken k c = Done (t, skip 1 c)"
    using 1 fw by (simp add: forwardExpectToken_def expectToken_def)
  show "expectToken (fst s) c = Done (tokens c ! index c)"
    using c by (simp add: expectToken_def)
  show "peekTokenIs q c = Done (k = q)"
    using 1 c by (auto simp: peekTokenIs_def skip_def idx_Some)
qed

definition readsBack :: "nat \<Rightarrow> bytes \<Rightarrow> literal \<Rightarrow> bool" where
  "readsBack cp prop v \<longleftrightarrow> (\<forall>f c nxt r. ahead c = shapes v @ nxt # r \<longrightarrow> fst nxt \<noteq> tokenPlus \<longrightarrow>
     2 * length (shapes v) \<le> f \<longrightarrow>
     parseValue f cp prop c = Done (literalValue v, skip (length (shapes v) - 1) c))"

lemma simple_readsBack:
  assumes "shapes v = [(k, x)]"
    "\<And>f c. kind (tokens c ! index c) = k \<Longrightarrow> ttext (tokens c ! index c) = x \<Longrightarrow>
      valueSwitch (parseListFrom f cp prop []) (parseDictFrom f cp prop Map.empty) cp prop (tokens c ! index c) c =
      Done (literalValue v, c)"
  shows "readsBack cp prop v"
  unfolding readsBack_def
proof (intro allI impI)
  fix f c nxt r
  assume a: "ahead c = shapes v @ nxt # r" and p: "fst nxt \<noteq> tokenPlus" and f: "2 * length (shapes v) \<le> f"
  obtain f' where f': "f = Suc (Suc f')" using f assms(1) by (cases f; cases "f - 1") auto
  have a': "ahead c = (k, x) # (fst nxt, snd nxt) # r" using a assms(1) by simp
  note c = ahead_current [OF a'] and peek = ahead_forward(5) [OF a', of tokenPlus]
  show "parseValue f cp prop c = Done (literalValue v, skip (length (shapes v) - 1) c)"
    using assms(2) [OF c(2,3), of "Suc f'"] p peek c(4) assms(1)
    by (simp add: f' valueBody_def concatBody_def)
qed

lemma list_reads:
  assumes "\<And>v. v \<in> set vs \<Longrightarrow> readsBack cp prop v"
  shows "ahead c = s # concat (map (\<lambda>v. shapes v @ [(tokenComma, x)]) vs) @ (tokenRightParen, y) # r \<Longrightarrow>
    2 * length (concat (map (\<lambda>v. shapes v @ [(tokenComma, x)]) vs)) + 1 \<le> f \<Longrightarrow>
    parseListFrom f cp prop l c = Done (l @ map literalValue vs,
      skip (length (concat (map (\<lambda>v. shapes v @ [(tokenComma, x)]) vs)) + 1) c)"
  using assms
proof (induction vs arbitrary: c f l s)
  case Nil
  then obtain f' where f: "f = Suc f'" by (cases f) auto
  have "ahead c = s # (tokenRightParen, y) # r" using Nil by simp
  then show ?case using ahead_forward(1) [of c s tokenRightParen y r] by (auto simp: f listBody_def)
next
  case (Cons v vs)
  let ?rest = "concat (map (\<lambda>v. shapes v @ [(tokenComma, x)]) vs) @ (tokenRightParen, y) # r"
  obtain f' where f: "f = Suc f'" using Cons.prems(2) by (cases f) auto
  obtain k z sh where sh: "shapes v = (k, z) # sh" by (cases v) auto
  have nk: "k \<noteq> tokenRightParen" using sh by (cases v) auto
  have a: "ahead c = s # (k, z) # sh @ (tokenComma, x) # ?rest" using Cons.prems(1) sh by simp
  obtain t where t: "forwardToken c = Done (t, skip 1 c)" "kind t = k" using ahead_forward(1) [OF a] by auto
  have a1: "ahead (skip 1 c) = shapes v @ (tokenComma, x) # ?rest"
    using ahead_forward(2) [OF a] sh by simp
  have v: "parseValue f' cp prop (skip 1 c) = Done (literalValue v, skip (length sh + 1) c)"
  proof -
    have "readsBack cp prop v" using Cons.prems(3) by simp
    moreover have "2 * length (shapes v) \<le> f'" using Cons.prems(2) by (simp add: f)
    ultimately show ?thesis
      using a1 unfolding readsBack_def by (simp add: sh)
  qed
  obtain s2 where a2: "ahead (skip (length sh + 1) c) = s2 # (tokenComma, x) # ?rest"
  proof -
    have "ahead (skip (length sh + 1) c) = drop (length sh) ((k, z) # sh @ (tokenComma, x) # ?rest)"
      using a by (simp add: ahead_skip)
    also have "\<dots> = last ((k, z) # sh) # (tokenComma, x) # ?rest"
      by (cases sh rule: rev_cases) auto
    finally show thesis by (rule that)
  qed
  obtain t2 where t2: "forwardToken (skip (length sh + 1) c) = Done (t2, skip (length sh + 2) c)" "kind t2 = tokenComma"
    using ahead_forward(1) [OF a2] by auto
  have a3: "ahead (skip (length sh + 2) c) = (tokenComma, x) # ?rest"
    using ahead_forward(2) [OF a2] by simp
  have "parseListFrom f' cp prop (l @ [literalValue v]) (skip (length sh + 2) c) =
      Done ((l @ [literalValue v]) @ map literalValue vs,
        skip (length (concat (map (\<lambda>v. shapes v @ [(tokenComma, x)]) vs)) + 1) (skip (length sh + 2) c))"
    using Cons.prems(2,3) by (intro Cons.IH [OF a3]) (auto simp: f sh)
  then show ?case
    by (simp add: f listBody_def t nk v [simplified] t2 [simplified] sh)
qed

lemma dict_reads:
  assumes "\<And>k v. (k, v) \<in> set kvs \<Longrightarrow> readsBack cp prop v"
    and entry_def: "entry = (\<lambda>(k, v). (tokenString, k) # (tokenColon, w) # shapes v @ [(tokenComma, x)])"
  shows "ahead c = s # concat (map entry kvs) @ (tokenRightBracket, y) # r \<Longrightarrow>
    2 * length (concat (map entry kvs)) + 1 \<le> f \<Longrightarrow>
    parseDictFrom f cp prop d c = Done (d ++ map_of (rev (map (map_prod id literalValue) kvs)),
      skip (length (concat (map entry kvs)) + 1) c)"
  using assms(1)
proof (induction kvs arbitrary: c f d s)
  case Nil
  then obtain f' where f: "f = Suc f'" by (cases f) auto
  have "ahead c = s # (tokenRightBracket, y) # r" using Nil by simp
  then show ?case using ahead_forward(1) [of c s tokenRightBracket y r] by (auto simp: f dictBody_def)
next
  case (Cons kv kvs)
  obtain key v where kv: "kv = (key, v)" by (cases kv)
  let ?rest = "concat (map entry kvs) @ (tokenRightBracket, y) # r"
  obtain f' where f: "f = Suc f'" using Cons.prems(2) by (cases f) auto
  obtain k z sh where sh: "shapes v = (k, z) # sh" by (cases v) auto
  have a: "ahead c = s # (tokenString, key) # (tokenColon, w) # (k, z) # sh @ (tokenComma, x) # ?rest"
    using Cons.prems(1) sh kv by (simp add: entry_def)
  obtain t where t: "forwardToken c = Done (t, skip 1 c)" "kind t = tokenString"
    using ahead_forward(1) [OF a] by auto
  note a1 = ahead_forward(2) [OF a]
  have e: "expectToken tokenString (skip 1 c) = Done (tokens (skip 1 c) ! index (skip 1 c))"
    "ttext (tokens (skip 1 c) ! index (skip 1 c)) = key"
    using ahead_forward(4) [OF a1] ahead_current [OF a1] by auto
  obtain t2 where t2: "forwardExpectToken tokenColon (skip 1 c) = Done (t2, skip 2 c)"
    using ahead_forward(3) [OF a1] by (auto simp: numeral_2_eq_2)
  have a2: "ahead (skip 2 c) = (tokenColon, w) # (k, z) # sh @ (tokenComma, x) # ?rest"
    using ahead_forward(2) [OF a1] by (simp add: numeral_2_eq_2)
  obtain t3 where t3: "forwardToken (skip 2 c) = Done (t3, skip 3 c)"
    using ahead_forward(1) [OF a2] by (auto simp: numeral_3_eq_3)
  have a3: "ahead (skip 3 c) = shapes v @ (tokenComma, x) # ?rest"
    using ahead_forward(2) [OF a2] sh by (simp add: numeral_3_eq_3)
  have v: "parseValue f' cp prop (skip 3 c) = Done (literalValue v, skip (3 + length sh) c)"
  proof -
    have "readsBack cp prop v" by (rule Cons.prems(3) [of key]) (simp add: kv)
    moreover have "2 * length (shapes v) \<le> f'" using Cons.prems(2) by (simp add: f kv entry_def)
    ultimately show ?thesis
      using a3 unfolding readsBack_def by (simp add: sh)
  qed
  obtain s2 where a4: "ahead (skip (3 + length sh) c) = s2 # (tokenComma, x) # ?rest"
  proof -
    have "ahead (skip (3 + length sh) c) = drop (length sh) (ahead (skip 3 c))"
      by (simp add: ahead_skip add.commute)
    also have "\<dots> = last ((k, z) # sh) # (tokenComma, x) # ?rest"
      unfolding a3 sh by (cases sh rule: rev_cases) auto
    finally show thesis by (rule that)
  qed
  obtain t4 where t4: "forwardToken (skip (3 + length sh) c) = Done (t4, skip (4 + length sh) c)" "kind t4 = tokenComma"
    using ahead_forward(1) [OF a4] by (auto simp: add.commute)
  have a5: "ahead (skip (4 + length sh) c) = (tokenComma, x) # ?rest"
    using ahead_forward(2) [OF a4] by (simp add: add.commute)
  have ne: "kind t \<noteq> tokenRightBracket" "kind t4 \<noteq> tokenRightBracket" "\<not> kind t4 \<noteq> tokenComma"
    using t(2) t4(2) by simp_all
  have len: "length (concat (map entry (kv # kvs))) = length (concat (map entry kvs)) + (4 + length sh)"
    by (simp add: kv entry_def sh)
  have "parseDictFrom f cp prop d c = parseDictFrom f' cp prop (d(key \<mapsto> literalValue v)) (skip (4 + length sh) c)"
    unfolding f parseDictFrom.simps dictBody_def t(1) andThen.simps prod.case e(1) t2 t3 v t4(1) e(2)
      if_not_P [OF ne(1)] if_not_P [OF ne(2)] if_not_P [OF ne(3)] ..
  also have "\<dots> = Done (d(key \<mapsto> literalValue v) ++ map_of (rev (map (map_prod id literalValue) kvs)),
        skip (length (concat (map entry kvs)) + 1) (skip (4 + length sh) c))"
    using Cons.prems(2,3) len kv by (intro Cons.IH [OF a5]) (auto simp: f)
  also have "d(key \<mapsto> literalValue v) ++ map_of (rev (map (map_prod id literalValue) kvs)) =
      d ++ map_of (rev (map (map_prod id literalValue) (kv # kvs)))"
    by (simp add: kv map_add_def fun_eq_iff split: option.splits)
  also have "skip (length (concat (map entry kvs)) + 1) (skip (4 + length sh) c) =
      skip (length (concat (map entry (kv # kvs))) + 1) c"
    unfolding len skip_skip by (simp add: algebra_simps)
  finally show ?case .
qed


subsection \<open>Examples\<close>

definition tok :: "tokenKind \<Rightarrow> bytes \<Rightarrow> token" where
  "tok k x = \<lparr>kind = k, info = 0, line = 1, tfile = [], ttext = x\<rparr>"


definition demoTokens :: "token list" where
  "demoTokens =
     [\<lparr>kind = tokenComponent, info = 1, line = 1, tfile = [], ttext = bs ''stage''\<rparr>,
      \<lparr>kind = tokenLeftBrace, info = 0, line = 1, tfile = [], ttext = bs ''{''\<rparr>,
      \<lparr>kind = tokenProperty, info = 0, line = 1, tfile = [], ttext = bs ''a''\<rparr>,
      \<lparr>kind = tokenEqual, info = 0, line = 1, tfile = [], ttext = bs ''=''\<rparr>,
      \<lparr>kind = tokenString, info = 0, line = 1, tfile = [], ttext = bs ''/opt''\<rparr>,
      \<lparr>kind = tokenRightBrace, info = 0, line = 1, tfile = [], ttext = bs ''}''\<rparr>]"

fun resultOf :: "(configError, comps) outcome \<Rightarrow> nat option" where
  "resultOf (Done cs) = Some (length cs)"
| "resultOf r = None"

lemma demo_parses: "resultOf (stageFromTokens emptyRegistry demoTokens) = Some 4"
  by code_simp


theorem stage_no_panic_witness:
  "stageFromTokens emptyRegistry demoTokens \<noteq> Fail unknownSign \<and>
   stageFromTokens emptyRegistry demoTokens \<noteq> Panic"
proof -
  have "signedComps demoEnv = signed emptyRegistry"
    by (simp add: demoEnv_def emptyRegistry_def)
  then show ?thesis
    using stage_no_panic [OF emptyRegistry_consistent _ demo_stage [folded demoTokens_def]]
    by (simp add: demoTokens_def)
qed

text \<open>A text that ends with a property or with a string value makes \<open>nextTokenIs\<close> read past the end.\<close>

fun errorOf :: "comps recovered \<Rightarrow> configError option option" where
  "errorOf (Errored e) = Some e"
| "errorOf r = None"

lemma peek_past_end:
  "errorOf (stageFromText demoEnv emptyRegistry (bs ''stage{.a'')) = Some None"
  "errorOf (stageFromText demoEnv emptyRegistry (bs ''stage{.a=%topDir'')) = Some None"
  "errorOf (stageFromText demoEnv emptyRegistry (bs ''stage{.a='')) = Some (Some (ParseError ''unexpected EOF''))"
  by code_simp+

text \<open>Rules are created under a number drawn from the counter, and a rule may be named like a number
  still to come.\<close>

fun exitOf :: "comps recovered \<Rightarrow> exitCode option" where
  "exitOf (Exited code) = Some code"
| "exitOf r = None"

lemma rule_number_clash:
  "exitOf (stageFromText demoEnv emptyRegistry (bs ''stage{webapp`w`{rule`2`{}rule{}}}'')) = Some CodeUse"
  "exitOf (stageFromText demoEnv emptyRegistry (bs ''stage{webapp`w`{rule`x`{}rule{}}}'')) = None"
  by code_simp+

end
