(* ===== verification/Routing.thy ===== *)
theory Routing
  imports Configurator
begin

text \<open>
  Routing of connections (\<open>hemi/net.go\<close>, \<open>hemi/net_quix_router.go\<close>, \<open>hemi/net_tcpx_router.go\<close>,
  \<open>hemi/net_udpx_router.go\<close>) and the matching functions of \<open>hemi/mix.go\<close>.

  A case is configured from the condition the configurator stored in its component
  (\<open>caseOnConfigure\<close>), is asked whether it matches a connection, and hands a matching connection to
  its dealets in order.  A connection is a value of any type; the dealets are components of their
  own and enter as the argument \<open>deal\<close>, and \<open>regexp.Compile\<close> as the argument \<open>compile\<close>, a compiled
  expression being the set of values it matches.

  The lemmas say what the matchers compute and which entry of a first-match loop handles
  (\<open>firstMatch_Some_iff\<close>); the locale \<open>declining\<close> is the contract of dealets, chains of dealets and
  cases: whoever declines leaves the connection as it found it.
\<close>

named_theorems match_simps \<open>what the matchers compute\<close>

subsection \<open>Matching a value against patterns\<close>

text \<open>\<open>bytes.HasSuffix\<close> and \<open>bytes.Contains\<close>; a compiled regular expression is what it matches.\<close>

definition hasSuffix :: "bytes \<Rightarrow> bytes \<Rightarrow> bool" where
  "hasSuffix v p \<longleftrightarrow> length p \<le> length v \<and> drop (length v - length p) v = p"

fun containsBytes :: "bytes \<Rightarrow> bytes \<Rightarrow> bool" where
  "containsBytes [] p \<longleftrightarrow> p = []"
| "containsBytes (b # v) p \<longleftrightarrow> hasPrefix (b # v) p \<or> containsBytes v p"

type_synonym regexp = "bytes \<Rightarrow> bool"

primrec equalMatch :: "bytes \<Rightarrow> bytes list \<Rightarrow> bool" where
  "equalMatch v [] = False"
| "equalMatch v (p # ps) = (if v = p then True else equalMatch v ps)"

primrec prefixMatch :: "bytes \<Rightarrow> bytes list \<Rightarrow> bool" where
  "prefixMatch v [] = False"
| "prefixMatch v (p # ps) = (if hasPrefix v p then True else prefixMatch v ps)"

primrec suffixMatch :: "bytes \<Rightarrow> bytes list \<Rightarrow> bool" where
  "suffixMatch v [] = False"
| "suffixMatch v (p # ps) = (if hasSuffix v p then True else suffixMatch v ps)"

primrec containMatch :: "bytes \<Rightarrow> bytes list \<Rightarrow> bool" where
  "containMatch v [] = False"
| "containMatch v (p # ps) = (if containsBytes v p then True else containMatch v ps)"

primrec regexpMatch :: "bytes \<Rightarrow> regexp list \<Rightarrow> bool" where
  "regexpMatch v [] = False"
| "regexpMatch v (re # res) = (if re v then True else regexpMatch v res)"

primrec notEqualMatch :: "bytes \<Rightarrow> bytes list \<Rightarrow> bool" where
  "notEqualMatch v [] = True"
| "notEqualMatch v (p # ps) = (if v = p then False else notEqualMatch v ps)"

primrec notPrefixMatch :: "bytes \<Rightarrow> bytes list \<Rightarrow> bool" where
  "notPrefixMatch v [] = True"
| "notPrefixMatch v (p # ps) = (if hasPrefix v p then False else notPrefixMatch v ps)"

primrec notSuffixMatch :: "bytes \<Rightarrow> bytes list \<Rightarrow> bool" where
  "notSuffixMatch v [] = True"
| "notSuffixMatch v (p # ps) = (if hasSuffix v p then False else notSuffixMatch v ps)"

primrec notContainMatch :: "bytes \<Rightarrow> bytes list \<Rightarrow> bool" where
  "notContainMatch v [] = True"
| "notContainMatch v (p # ps) = (if containsBytes v p then False else notContainMatch v ps)"

primrec notRegexpMatch :: "bytes \<Rightarrow> regexp list \<Rightarrow> bool" where
  "notRegexpMatch v [] = True"
| "notRegexpMatch v (re # res) = (if re v then False else notRegexpMatch v res)"

lemma matches_ex [match_simps]:
  "equalMatch v ps \<longleftrightarrow> (\<exists>p \<in> set ps. v = p)"
  "prefixMatch v ps \<longleftrightarrow> (\<exists>p \<in> set ps. hasPrefix v p)"
  "suffixMatch v ps \<longleftrightarrow> (\<exists>p \<in> set ps. hasSuffix v p)"
  "containMatch v ps \<longleftrightarrow> (\<exists>p \<in> set ps. containsBytes v p)"
  by (induct ps; simp)+

lemma regexpMatch_ex [match_simps]: "regexpMatch v res \<longleftrightarrow> (\<exists>re \<in> set res. re v)"
  by (induct res) simp_all

lemma not_matches [match_simps]:
  "notEqualMatch v ps \<longleftrightarrow> \<not> equalMatch v ps"
  "notPrefixMatch v ps \<longleftrightarrow> \<not> prefixMatch v ps"
  "notSuffixMatch v ps \<longleftrightarrow> \<not> suffixMatch v ps"
  "notContainMatch v ps \<longleftrightarrow> \<not> containMatch v ps"
  by (induct ps; simp)+

lemma notRegexpMatch_not [match_simps]: "notRegexpMatch v res \<longleftrightarrow> \<not> regexpMatch v res"
  by (induct res) simp_all

lemma hasPrefix_iff: "hasPrefix v p \<longleftrightarrow> (\<exists>w. v = p @ w)"
proof
  assume "hasPrefix v p"
  then have "v = p @ drop (length p) v"
    by (metis append_take_drop_id hasPrefix_def)
  then show "\<exists>w. v = p @ w" ..
qed (auto simp: hasPrefix_def)

lemma hasSuffix_iff: "hasSuffix v p \<longleftrightarrow> (\<exists>u. v = u @ p)"
proof
  assume "hasSuffix v p"
  then have "v = take (length v - length p) v @ p"
    by (metis append_take_drop_id hasSuffix_def)
  then show "\<exists>u. v = u @ p" ..
qed (auto simp: hasSuffix_def)

lemma containsBytes_iff: "containsBytes v p \<longleftrightarrow> (\<exists>u w. v = u @ p @ w)"
proof (induction v)
  case (Cons b v)
  show ?case
    by (auto simp: Cons.IH hasPrefix_iff Cons_eq_append_conv)
qed simp

subsection \<open>Cases of a router\<close>

text \<open>
  A \<open>matcher\<close> method looks at the patterns or the compiled expressions of its case only.  A field
  that holds a function may be nil.
\<close>

type_synonym matcher = "bytes list \<Rightarrow> regexp list \<Rightarrow> bytes \<Rightarrow> bool"

record routerCase =
  general :: bool
  caseVar :: int
  caseVarName :: bytes
  casePatterns :: "bytes list"
  caseRegexps :: "regexp list"
  caseMatcher :: "matcher option"
  caseDealets :: "nat list"

definition newCase :: "nat list \<Rightarrow> routerCase" where
  "newCase ds = \<lparr>general = False, caseVar = 0, caseVarName = [], casePatterns = [], caseRegexps = [],
     caseMatcher = None, caseDealets = ds\<rparr>"

text \<open>The tables of matchers with the methods they hold; each kind of case has its own copy.\<close>

definition tcpxCaseMatchers :: "bytes \<rightharpoonup> matcher" where
  "tcpxCaseMatchers = map_of
    [(bs ''=='', \<lambda>ps _ v. equalMatch v ps),
     (bs ''^='', \<lambda>ps _ v. prefixMatch v ps),
     (bs ''$='', \<lambda>ps _ v. suffixMatch v ps),
     (bs ''*='', \<lambda>ps _ v. containMatch v ps),
     (bs ''~='', \<lambda>_ res v. regexpMatch v res),
     (bs ''!='', \<lambda>ps _ v. notEqualMatch v ps),
     (bs ''!^'', \<lambda>ps _ v. notPrefixMatch v ps),
     (bs ''!$'', \<lambda>ps _ v. notSuffixMatch v ps),
     (bs ''!*'', \<lambda>ps _ v. notContainMatch v ps),
     (bs ''!~'', \<lambda>_ res v. notRegexpMatch v res)]"

definition quixCaseMatchers :: "bytes \<rightharpoonup> matcher" where
  "quixCaseMatchers = map_of
    [(bs ''=='', \<lambda>ps _ v. equalMatch v ps),
     (bs ''^='', \<lambda>ps _ v. prefixMatch v ps),
     (bs ''$='', \<lambda>ps _ v. suffixMatch v ps),
     (bs ''*='', \<lambda>ps _ v. containMatch v ps),
     (bs ''~='', \<lambda>_ res v. regexpMatch v res),
     (bs ''!='', \<lambda>ps _ v. notEqualMatch v ps),
     (bs ''!^'', \<lambda>ps _ v. notPrefixMatch v ps),
     (bs ''!$'', \<lambda>ps _ v. notSuffixMatch v ps),
     (bs ''!*'', \<lambda>ps _ v. notContainMatch v ps),
     (bs ''!~'', \<lambda>_ res v. notRegexpMatch v res)]"

definition udpxCaseMatchers :: "bytes \<rightharpoonup> matcher" where
  "udpxCaseMatchers = map_of
    [(bs ''=='', \<lambda>ps _ v. equalMatch v ps),
     (bs ''^='', \<lambda>ps _ v. prefixMatch v ps),
     (bs ''$='', \<lambda>ps _ v. suffixMatch v ps),
     (bs ''*='', \<lambda>ps _ v. containMatch v ps),
     (bs ''~='', \<lambda>_ res v. regexpMatch v res),
     (bs ''!='', \<lambda>ps _ v. notEqualMatch v ps),
     (bs ''!^'', \<lambda>ps _ v. notPrefixMatch v ps),
     (bs ''!$'', \<lambda>ps _ v. notSuffixMatch v ps),
     (bs ''!*'', \<lambda>ps _ v. notContainMatch v ps),
     (bs ''!~'', \<lambda>_ res v. notRegexpMatch v res)]"

lemma case_tables [match_simps]:
  "quixCaseMatchers = tcpxCaseMatchers" "udpxCaseMatchers = tcpxCaseMatchers"
  by (simp_all only: quixCaseMatchers_def tcpxCaseMatchers_def udpxCaseMatchers_def)

text \<open>
  \<open>OnConfigure\<close>: the patterns of the condition, compiled when the operator is a regular one.
  \<open>compile\<close> stands for \<open>regexp.Compile\<close>.
\<close>

primrec addPatterns ::
  "(bytes \<Rightarrow> regexp option) \<Rightarrow> bool \<Rightarrow> bytes list \<Rightarrow> bytes list \<times> regexp list \<Rightarrow>
   (configError, bytes list \<times> regexp list) outcome" where
  "addPatterns compile isRegexp [] acc = Done acc"
| "addPatterns compile isRegexp (pattern # rest) acc =
    (if pattern = [] then Fail (Exit CodeUse ''empty cond pattern'')
     else if \<not> isRegexp then addPatterns compile isRegexp rest (fst acc @ [pattern], snd acc)
     else case compile pattern of
         Some exp \<Rightarrow> addPatterns compile isRegexp rest (fst acc, snd acc @ [exp])
       | None \<Rightarrow> Fail (Exit CodeUse ''bad regexp''))"

definition isRegexpCompare :: "bytes \<Rightarrow> bool" where
  "isRegexpCompare op \<longleftrightarrow> op = bs ''~='' \<or> op = bs ''!~''"

text \<open>The assertion \<open>info.(caseCond)\<close> panics on the condition of a rule.\<close>

definition caseOnConfigure ::
  "(bytes \<rightharpoonup> matcher) \<Rightarrow> (bytes \<Rightarrow> regexp option) \<Rightarrow> compInfo option \<Rightarrow> routerCase \<Rightarrow> (configError, routerCase) outcome" where
  "caseOnConfigure matchers compile cond k =
    (case cond of
       None \<Rightarrow> Done (k\<lparr>general := True\<rparr>)
     | Some (RuleCond _) \<Rightarrow> Panic
     | Some (CaseCond c) \<Rightarrow>
         andThen (addPatterns compile (isRegexpCompare (compare c)) (patterns c) (casePatterns k, caseRegexps k)) (\<lambda>(ps, res).
         case matchers (compare c) of
           None \<Rightarrow> Fail (Exit CodeUse ''unknown compare in case condition'')
         | Some m \<Rightarrow> Done (k\<lparr>caseVar := varCode c, caseVarName := varName c, casePatterns := ps,
                            caseRegexps := res, caseMatcher := Some m\<rparr>)))"

definition quixCase_OnConfigure :: "(bytes \<Rightarrow> regexp option) \<Rightarrow> compInfo option \<Rightarrow> routerCase \<Rightarrow> (configError, routerCase) outcome" where
  "quixCase_OnConfigure = caseOnConfigure quixCaseMatchers"

definition tcpxCase_OnConfigure :: "(bytes \<Rightarrow> regexp option) \<Rightarrow> compInfo option \<Rightarrow> routerCase \<Rightarrow> (configError, routerCase) outcome" where
  "tcpxCase_OnConfigure = caseOnConfigure tcpxCaseMatchers"

definition udpxCase_OnConfigure :: "(bytes \<Rightarrow> regexp option) \<Rightarrow> compInfo option \<Rightarrow> routerCase \<Rightarrow> (configError, routerCase) outcome" where
  "udpxCase_OnConfigure = caseOnConfigure udpxCaseMatchers"

subsection \<open>Variables of a connection\<close>

text \<open>The tables of the three kinds of connection hold nil functions only.\<close>

definition quixConnVariables :: "('c \<Rightarrow> bytes) option list" where
  "quixConnVariables = [None, None, None, None]"

definition tcpxConnVariables :: "('c \<Rightarrow> bytes) option list" where
  "tcpxConnVariables = [None, None, None, None, None, None]"

definition udpxConnVariables :: "('c \<Rightarrow> bytes) option list" where
  "udpxConnVariables = [None, None, None]"

text \<open>\<open>riskyVariable\<close>: an index out of range and a call of nil panic.\<close>

definition riskyVariable :: "('c \<Rightarrow> bytes) option list \<Rightarrow> int \<Rightarrow> 'c \<Rightarrow> (configError, bytes) outcome" where
  "riskyVariable table code conn =
    (if code < 0 then Panic
     else andThen (checked (idx table (nat code))) (\<lambda>f. andThen (checked f) (\<lambda>f. Done (f conn))))"

definition caseIsMatch :: "('c \<Rightarrow> bytes) option list \<Rightarrow> routerCase \<Rightarrow> 'c \<Rightarrow> (configError, bool) outcome" where
  "caseIsMatch table k conn =
    (if general k then Done True
     else andThen (riskyVariable table (caseVar k) conn) (\<lambda>v.
          andThen (checked (caseMatcher k)) (\<lambda>m. Done (m (casePatterns k) (caseRegexps k) v))))"

definition quixCase_isMatch :: "routerCase \<Rightarrow> 'c \<Rightarrow> (configError, bool) outcome" where
  "quixCase_isMatch = caseIsMatch quixConnVariables"

definition tcpxCase_isMatch :: "routerCase \<Rightarrow> 'c \<Rightarrow> (configError, bool) outcome" where
  "tcpxCase_isMatch = caseIsMatch tcpxConnVariables"

definition udpxCase_isMatch :: "routerCase \<Rightarrow> 'c \<Rightarrow> (configError, bool) outcome" where
  "udpxCase_isMatch = caseIsMatch udpxConnVariables"

text \<open>Dealets are components; \<open>deal d\<close> is the \<open>DealWith\<close> of the dealet at address \<open>d\<close>.\<close>

primrec dealLoop :: "('d \<Rightarrow> 'c \<Rightarrow> bool \<times> 'c) \<Rightarrow> 'd list \<Rightarrow> 'c \<Rightarrow> bool \<times> 'c" where
  "dealLoop deal [] conn = (False, conn)"
| "dealLoop deal (d # ds) conn =
    (let (dealt, conn) = deal d conn in if dealt then (True, conn) else dealLoop deal ds conn)"

definition quixCase_execute :: "(nat \<Rightarrow> 'c \<Rightarrow> bool \<times> 'c) \<Rightarrow> routerCase \<Rightarrow> 'c \<Rightarrow> bool \<times> 'c" where
  "quixCase_execute deal k conn = (False, conn)"

definition tcpxCase_execute :: "(nat \<Rightarrow> 'c \<Rightarrow> bool \<times> 'c) \<Rightarrow> routerCase \<Rightarrow> 'c \<Rightarrow> bool \<times> 'c" where
  "tcpxCase_execute deal k conn = dealLoop deal (caseDealets k) conn"

definition udpxCase_execute :: "(nat \<Rightarrow> 'c \<Rightarrow> bool \<times> 'c) \<Rightarrow> routerCase \<Rightarrow> 'c \<Rightarrow> bool \<times> 'c" where
  "udpxCase_execute deal k conn = dealLoop deal (caseDealets k) conn"

subsection \<open>First match\<close>

text \<open>
  The loop of \<open>serveConn\<close>, \<open>dispatchExchan\<close> and \<open>dispatchSocket\<close>: the entries are tried in order;
  one that matches is executed, and the first that reports success ends the loop.
\<close>

primrec firstMatch ::
  "('k \<Rightarrow> 's \<Rightarrow> (configError, bool \<times> 's) outcome) \<Rightarrow> ('k \<Rightarrow> 's \<Rightarrow> (configError, bool \<times> 's) outcome) \<Rightarrow>
   'k list \<Rightarrow> 's \<Rightarrow> (configError, 'k option \<times> 's) outcome" where
  "firstMatch isMatch execute [] s = Done (None, s)"
| "firstMatch isMatch execute (k # ks) s =
    andThen (isMatch k s) (\<lambda>(matched, s).
    if \<not> matched then firstMatch isMatch execute ks s
    else andThen (execute k s) (\<lambda>(handled, s).
      if handled then Done (Some k, s) else firstMatch isMatch execute ks s))"

definition serveConn ::
  "(routerCase \<Rightarrow> 'c \<Rightarrow> (configError, bool) outcome) \<Rightarrow> (routerCase \<Rightarrow> 'c \<Rightarrow> bool \<times> 'c) \<Rightarrow>
   routerCase list \<Rightarrow> 'c \<Rightarrow> (configError, routerCase option \<times> 'c) outcome" where
  "serveConn isMatch execute =
    firstMatch (\<lambda>k conn. andThen (isMatch k conn) (\<lambda>m. Done (m, conn))) (\<lambda>k conn. Done (execute k conn))"

definition quix_serveConn :: "(nat \<Rightarrow> 'c \<Rightarrow> bool \<times> 'c) \<Rightarrow> routerCase list \<Rightarrow> 'c \<Rightarrow> (configError, routerCase option \<times> 'c) outcome" where
  "quix_serveConn deal = serveConn quixCase_isMatch (quixCase_execute deal)"

definition tcpx_serveConn :: "(nat \<Rightarrow> 'c \<Rightarrow> bool \<times> 'c) \<Rightarrow> routerCase list \<Rightarrow> 'c \<Rightarrow> (configError, routerCase option \<times> 'c) outcome" where
  "tcpx_serveConn deal = serveConn tcpxCase_isMatch (tcpxCase_execute deal)"

definition udpx_serveConn :: "(nat \<Rightarrow> 'c \<Rightarrow> bool \<times> 'c) \<Rightarrow> routerCase list \<Rightarrow> 'c \<Rightarrow> (configError, routerCase option \<times> 'c) outcome" where
  "udpx_serveConn deal = serveConn udpxCase_isMatch (udpxCase_execute deal)"

text \<open>The cases of a router, in the order of the configuration, configured one by one.\<close>

primrec configureCases ::
  "(compInfo option \<Rightarrow> routerCase \<Rightarrow> (configError, routerCase) outcome) \<Rightarrow> compType \<Rightarrow> comps \<Rightarrow> nat list \<Rightarrow> (configError, routerCase list) outcome" where
  "configureCases configure dealetType cs [] = Done []"
| "configureCases configure dealetType cs (a # as) =
    andThen (configure (cinfo (cs ! a)) (newCase (members (cs ! a) dealetType))) (\<lambda>k.
    andThen (configureCases configure dealetType cs as) (\<lambda>ks. Done (k # ks)))"

subsection \<open>Which entry handles\<close>

lemma firstMatch_append:
  "firstMatch m e (ks @ ls) s =
    andThen (firstMatch m e ks s) (\<lambda>(by, s). if by = None then firstMatch m e ls s else Done (by, s))"
proof (induction ks arbitrary: s)
  case (Cons k ks)
  show ?case
    by (auto simp: Cons.IH andThen_assoc split_def intro!: andThen_cong)
qed simp

lemma firstMatch_Some_iff:
  "firstMatch m e ks s = Done (Some k, s') \<longleftrightarrow>
    (\<exists>pre post s1 s2. ks = pre @ k # post \<and> firstMatch m e pre s = Done (None, s1) \<and>
       m k s1 = Done (True, s2) \<and> e k s2 = Done (True, s'))" (is "?l = ?r")
proof
  show "?r \<Longrightarrow> ?l"
    by (auto simp: firstMatch_append)
  show "?l \<Longrightarrow> ?r"
  proof (induction ks arbitrary: s)
    case (Cons x ks)
    obtain b s1 where m: "m x s = Done (b, s1)"
      using Cons.prems by (auto simp: andThen_Done_iff)
    show ?case
    proof (cases b)
      case False
      with Cons.prems m have "firstMatch m e ks s1 = Done (Some k, s')"
        by simp
      from Cons.IH [OF this] obtain pre post t1 t2 where
        "ks = pre @ k # post" "firstMatch m e pre s1 = Done (None, t1)" "m k t1 = Done (True, t2)"
        "e k t2 = Done (True, s')"
        by blast
      with m False have "x # ks = (x # pre) @ k # post" "firstMatch m e (x # pre) s = Done (None, t1)"
        by simp_all
      with \<open>m k t1 = Done (True, t2)\<close> \<open>e k t2 = Done (True, s')\<close> show ?thesis
        by blast
    next
      case True
      obtain h s2 where e: "e x s1 = Done (h, s2)"
        using Cons.prems m True by (auto simp: andThen_Done_iff)
      show ?thesis
      proof (cases h)
        case True
        with Cons.prems m e \<open>b\<close> have "x = k" "m k s = Done (True, s1)" "e k s1 = Done (True, s')"
          "x # ks = [] @ k # ks" "firstMatch m e [] s = Done (None, s)"
          by auto
        then show ?thesis
          by blast
      next
        case False
        with Cons.prems m e \<open>b\<close> have "firstMatch m e ks s2 = Done (Some k, s')"
          by simp
        from Cons.IH [OF this] obtain pre post t1 t2 where
          "ks = pre @ k # post" "firstMatch m e pre s2 = Done (None, t1)" "m k t1 = Done (True, t2)"
          "e k t2 = Done (True, s')"
          by blast
        with m e \<open>b\<close> False have "x # ks = (x # pre) @ k # post"
          "firstMatch m e (x # pre) s = Done (None, t1)"
          by simp_all
        with \<open>m k t1 = Done (True, t2)\<close> \<open>e k t2 = Done (True, s')\<close> show ?thesis
          by blast
      qed
    qed
  qed simp
qed

text \<open>
  An interface for a chain of entries that each try the same thing: a handler that declines leaves
  the state as it found it.
\<close>

locale declining =
  fixes deal :: "'d \<Rightarrow> 's \<Rightarrow> bool \<times> 's"
  assumes declines: "\<not> fst (deal d s) \<Longrightarrow> snd (deal d s) = s"
begin

lemma declined: "deal d s = (False, s') \<Longrightarrow> s' = s"
  using declines [of d s] by simp

lemma dealLoop_find:
  "dealLoop deal ds s = (case List.find (\<lambda>d. fst (deal d s)) ds of
     None \<Rightarrow> (False, s) | Some d \<Rightarrow> deal d s)"
proof (induction ds)
  case (Cons d ds)
  have "\<not> fst (deal d s) \<Longrightarrow> snd (deal d s) = s"
    by (rule declines)
  then show ?case
    by (simp add: Cons.IH split_def Let_def) (metis prod.collapse)
qed simp

lemma chain_declines: "declining (dealLoop deal)"
proof
  fix ds s
  assume "\<not> fst (dealLoop deal ds s)"
  then show "snd (dealLoop deal ds s) = s"
    by (cases "List.find (\<lambda>d. fst (deal d s)) ds") (auto simp: dealLoop_find find_Some_iff)
qed

end

lemma serveConn_find:
  assumes "declining deal" "\<forall>k \<in> set ks. isMatch k s = Done (matches k)"
  shows "serveConn isMatch (\<lambda>k. dealLoop deal (caseDealets k)) ks s =
    (case List.find (\<lambda>(k, d). fst (deal d s)) [(k, d). k \<leftarrow> ks, matches k, d \<leftarrow> caseDealets k] of
       None \<Rightarrow> Done (None, s)
     | Some (k, d) \<Rightarrow> Done (Some k, snd (deal d s)))"
  using assms(2)
proof (induction ks)
  case (Cons k ks)
  note dealLoop_find = declining.dealLoop_find [OF assms(1)]
  have k: "isMatch k s = Done (matches k)"
    and ks: "serveConn isMatch (\<lambda>k. dealLoop deal (caseDealets k)) ks s =
    (case List.find (\<lambda>(k, d). fst (deal d s)) [(k, d). k \<leftarrow> ks, matches k, d \<leftarrow> caseDealets k] of
       None \<Rightarrow> Done (None, s)
     | Some (k, d) \<Rightarrow> Done (Some k, snd (deal d s)))"
    using Cons by simp_all
  have find: "List.find (\<lambda>(k, d). fst (deal d s)) (map (Pair k) ds @ rest) =
    (case List.find (\<lambda>d. fst (deal d s)) ds of
       None \<Rightarrow> List.find (\<lambda>(k, d). fst (deal d s)) rest | Some d \<Rightarrow> Some (k, d))" for ds rest
    by (induction ds) auto
  show ?case
  proof (cases "List.find (\<lambda>d. fst (deal d s)) (caseDealets k)")
    case None
    with k ks show ?thesis
      by (simp add: serveConn_def dealLoop_find find)
  next
    case (Some d)
    then have "fst (deal d s)"
      by (auto simp: find_Some_iff)
    then obtain s' where "deal d s = (True, s')"
      by (metis prod.collapse)
    with Some k ks show ?thesis
      by (cases "matches k") (simp_all add: serveConn_def dealLoop_find find)
  qed
qed (simp add: serveConn_def)

definition accepts :: "string \<Rightarrow> bytes list \<Rightarrow> regexp list \<Rightarrow> bytes \<Rightarrow> bool option" where
  "accepts op ps res v = map_option (\<lambda>m. m ps res v) (tcpxCaseMatchers (bs op))"

text \<open>The operators of a condition mean what their names say: \<open>==\<close>, \<open>^=\<close>, \<open>$=\<close>, \<open>*=\<close> and \<open>~=\<close>
  accept a value that equals, starts with, ends with, contains or is matched by one of the patterns,
  the five operators with \<open>!\<close> accept exactly the other values, and no other operator has a matcher:
  the table knows the comparison operators of the lexer and only them.\<close>

theorem caseMatchers_correct:
  "accepts ''=='' ps res v = Some (v \<in> set ps) \<and>
   accepts ''^='' ps res v = Some (\<exists>p \<in> set ps. \<exists>w. v = p @ w) \<and>
   accepts ''$='' ps res v = Some (\<exists>p \<in> set ps. \<exists>u. v = u @ p) \<and>
   accepts ''*='' ps res v = Some (\<exists>p \<in> set ps. \<exists>u w. v = u @ p @ w) \<and>
   accepts ''~='' ps res v = Some (\<exists>re \<in> set res. re v) \<and>
   accepts ''!='' ps res v = map_option Not (accepts ''=='' ps res v) \<and>
   accepts ''!^'' ps res v = map_option Not (accepts ''^='' ps res v) \<and>
   accepts ''!$'' ps res v = map_option Not (accepts ''$='' ps res v) \<and>
   accepts ''!*'' ps res v = map_option Not (accepts ''*='' ps res v) \<and>
   accepts ''!~'' ps res v = map_option Not (accepts ''~='' ps res v) \<and>
   dom tcpxCaseMatchers = set compares"
proof (intro conjI)
  show "dom tcpxCaseMatchers = set compares"
    by (simp add: tcpxCaseMatchers_def compares_def dom_map_of_conv_image_fst)
qed (simp_all add: accepts_def tcpxCaseMatchers_def match_simps hasPrefix_iff hasSuffix_iff
      containsBytes_iff)

text \<open>C35: A connection goes to the first willing dealet: when the conditions can be evaluated and a
  dealet that declines leaves the connection alone, \<open>serveConn\<close> finds the first accepting dealet
  among those of the matching cases, in the order of the configuration, and no other dealet runs
  after it; when there is none the connection is unchanged and nobody dealt with it.\<close>

theorem serveConn_first_dealet:
  assumes "\<And>d c. \<not> fst (deal d c) \<Longrightarrow> snd (deal d c) = c"
    and "\<forall>k \<in> set ks. caseIsMatch table k conn = Done (matches k)"
  shows "serveConn (caseIsMatch table) (tcpxCase_execute deal) ks conn =
    (case List.find (\<lambda>(k, d). fst (deal d conn)) [(k, d). k \<leftarrow> ks, matches k, d \<leftarrow> caseDealets k] of
       None \<Rightarrow> Done (None, conn)
     | Some (k, d) \<Rightarrow> Done (Some k, snd (deal d conn)))"
proof -
  have "declining deal"
    using assms(1) by unfold_locales
  moreover have "tcpxCase_execute deal = (\<lambda>k. dealLoop deal (caseDealets k))"
    by (simp add: tcpxCase_execute_def fun_eq_iff)
  ultimately show ?thesis
    using assms(2) by (simp add: serveConn_find)
qed

definition demoCase :: "bytes list \<Rightarrow> nat list \<Rightarrow> routerCase" where
  "demoCase ps ds = (newCase ds)\<lparr>casePatterns := ps, caseMatcher := Some (\<lambda>ps _ v. equalMatch v ps)\<rparr>"

theorem serveConn_first_dealet_witness:
  "serveConn (caseIsMatch [Some id]) (tcpxCase_execute (\<lambda>d c. (d = 2, c)))
     [demoCase [bs ''a''] [2], demoCase [bs ''b''] [1, 2], demoCase [bs ''b''] [2]] (bs ''b'') =
   Done (Some (demoCase [bs ''b''] [1, 2]), bs ''b'')"
proof -
  have "serveConn (caseIsMatch [Some id]) (tcpxCase_execute (\<lambda>d c. (d = 2, c)))
     [demoCase [bs ''a''] [2], demoCase [bs ''b''] [1, 2], demoCase [bs ''b''] [2]] (bs ''b'') =
    (case List.find (\<lambda>(k, d). fst ((\<lambda>d c. (d = 2, c)) d (bs ''b'')))
       [(k, d). k \<leftarrow> [demoCase [bs ''a''] [2], demoCase [bs ''b''] [1, 2], demoCase [bs ''b''] [2]],
          bs ''b'' \<in> set (casePatterns k), d \<leftarrow> caseDealets k] of
       None \<Rightarrow> Done (None, bs ''b'')
     | Some (k, d) \<Rightarrow> Done (Some k, snd ((\<lambda>d c. (d = 2, c)) d (bs ''b''))))"
    by (rule serveConn_first_dealet)
      (auto simp: caseIsMatch_def demoCase_def newCase_def riskyVariable_def idx_def)
  then show ?thesis
    by (simp add: demoCase_def newCase_def)
qed

text \<open>The tables of variables are placeholders: a case with a condition cannot be evaluated.\<close>

lemma nil_variables: "riskyVariable (replicate n None) code c = Panic"
  by (auto simp: riskyVariable_def idx_def checked_def)

lemma variable_tables:
  "quixConnVariables = replicate 4 None" "tcpxConnVariables = replicate 6 None"
  "udpxConnVariables = replicate 3 None"
  by (simp_all add: quixConnVariables_def tcpxConnVariables_def udpxConnVariables_def numeral_eq_Suc)

lemma conditional_case_panics:
  assumes "\<not> general k"
  shows "quixCase_isMatch k conn = Panic" "tcpxCase_isMatch k conn' = Panic"
    "udpxCase_isMatch k conn'' = Panic"
  using assms
  by (simp_all add: quixCase_isMatch_def tcpxCase_isMatch_def udpxCase_isMatch_def caseIsMatch_def
      variable_tables nil_variables)

interpretation quix: declining "quixCase_execute deal" for deal :: "nat \<Rightarrow> 'c \<Rightarrow> bool \<times> 'c"
  by unfold_locales (simp add: quixCase_execute_def)

end
