(* ===== verification/Gates.thy ===== *)
theory Gates
  imports Routing
begin

text \<open>
  The gate of a TCPX router (\<open>tcpxGate\<close> in \<open>hemi/net_tcpx_router.go\<close>): its accept loop, the counters
  of connections, and the connections it has handed out, as a step relation.

  The loop is one goroutine and every connection runs in its own, so a step is one atomic action of
  either side, in any order.  Whether \<open>Accept\<close> succeeds, whether the raw connection can be had and
  whether a TLS handshake goes well is up to the environment.
\<close>

subsection \<open>State\<close>

text \<open>
  \<open>Accepting\<close>: the loop is blocked in \<open>Accept\<close>.  \<open>Deciding n\<close>: a connection was accepted and counted,
  \<open>n\<close> is what \<open>IncConcurrentConns\<close> returned.  \<open>Waiting\<close>: the loop is left and \<open>WaitConns\<close> runs.
\<close>

datatype gatePhase = Accepting | Deciding int | Waiting | Gone

text \<open>A connection that was handed to \<open>serveConn\<close>: its id and its \<open>closeSema\<close>.\<close>

record servedConn =
  connID :: int
  closeSema :: int

record gate =
  maxConcurrentConns :: int
  concurrentConns :: int
  subConns :: int
  shut :: bool
  nextID :: int
  gphase :: gatePhase
  live :: "servedConn list"
  dropped :: "servedConn list"

definition openGate :: "int \<Rightarrow> gate" where
  "openGate n = \<lparr>maxConcurrentConns = n, concurrentConns = 0, subConns = 0, shut = False, nextID = 1,
     gphase = Accepting, live = [], dropped = []\<rparr>"

subsection \<open>Operations\<close>

definition incConn :: "gate \<Rightarrow> gate" where
  "incConn g = g\<lparr>subConns := subConns g + 1\<rparr>"

definition decConn :: "gate \<Rightarrow> gate" where
  "decConn g = g\<lparr>subConns := subConns g - 1\<rparr>"

definition incConcurrentConns :: "gate \<Rightarrow> int \<times> gate" where
  "incConcurrentConns g = (concurrentConns g + 1, g\<lparr>concurrentConns := concurrentConns g + 1\<rparr>)"

definition decConcurrentConns :: "gate \<Rightarrow> gate" where
  "decConcurrentConns g = g\<lparr>concurrentConns := concurrentConns g - 1\<rparr>"

definition reachLimit :: "gate \<Rightarrow> int \<Rightarrow> bool" where
  "reachLimit g n \<longleftrightarrow> n > maxConcurrentConns g"

definition justClose :: "gate \<Rightarrow> gate" where
  "justClose g = decConn (decConcurrentConns g)"

definition markShut :: "gate \<Rightarrow> gate" where
  "markShut g = g\<lparr>shut := True\<rparr>"

definition getTCPXConn :: "int \<Rightarrow> servedConn" where
  "getTCPXConn n = \<lparr>connID = n, closeSema = 2\<rparr>"

text \<open>\<open>Accept\<close> failed: the loop ends when the gate is shut.\<close>

definition acceptFailed :: "gate \<Rightarrow> gate" where
  "acceptFailed g = (if shut g then g\<lparr>gphase := Waiting\<rparr> else g)"

text \<open>\<open>Accept\<close> returned a connection, which is counted before anything is decided.\<close>

definition accepted :: "gate \<Rightarrow> gate" where
  "accepted g = (let (n, g) = incConcurrentConns (incConn g) in g\<lparr>gphase := Deciding n\<rparr>)"

definition serve :: "gate \<Rightarrow> gate" where
  "serve g = g\<lparr>live := getTCPXConn (nextID g) # live g, nextID := nextID g + 1, gphase := Accepting\<rparr>"

definition refuse :: "gate \<Rightarrow> gate" where
  "refuse g = (justClose g)\<lparr>gphase := Accepting\<rparr>"

text \<open>The rest of the three accept loops: the limit, then the preparation of the connection.\<close>

definition serveUDS :: "bool \<Rightarrow> int \<Rightarrow> gate \<Rightarrow> gate" where
  "serveUDS syscallOk n g =
    (if reachLimit g n then refuse g else if \<not> syscallOk then refuse g else serve g)"

definition serveTLS :: "bool \<Rightarrow> bool \<Rightarrow> int \<Rightarrow> gate \<Rightarrow> gate" where
  "serveTLS deadlineOk handshakeOk n g =
    (if reachLimit g n then refuse g else if \<not> deadlineOk \<or> \<not> handshakeOk then refuse g else serve g)"

definition serveTCP :: "bool \<Rightarrow> int \<Rightarrow> gate \<Rightarrow> gate" where
  "serveTCP syscallOk n g =
    (if reachLimit g n then refuse g else if \<not> syscallOk then refuse g else serve g)"

definition waitConns :: "gate \<Rightarrow> gate" where
  "waitConns g = (if subConns g = 0 then g\<lparr>gphase := Gone\<rparr> else g)"

text \<open>\<open>Close\<close> of a served connection, and \<open>CloseRead\<close> and \<open>CloseWrite\<close>, each of which lowers the semaphore.\<close>

definition closeServed :: "servedConn \<Rightarrow> gate \<Rightarrow> gate" where
  "closeServed c g = (justClose g)\<lparr>live := remove1 c (live g)\<rparr>"

definition checkClose :: "servedConn \<Rightarrow> gate \<Rightarrow> gate" where
  "checkClose c g =
    (let c' = c\<lparr>closeSema := closeSema c - 1\<rparr>; g' = g\<lparr>live := c' # remove1 c (live g)\<rparr> in
     if closeSema c' = 0 then closeServed c' g' else g')"

text \<open>\<open>serveConn\<close> ended and no case dealt with the connection: it is put back into the pool as it is.\<close>

definition putUnrouted :: "servedConn \<Rightarrow> gate \<Rightarrow> gate" where
  "putUnrouted c g = g\<lparr>live := remove1 c (live g), dropped := c # dropped g\<rparr>"

inductive gateStep :: "gate \<Rightarrow> gate \<Rightarrow> bool" where
  accept_fails: "gphase g = Accepting \<Longrightarrow> gateStep g (acceptFailed g)"
| accepts: "gphase g = Accepting \<Longrightarrow> gateStep g (accepted g)"
| uds: "gphase g = Deciding n \<Longrightarrow> gateStep g (serveUDS ready n g)"
| tls: "gphase g = Deciding n \<Longrightarrow> gateStep g (serveTLS d h n g)"
| tcp: "gphase g = Deciding n \<Longrightarrow> gateStep g (serveTCP ready n g)"
| waits: "gphase g = Waiting \<Longrightarrow> gateStep g (waitConns g)"
| shuts: "gateStep g (markShut g)"
| closes: "c \<in> set (live g) \<Longrightarrow> gateStep g (closeServed c g)"
| half_closes: "c \<in> set (live g) \<Longrightarrow> gateStep g (checkClose c g)"
| unrouted: "c \<in> set (live g) \<Longrightarrow> gateStep g (putUnrouted c g)"

inductive gateReach :: "int \<Rightarrow> gate \<Rightarrow> bool" for n where
  start: "gateReach n (openGate n)"
| step: "gateReach n g \<Longrightarrow> gateStep g g' \<Longrightarrow> gateReach n g'"

lemmas gate_ops = incConn_def decConn_def incConcurrentConns_def decConcurrentConns_def
  justClose_def acceptFailed_def accepted_def serve_def refuse_def serveUDS_def serveTLS_def
  serveTCP_def waitConns_def closeServed_def checkClose_def putUnrouted_def markShut_def
  getTCPXConn_def reachLimit_def Let_def

subsection \<open>The limit holds\<close>

text \<open>The connections a gate has counted: those it serves, those it forgot, and the one it decides on.\<close>

definition counted :: "gate \<Rightarrow> int" where
  "counted g = int (length (live g)) + int (length (dropped g)) +
     (case gphase g of Deciding _ \<Rightarrow> 1 | _ \<Rightarrow> 0)"

definition gateInv :: "gate \<Rightarrow> bool" where
  "gateInv g \<longleftrightarrow> concurrentConns g = counted g \<and> subConns g = counted g \<and>
     (case gphase g of Deciding n \<Rightarrow> concurrentConns g \<le> n \<and> n \<le> maxConcurrentConns g + 1
      | _ \<Rightarrow> concurrentConns g \<le> maxConcurrentConns g) \<and>
     (gphase g = Gone \<longrightarrow> live g = [] \<and> dropped g = [])"

lemma remove1_count: "c \<in> set xs \<Longrightarrow> int (length (remove1 c xs)) = int (length xs) - 1"
  by (cases xs) (auto simp: length_remove1 of_nat_diff dest: length_pos_if_in_set)

lemma no_conns: "int (length xs) + int (length ys) = 0 \<longleftrightarrow> xs = [] \<and> ys = []"
  by (cases xs; cases ys) simp_all

lemma gateInv_step: "gateStep g g' \<Longrightarrow> gateInv g \<Longrightarrow> gateInv g'"
proof (induction rule: gateStep.induct)
  case (closes c g)
  then show ?case
    by (auto simp: gateInv_def counted_def gate_ops remove1_count split: gatePhase.splits)
next
  case (half_closes c g)
  then show ?case
    by (auto simp: gateInv_def counted_def gate_ops remove1_count split: gatePhase.splits)
next
  case (unrouted c g)
  then show ?case
    by (auto simp: gateInv_def counted_def gate_ops remove1_count split: gatePhase.splits)
qed (auto simp: gateInv_def counted_def gate_ops no_conns split: gatePhase.splits)

lemma gateInv_reach: "gateReach n g \<Longrightarrow> 0 \<le> n \<Longrightarrow> gateInv g \<and> maxConcurrentConns g = n"
proof (induction rule: gateReach.induct)
  case start
  then show ?case
    by (simp add: gateInv_def counted_def openGate_def)
next
  case (step g g')
  then have "maxConcurrentConns g' = n"
    by (auto simp: gate_ops elim!: gateStep.cases)
  with step show ?case
    by (blast intro: gateInv_step)
qed

text \<open>C31: A gate keeps its limit under every interleaving of its accept loop with the connections it
  serves: never are more than \<open>maxConcurrentConnsPerGate\<close> connections served at a time, the
  counter is exactly the number of connections not yet closed, it stays between 0 and the limit
  plus one, and a gate that has gone has closed every connection it accepted.\<close>

theorem gate_limit:
  assumes "gateReach n g" "0 < n"
  shows "int (length (live g)) \<le> n \<and> 0 \<le> concurrentConns g \<and> concurrentConns g \<le> n + 1 \<and>
    concurrentConns g = counted g \<and> (gphase g = Gone \<longrightarrow> live g = [] \<and> dropped g = [])"
proof -
  have "gateInv g" "maxConcurrentConns g = n"
    using gateInv_reach [OF assms(1)] assms(2) by simp_all
  then show ?thesis
    by (auto simp: gateInv_def counted_def split: gatePhase.splits)
qed

theorem gate_limit_witness:
  "live (serveTCP True 1 (accepted (openGate 1))) = [\<lparr>connID = 1, closeSema = 2\<rparr>] \<and>
   int (length (live (serveTCP True 1 (accepted (openGate 1))))) \<le> 1"
proof -
  have "gateReach 1 (serveTCP True 1 (accepted (openGate 1)))"
    by (intro gateReach.step [OF gateReach.step [OF gateReach.start accepts] tcp])
      (simp_all add: gate_ops openGate_def)
  from gate_limit [OF this] show ?thesis
    by (simp add: gate_ops openGate_def)
qed

subsection \<open>Connections nobody deals with\<close>

text \<open>A connection no case dealt with is never closed, and keeps its place in the count: as many of
  them as the limit allows, and the gate refuses everybody while it serves nobody.\<close>

lemma reach_dropped:
  "0 \<le> n \<Longrightarrow> int m \<le> n \<Longrightarrow>
   \<exists>g. gateReach n g \<and> live g = [] \<and> concurrentConns g = int m \<and> gphase g = Accepting"
proof (induction m)
  case 0
  have "live (openGate n) = [] \<and> concurrentConns (openGate n) = int 0 \<and> gphase (openGate n) = Accepting"
    by (simp add: openGate_def)
  then show ?case
    using gateReach.start by blast
next
  case (Suc m)
  then obtain g where g: "gateReach n g" "live g = []" "concurrentConns g = int m" "gphase g = Accepting"
    by auto
  have n: "maxConcurrentConns g = n"
    using gateInv_reach [OF g(1)] Suc.prems by simp
  let ?a = "accepted g"
  let ?s = "serveTCP True (int m + 1) ?a"
  let ?c = "getTCPXConn (nextID g)"
  have a: "gateReach n ?a"
    using g(1) accepts [OF g(4)] by (rule gateReach.step)
  have d: "gphase ?a = Deciding (int m + 1)"
    using g by (simp add: gate_ops)
  have s: "gateReach n ?s"
    using a tcp [OF d] by (rule gateReach.step)
  have c: "?c \<in> set (live ?s)"
    using g n Suc.prems by (simp add: gate_ops)
  have "gateReach n (putUnrouted ?c ?s)"
    using s unrouted [OF c] by (rule gateReach.step)
  moreover have "live (putUnrouted ?c ?s) = [] \<and> concurrentConns (putUnrouted ?c ?s) = int (Suc m) \<and>
      gphase (putUnrouted ?c ?s) = Accepting"
    using g n Suc.prems by (simp add: gate_ops)
  ultimately show ?case
    by blast
qed

lemma gate_leak:
  assumes "0 < n"
  shows "\<exists>g. gateReach n g \<and> live g = [] \<and> (\<forall>ready. serveTCP ready (concurrentConns g + 1) (accepted g) = refuse (accepted g))"
proof -
  have "0 \<le> n" "int (nat n) \<le> n"
    using assms by simp_all
  from reach_dropped [OF this] obtain g where
    g: "gateReach n g" "live g = []" "concurrentConns g = n"
    using assms by auto
  moreover have "maxConcurrentConns g = n"
    using gateInv_reach [OF g(1)] assms by simp
  ultimately show ?thesis
    by (intro exI [of _ g]) (simp add: gate_ops)
qed

end
