(* ===== verification/Requests.thy ===== *)
theory Requests
  imports Utilities
begin

text \<open>
  The server-side request as the rules of a webapp see it (\<open>serverRequest_\<close> in
  \<open>hemi/web_server_http.go\<close>): cleaning its path, its accessors, and its file system path.

  The path is cleaned in place by two indices over one array, with every read and write checked;
  the lemmas carry an invariant over the loop (\<open>cleaned\<close>: what is written is the resolved prefix, and
  what is unread is out of reach of the writes) up to the reference \<open>normalizePath\<close>, a fold over the
  segments.
\<close>

definition slash :: byte where
  "slash = ch CHR ''/''"

definition dot :: byte where
  "dot = ch CHR ''.''"

lemma dot_slash [simp]: "dot \<noteq> slash" "slash \<noteq> dot"
  by (simp_all add: dot_def slash_def)

subsection \<open>Cleaning a path\<close>

text \<open>
  \<open>cleanPath\<close> rewrites the path in place: \<open>pOrig\<close> reads, \<open>pReal\<close> writes behind it.  The two inner loops
  come first: back to the previous slash, and copying a segment.
\<close>

fun backSegment :: "bytes \<Rightarrow> nat \<Rightarrow> nat option" where
  "backSegment p pReal =
    (if pReal > 1 then
       do { b \<leftarrow> idx p pReal; if b \<noteq> slash then backSegment p (pReal - 1) else Some pReal }
     else Some pReal)"

declare backSegment.simps [simp del]

function copySegment :: "bytes \<Rightarrow> nat \<Rightarrow> nat \<Rightarrow> (bytes \<times> nat \<times> nat) option" where
  "copySegment p pOrig pReal =
    (if pOrig < length p then
       do { b \<leftarrow> idx p pOrig;
            if b \<noteq> slash then do { p' \<leftarrow> put p pReal b; copySegment p' (pOrig + 1) (pReal + 1) }
            else Some (p, pOrig, pReal) }
     else Some (p, pOrig, pReal))"
  by pat_completeness auto
termination
  by (relation "measure (\<lambda>(p, pOrig, _). length p - pOrig)") (auto simp: idx_def put_def split: if_splits)

declare copySegment.simps [simp del]

text \<open>The tests \<open>p[at] == '.' && (at+1 == n || p[at+1] == '/')\<close> and \<open>p[at] == '.' && p[at+1] == '.' && ...\<close>.\<close>

definition slashOrEnd :: "bytes \<Rightarrow> nat \<Rightarrow> bool option" where
  "slashOrEnd p i = (if i = length p then Some True else do { b \<leftarrow> idx p i; Some (b = slash) })"

definition isDot :: "bytes \<Rightarrow> nat \<Rightarrow> byte \<Rightarrow> bool option" where
  "isDot p at b = (if b = dot then slashOrEnd p (at + 1) else Some False)"

definition isDotDot :: "bytes \<Rightarrow> nat \<Rightarrow> byte \<Rightarrow> bool option" where
  "isDotDot p at b =
    (if b = dot then do { b' \<leftarrow> idx p (at + 1); if b' = dot then slashOrEnd p (at + 2) else Some False }
     else Some False)"

text \<open>
  The loop of \<open>cleanPath\<close>.  An iteration that copies nothing would repeat for ever, so the loop has
  fuel; every iteration that the code can reach moves \<open>pOrig\<close>, and the length of the path is enough
  (\<open>cleanPath_normal\<close>).
\<close>

primrec cleanLoop :: "nat \<Rightarrow> bytes \<Rightarrow> nat \<Rightarrow> nat \<Rightarrow> (bytes \<times> nat) option" where
  "cleanLoop 0 p pOrig pReal = None"
| "cleanLoop (Suc f) p pOrig pReal =
    (if pOrig < length p then
       do { b \<leftarrow> idx p pOrig;
            if b = slash then cleanLoop f p (pOrig + 1) pReal
            else do { d \<leftarrow> isDot p pOrig b;
              if d then cleanLoop f p (pOrig + 1) pReal
              else do { dd \<leftarrow> isDotDot p pOrig b;
                if dd then
                  do { pReal \<leftarrow> (if pReal > 1 then backSegment p (pReal - 1) else Some pReal);
                       cleanLoop f p (pOrig + 2) pReal }
                else
                  do { (p, pReal) \<leftarrow> (if pReal \<noteq> 1 then do { p \<leftarrow> put p pReal slash; Some (p, pReal + 1) }
                                      else Some (p, pReal));
                       (p, pOrig, pReal) \<leftarrow> copySegment p pOrig pReal;
                       cleanLoop f p pOrig pReal } } } }
     else Some (p, pReal))"

definition cleanPath :: "bytes \<Rightarrow> bytes option" where
  "cleanPath p =
    (if length p \<le> 1 then Some p
     else do {
       l \<leftarrow> idx p (length p - 1);
       let slashed = (l = slash);
       (q, pReal) \<leftarrow> cleanLoop (length p) p 1 1;
       if pReal \<noteq> length p then
         do { (q, pReal) \<leftarrow> (if slashed \<and> pReal > 1 then do { q \<leftarrow> put q pReal slash; Some (q, pReal + 1) }
                             else Some (q, pReal));
              sub q 0 pReal }
       else Some q
     })"

subsection \<open>What a clean path is\<close>

text \<open>The segments of a path, and the reference: drop empty ones and dots, let two dots take back one.\<close>

fun segments :: "bytes \<Rightarrow> bytes list" where
  "segments [] = [[]]"
| "segments (b # p) =
    (if b = slash then [] # segments p else (b # hd (segments p)) # tl (segments p))"

definition resolve :: "bytes list \<Rightarrow> bytes \<Rightarrow> bytes list" where
  "resolve acc s =
    (if s = [] \<or> s = [dot] then acc else if s = [dot, dot] then butlast acc else acc @ [s])"

definition slashes :: "bytes list \<Rightarrow> bytes" where
  "slashes acc = concat (map (Cons slash) acc)"

definition rooted :: "bytes list \<Rightarrow> bytes" where
  "rooted acc = (if acc = [] then [slash] else slashes acc)"

definition normalizePath :: "bytes \<Rightarrow> bytes" where
  "normalizePath q =
    (let acc = foldl resolve [] (segments q) in
     if acc = [] then [slash] else slashes acc @ (if last (slash # q) = slash then [slash] else []))"

subsection \<open>The loop computes it\<close>

definition isSegment :: "bytes \<Rightarrow> bool" where
  "isSegment s \<longleftrightarrow> s \<noteq> [] \<and> slash \<notin> set s"

text \<open>What follows a segment: nothing or a slash.\<close>

definition bounded :: "bytes \<Rightarrow> bool" where
  "bounded r \<longleftrightarrow> r = [] \<or> hd r = slash"

lemma segments_ne [simp]: "segments p \<noteq> []"
  by (induction p) auto

lemma segments_plain: "slash \<notin> set s \<Longrightarrow> segments s = [s]"
  by (induction s) auto

lemma segments_append: "slash \<notin> set s \<Longrightarrow> segments (s @ slash # r) = s # segments r"
  by (induction s) auto

lemma resolve_Nil [simp]: "resolve acc [] = acc"
  by (simp add: resolve_def)

lemma foldl_segments:
  assumes "slash \<notin> set s" "bounded r"
  shows "foldl resolve acc (segments (s @ r)) = foldl resolve (resolve acc s) (segments r)"
proof (cases r)
  case Nil
  with assms show ?thesis
    by (simp add: segments_plain)
next
  case (Cons c r')
  with assms have "r = slash # r'"
    by (simp add: bounded_def)
  with assms show ?thesis
    by (simp add: segments_append)
qed

lemma split_segment:
  assumes "rest \<noteq> []" "hd rest \<noteq> slash"
  obtains s r where "rest = s @ r" "isSegment s" "bounded r"
proof
  show "rest = takeWhile (\<lambda>b. b \<noteq> slash) rest @ dropWhile (\<lambda>b. b \<noteq> slash) rest"
    by simp
  show "isSegment (takeWhile (\<lambda>b. b \<noteq> slash) rest)"
    using assms by (cases rest) (auto simp: isSegment_def dest: set_takeWhileD)
  show "bounded (dropWhile (\<lambda>b. b \<noteq> slash) rest)"
    using hd_dropWhile [of "\<lambda>b. b \<noteq> slash" rest] by (auto simp: bounded_def)
qed

lemma at_drop: "drop i p = b # r \<Longrightarrow> i < length p \<and> p ! i = b \<and> drop (Suc i) p = r"
  by (metis drop_eq_Nil list.distinct(1) not_le Cons_nth_drop_Suc list.inject)

lemma slashOrEnd_at: "i \<le> length p \<Longrightarrow> drop i p = r \<Longrightarrow> slashOrEnd p i = Some (bounded r)"
  using at_drop [of i p "hd r" "tl r"]
  by (cases r) (auto simp: slashOrEnd_def bounded_def panic_simps)

lemma isDot_at:
  assumes "drop i p = s @ r" "isSegment s" "bounded r"
  shows "isDot p i (hd s) = Some (s = [dot])"
proof (cases s)
  case (Cons b s')
  with assms(1) have i: "i < length p" "drop (Suc i) p = s' @ r"
    using at_drop [of i p b "s' @ r"] by simp_all
  have "bounded (s' @ r) \<longleftrightarrow> s' = []"
    using assms(2,3) Cons by (cases s') (auto simp: bounded_def isSegment_def)
  with i Cons show ?thesis
    by (simp add: isDot_def slashOrEnd_at)
qed (use assms in \<open>simp add: isSegment_def\<close>)

lemma isDotDot_at:
  assumes "drop i p = s @ r" "isSegment s" "bounded r" "s \<noteq> [dot]"
  shows "isDotDot p i (hd s) = Some (s = [dot, dot])"
proof (cases "hd s = dot")
  case True
  with assms(2,4) obtain c s' where s: "s = dot # c # s'"
    by (cases s; cases "tl s") (auto simp: isSegment_def)
  with assms(1) have "i + 1 < length p" "p ! (i + 1) = c" "drop (i + 2) p = s' @ r"
    using at_drop [of i p dot "c # s' @ r"] at_drop [of "i + 1" p c "s' @ r"] by simp_all
  moreover have "bounded (s' @ r) \<longleftrightarrow> s' = []"
    using assms(2,3) s by (cases s') (auto simp: bounded_def isSegment_def)
  ultimately show ?thesis
    using s by (simp add: isDotDot_def panic_simps slashOrEnd_at)
qed (auto simp: isDotDot_def)

lemma backSegment_spec:
  assumes "1 \<le> e" "e \<le> q" "q < length p" "\<forall>i. e < i \<and> i \<le> q \<longrightarrow> p ! i \<noteq> slash" "e = 1 \<or> p ! e = slash"
  shows "backSegment p q = Some e"
  using assms
proof (induction q)
  case (Suc q)
  show ?case
  proof (cases "e = Suc q")
    case True
    with Suc.prems show ?thesis
      by (subst backSegment.simps) (auto simp: panic_simps)
  next
    case False
    with Suc.prems Suc.IH have "backSegment p q = Some e" "p ! Suc q \<noteq> slash" "1 < Suc q"
      by auto
    with Suc.prems(3) show ?thesis
      by (subst backSegment.simps) (simp add: panic_simps)
  qed
qed simp

lemma copySegment_spec:
  assumes "drop pOrig p = s @ r" "slash \<notin> set s" "bounded r" "pReal \<le> pOrig" "pOrig \<le> length p"
  shows "\<exists>p'. copySegment p pOrig pReal = Some (p', pOrig + length s, pReal + length s) \<and>
    length p' = length p \<and> take (pReal + length s) p' = take pReal p @ s \<and>
    drop (pOrig + length s) p' = r"
  using assms
proof (induction s arbitrary: p pOrig pReal)
  case Nil
  then have "slashOrEnd p pOrig = Some True"
    using slashOrEnd_at by simp
  then have "copySegment p pOrig pReal = Some (p, pOrig, pReal)"
    using Nil.prems(5) by (subst copySegment.simps) (auto simp: slashOrEnd_def panic_simps split: if_splits)
  with Nil.prems show ?case
    by simp
next
  case (Cons b s)
  let ?q = "p[pReal := b]"
  have b: "pOrig < length p" "p ! pOrig = b" "drop (Suc pOrig) p = s @ r"
    using at_drop [of pOrig p b "s @ r"] Cons.prems(1) by simp_all
  then have step: "copySegment p pOrig pReal = copySegment ?q (pOrig + 1) (pReal + 1)"
    using Cons.prems by (subst copySegment.simps) (auto simp: panic_simps)
  have "drop (pOrig + 1) ?q = s @ r"
    using b Cons.prems(4) by (simp add: drop_update_cancel)
  with Cons.prems b obtain p' where
    "copySegment ?q (pOrig + 1) (pReal + 1) = Some (p', pOrig + 1 + length s, pReal + 1 + length s)"
    "length p' = length p" "take (pReal + 1 + length s) p' = take (pReal + 1) ?q @ s"
    "drop (pOrig + 1 + length s) p' = r"
    using Cons.IH [of "pOrig + 1" ?q "pReal + 1"] by auto
  moreover have "take (pReal + 1) ?q = take pReal p @ [b]"
    using b Cons.prems(4) by (simp add: take_Suc_conv_app_nth take_update_cancel)
  ultimately show ?case
    using step by (simp add: add.assoc)
qed

text \<open>The invariant: the resolved segments are written, the rest is unread and out of reach.\<close>

definition cleaned :: "bytes \<Rightarrow> nat \<Rightarrow> nat \<Rightarrow> bytes list \<Rightarrow> bytes \<Rightarrow> bool" where
  "cleaned p pOrig pReal acc rest \<longleftrightarrow>
     pReal \<le> pOrig \<and> pOrig \<le> length p \<and> drop pOrig p = rest \<and> take pReal p = rooted acc \<and>
     list_all isSegment acc \<and> (acc = [] \<or> pReal < pOrig \<or> bounded rest)"

lemma rooted_snoc: "rooted (acc @ [s]) = (if acc = [] then slash # s else rooted acc @ slash # s)"
  by (simp add: rooted_def slashes_def)

lemma cleaned_pReal:
  assumes "cleaned p pOrig pReal acc rest"
  shows "pReal = length (rooted acc)" "1 \<le> pReal" "acc = [] \<longleftrightarrow> pReal = 1"
proof -
  have "length (take pReal p) = length (rooted acc)" "pReal \<le> length p"
    using assms by (simp_all add: cleaned_def)
  then show l: "pReal = length (rooted acc)"
    by simp
  show "1 \<le> pReal"
    unfolding l by (cases acc) (simp_all add: rooted_def slashes_def)
  have "acc \<noteq> [] \<Longrightarrow> length (rooted acc) > 1"
    using assms by (cases acc) (auto simp: rooted_def slashes_def cleaned_def isSegment_def)
  then show "acc = [] \<longleftrightarrow> pReal = 1"
    unfolding l by (auto simp: rooted_def)
qed

lemma cleaned_slash:
  "cleaned p pOrig pReal acc (slash # r) \<Longrightarrow> cleaned p (pOrig + 1) pReal acc r"
  using at_drop [of pOrig p slash r] by (auto simp: cleaned_def)

lemma cleaned_skip:
  assumes "cleaned p pOrig pReal acc (s @ r)" "bounded r"
  shows "cleaned p (pOrig + length s) pReal acc r"
proof -
  have "drop (pOrig + length s) p = drop (length s) (drop pOrig p)"
    by (simp add: add.commute)
  also have "\<dots> = r"
    using assms(1) by (simp add: cleaned_def)
  finally have "drop (pOrig + length s) p = r" .
  moreover have "length (drop pOrig p) = length s + length r"
    using assms(1) by (simp add: cleaned_def)
  ultimately show ?thesis
    using assms by (auto simp: cleaned_def)
qed

text \<open>Two dots: the last segment is taken back.\<close>

lemma cleaned_back:
  assumes "cleaned p pOrig pReal acc rest" "bounded rest"
  shows "\<exists>e. (if pReal > 1 then backSegment p (pReal - 1) else Some pReal) = Some e \<and>
    cleaned p pOrig e (butlast acc) rest"
proof (cases "acc = []")
  case True
  with cleaned_pReal(3) [OF assms(1)] assms show ?thesis
    by auto
next
  case False
  then obtain bs s where acc: "acc = bs @ [s]"
    by (metis rev_exhaust)
  let ?e = "length (rooted bs)"
  note real = cleaned_pReal [OF assms(1)]
  have s: "isSegment s" and le: "pReal \<le> length p" and bs: "list_all isSegment bs"
    using assms(1) acc by (auto simp: cleaned_def)
  have written: "take pReal p = (if bs = [] then slash # s else rooted bs @ slash # s)"
    using assms(1) acc by (simp add: cleaned_def rooted_snoc)
  have nth: "take pReal p ! i = p ! i" if "i < pReal" for i
    using that by simp
  have len: "pReal = (if bs = [] then Suc (length s) else ?e + Suc (length s))"
    using real(1) acc by (simp add: rooted_snoc)
  have seg: "take pReal p ! i \<noteq> slash" if "?e < i" "i \<le> pReal - 1" for i
  proof -
    have "take pReal p ! i \<in> set s" if "bs = []"
      using \<open>?e < i\<close> \<open>i \<le> pReal - 1\<close> len that unfolding written by (auto simp: rooted_def nth_Cons')
    moreover have "take pReal p ! i \<in> set s" if "bs \<noteq> []"
      using \<open>?e < i\<close> \<open>i \<le> pReal - 1\<close> len that unfolding written by (auto simp: nth_append nth_Cons')
    ultimately have "take pReal p ! i \<in> set s"
      by blast
    then show ?thesis
      using s by (auto simp: isSegment_def)
  qed
  have "backSegment p (pReal - 1) = Some ?e"
  proof (rule backSegment_spec)
    show "1 \<le> ?e"
      by (cases bs) (simp_all add: rooted_def slashes_def)
    show "?e \<le> pReal - 1" "pReal - 1 < length p"
      using len s le by (cases s; auto simp: isSegment_def rooted_def)+
    show "\<forall>i. ?e < i \<and> i \<le> pReal - 1 \<longrightarrow> p ! i \<noteq> slash"
    proof (intro allI impI)
      fix i
      assume "?e < i \<and> i \<le> pReal - 1"
      moreover from this have "i < pReal"
        using real(2) by linarith
      ultimately show "p ! i \<noteq> slash"
        using seg [of i] nth [of i] by metis
    qed
    show "?e = 1 \<or> p ! ?e = slash"
    proof (cases "bs = []")
      case False
      then have "?e < pReal"
        using len by simp
      then show ?thesis
        using nth [of ?e] False by (simp add: written)
    qed (simp add: rooted_def)
  qed
  moreover have "take ?e p = rooted bs"
  proof -
    have "take ?e p = take ?e (take pReal p)"
      using len by (simp add: min_def rooted_def)
    then show ?thesis
      by (simp add: written rooted_def)
  qed
  moreover have "?e \<le> pOrig"
    using len assms(1) by (auto simp: cleaned_def rooted_def split: if_splits)
  ultimately show ?thesis
    using assms acc bs len real(3) by (auto simp: cleaned_def)
qed

text \<open>Any other segment is copied behind what is written.\<close>

lemma cleaned_copy:
  assumes "cleaned p pOrig pReal acc (s @ r)" "isSegment s" "bounded r"
  shows "\<exists>q t. (if pReal \<noteq> 1 then do { p \<leftarrow> put p pReal slash; Some (p, pReal + 1) } else Some (p, pReal)) = Some (q, t) \<and>
    (\<exists>p' u. copySegment q pOrig t = Some (p', pOrig + length s, u) \<and> length p' = length p \<and>
       cleaned p' (pOrig + length s) u (acc @ [s]) r)"
proof -
  note real = cleaned_pReal [OF assms(1)]
  have "s \<noteq> []" and plain: "slash \<notin> set s" and le: "pReal \<le> pOrig" "pOrig < length p"
    using assms at_drop [of pOrig p "hd s" "tl s @ r"] by (auto simp: cleaned_def isSegment_def)
  have "\<not> bounded (s @ r)"
    using \<open>s \<noteq> []\<close> plain by (cases s) (auto simp: bounded_def)
  then have lt: "acc \<noteq> [] \<Longrightarrow> pReal < pOrig"
    using assms(1) by (simp add: cleaned_def)
  define q where "q = (if acc = [] then p else p[pReal := slash])"
  define t where "t = (if acc = [] then pReal else pReal + 1)"
  have q: "drop pOrig q = s @ r" "t \<le> pOrig" "length q = length p"
    using assms(1) lt le by (auto simp: q_def t_def cleaned_def drop_update_cancel)
  have pre: "take t q = (if acc = [] then [slash] else rooted acc @ [slash])"
    using assms(1) lt le
    by (auto simp: q_def t_def cleaned_def take_Suc_conv_app_nth take_update_cancel rooted_def)
  from copySegment_spec [OF q(1) plain assms(3) q(2)] le q(3) obtain p' where
    p': "copySegment q pOrig t = Some (p', pOrig + length s, t + length s)" "length p' = length q"
      "take (t + length s) p' = take t q @ s" "drop (pOrig + length s) p' = r"
    by auto
  have fits: "pOrig + length s \<le> length p"
  proof -
    have "length (drop pOrig p) = length s + length r"
      using assms(1) by (simp add: cleaned_def)
    with le show ?thesis
      by simp
  qed
  have "cleaned p' (pOrig + length s) (t + length s) (acc @ [s]) r"
    using assms p' q pre fits by (auto simp: cleaned_def rooted_snoc)
  moreover have "(if pReal \<noteq> 1 then do { p \<leftarrow> put p pReal slash; Some (p, pReal + 1) } else Some (p, pReal)) = Some (q, t)"
    using real(3) le by (auto simp: q_def t_def panic_simps)
  ultimately show ?thesis
    using p' q by auto
qed

lemma cleanLoop_spec:
  assumes "cleaned p pOrig pReal acc rest" "length rest < f"
  shows "\<exists>q t. cleanLoop f p pOrig pReal = Some (q, t) \<and> length q = length p \<and> t \<le> length p \<and>
    take t q = rooted (foldl resolve acc (segments rest))"
  using assms
proof (induction f arbitrary: p pOrig pReal acc rest)
  case (Suc f)
  have at: "drop pOrig p = rest" "pOrig \<le> length p"
    using Suc.prems by (simp_all add: cleaned_def)
  show ?case
  proof (cases rest)
    case Nil
    with at Suc.prems show ?thesis
      by (auto simp: cleaned_def)
  next
    case (Cons b r)
    with at have b: "pOrig < length p" "p ! pOrig = b"
      using at_drop [of pOrig p b r] by simp_all
    show ?thesis
    proof (cases "b = slash")
      case True
      then have "cleaned p (pOrig + 1) pReal acc r"
        using Suc.prems(1) Cons cleaned_slash by simp
      with Suc.IH [of p "pOrig + 1" pReal acc r] Suc.prems(2) Cons b True show ?thesis
        by (simp add: panic_simps)
    next
      case False
      obtain s r where rest: "rest = s @ r" "isSegment s" "bounded r"
        using split_segment [of rest] Cons False by auto
      have hd: "hd s = b" and plain: "slash \<notin> set s"
        using rest Cons by (cases s; auto simp: isSegment_def)+
      have less: "length r < f"
        using Suc.prems(2) rest by (cases s) (auto simp: isSegment_def)
      have fold: "foldl resolve acc (segments rest) = foldl resolve (resolve acc s) (segments r)"
        unfolding rest(1) using plain rest(3) by (rule foldl_segments)
      have dot: "isDot p pOrig b = Some (s = [dot])"
        using isDot_at [of pOrig p s r] at rest hd by simp
      have dd: "s \<noteq> [dot] \<Longrightarrow> isDotDot p pOrig b = Some (s = [dot, dot])"
        using isDotDot_at [of pOrig p s r] at rest hd by simp
      consider "s = [dot]" | "s = [dot, dot]" | "s \<noteq> [dot]" "s \<noteq> [dot, dot]"
        by blast
      then show ?thesis
      proof cases
        case 1
        then have "cleaned p (pOrig + 1) pReal acc r" "resolve acc s = acc"
          using cleaned_skip [of p pOrig pReal acc s r] Suc.prems(1) rest by (simp_all add: resolve_def)
        with Suc.IH [of p "pOrig + 1" pReal acc r] less fold b False dot 1 show ?thesis
          by (simp add: panic_simps)
      next
        case 2
        then have skip: "cleaned p (pOrig + 2) pReal acc r" and res: "resolve acc s = butlast acc"
          using cleaned_skip [of p pOrig pReal acc s r] Suc.prems(1) rest by (simp_all add: resolve_def)
        obtain e where e: "(if pReal > 1 then backSegment p (pReal - 1) else Some pReal) = Some e"
          "cleaned p (pOrig + 2) e (butlast acc) r"
          using cleaned_back [OF skip rest(3)] by blast
        with Suc.IH [of p "pOrig + 2" e "butlast acc" r] less fold res b False dot dd 2 show ?thesis
          by (simp add: panic_simps)
      next
        case 3
        then have res: "resolve acc s = acc @ [s]"
          using rest(2) by (simp add: resolve_def isSegment_def)
        obtain q t p' u where
          q: "(if pReal \<noteq> 1 then do { p \<leftarrow> put p pReal slash; Some (p, pReal + 1) } else Some (p, pReal)) = Some (q, t)"
          and p': "copySegment q pOrig t = Some (p', pOrig + length s, u)" "length p' = length p"
            "cleaned p' (pOrig + length s) u (acc @ [s]) r"
          using cleaned_copy [of p pOrig pReal acc s r] Suc.prems(1) rest by blast
        have "cleanLoop (Suc f) p pOrig pReal = cleanLoop f p' (pOrig + length s) u"
          using b False dot dd 3 q p'(1) by (simp add: panic_simps)
        with Suc.IH [OF p'(3) less] p'(2) fold res show ?thesis
          by simp
      qed
    qed
  qed
qed simp

text \<open>A path that ends with a slash loses at least that slash on the way.\<close>

lemma resolve_length: "length (slashes (resolve acc s)) \<le> length (slashes acc) + (if s = [] then 0 else Suc (length s))"
proof -
  have "length (slashes (butlast acc)) \<le> length (slashes acc)"
    by (induction acc) (auto simp: slashes_def)
  then show ?thesis
    by (auto simp: resolve_def slashes_def)
qed

lemma foldl_resolve_length:
  "length (slashes (foldl resolve acc ss)) \<le> length (slashes acc) + sum_list (map (\<lambda>s. if s = [] then 0 else Suc (length s)) ss)"
proof (induction ss arbitrary: acc)
  case (Cons s ss)
  from Cons.IH [of "resolve acc s"] resolve_length [of acc s] show ?case
    by simp
qed simp

lemma segments_total: "sum_list (map (\<lambda>s. Suc (length s)) (segments q)) = Suc (length q)"
proof (induction q)
  case (Cons b q)
  then show ?case
    by (cases "segments q") auto
qed simp

lemma segments_last: "last (slash # q) = slash \<Longrightarrow> last (segments q) = []"
proof (induction q)
  case (Cons b q)
  show ?case
  proof (cases "b = slash")
    case True
    with Cons show ?thesis
      by auto
  next
    case False
    with Cons.prems have "q \<noteq> []" "last (slash # q) = slash"
      by (auto split: if_splits)
    with Cons.IH have l: "last (segments q) = []"
      by simp
    obtain s ss where s: "segments q = s # ss"
      by (cases "segments q") auto
    have "ss \<noteq> []"
    proof
      assume "ss = []"
      with s l have "segments q = [[]]"
        by simp
      with segments_total [of q] \<open>q \<noteq> []\<close> show False
        by simp
    qed
    with l s False show ?thesis
      by simp
  qed
qed simp

lemma resolved_length:
  assumes "acc = foldl resolve [] (segments q)"
  shows "length (slashes acc) \<le> Suc (length q)"
    and "last (slash # q) = slash \<Longrightarrow> length (slashes acc) \<le> length q"
proof -
  let ?w = "\<lambda>s :: bytes. if s = [] then 0 else Suc (length s)"
  have w: "sum_list (map ?w ss) \<le> sum_list (map (\<lambda>s. Suc (length s)) ss)" for ss
    by (induction ss) auto
  have acc: "length (slashes acc) \<le> sum_list (map ?w (segments q))"
    using foldl_resolve_length [of "[]" "segments q"] by (simp add: assms slashes_def)
  with w [of "segments q"] segments_total [of q] show "length (slashes acc) \<le> Suc (length q)"
    by simp
  assume "last (slash # q) = slash"
  then have "segments q = butlast (segments q) @ [[]]"
    using segments_last [of q] by (metis append_butlast_last_id segments_ne)
  then obtain ss where ss: "segments q = ss @ [[]]" ..
  with acc w [of ss] segments_total [of q] show "length (slashes acc) \<le> length q"
    by simp
qed

lemma segments_free: "s \<in> set (segments q) \<Longrightarrow> slash \<notin> set s"
proof (induction q arbitrary: s)
  case (Cons b q)
  obtain t ss where "segments q = t # ss"
    by (cases "segments q") auto
  with Cons show ?case
    by (auto split: if_splits)
qed simp

definition proper :: "bytes \<Rightarrow> bool" where
  "proper s \<longleftrightarrow> isSegment s \<and> s \<noteq> [dot] \<and> s \<noteq> [dot, dot]"

lemma resolved_proper:
  "list_all proper acc \<Longrightarrow> \<forall>s \<in> set ss. slash \<notin> set s \<Longrightarrow> list_all proper (foldl resolve acc ss)"
proof (induction ss arbitrary: acc)
  case (Cons s ss)
  have "list_all proper (butlast acc)"
    using Cons.prems(1) by (auto simp: list_all_iff dest: in_set_butlastD)
  with Cons.prems have "list_all proper (resolve acc s)"
    by (auto simp: resolve_def proper_def [of s] isSegment_def)
  with Cons show ?case
    by simp
qed simp

lemma cleanPath_normal: "cleanPath (slash # q) = Some (normalizePath q)"
proof (cases q)
  case Nil
  then show ?thesis
    by (simp add: cleanPath_def normalizePath_def)
next
  case (Cons c r)
  let ?p = "slash # q"
  define acc where "acc = foldl resolve [] (segments q)"
  have "cleaned ?p 1 1 [] q"
    by (simp add: cleaned_def rooted_def)
  from cleanLoop_spec [OF this, of "length ?p"] obtain a t where
    a: "cleanLoop (length ?p) ?p 1 1 = Some (a, t)" "length a = length ?p" "t \<le> length ?p" "take t a = rooted acc"
    by (auto simp: acc_def)
  from a have t: "t = length (rooted acc)"
    by (metis length_take min.absorb2)
  have idx: "idx ?p (length ?p - 1) = Some (last ?p)"
    by (simp add: panic_simps last_conv_nth)
  have out: "cleanPath ?p =
      (if t \<noteq> length ?p then
         do { (a, t) \<leftarrow> (if last ?p = slash \<and> t > 1 then do { a \<leftarrow> put a t slash; Some (a, t + 1) } else Some (a, t));
              sub a 0 t }
       else Some a)"
    using Cons a(1) idx by (simp add: cleanPath_def Let_def)
  show ?thesis
  proof (cases "acc = []")
    case True
    with t Cons have "t = 1" "t \<noteq> length ?p"
      by (simp_all add: rooted_def)
    then show ?thesis
      unfolding out using a True by (simp add: panic_simps slice_def normalizePath_def acc_def rooted_def)
  next
    case False
    note len = resolved_length [OF acc_def]
    have sl: "rooted acc = slashes acc"
      using False by (simp add: rooted_def)
    have norm: "normalizePath q = slashes acc @ (if last ?p = slash then [slash] else [])"
      using False by (simp add: normalizePath_def acc_def [symmetric])
    have "list_all proper acc"
      unfolding acc_def by (rule resolved_proper) (auto dest: segments_free)
    with False have "length (slashes acc) > 1"
      by (cases acc) (auto simp: proper_def isSegment_def slashes_def)
    then have "t > 1"
      by (simp add: t sl)
    have take: "take t a = slashes acc"
      using a sl by simp
    show ?thesis
    proof (cases "last ?p = slash")
      case True
      then have "t < length a"
        using len(2) t sl a by simp
      then have "take (t + 1) (a[t := slash]) = slashes acc @ [slash]"
        using take by (simp add: take_Suc_conv_app_nth)
      with True \<open>t < length a\<close> \<open>t > 1\<close> a(2) show ?thesis
        unfolding out norm by (simp add: panic_simps slice_def)
    next
      case False
      with take a show ?thesis
        unfolding out norm by (auto simp: panic_simps slice_def)
    qed
  qed
qed

text \<open>C29: Cleaning a path in place is resolving its segments: for every path that starts with a slash,
  \<open>cleanPath\<close> neither leaves the bounds of its array nor runs on, and returns the path made of the
  segments that remain after dropping empty segments and dots and letting two dots take back the
  segment before them (never the root), with the final slash kept.\<close>

theorem cleanPath_correct: "cleanPath (slash # q) = Some (normalizePath q)"
  by (rule cleanPath_normal)

lemma slashes_Cons: "slashes (s # ss) = slash # s @ slashes ss"
  by (simp add: slashes_def)

lemma slashes_snoc: "slashes (ss @ [s]) = slashes ss @ slash # s"
  by (simp add: slashes_def)

lemma segments_slashes: "list_all isSegment (s # ss) \<Longrightarrow> segments (s @ slashes ss) = s # ss"
proof (induction ss arbitrary: s)
  case Nil
  then show ?case
    by (simp add: slashes_def segments_plain isSegment_def)
next
  case (Cons t ss)
  then show ?case
    by (simp add: slashes_Cons segments_append isSegment_def)
qed

lemma segments_slashes_slash:
  "list_all isSegment (s # ss) \<Longrightarrow> segments (s @ slashes ss @ [slash]) = s # ss @ [[]]"
proof (induction ss arbitrary: s)
  case Nil
  then show ?case
    using segments_append [of s "[]"] by (simp add: slashes_def isSegment_def)
next
  case (Cons t ss)
  then show ?case
    by (simp add: slashes_Cons segments_append isSegment_def)
qed

lemma resolve_proper: "proper s \<Longrightarrow> resolve acc s = acc @ [s]"
  by (simp add: resolve_def proper_def isSegment_def)

lemma foldl_proper: "list_all proper ss \<Longrightarrow> foldl resolve acc ss = acc @ ss"
  by (induction ss arbitrary: acc) (simp_all add: resolve_proper)

lemma proper_isSegment: "list_all proper ss \<Longrightarrow> list_all isSegment ss"
  by (auto simp: list_all_iff proper_def)

text \<open>The shape of a normalised path.\<close>

lemma normalizePath_cases:
  obtains "normalizePath q = [slash]"
  | s ss where "list_all proper (s # ss)" "normalizePath q = slash # s @ slashes ss"
      "segments (s @ slashes ss) = s # ss"
  | s ss where "list_all proper (s # ss)" "normalizePath q = slash # s @ slashes ss @ [slash]"
      "segments (s @ slashes ss @ [slash]) = s # ss @ [[]]"
proof -
  define acc where "acc = foldl resolve [] (segments q)"
  have proper: "list_all proper acc"
    unfolding acc_def by (rule resolved_proper) (auto dest: segments_free)
  show thesis
  proof (cases acc)
    case Nil
    then show thesis
      using that(1) by (simp add: normalizePath_def acc_def)
  next
    case (Cons s ss)
    then have "normalizePath q = slash # s @ slashes ss @ (if last (slash # q) = slash then [slash] else [])"
      by (simp add: normalizePath_def acc_def [symmetric] slashes_Cons)
    moreover have "list_all isSegment (s # ss)"
      using proper_isSegment [OF proper] Cons by simp
    ultimately show thesis
      using that(2) [of s ss] that(3) [of s ss] proper Cons
      by (cases "last (slash # q) = slash") (simp_all add: segments_slashes segments_slashes_slash)
  qed
qed

lemma last_segment: "isSegment s \<Longrightarrow> list_all isSegment ss \<Longrightarrow> last (slash # s @ slashes ss) \<noteq> slash"
proof (cases ss rule: rev_cases)
  case Nil
  assume "isSegment s"
  then show ?thesis
    using Nil by (auto simp: slashes_def isSegment_def dest: last_in_set)
next
  case (snoc ts t)
  assume "list_all isSegment ss"
  with snoc have "last t \<noteq> slash" "t \<noteq> []"
    by (auto simp: isSegment_def dest: last_in_set)
  with snoc show ?thesis
    by (simp add: slashes_snoc)
qed


subsection \<open>The request\<close>

record span =
  spanFrom :: nat
  spanEdge :: nat

definition notEmpty :: "span \<Rightarrow> bool" where
  "notEmpty s \<longleftrightarrow> spanFrom s \<noteq> spanEdge s"

definition textAt :: "bytes \<Rightarrow> span \<Rightarrow> bytes option" where
  "textAt input s = sub input (spanFrom s) (spanEdge s)"

text \<open>
  The fields of a server-side request that rules look at.  The values of header lines, cookies and
  queries are found by the code of pairs; here they are functions.  \<open>PathInfo\<close> is what \<open>os.Stat\<close> says:
  whether the path is a directory.
\<close>

record serverRequest =
  input :: bytes
  rmethod :: span
  schemeCode :: nat
  authority :: span
  hostname :: span
  colonport :: span
  uri :: span
  encodedPath :: span
  rpath :: bytes
  queryString :: span
  contentType :: bytes
  headerValue :: "bytes \<Rightarrow> bytes option"
  cookieValue :: "bytes \<Rightarrow> bytes option"
  queryValue :: "bytes \<Rightarrow> bytes option"
  formContent :: bool
  encodedContent :: bool
  absPath :: bytes
  pathInfoGot :: bool
  pathInfo :: "bool option"

definition riskyMethod :: "serverRequest \<Rightarrow> bytes option" where
  "riskyMethod r = textAt (input r) (rmethod r)"

definition httpSchemeByteses :: "bytes list" where
  "httpSchemeByteses = [bs ''http'', bs ''https'']"

definition riskyScheme :: "serverRequest \<Rightarrow> bytes option" where
  "riskyScheme r = idx httpSchemeByteses (schemeCode r)"

definition riskyAuthority :: "serverRequest \<Rightarrow> bytes option" where
  "riskyAuthority r = textAt (input r) (authority r)"

definition riskyHostname :: "serverRequest \<Rightarrow> bytes option" where
  "riskyHostname r = textAt (input r) (hostname r)"

definition riskyColonport :: "serverRequest \<Rightarrow> bytes option" where
  "riskyColonport r =
    (if notEmpty (colonport r) then textAt (input r) (colonport r)
     else if schemeCode r = 1 then Some (bs '':443'') else Some (bs '':80''))"

definition riskyURI :: "serverRequest \<Rightarrow> bytes option" where
  "riskyURI r = (if notEmpty (uri r) then textAt (input r) (uri r) else Some [slash])"

definition riskyEncodedPath :: "serverRequest \<Rightarrow> bytes option" where
  "riskyEncodedPath r = (if notEmpty (encodedPath r) then textAt (input r) (encodedPath r) else Some [slash])"

definition riskyPath :: "serverRequest \<Rightarrow> bytes option" where
  "riskyPath r = (if length (rpath r) \<noteq> 0 then Some (rpath r) else Some [slash])"

definition riskyQueryString :: "serverRequest \<Rightarrow> bytes option" where
  "riskyQueryString r = textAt (input r) (queryString r)"

definition riskyContentType :: "serverRequest \<Rightarrow> bytes option" where
  "riskyContentType r = Some (contentType r)"

definition serverRequestVariables :: "(serverRequest \<Rightarrow> bytes option) list" where
  "serverRequestVariables = [riskyMethod, riskyScheme, riskyAuthority, riskyHostname, riskyColonport,
     riskyPath, riskyURI, riskyEncodedPath, riskyQueryString, riskyContentType]"

text \<open>\<open>makeAbsPath\<close>: nothing without a root; else a fresh buffer filled by two copies.\<close>

definition makeAbsPath :: "bytes \<Rightarrow> serverRequest \<Rightarrow> serverRequest option" where
  "makeAbsPath webRoot r =
    (if webRoot = [] then Some r
     else do {
       p \<leftarrow> riskyPath r;
       let buffer = replicate (length webRoot + length p) 0;
       Some (r\<lparr>absPath := copyAt (copyAt buffer 0 webRoot) (length webRoot) p\<rparr>)
     })"

lemma makeAbsPath_eq:
  "webRoot \<noteq> [] \<Longrightarrow> makeAbsPath webRoot r =
     Some (r\<lparr>absPath := webRoot @ (if rpath r \<noteq> [] then rpath r else [slash])\<rparr>)"
  by (auto simp: makeAbsPath_def riskyPath_def copyAt_def)

definition getPathInfo :: "(bytes \<Rightarrow> bool option) \<Rightarrow> serverRequest \<Rightarrow> bool option \<times> serverRequest" where
  "getPathInfo stat r =
    (let r = (if \<not> pathInfoGot r then
                (let r = r\<lparr>pathInfoGot := True\<rparr> in
                 case stat (absPath r) of Some info \<Rightarrow> r\<lparr>pathInfo := Some info\<rparr> | None \<Rightarrow> r)
              else r) in
     (pathInfo r, r))"

end
