(* ===== verification/HttpTables.thy ===== *)
theory HttpTables
  imports Utilities
begin

text \<open>
  The tables of the HTTP code: octet classes, names and hashes of fields and methods
  (\<open>hemi/web_element_http.go\<close>) and the minimal perfect hash tables that find a method
  (\<open>hemi/web_server_http.go\<close>), a field of a request or of a backend's response, and the fields an
  outgoing message treats specially (\<open>hemi/web_server_http.go\<close>, \<open>hemi/web_backend_http.go\<close>).

  The locale \<open>perfect_hash\<close> is the contract of such a table; its lemma \<open>lookup_exact\<close> makes the hashed
  lookup equal to a linear search, and the seven tables of the source are interpretations.
\<close>

subsection \<open>Looking up a perfect hash table\<close>

text \<open>
  \<open>xxxFind\<close>: a constant divided by the hash, modulo the size of the table.  Dividing by a hash of 0
  is a run-time panic.
\<close>

definition hashFind :: "nat \<Rightarrow> nat \<Rightarrow> uint16 \<Rightarrow> nat option" where
  "hashFind c n h = (if h = 0 then None else Some (c div unat h mod n))"

text \<open>The entry found counts only when both the hash and the bytes are those asked for.\<close>

definition tableLookup ::
  "(uint16 \<Rightarrow> nat option) \<Rightarrow> 'e list \<Rightarrow> ('e \<Rightarrow> uint16) \<Rightarrow> ('e \<Rightarrow> bytes) \<Rightarrow> uint16 \<Rightarrow> bytes \<Rightarrow> 'e option option" where
  "tableLookup position table hash name h w = do {
     i \<leftarrow> position h;
     e \<leftarrow> idx table i;
     Some (if hash e = h \<and> name e = w then Some e else None)
   }"

text \<open>
  The contract of a table: every entry sits where its hash sends it, and its hash is that of its
  bytes.  Then the lookup is the linear search.
\<close>

locale perfect_hash =
  fixes position :: "uint16 \<Rightarrow> nat option" and table :: "'e list"
    and hash :: "'e \<Rightarrow> uint16" and name :: "'e \<Rightarrow> bytes"
  assumes position: "h \<noteq> 0 \<Longrightarrow> \<exists>i < length table. position h = Some i"
    and placed: "i < length table \<Longrightarrow> position (hash (table ! i)) = Some i"
    and hashed: "i < length table \<Longrightarrow> bytesHash (name (table ! i)) = hash (table ! i)"
begin

lemma found_at:
  assumes "j < length table" "name (table ! j) = w"
  shows "position (bytesHash w) = Some j"
  using placed [OF assms(1)] hashed [OF assms(1)] assms(2) by simp

lemma lookup_entry:
  assumes "e \<in> set table"
  shows "tableLookup position table hash name (hash e) (name e) = Some (Some e)" "bytesHash (name e) = hash e"
proof -
  obtain i where "i < length table" "e = table ! i"
    using assms by (auto simp: in_set_conv_nth)
  then show "tableLookup position table hash name (hash e) (name e) = Some (Some e)" "bytesHash (name e) = hash e"
    using placed [of i] hashed [of i] by (simp_all add: tableLookup_def panic_simps)
qed

lemma lookup_exact:
  assumes "bytesHash w \<noteq> 0"
  shows "tableLookup position table hash name (bytesHash w) w = Some (List.find (\<lambda>e. name e = w) table)"
proof -
  obtain i where i: "position (bytesHash w) = Some i" "i < length table"
    using position [OF assms] by blast
  have only: "j = i" if "j < length table" "name (table ! j) = w" for j
    using found_at [OF that] i by simp
  show ?thesis
  proof (cases "name (table ! i) = w")
    case True
    have "List.find (\<lambda>e. name e = w) table = Some (table ! i)"
      unfolding find_Some_iff using True i only by (metis less_irrefl less_trans)
    then show ?thesis
      using True i hashed [of i] by (simp add: tableLookup_def panic_simps)
  next
    case False
    then have "List.find (\<lambda>e. name e = w) table = None"
      unfolding find_None_iff using only by (metis in_set_conv_nth)
    then show ?thesis
      using False i by (auto simp: tableLookup_def panic_simps)
  qed
qed

end

text \<open>The contract as a check on a concrete table.\<close>

definition perfect :: "nat \<Rightarrow> ('e \<Rightarrow> uint16) \<Rightarrow> ('e \<Rightarrow> bytes) \<Rightarrow> 'e list \<Rightarrow> bool" where
  "perfect c hash name table \<longleftrightarrow> table \<noteq> [] \<and>
     map (\<lambda>e. hashFind c (length table) (hash e)) table = map Some [0..<length table] \<and>
     map (\<lambda>e. bytesHash (name e)) table = map hash table"

lemma perfect_hashI:
  assumes "perfect c hash name table" "position = hashFind c (length table)"
  shows "perfect_hash position table hash name"
proof
  fix i
  assume i: "i < length table"
  then have "map (\<lambda>e. hashFind c (length table) (hash e)) table ! i = map Some [0..<length table] ! i"
    using assms(1) by (simp add: perfect_def)
  with i show "position (hash (table ! i)) = Some i"
    by (simp add: assms(2))
  have "map (\<lambda>e. bytesHash (name e)) table ! i = map hash table ! i"
    using assms(1) by (simp only: perfect_def)
  with i show "bytesHash (name (table ! i)) = hash (table ! i)"
    by simp
qed (use assms in \<open>auto simp: perfect_def hashFind_def\<close>)

subsection \<open>Names and hashes of the known fields\<close>

text \<open>The constants \<open>hashXxx\<close> beside the byte slices \<open>bytesXxx\<close> they belong to.\<close>

definition fieldHashes :: "(bytes \<times> uint16) list" where
  "fieldHashes = map (\<lambda>(n, h). (bs n, h))
    [('':authority'', 1059), ('':method'', 699), ('':path'', 487), ('':protocol'', 940),
     ('':scheme'', 687), ('':status'', 734), (''accept'', 624), (''accept-encoding'', 1508),
     (''cache-control'', 1314), (''connection'', 1072), (''content-encoding'', 1647),
     (''content-language'', 1644), (''content-length'', 1450), (''content-location'', 1665),
     (''content-range'', 1333), (''content-type'', 1258), (''date'', 414),
     (''keep-alive'', 995), (''trailer'', 755), (''transfer-encoding'', 1753),
     (''upgrade'', 744), (''via'', 320), (''accept-charset'', 1415),
     (''accept-language'', 1505), (''authorization'', 1425), (''cookie'', 634),
     (''expect'', 649), (''forwarded'', 958), (''host'', 446), (''if-match'', 777),
     (''if-modified-since'', 1660), (''if-none-match'', 1254), (''if-range'', 777),
     (''if-unmodified-since'', 1887), (''max-forwards'', 1243),
     (''proxy-authorization'', 2048), (''proxy-connection'', 1695), (''range'', 525),
     (''referer'', 747), (''te'', 217), (''user-agent'', 1019), (''x-forwarded-by'', 1387),
     (''x-forwarded-for'', 1495), (''x-forwarded-host'', 1614), (''x-forwarded-proto'', 1732),
     (''accept-ranges'', 1309), (''age'', 301), (''allow'', 543), (''alt-svc'', 698),
     (''cache-status'', 1221), (''cdn-cache-control'', 1668), (''content-disposition'', 2013),
     (''etag'', 417), (''expires'', 768), (''last-modified'', 1314), (''location'', 857),
     (''proxy-authenticate'', 1902), (''retry-after'', 1141), (''server'', 663),
     (''set-cookie'', 1011), (''vary'', 450), (''www-authenticate'', 1681)]"

definition hashOf :: "string \<Rightarrow> uint16" where
  "hashOf n = (case map_of fieldHashes (bs n) of Some h \<Rightarrow> h | None \<Rightarrow> 0)"

record fdesc =
  nameHash :: uint16
  allowQuote :: bool
  allowEmpty :: bool
  allowParam :: bool
  hasComment :: bool
  fieldName :: bytes

definition field :: "string \<Rightarrow> bool \<Rightarrow> bool \<Rightarrow> bool \<Rightarrow> bool \<Rightarrow> fdesc" where
  "field n quote emp param comment = \<lparr>nameHash = hashOf n, allowQuote = quote, allowEmpty = emp,
     allowParam = param, hasComment = comment, fieldName = bs n\<rparr>"

subsection \<open>The tables\<close>

text \<open>A method of the source that a table points to is given by its name.\<close>

record fieldEntry =
  mustParse :: bool
  descr :: fdesc
  checker :: string

definition entry :: "bool \<times> fdesc \<times> string \<Rightarrow> fieldEntry" where
  "entry = (\<lambda>(p, d, ck). \<lparr>mustParse = p, descr = d, checker = ck\<rparr>)"

abbreviation entryHash :: "fieldEntry \<Rightarrow> uint16" where
  "entryHash e \<equiv> nameHash (descr e)"

abbreviation entryName :: "fieldEntry \<Rightarrow> bytes" where
  "entryName e \<equiv> fieldName (descr e)"

record criticalEntry =
  criticalHash :: uint16
  criticalName :: bytes
  inserter :: "string option"
  remover :: "string option"

definition critical :: "string \<times> string option \<times> string option \<Rightarrow> criticalEntry" where
  "critical = (\<lambda>(n, i, r). \<lparr>criticalHash = hashOf n, criticalName = bs n, inserter = i, remover = r\<rparr>)"

definition serverRequestSingletonHeaderFieldTable :: "fieldEntry list" where
  "serverRequestSingletonHeaderFieldTable = map entry
    [(True, field ''referer'' True False False False, ''checkReferer''),
     (False, field ''max-forwards'' False False False False, ''checkMaxForwards''),
     (True, field ''content-type'' False False True False, ''checkContentType''),
     (False, field ''date'' False False False False, ''checkDate''),
     (False, field ''range'' False False False False, ''checkRange''),
     (False, field ''content-range'' False False False False, ''checkContentRange''),
     (False, field ''content-length'' False False False False, ''checkContentLength''),
     (False, field ''user-agent'' False False False True, ''checkUserAgent''),
     (False, field ''proxy-authorization'' False False False False, ''checkProxyAuthorization''),
     (False, field ''authorization'' False False False False, ''checkAuthorization''),
     (False, field ''if-range'' False False False False, ''checkIfRange''),
     (False, field ''host'' False False False False, ''checkHost''),
     (False, field ''if-unmodified-since'' False False False False, ''checkIfUnmodifiedSince''),
     (False, field ''if-modified-since'' False False False False, ''checkIfModifiedSince''),
     (True, field ''content-location'' True False False False, ''checkContentLocation''),
     (False, field ''cookie'' False False False False, ''checkCookie'')]"

definition serverRequestSingletonHeaderFieldFind :: "uint16 \<Rightarrow> nat option" where
  "serverRequestSingletonHeaderFieldFind = hashFind 8175626 (length serverRequestSingletonHeaderFieldTable)"

definition serverRequestImportantHeaderFieldTable :: "fieldEntry list" where
  "serverRequestImportantHeaderFieldTable = map entry
    [(False, field ''connection'' False False False False, ''checkConnection''),
     (False, field ''proxy-connection'' False False False False, ''checkProxyConnection''),
     (False, field ''x-forwarded-host'' False False False False, ''checkXForwardedHost''),
     (False, field ''accept'' False True True False, ''checkAccept''),
     (False, field ''if-none-match'' True False False False, ''checkIfNoneMatch''),
     (False, field ''x-forwarded-proto'' False False False False, ''checkXForwardedProto''),
     (False, field ''te'' False False True False, ''checkTE''),
     (False, field ''content-language'' False False False False, ''checkContentLanguage''),
     (False, field ''trailer'' False False False False, ''checkTrailer''),
     (False, field ''forwarded'' False False False False, ''checkForwarded''),
     (False, field ''upgrade'' False False False False, ''checkUpgrade''),
     (False, field ''keep-alive'' False False False False, ''checkKeepAlive''),
     (False, field ''accept-encoding'' False True True False, ''checkAcceptEncoding''),
     (False, field ''content-encoding'' False False False False, ''checkContentEncoding''),
     (False, field ''via'' False False False True, ''checkVia''),
     (False, field ''transfer-encoding'' False False False False, ''checkTransferEncoding''),
     (False, field ''if-match'' True False False False, ''checkIfMatch''),
     (False, field ''x-forwarded-by'' False False False False, ''checkXForwardedBy''),
     (False, field ''x-forwarded-for'' False False False False, ''checkXForwardedFor''),
     (False, field ''accept-language'' False False True False, ''checkAcceptLanguage''),
     (False, field ''expect'' False False True False, ''checkExpect''),
     (False, field ''cache-control'' False False False False, ''checkCacheControl'')]"

definition serverRequestImportantHeaderFieldFind :: "uint16 \<Rightarrow> nat option" where
  "serverRequestImportantHeaderFieldFind = hashFind 271995178 (length serverRequestImportantHeaderFieldTable)"

definition serverResponseCriticalHeaderFieldTable :: "criticalEntry list" where
  "serverResponseCriticalHeaderFieldTable = map critical
    [(''server'', None, None),
     (''set-cookie'', None, None),
     (''upgrade'', None, None),
     (''date'', Some ''_insertDate'', Some ''_removeDate''),
     (''transfer-encoding'', None, None),
     (''connection'', None, None),
     (''last-modified'', Some ''_insertLastModified'', Some ''_removeLastModified''),
     (''expires'', Some ''_insertExpires'', Some ''_removeExpires''),
     (''content-length'', None, None),
     (''content-type'', Some ''_insertContentType'', Some ''_removeContentType'')]"

definition serverResponseCriticalHeaderFieldFind :: "uint16 \<Rightarrow> nat option" where
  "serverResponseCriticalHeaderFieldFind = hashFind 113100 (length serverResponseCriticalHeaderFieldTable)"

definition backendResponseSingletonHeaderFieldTable :: "fieldEntry list" where
  "backendResponseSingletonHeaderFieldTable = map entry
    [(False, field ''last-modified'' False False False False, ''checkLastModified''),
     (True, field ''content-location'' True False False False, ''checkContentLocation''),
     (False, field ''set-cookie'' False False False False, ''checkSetCookie''),
     (False, field ''content-range'' False False False False, ''checkContentRange''),
     (False, field ''etag'' False False False False, ''checkETag''),
     (False, field ''retry-after'' False False False False, ''checkRetryAfter''),
     (False, field ''location'' False False False False, ''checkLocation''),
     (False, field ''server'' False False False True, ''checkServer''),
     (False, field ''content-disposition'' True False True False, ''checkContentDisposition''),
     (True, field ''content-type'' False False True False, ''checkContentType''),
     (False, field ''date'' False False False False, ''checkDate''),
     (False, field ''content-length'' False False False False, ''checkContentLength''),
     (False, field ''age'' False False False False, ''checkAge''),
     (False, field ''expires'' False False False False, ''checkExpires'')]"

definition backendResponseSingletonHeaderFieldFind :: "uint16 \<Rightarrow> nat option" where
  "backendResponseSingletonHeaderFieldFind = hashFind 3568946 (length backendResponseSingletonHeaderFieldTable)"

definition backendResponseImportantHeaderFieldTable :: "fieldEntry list" where
  "backendResponseImportantHeaderFieldTable = map entry
    [(False, field ''accept'' False True True False, ''checkAccept''),
     (False, field ''alt-svc'' False False True False, ''checkAltSvc''),
     (False, field ''content-encoding'' False False False False, ''checkContentEncoding''),
     (False, field ''via'' False False False True, ''checkVia''),
     (False, field ''accept-encoding'' False True True False, ''checkAcceptEncoding''),
     (False, field ''keep-alive'' False False False False, ''checkKeepAlive''),
     (False, field ''cdn-cache-control'' False False False False, ''checkCDNCacheControl''),
     (False, field ''cache-status'' False False True False, ''checkCacheStatus''),
     (False, field ''connection'' False False False False, ''checkConnection''),
     (False, field ''allow'' False True False False, ''checkAllow''),
     (False, field ''upgrade'' False False False False, ''checkUpgrade''),
     (False, field ''content-language'' False False False False, ''checkContentLanguage''),
     (False, field ''proxy-connection'' False False False False, ''checkProxyConnection''),
     (False, field ''www-authenticate'' False False False False, ''checkWWWAuthenticate''),
     (False, field ''trailer'' False False False False, ''checkTrailer''),
     (False, field ''cache-control'' False False False False, ''checkCacheControl''),
     (False, field ''proxy-authenticate'' False False False False, ''checkProxyAuthenticate''),
     (False, field ''transfer-encoding'' False False False False, ''checkTransferEncoding''),
     (False, field ''vary'' False False False False, ''checkVary''),
     (False, field ''accept-ranges'' False False False False, ''checkAcceptRanges'')]"

definition backendResponseImportantHeaderFieldFind :: "uint16 \<Rightarrow> nat option" where
  "backendResponseImportantHeaderFieldFind = hashFind 964916190 (length backendResponseImportantHeaderFieldTable)"

definition backendRequestCriticalHeaderFieldTable :: "criticalEntry list" where
  "backendRequestCriticalHeaderFieldTable = map critical
    [(''content-length'', None, None),
     (''connection'', None, None),
     (''if-range'', Some ''_insertIfRange'', Some ''_removeIfRange''),
     (''upgrade'', None, None),
     (''if-modified-since'', Some ''_insertIfModifiedSince'', Some ''_removeIfModifiedSince''),
     (''if-unmodified-since'', Some ''_insertIfUnmodifiedSince'', Some ''_removeIfUnmodifiedSince''),
     (''host'', Some ''_insertHost'', Some ''_removeHost''),
     (''transfer-encoding'', None, None),
     (''content-type'', Some ''_insertContentType'', Some ''_removeContentType''),
     (''cookie'', None, None),
     (''date'', Some ''_insertDate'', Some ''_removeDate''),
     (''via'', None, None)]"

definition backendRequestCriticalHeaderFieldFind :: "uint16 \<Rightarrow> nat option" where
  "backendRequestCriticalHeaderFieldFind = hashFind 645048 (length backendRequestCriticalHeaderFieldTable)"

lemma fieldHashes_correct: "list_all (\<lambda>(n, h). bytesHash n = h) fieldHashes"
  by (simp add: fieldHashes_def bytesHash_def)

text \<open>
  The names are distinct.  Comparing them octet by octet with an early exit keeps the evaluation
  short, which the built-in equality of lists does not.
\<close>

fun sameBytes :: "bytes \<Rightarrow> bytes \<Rightarrow> bool" where
  "sameBytes [] [] = True"
| "sameBytes (x # xs) (y # ys) = (if x = y then sameBytes xs ys else False)"
| "sameBytes [] (y # ys) = False"
| "sameBytes (x # xs) [] = False"

lemma sameBytes_eq: "sameBytes xs ys \<longleftrightarrow> xs = ys"
  by (induction xs ys rule: sameBytes.induct) auto

lemma fieldHashes_distinct: "distinct (map fst fieldHashes)"
  unfolding fieldHashes_def
  by (simp only: list.map fst_conv prod.case of_char_Char)
    (simp add: sameBytes_eq [symmetric] del: list.inject cong: if_weak_cong)

lemma hashOf_in: "(bs n, h) \<in> set fieldHashes \<Longrightarrow> hashOf n = h"
  using map_of_is_SomeI [OF fieldHashes_distinct] by (simp add: hashOf_def)

lemma hashOf_values:
  "hashOf ''accept'' = 624"
  "hashOf ''accept-encoding'' = 1508"
  "hashOf ''cache-control'' = 1314"
  "hashOf ''connection'' = 1072"
  "hashOf ''content-encoding'' = 1647"
  "hashOf ''content-language'' = 1644"
  "hashOf ''content-length'' = 1450"
  "hashOf ''content-location'' = 1665"
  "hashOf ''content-range'' = 1333"
  "hashOf ''content-type'' = 1258"
  "hashOf ''date'' = 414"
  "hashOf ''keep-alive'' = 995"
  "hashOf ''trailer'' = 755"
  "hashOf ''transfer-encoding'' = 1753"
  "hashOf ''upgrade'' = 744"
  "hashOf ''via'' = 320"
  "hashOf ''accept-language'' = 1505"
  "hashOf ''authorization'' = 1425"
  "hashOf ''cookie'' = 634"
  "hashOf ''expect'' = 649"
  "hashOf ''forwarded'' = 958"
  "hashOf ''host'' = 446"
  "hashOf ''if-match'' = 777"
  "hashOf ''if-modified-since'' = 1660"
  "hashOf ''if-none-match'' = 1254"
  "hashOf ''if-range'' = 777"
  "hashOf ''if-unmodified-since'' = 1887"
  "hashOf ''max-forwards'' = 1243"
  "hashOf ''proxy-authorization'' = 2048"
  "hashOf ''proxy-connection'' = 1695"
  "hashOf ''range'' = 525"
  "hashOf ''referer'' = 747"
  "hashOf ''te'' = 217"
  "hashOf ''user-agent'' = 1019"
  "hashOf ''x-forwarded-by'' = 1387"
  "hashOf ''x-forwarded-for'' = 1495"
  "hashOf ''x-forwarded-host'' = 1614"
  "hashOf ''x-forwarded-proto'' = 1732"
  "hashOf ''accept-ranges'' = 1309"
  "hashOf ''age'' = 301"
  "hashOf ''allow'' = 543"
  "hashOf ''alt-svc'' = 698"
  "hashOf ''cache-status'' = 1221"
  "hashOf ''cdn-cache-control'' = 1668"
  "hashOf ''content-disposition'' = 2013"
  "hashOf ''etag'' = 417"
  "hashOf ''expires'' = 768"
  "hashOf ''last-modified'' = 1314"
  "hashOf ''location'' = 857"
  "hashOf ''proxy-authenticate'' = 1902"
  "hashOf ''retry-after'' = 1141"
  "hashOf ''server'' = 663"
  "hashOf ''set-cookie'' = 1011"
  "hashOf ''vary'' = 450"
  "hashOf ''www-authenticate'' = 1681"
  by (rule hashOf_in, simp only: fieldHashes_def list.map prod.case list.set insert_iff simp_thms)+

lemma hashOf_correct:
  assumes "hashOf n \<noteq> 0"
  shows "bytesHash (bs n) = hashOf n"
  using assms fieldHashes_correct
  by (auto simp: hashOf_def list_all_iff dest: map_of_SomeD split: option.splits)

lemma entry_hashed [simp]:
  "hashOf n \<noteq> 0 \<Longrightarrow>
   bytesHash (entryName (entry (p, field n q e a c, ck))) = entryHash (entry (p, field n q e a c, ck))"
  by (simp add: entry_def field_def hashOf_correct)

lemma critical_hashed [simp]:
  "hashOf n \<noteq> 0 \<Longrightarrow> bytesHash (criticalName (critical (n, i, r))) = criticalHash (critical (n, i, r))"
  by (simp add: critical_def hashOf_correct)

lemma entryHash_entry: "entryHash (entry (p, field n q e a c, ck)) = hashOf n"
  by (simp add: entry_def field_def)

lemma criticalHash_critical: "criticalHash (critical (n, i, r)) = hashOf n"
  by (simp add: critical_def)

lemmas table_simps = entryHash_entry criticalHash_critical hashOf_values hashFind_def upt_conv_Cons perfect_def

text \<open>Every table meets the contract.\<close>

lemma serverRequestSingletonHeaderField_perfect: "perfect 8175626 entryHash entryName serverRequestSingletonHeaderFieldTable"
  by (simp add: serverRequestSingletonHeaderFieldTable_def table_simps hashOf_values)

lemma serverRequestImportantHeaderField_perfect: "perfect 271995178 entryHash entryName serverRequestImportantHeaderFieldTable"
  by (simp add: serverRequestImportantHeaderFieldTable_def table_simps hashOf_values)

lemma serverResponseCriticalHeaderField_perfect: "perfect 113100 criticalHash criticalName serverResponseCriticalHeaderFieldTable"
  by (simp add: serverResponseCriticalHeaderFieldTable_def table_simps hashOf_values)

lemma backendResponseSingletonHeaderField_perfect: "perfect 3568946 entryHash entryName backendResponseSingletonHeaderFieldTable"
  by (simp add: backendResponseSingletonHeaderFieldTable_def table_simps hashOf_values)

lemma backendResponseImportantHeaderField_perfect: "perfect 964916190 entryHash entryName backendResponseImportantHeaderFieldTable"
  by (simp add: backendResponseImportantHeaderFieldTable_def table_simps hashOf_values)

lemma backendRequestCriticalHeaderField_perfect: "perfect 645048 criticalHash criticalName backendRequestCriticalHeaderFieldTable"
  by (simp add: backendRequestCriticalHeaderFieldTable_def table_simps hashOf_values)

interpretation requestSingleton: perfect_hash serverRequestSingletonHeaderFieldFind serverRequestSingletonHeaderFieldTable
  entryHash entryName
  by (rule perfect_hashI [OF serverRequestSingletonHeaderField_perfect serverRequestSingletonHeaderFieldFind_def])

interpretation requestImportant: perfect_hash serverRequestImportantHeaderFieldFind serverRequestImportantHeaderFieldTable entryHash entryName
  by (rule perfect_hashI [OF serverRequestImportantHeaderField_perfect serverRequestImportantHeaderFieldFind_def])

interpretation responseCritical: perfect_hash serverResponseCriticalHeaderFieldFind serverResponseCriticalHeaderFieldTable criticalHash criticalName
  by (rule perfect_hashI [OF serverResponseCriticalHeaderField_perfect serverResponseCriticalHeaderFieldFind_def])

interpretation backendSingleton: perfect_hash backendResponseSingletonHeaderFieldFind backendResponseSingletonHeaderFieldTable entryHash entryName
  by (rule perfect_hashI [OF backendResponseSingletonHeaderField_perfect backendResponseSingletonHeaderFieldFind_def])

interpretation backendImportant: perfect_hash backendResponseImportantHeaderFieldFind backendResponseImportantHeaderFieldTable entryHash entryName
  by (rule perfect_hashI [OF backendResponseImportantHeaderField_perfect backendResponseImportantHeaderFieldFind_def])

interpretation backendCritical: perfect_hash backendRequestCriticalHeaderFieldFind backendRequestCriticalHeaderFieldTable criticalHash criticalName
  by (rule perfect_hashI [OF backendRequestCriticalHeaderField_perfect backendRequestCriticalHeaderFieldFind_def])

subsection \<open>Classes of octets\<close>

text \<open>The tables are indexed by octets, so an index is never out of range.\<close>

definition httpTchar :: "nat list" where
  "httpTchar =
    [0, 0, 0, 0, 0, 0, 0, 0, 0, 0, 0, 0, 0, 0, 0, 0,
     0, 0, 0, 0, 0, 0, 0, 0, 0, 0, 0, 0, 0, 0, 0, 0,
     0, 1, 0, 1, 1, 1, 1, 1, 0, 0, 1, 1, 0, 1, 1, 0,
     1, 1, 1, 1, 1, 1, 1, 1, 1, 1, 0, 0, 0, 0, 0, 0,
     0, 2, 2, 2, 2, 2, 2, 2, 2, 2, 2, 2, 2, 2, 2, 2,
     2, 2, 2, 2, 2, 2, 2, 2, 2, 2, 2, 0, 0, 0, 1, 3,
     1, 1, 1, 1, 1, 1, 1, 1, 1, 1, 1, 1, 1, 1, 1, 1,
     1, 1, 1, 1, 1, 1, 1, 1, 1, 1, 1, 0, 1, 0, 1, 0,
     0, 0, 0, 0, 0, 0, 0, 0, 0, 0, 0, 0, 0, 0, 0, 0,
     0, 0, 0, 0, 0, 0, 0, 0, 0, 0, 0, 0, 0, 0, 0, 0,
     0, 0, 0, 0, 0, 0, 0, 0, 0, 0, 0, 0, 0, 0, 0, 0,
     0, 0, 0, 0, 0, 0, 0, 0, 0, 0, 0, 0, 0, 0, 0, 0,
     0, 0, 0, 0, 0, 0, 0, 0, 0, 0, 0, 0, 0, 0, 0, 0,
     0, 0, 0, 0, 0, 0, 0, 0, 0, 0, 0, 0, 0, 0, 0, 0,
     0, 0, 0, 0, 0, 0, 0, 0, 0, 0, 0, 0, 0, 0, 0, 0,
     0, 0, 0, 0, 0, 0, 0, 0, 0, 0, 0, 0, 0, 0, 0, 0]"

definition httpPchar :: "nat list" where
  "httpPchar =
    [0, 0, 0, 0, 0, 0, 0, 0, 0, 0, 0, 0, 0, 0, 0, 0,
     0, 0, 0, 0, 0, 0, 0, 0, 0, 0, 0, 0, 0, 0, 0, 0,
     0, 1, 0, 0, 1, 0, 1, 1, 1, 1, 1, 1, 1, 1, 1, 1,
     1, 1, 1, 1, 1, 1, 1, 1, 1, 1, 1, 1, 0, 1, 0, 2,
     1, 1, 1, 1, 1, 1, 1, 1, 1, 1, 1, 1, 1, 1, 1, 1,
     1, 1, 1, 1, 1, 1, 1, 1, 1, 1, 1, 0, 0, 0, 0, 1,
     0, 1, 1, 1, 1, 1, 1, 1, 1, 1, 1, 1, 1, 1, 1, 1,
     1, 1, 1, 1, 1, 1, 1, 1, 1, 1, 1, 0, 0, 0, 1, 0,
     0, 0, 0, 0, 0, 0, 0, 0, 0, 0, 0, 0, 0, 0, 0, 0,
     0, 0, 0, 0, 0, 0, 0, 0, 0, 0, 0, 0, 0, 0, 0, 0,
     0, 0, 0, 0, 0, 0, 0, 0, 0, 0, 0, 0, 0, 0, 0, 0,
     0, 0, 0, 0, 0, 0, 0, 0, 0, 0, 0, 0, 0, 0, 0, 0,
     0, 0, 0, 0, 0, 0, 0, 0, 0, 0, 0, 0, 0, 0, 0, 0,
     0, 0, 0, 0, 0, 0, 0, 0, 0, 0, 0, 0, 0, 0, 0, 0,
     0, 0, 0, 0, 0, 0, 0, 0, 0, 0, 0, 0, 0, 0, 0, 0,
     0, 0, 0, 0, 0, 0, 0, 0, 0, 0, 0, 0, 0, 0, 0, 0]"

definition httpKchar :: "nat list" where
  "httpKchar =
    [0, 0, 0, 0, 0, 0, 0, 0, 0, 0, 0, 0, 0, 0, 0, 0,
     0, 0, 0, 0, 0, 0, 0, 0, 0, 0, 0, 0, 0, 0, 0, 0,
     0, 1, 0, 1, 1, 1, 1, 1, 1, 1, 1, 1, 0, 1, 1, 1,
     1, 1, 1, 1, 1, 1, 1, 1, 1, 1, 1, 0, 1, 1, 1, 1,
     1, 1, 1, 1, 1, 1, 1, 1, 1, 1, 1, 1, 1, 1, 1, 1,
     1, 1, 1, 1, 1, 1, 1, 1, 1, 1, 1, 1, 0, 1, 1, 1,
     1, 1, 1, 1, 1, 1, 1, 1, 1, 1, 1, 1, 1, 1, 1, 1,
     1, 1, 1, 1, 1, 1, 1, 1, 1, 1, 1, 1, 1, 1, 1, 0,
     0, 0, 0, 0, 0, 0, 0, 0, 0, 0, 0, 0, 0, 0, 0, 0,
     0, 0, 0, 0, 0, 0, 0, 0, 0, 0, 0, 0, 0, 0, 0, 0,
     0, 0, 0, 0, 0, 0, 0, 0, 0, 0, 0, 0, 0, 0, 0, 0,
     0, 0, 0, 0, 0, 0, 0, 0, 0, 0, 0, 0, 0, 0, 0, 0,
     0, 0, 0, 0, 0, 0, 0, 0, 0, 0, 0, 0, 0, 0, 0, 0,
     0, 0, 0, 0, 0, 0, 0, 0, 0, 0, 0, 0, 0, 0, 0, 0,
     0, 0, 0, 0, 0, 0, 0, 0, 0, 0, 0, 0, 0, 0, 0, 0,
     0, 0, 0, 0, 0, 0, 0, 0, 0, 0, 0, 0, 0, 0, 0, 0]"

definition httpHchar :: "nat list" where
  "httpHchar =
    [0, 0, 0, 0, 0, 0, 0, 0, 0, 0, 0, 0, 0, 0, 0, 0,
     0, 0, 0, 0, 0, 0, 0, 0, 0, 0, 0, 0, 0, 0, 0, 0,
     0, 0, 0, 0, 0, 0, 0, 0, 0, 0, 0, 0, 0, 1, 1, 0,
     1, 1, 1, 1, 1, 1, 1, 1, 1, 1, 0, 0, 0, 0, 0, 0,
     0, 0, 0, 0, 0, 0, 0, 0, 0, 0, 0, 0, 0, 0, 0, 0,
     0, 0, 0, 0, 0, 0, 0, 0, 0, 0, 0, 0, 0, 0, 0, 0,
     0, 1, 1, 1, 1, 1, 1, 1, 1, 1, 1, 1, 1, 1, 1, 1,
     1, 1, 1, 1, 1, 1, 1, 1, 1, 1, 1, 0, 0, 0, 0, 0,
     0, 0, 0, 0, 0, 0, 0, 0, 0, 0, 0, 0, 0, 0, 0, 0,
     0, 0, 0, 0, 0, 0, 0, 0, 0, 0, 0, 0, 0, 0, 0, 0,
     0, 0, 0, 0, 0, 0, 0, 0, 0, 0, 0, 0, 0, 0, 0, 0,
     0, 0, 0, 0, 0, 0, 0, 0, 0, 0, 0, 0, 0, 0, 0, 0,
     0, 0, 0, 0, 0, 0, 0, 0, 0, 0, 0, 0, 0, 0, 0, 0,
     0, 0, 0, 0, 0, 0, 0, 0, 0, 0, 0, 0, 0, 0, 0, 0,
     0, 0, 0, 0, 0, 0, 0, 0, 0, 0, 0, 0, 0, 0, 0, 0,
     0, 0, 0, 0, 0, 0, 0, 0, 0, 0, 0, 0, 0, 0, 0, 0]"

definition isTchar :: "byte \<Rightarrow> bool" where
  "isTchar b \<longleftrightarrow> httpTchar ! unat b \<noteq> 0"

subsection \<open>Methods\<close>

record methodEntry =
  methodHash :: uint16
  methodFrom :: nat
  methodEdge :: nat
  methodCode :: uint32

definition serverMethodBytes :: bytes where
  "serverMethodBytes = bs ''GET HEAD POST PUT DELETE CONNECT OPTIONS TRACE''"

definition MethodGET :: uint32 where "MethodGET = 0x00000001"
definition MethodHEAD :: uint32 where "MethodHEAD = 0x00000002"
definition MethodPOST :: uint32 where "MethodPOST = 0x00000004"
definition MethodPUT :: uint32 where "MethodPUT = 0x00000008"
definition MethodDELETE :: uint32 where "MethodDELETE = 0x00000010"
definition MethodCONNECT :: uint32 where "MethodCONNECT = 0x00000020"
definition MethodOPTIONS :: uint32 where "MethodOPTIONS = 0x00000040"
definition MethodTRACE :: uint32 where "MethodTRACE = 0x00000080"

definition methodRow :: "uint16 \<times> nat \<times> nat \<times> uint32 \<Rightarrow> methodEntry" where
  "methodRow = (\<lambda>(h, a, b, c). \<lparr>methodHash = h, methodFrom = a, methodEdge = b, methodCode = c\<rparr>)"

definition serverMethodTable :: "methodEntry list" where
  "serverMethodTable = map methodRow
    [(326, 9, 13, MethodPOST),
     (274, 4, 8, MethodHEAD),
     (249, 14, 17, MethodPUT),
     (224, 0, 3, MethodGET),
     (556, 33, 40, MethodOPTIONS),
     (522, 25, 32, MethodCONNECT),
     (435, 18, 24, MethodDELETE),
     (367, 41, 46, MethodTRACE)]"

definition serverMethodFind :: "uint16 \<Rightarrow> nat option" where
  "serverMethodFind = hashFind 2610 (length serverMethodTable)"

definition methodName :: "methodEntry \<Rightarrow> bytes" where
  "methodName m = slice serverMethodBytes (methodFrom m) (methodEdge m)"

text \<open>\<open>recognizeMethod\<close>: the code of the request is only set for a method of the table.\<close>

definition recognizeMethod :: "bytes \<Rightarrow> uint16 \<Rightarrow> uint32 \<Rightarrow> uint32 option" where
  "recognizeMethod method hash code =
    (case tableLookup serverMethodFind serverMethodTable methodHash methodName hash method of
       None \<Rightarrow> None
     | Some None \<Rightarrow> Some code
     | Some (Some m) \<Rightarrow> Some (methodCode m))"

lemma methodName_simps:
  "methodName (methodRow (h, a, b, c)) = slice serverMethodBytes a b"
  "methodHash (methodRow (h, a, b, c)) = h" "methodCode (methodRow (h, a, b, c)) = c"
  by (simp_all add: methodName_def methodRow_def)

lemma methodNames:
  "map methodName serverMethodTable =
    [bs ''POST'', bs ''HEAD'', bs ''PUT'', bs ''GET'', bs ''OPTIONS'', bs ''CONNECT'', bs ''DELETE'', bs ''TRACE'']"
  by (simp add: serverMethodTable_def methodName_simps serverMethodBytes_def slice_def)

lemma serverMethod_perfect: "perfect 2610 methodHash methodName serverMethodTable"
proof -
  have "map (\<lambda>e. bytesHash (methodName e)) serverMethodTable = map bytesHash (map methodName serverMethodTable)"
    by simp
  also have "\<dots> = map methodHash serverMethodTable"
    unfolding methodNames by (simp add: serverMethodTable_def methodName_simps bytesHash_def)
  finally have names: "map (\<lambda>e. bytesHash (methodName e)) serverMethodTable = map methodHash serverMethodTable" .
  have "map (\<lambda>e. hashFind 2610 8 (methodHash e)) serverMethodTable = map Some [0..<8]"
    by (simp add: serverMethodTable_def methodName_simps hashFind_def upt_conv_Cons)
  moreover have "length serverMethodTable = 8"
    by (simp add: serverMethodTable_def)
  ultimately show ?thesis
    unfolding perfect_def using names by auto
qed

interpretation serverMethod: perfect_hash serverMethodFind serverMethodTable methodHash methodName
  by (rule perfect_hashI [OF serverMethod_perfect serverMethodFind_def])

definition knownMethods :: "(bytes \<times> uint32) list" where
  "knownMethods = [(bs ''GET'', MethodGET), (bs ''HEAD'', MethodHEAD), (bs ''POST'', MethodPOST),
     (bs ''PUT'', MethodPUT), (bs ''DELETE'', MethodDELETE), (bs ''CONNECT'', MethodCONNECT),
     (bs ''OPTIONS'', MethodOPTIONS), (bs ''TRACE'', MethodTRACE)]"

text \<open>C33: A method whose hash is not 0 is recognised exactly: it gets the code of the method it is,
  byte by byte, and any other method leaves the code as it was.\<close>

theorem recognizeMethod_correct:
  assumes "bytesHash m \<noteq> 0"
  shows "recognizeMethod m (bytesHash m) code =
    Some (case map_of knownMethods m of Some c \<Rightarrow> c | None \<Rightarrow> code)"
proof -
  have lookup: "recognizeMethod m (bytesHash m) code =
    Some (case List.find (\<lambda>e. methodName e = m) serverMethodTable of Some e \<Rightarrow> methodCode e | None \<Rightarrow> code)"
    by (simp add: recognizeMethod_def serverMethod.lookup_exact [OF assms] split: option.split)
  show ?thesis
  proof (cases "m \<in> set (map fst knownMethods)")
    case True
    then consider "m = bs ''GET''" | "m = bs ''HEAD''" | "m = bs ''POST''" | "m = bs ''PUT''"
      | "m = bs ''DELETE''" | "m = bs ''CONNECT''" | "m = bs ''OPTIONS''" | "m = bs ''TRACE''"
      unfolding knownMethods_def list.map fst_conv list.set by blast
    then show ?thesis
      unfolding lookup
      by cases (simp_all add: serverMethodTable_def methodName_simps serverMethodBytes_def slice_def
          knownMethods_def)
  next
    case False
    then have none: "map_of knownMethods m = None"
      by (simp add: map_of_eq_None_iff)
    have "set (map methodName serverMethodTable) \<subseteq> set (map fst knownMethods)"
      unfolding methodNames by (simp add: knownMethods_def)
    then have "List.find (\<lambda>e. methodName e = m) serverMethodTable = None"
      using False by (auto simp: find_None_iff)
    with none show ?thesis
      by (simp add: lookup)
  qed
qed

theorem recognizeMethod_correct_witness:
  "recognizeMethod (bs ''PUT'') (bytesHash (bs ''PUT'')) 0 = Some MethodPUT"
  using recognizeMethod_correct [of "bs ''PUT''" 0] by (simp add: bytesHash_def knownMethods_def)

text \<open>C32: A request line can bring the server down: there is a method of legal octets, 521 of them,
  whose hash wraps around to 0, and looking it up divides by 0, a run-time panic that nothing
  recovers.\<close>

theorem recognizeMethod_divides_by_zero:
  "\<exists>m. list_all isTchar m \<and> length m = 521 \<and> recognizeMethod m (bytesHash m) code = None"
proof -
  define m where "m = bs ''GG'' @ replicate 519 (ch CHR ''~'')"
  have hash: "bytesHash (p @ replicate n b) = bytesHash p + of_nat n * ucast b" for p n and b :: byte
    by (induction n arbitrary: p) (simp_all add: bytesHash_def replicate_append_same [symmetric] algebra_simps)
  have "bytesHash m = 0"
    unfolding m_def hash by (simp add: bytesHash_def)
  moreover have "list_all isTchar m"
    by (auto simp: m_def list_all_iff isTchar_def httpTchar_def)
  moreover have "length m = 521"
    by (simp add: m_def)
  ultimately show ?thesis
    by (intro exI [of _ m]) (simp add: recognizeMethod_def tableLookup_def serverMethodFind_def hashFind_def)
qed

subsection \<open>Lookups\<close>

definition requestSingletonOf :: "uint16 \<Rightarrow> bytes \<Rightarrow> fieldEntry option option" where
  "requestSingletonOf =
    tableLookup serverRequestSingletonHeaderFieldFind serverRequestSingletonHeaderFieldTable entryHash entryName"

definition requestImportantOf :: "uint16 \<Rightarrow> bytes \<Rightarrow> fieldEntry option option" where
  "requestImportantOf =
    tableLookup serverRequestImportantHeaderFieldFind serverRequestImportantHeaderFieldTable entryHash entryName"

definition responseSingletonOf :: "uint16 \<Rightarrow> bytes \<Rightarrow> fieldEntry option option" where
  "responseSingletonOf =
    tableLookup backendResponseSingletonHeaderFieldFind backendResponseSingletonHeaderFieldTable entryHash entryName"

definition responseImportantOf :: "uint16 \<Rightarrow> bytes \<Rightarrow> fieldEntry option option" where
  "responseImportantOf =
    tableLookup backendResponseImportantHeaderFieldFind backendResponseImportantHeaderFieldTable entryHash entryName"

text \<open>
  \<open>_applyHeaderLine\<close>: a field is a singleton, an important list-based field, or any other field.
  The check of the entry runs after its line is parsed or split; both are left to the caller.
\<close>

datatype fieldClass = Singleton fieldEntry | Important fieldEntry | Ordinary

definition classify ::
  "(uint16 \<Rightarrow> bytes \<Rightarrow> fieldEntry option option) \<Rightarrow> (uint16 \<Rightarrow> bytes \<Rightarrow> fieldEntry option option) \<Rightarrow> uint16 \<Rightarrow> bytes \<Rightarrow> fieldClass option" where
  "classify singletonOf importantOf hash w = do {
     s \<leftarrow> singletonOf hash w;
     (case s of
        Some e \<Rightarrow> Some (Singleton e)
      | None \<Rightarrow> do {
          i \<leftarrow> importantOf hash w;
          Some (case i of Some e \<Rightarrow> Important e | None \<Rightarrow> Ordinary)
        })
   }"

definition serverRequest_classify :: "uint16 \<Rightarrow> bytes \<Rightarrow> fieldClass option" where
  "serverRequest_classify = classify requestSingletonOf requestImportantOf"

definition backendResponse_classify :: "uint16 \<Rightarrow> bytes \<Rightarrow> fieldClass option" where
  "backendResponse_classify = classify responseSingletonOf responseImportantOf"

text \<open>\<open>insertHeader\<close> and \<open>removeHeader\<close>: a restricted field is left alone and success pretended.\<close>

datatype fieldAction = Pretend | Call string | Generic

definition criticalAction :: "(criticalEntry \<Rightarrow> string option) \<Rightarrow> criticalEntry option \<Rightarrow> fieldAction" where
  "criticalAction method e =
    (case e of None \<Rightarrow> Generic | Some e \<Rightarrow> (case method e of None \<Rightarrow> Pretend | Some f \<Rightarrow> Call f))"

definition serverResponse_insertHeader :: "uint16 \<Rightarrow> bytes \<Rightarrow> fieldAction option" where
  "serverResponse_insertHeader hash w = map_option (criticalAction inserter)
     (tableLookup serverResponseCriticalHeaderFieldFind serverResponseCriticalHeaderFieldTable criticalHash criticalName hash w)"

definition serverResponse_removeHeader :: "uint16 \<Rightarrow> bytes \<Rightarrow> fieldAction option" where
  "serverResponse_removeHeader hash w = map_option (criticalAction remover)
     (tableLookup serverResponseCriticalHeaderFieldFind serverResponseCriticalHeaderFieldTable criticalHash criticalName hash w)"

definition backendRequest_insertHeader :: "uint16 \<Rightarrow> bytes \<Rightarrow> fieldAction option" where
  "backendRequest_insertHeader hash w = map_option (criticalAction inserter)
     (tableLookup backendRequestCriticalHeaderFieldFind backendRequestCriticalHeaderFieldTable criticalHash criticalName hash w)"

definition backendRequest_removeHeader :: "uint16 \<Rightarrow> bytes \<Rightarrow> fieldAction option" where
  "backendRequest_removeHeader hash w = map_option (criticalAction remover)
     (tableLookup backendRequestCriticalHeaderFieldFind backendRequestCriticalHeaderFieldTable criticalHash criticalName hash w)"

text \<open>The reference: search the tables from the front for the name, and never mind hashes.\<close>

definition classOf :: "fieldEntry list \<Rightarrow> fieldEntry list \<Rightarrow> bytes \<Rightarrow> fieldClass" where
  "classOf singletons importants w =
    (case List.find (\<lambda>e. entryName e = w) singletons of
       Some e \<Rightarrow> Singleton e
     | None \<Rightarrow> (case List.find (\<lambda>e. entryName e = w) importants of Some e \<Rightarrow> Important e | None \<Rightarrow> Ordinary))"

text \<open>C34: The perfect hash tables of the header fields are exact: under the hash of its name a field
  of a request, and one of a backend's response, is found in the table of singletons or of important
  fields exactly when the table has an entry of that name, and the same holds for the fields a
  response or a backend request treats specially when they are inserted or removed.\<close>

theorem headerTables_exact:
  assumes "bytesHash w \<noteq> 0"
  shows "serverRequest_classify (bytesHash w) w =
      Some (classOf serverRequestSingletonHeaderFieldTable serverRequestImportantHeaderFieldTable w) \<and>
    backendResponse_classify (bytesHash w) w =
      Some (classOf backendResponseSingletonHeaderFieldTable backendResponseImportantHeaderFieldTable w) \<and>
    serverResponse_insertHeader (bytesHash w) w = Some (criticalAction inserter
      (List.find (\<lambda>e. criticalName e = w) serverResponseCriticalHeaderFieldTable)) \<and>
    serverResponse_removeHeader (bytesHash w) w = Some (criticalAction remover
      (List.find (\<lambda>e. criticalName e = w) serverResponseCriticalHeaderFieldTable)) \<and>
    backendRequest_insertHeader (bytesHash w) w = Some (criticalAction inserter
      (List.find (\<lambda>e. criticalName e = w) backendRequestCriticalHeaderFieldTable)) \<and>
    backendRequest_removeHeader (bytesHash w) w = Some (criticalAction remover
      (List.find (\<lambda>e. criticalName e = w) backendRequestCriticalHeaderFieldTable))"
proof -
  note exact = requestSingleton.lookup_exact [OF assms] requestImportant.lookup_exact [OF assms]
    backendSingleton.lookup_exact [OF assms] backendImportant.lookup_exact [OF assms]
    responseCritical.lookup_exact [OF assms] backendCritical.lookup_exact [OF assms]
  show ?thesis
    by (simp add: serverRequest_classify_def backendResponse_classify_def classify_def classOf_def
        requestSingletonOf_def requestImportantOf_def responseSingletonOf_def responseImportantOf_def
        serverResponse_insertHeader_def serverResponse_removeHeader_def backendRequest_insertHeader_def
        backendRequest_removeHeader_def exact split: option.split)
qed

theorem headerTables_exact_witness:
  "serverResponse_insertHeader (bytesHash (bs ''te'')) (bs ''te'') = Some (criticalAction inserter
     (List.find (\<lambda>e. criticalName e = bs ''te'') serverResponseCriticalHeaderFieldTable))"
  using headerTables_exact [of "bs ''te''"] by (simp add: bytesHash_def)

end
