(* ===== verification/Clock.thy ===== *)
theory Clock
  imports HttpTables
begin

text \<open>
  Dates of HTTP (\<open>hemi/hemi_fixtures.go\<close>): the clock fixture, which packs the current second into the
  nibbles of an integer and prints it, \<open>clockWriteHTTPDate\<close> for any time, and \<open>clockParseHTTPDate\<close>
  for the three formats of RFC 9110.

  The calendar of Go's \<open>time\<close> package is \<open>unixDate\<close>.  Times are integers: for the years the code can
  print, the arithmetic of the source stays within 64 bits.  The lemmas show that what is written
  parses back, that the packed date prints the same text, and that the parser does not panic on a
  text without zero octets.
\<close>

subsection \<open>Dates of the standard library\<close>

text \<open>
  \<open>time.Unix(t, 0).UTC()\<close>: the calendar of Go's \<open>time\<close> package.  Days are counted from the first of
  January of year 0; \<open>daysBeforeYear\<close> and \<open>monthStart\<close> count the days before a year and, within it,
  before a month.
\<close>

definition leapYear :: "int \<Rightarrow> bool" where
  "leapYear y \<longleftrightarrow> y mod 4 = 0 \<and> (y mod 100 \<noteq> 0 \<or> y mod 400 = 0)"

definition daysBeforeYear :: "int \<Rightarrow> int" where
  "daysBeforeYear y = 365 * y + (y + 3) div 4 - (y + 99) div 100 + (y + 399) div 400"

definition yearOf :: "int \<Rightarrow> int" where
  "yearOf d = (let y = d * 400 div 146097 in
     if daysBeforeYear (y + 1) \<le> d then y + 1 else if d < daysBeforeYear y then y - 1 else y)"

definition monthStarts :: "int list" where
  "monthStarts = [0, 31, 59, 90, 120, 151, 181, 212, 243, 273, 304, 334]"

definition monthStart :: "bool \<Rightarrow> nat \<Rightarrow> int" where
  "monthStart leap m = monthStarts ! (m - 1) + (if leap \<and> m > 2 then 1 else 0)"

definition monthOf :: "bool \<Rightarrow> int \<Rightarrow> nat" where
  "monthOf leap yday = length (filter (\<lambda>m. monthStart leap m \<le> yday) [1..<13])"

record datetime =
  dyear :: int
  dmonth :: nat
  dday :: int
  dweekday :: nat
  dhour :: int
  dminute :: int
  dsecond :: int

definition unixDate :: "int \<Rightarrow> datetime" where
  "unixDate t =
    (let d = t div 86400 + 719528; s = t mod 86400; y = yearOf d; yd = d - daysBeforeYear y;
         m = monthOf (leapYear y) yd
     in \<lparr>dyear = y, dmonth = m, dday = yd - monthStart (leapYear y) m + 1,
         dweekday = nat ((t div 86400 + 4) mod 7),
         dhour = s div 3600, dminute = s mod 3600 div 60, dsecond = s mod 60\<rparr>)"

lemma div_succ_step:
  fixes y k :: int
  assumes "0 < k"
  shows "(y + k) div k = (y + (k - 1)) div k + (if y mod k = 0 then 1 else 0)"
proof -
  define q r where "q = y div k" and "r = y mod k"
  have r: "0 \<le> r" "r < k" using assms by (simp_all add: r_def)
  have y: "y = k * q + r" by (simp add: q_def r_def)
  have "(k * q + (r + (k - 1))) div k = q + (r + (k - 1)) div k" using assms by simp
  moreover have "(r + (k - 1)) div k = (if r = 0 then 0 else 1)"
    using r by (auto simp: div_pos_pos_trivial intro: int_div_pos_eq [of _ _ _ "r - 1"])
  moreover have "(r + k * (q + 1)) div k = q + 1" using assms r by simp
  then have "(y + k) div k = q + 1" by (simp add: y algebra_simps)
  moreover have "y mod k = r" by (simp add: r_def)
  ultimately show ?thesis by (simp add: y add.assoc)
qed

lemma div_succ_step':
  fixes y k k' :: int
  assumes "0 < k" "k' = k - 1"
  shows "(y + k) div k = (y + k') div k + (if y mod k = 0 then 1 else 0)"
  using div_succ_step [OF assms(1)] by (simp only: assms(2))

lemma daysBeforeYear_Suc: "daysBeforeYear (y + 1) = daysBeforeYear y + 365 + (if leapYear y then 1 else 0)"
proof -
  define e :: "int \<Rightarrow> int" where "e k = (if y mod k = 0 then 1 else 0)" for k
  have step: "(y + 4) div 4 = (y + 3) div 4 + e 4" "(y + 100) div 100 = (y + 99) div 100 + e 100"
    "(y + 400) div 400 = (y + 399) div 400 + e 400"
    unfolding e_def by (rule div_succ_step'; simp)+
  have d: "y mod 400 = 0 \<Longrightarrow> y mod 100 = 0" "y mod 100 = 0 \<Longrightarrow> y mod 4 = 0"
    using mod_mod_cancel [of 100 400 y] mod_mod_cancel [of 4 100 y] by simp_all
  have "daysBeforeYear (y + 1) = 365 * y + 365 + (y + 4) div 4 - (y + 100) div 100 + (y + 400) div 400"
    by (simp add: daysBeforeYear_def add.assoc)
  also have "\<dots> = daysBeforeYear y + 365 + (e 4 - e 100 + e 400)"
    unfolding step daysBeforeYear_def [of y] by (simp only: ac_simps diff_conv_add_uminus minus_add_distrib)
  finally have "daysBeforeYear (y + 1) = daysBeforeYear y + 365 + (e 4 - e 100 + e 400)" .
  moreover have "e 4 - e 100 + e 400 = (if leapYear y then 1 else 0)"
  proof (cases "y mod 400 = 0")
    case True
    with d show ?thesis by (simp add: e_def leapYear_def)
  next
    case False
    with d(2) show ?thesis by (cases "y mod 100 = 0") (simp_all add: e_def leapYear_def)
  qed
  ultimately show ?thesis by simp
qed

lemma ceiling_bounds:
  fixes z k :: int
  assumes "0 < k"
  shows "z \<le> k * ((z + (k - 1)) div k)" "k * ((z + (k - 1)) div k) \<le> z + (k - 1)"
proof -
  have "k * ((z + (k - 1)) div k) = z + (k - 1) - (z + (k - 1)) mod k"
    by (simp add: minus_mod_eq_mult_div)
  moreover have "0 \<le> (z + (k - 1)) mod k" "(z + (k - 1)) mod k < k" using assms by simp_all
  ultimately show "z \<le> k * ((z + (k - 1)) div k)" "k * ((z + (k - 1)) div k) \<le> z + (k - 1)"
    by linarith+
qed

lemma daysBeforeYear_bounds:
  "146097 * z - 396 \<le> 400 * daysBeforeYear z" "400 * daysBeforeYear z \<le> 146097 * z + 700"
proof -
  define a b c where "a = (z + 3) div 4" and "b = (z + 99) div 100" and "c = (z + 399) div 400"
  have bounds: "z \<le> 4 * a" "4 * a \<le> z + 3" "z \<le> 100 * b" "100 * b \<le> z + 99" "z \<le> 400 * c" "400 * c \<le> z + 399"
    using ceiling_bounds [of 4 z] ceiling_bounds [of 100 z] ceiling_bounds [of 400 z] unfolding a_def b_def c_def by simp_all
  have "400 * daysBeforeYear z = 146000 * z + 400 * a - 400 * b + 400 * c"
    unfolding daysBeforeYear_def a_def b_def c_def by (simp only: ring_distribs)
  with bounds show "146097 * z - 396 \<le> 400 * daysBeforeYear z" "400 * daysBeforeYear z \<le> 146097 * z + 700"
    by linarith+
qed

lemma yearOf_bounds: "daysBeforeYear (yearOf d) \<le> d" "d < daysBeforeYear (yearOf d + 1)"
proof -
  define y where "y = d * 400 div 146097"
  have y: "146097 * y \<le> 400 * d" "400 * d < 146097 * (y + 1)" unfolding y_def by auto
  have "daysBeforeYear (yearOf d) \<le> d \<and> d < daysBeforeYear (yearOf d + 1)"
    using y daysBeforeYear_bounds [of "y - 1"] daysBeforeYear_bounds [of y]
      daysBeforeYear_bounds [of "y + 1"] daysBeforeYear_bounds [of "y + 2"]
    by (auto simp: yearOf_def y_def [symmetric] Let_def add.commute)
  then show "daysBeforeYear (yearOf d) \<le> d" "d < daysBeforeYear (yearOf d + 1)" by simp_all
qed

lemma monthOf_bounds:
  assumes "0 \<le> yd" "yd < 365 + (if leap then 1 else 0)"
  shows "1 \<le> monthOf leap yd \<and> monthOf leap yd \<le> 12 \<and> monthStart leap (monthOf leap yd) \<le> yd \<and>
    (monthOf leap yd < 12 \<longrightarrow> yd < monthStart leap (monthOf leap yd + 1))"
  using assms by (simp add: monthOf_def monthStart_def monthStarts_def upt_rec numeral_2_eq_2 split: if_splits)

subsection \<open>Writing dates\<close>

definition clockHTTPDateSize :: nat where "clockHTTPDateSize = length ''Sun, 06 Nov 1994 08:49:37 GMT''"
definition clockASCTimeSize :: nat where "clockASCTimeSize = length ''Sun Nov  6 08:49:37 1994''"
definition clockDayString :: bytes where "clockDayString = bs ''SunMonTueWedThuFriSat''"
definition clockMonthString :: bytes where "clockMonthString = bs ''JanFebMarAprMayJunJulAugSepOctNovDec''"

lemma clockSizes [simp]: "clockHTTPDateSize = 29" "clockASCTimeSize = 24"
  by (simp_all add: clockHTTPDateSize_def clockASCTimeSize_def)

text \<open>The clock packs the decimal digits of the current second into nibbles.\<close>

definition packDate :: "datetime \<Rightarrow> int64" where
  "packDate now =
    (let date = 0;
         date = date OR push_bit 60 (word_of_int (dsecond now mod 10));
         date = date OR push_bit 56 (word_of_int (dsecond now div 10));
         date = date OR push_bit 52 (word_of_int (dminute now mod 10));
         date = date OR push_bit 48 (word_of_int (dminute now div 10));
         date = date OR push_bit 44 (word_of_int (dhour now mod 10));
         date = date OR push_bit 40 (word_of_int (dhour now div 10));
         date = date OR push_bit 36 (word_of_int (dyear now mod 10));
         date = date OR push_bit 32 (word_of_int (dyear now div 10 mod 10));
         date = date OR push_bit 28 (word_of_int (dyear now div 100 mod 10));
         date = date OR push_bit 24 (word_of_int (dyear now div 1000));
         date = date OR push_bit 20 (word_of_nat (dmonth now));
         date = date OR push_bit 16 (word_of_int (dday now mod 10));
         date = date OR push_bit 12 (word_of_int (dday now div 10));
         date = date OR push_bit 8 (word_of_nat (dweekday now))
     in date)"

text \<open>Three octets of a string from an index on; a panic when they are not there.\<close>

definition letters :: "bytes \<Rightarrow> nat \<Rightarrow> bytes option" where
  "letters s i = do { a \<leftarrow> idx s i; b \<leftarrow> idx s (i + 1); c \<leftarrow> idx s (i + 2); Some [a, b, c] }"

definition nibble :: "int64 \<Rightarrow> nat \<Rightarrow> int64" where
  "nibble date k = signed_drop_bit k date AND 0xF"

definition digitOf :: "int64 \<Rightarrow> byte" where
  "digitOf n = ucast n + ch CHR ''0''"

definition packedText :: "int64 \<Rightarrow> bytes option" where
  "packedText date = do {
     day \<leftarrow> letters clockDayString (3 * unat (nibble date 8));
     month \<leftarrow> (if nibble date 20 = 0 then None else letters clockMonthString (3 * (unat (nibble date 20) - 1)));
     Some (day @ bs '', '' @ [digitOf (nibble date 12), digitOf (nibble date 16)] @ bs '' '' @ month @ bs '' '' @
       [digitOf (nibble date 24), digitOf (nibble date 28), digitOf (nibble date 32), digitOf (nibble date 36)] @
       bs '' '' @ [digitOf (nibble date 40), digitOf (nibble date 44)] @ bs '':'' @
       [digitOf (nibble date 48), digitOf (nibble date 52)] @ bs '':'' @
       [digitOf (nibble date 56), digitOf (nibble date 60)] @ bs '' GMT'')
   }"

text \<open>The same layout for any date, as \<open>clockWriteHTTPDate\<close> writes it.\<close>

definition decimal :: "int \<Rightarrow> byte" where
  "decimal n = word_of_int n + ch CHR ''0''"

definition dateText :: "datetime \<Rightarrow> bytes option" where
  "dateText date = do {
     day \<leftarrow> letters clockDayString (3 * dweekday date);
     month \<leftarrow> (if dmonth date = 0 then None else letters clockMonthString (3 * (dmonth date - 1)));
     Some (day @ bs '', '' @ [decimal (dday date div 10), decimal (dday date mod 10)] @ bs '' '' @ month @ bs '' '' @
       [decimal (dyear date div 1000), decimal (dyear date div 100 mod 10), decimal (dyear date div 10 mod 10),
        decimal (dyear date mod 10)] @
       bs '' '' @ [decimal (dhour date div 10), decimal (dhour date mod 10)] @ bs '':'' @
       [decimal (dminute date div 10), decimal (dminute date mod 10)] @ bs '':'' @
       [decimal (dsecond date div 10), decimal (dsecond date mod 10)] @ bs '' GMT'')
   }"

text \<open>Writing into a slice that is too short panics.\<close>

definition writeAll :: "bytes \<Rightarrow> bytes \<Rightarrow> (bytes \<times> nat) option" where
  "writeAll dst src = (if length src \<le> length dst then Some (copyAt dst 0 src, length src) else None)"

definition clockWriteDate :: "int64 \<Rightarrow> bytes \<Rightarrow> (bytes \<times> nat) option" where
  "clockWriteDate date dst = do { s \<leftarrow> packedText date; writeAll dst s }"

definition clockWriteDate1 :: "int64 \<Rightarrow> bytes \<Rightarrow> (bytes \<times> nat) option" where
  "clockWriteDate1 date dst = do { s \<leftarrow> packedText date; writeAll dst (bs ''date: '' @ s @ [0x0D, 0x0A]) }"

definition clockWriteHTTPDate :: "bytes \<Rightarrow> datetime \<Rightarrow> (bytes \<times> nat) option" where
  "clockWriteHTTPDate dst date = (if length dst < clockHTTPDateSize then None
     else do { s \<leftarrow> dateText date; writeAll dst s })"

definition clockWriteHTTPDate1 :: "bytes \<Rightarrow> bytes \<Rightarrow> int \<Rightarrow> (bytes \<times> nat) option" where
  "clockWriteHTTPDate1 dst name t = do {
     s \<leftarrow> dateText (unixDate t);
     writeAll dst (name @ bs '': '' @ s @ [0x0D, 0x0A]) }"

subsection \<open>Parsing dates\<close>

text \<open>A failure with no value stands for the result \<open>0, false\<close>.\<close>

type_synonym 'a parsed = "(unit, 'a) outcome"

definition octetAt :: "bytes \<Rightarrow> nat \<Rightarrow> byte parsed" where
  "octetAt date i = checked (idx date i)"

abbreviation isDigit :: "byte \<Rightarrow> bool" where
  "isDigit b \<equiv> ch CHR ''0'' \<le> b \<and> b \<le> ch CHR ''9''"

definition digit :: "byte \<Rightarrow> int" where
  "digit b = int (unat (b - ch CHR ''0''))"

definition digits2 :: "byte \<Rightarrow> byte \<Rightarrow> int parsed" where
  "digits2 b0 b1 = (if isDigit b0 \<and> isDigit b1 then Done (digit b0 * 10 + digit b1) else Fail ())"

definition twoDigits :: "bytes \<Rightarrow> nat \<Rightarrow> int parsed" where
  "twoDigits date i = andThen (octetAt date i) (\<lambda>b0. andThen (octetAt date (i + 1)) (\<lambda>b1. digits2 b0 b1))"

definition fourDigits :: "bytes \<Rightarrow> nat \<Rightarrow> int parsed" where
  "fourDigits date i =
    andThen (octetAt date i) (\<lambda>b0. andThen (octetAt date (i + 1)) (\<lambda>b1.
    andThen (octetAt date (i + 2)) (\<lambda>b2. andThen (octetAt date (i + 3)) (\<lambda>b3.
    if isDigit b0 \<and> isDigit b1 \<and> isDigit b2 \<and> isDigit b3
    then Done (digit b0 * 1000 + digit b1 * 100 + digit b2 * 10 + digit b3) else Fail ()))))"

record clockMonth =
  cmHash :: uint16
  cmFrom :: nat
  cmEdge :: nat
  cmMonth :: nat
  cmDays :: int
  cmPast :: int

definition monthRow :: "uint16 \<times> nat \<times> nat \<times> nat \<times> int \<times> int \<Rightarrow> clockMonth" where
  "monthRow = (\<lambda>(h, a, b, m, ds, p). \<lparr>cmHash = h, cmFrom = a, cmEdge = b, cmMonth = m, cmDays = ds, cmPast = p\<rparr>)"

definition clockMonthTable :: "clockMonth list" where
  "clockMonthTable = map monthRow
    [(285, 21, 24, 8, 31, 212), (296, 24, 27, 9, 30, 243), (268, 33, 36, 12, 31, 334), (288, 6, 9, 3, 31, 59),
     (301, 15, 18, 6, 30, 151), (295, 12, 15, 5, 31, 120), (307, 30, 33, 11, 30, 304), (299, 18, 21, 7, 31, 181),
     (294, 27, 30, 10, 31, 273), (291, 9, 12, 4, 30, 90), (269, 3, 6, 2, 28, 31), (281, 0, 3, 1, 31, 0)]"

definition clockMonthFind :: "uint16 \<Rightarrow> nat option" where
  "clockMonthFind = hashFind 5509728 (length clockMonthTable)"

definition clockMonthName :: "clockMonth \<Rightarrow> bytes" where
  "clockMonthName m = slice clockMonthString (cmFrom m) (cmEdge m)"

definition parseMonth :: "bytes \<Rightarrow> nat \<Rightarrow> clockMonth parsed" where
  "parseMonth date i =
    andThen (octetAt date i) (\<lambda>b0. andThen (octetAt date (i + 1)) (\<lambda>b1. andThen (octetAt date (i + 2)) (\<lambda>b2.
    andThen (checked (tableLookup clockMonthFind clockMonthTable cmHash clockMonthName
        (ucast b0 + ucast b1 + ucast b2) [b0, b1, b2])) (\<lambda>m.
    case m of None \<Rightarrow> Fail () | Some m \<Rightarrow> Done m))))"

text \<open>The size says which of the three formats it is, and where the day or the month begins.\<close>

datatype dateFormat = IMFDate | RFC850Date | ASCTime

definition parseFormat :: "bytes \<Rightarrow> (dateFormat \<times> nat) parsed" where
  "parseFormat date =
    (let n = length date in
     if n = clockHTTPDateSize then Done (IMFDate, 5)
     else if 30 \<le> n \<and> n \<le> 33 then
       (let fore = length (takeWhile (\<lambda>b. b \<noteq> ch CHR '' '') date) in
        if n - fore \<noteq> 23 then Fail () else Done (RFC850Date, fore + 1))
     else if n = clockASCTimeSize then Done (ASCTime, 4)
     else Fail ())"

definition need :: "bool \<Rightarrow> 'a parsed \<Rightarrow> 'a parsed" where
  "need c r = (if c then r else Fail ())"

text \<open>The days before a date, and the seconds since 1970.\<close>

definition toUnix :: "int \<Rightarrow> clockMonth \<Rightarrow> int \<Rightarrow> int \<Rightarrow> int \<Rightarrow> int \<Rightarrow> int parsed" where
  "toUnix year m day hour minute second =
    (let leap = year mod 4 = 0 \<and> (year mod 100 \<noteq> 0 \<or> year mod 400 = 0) in
     if (if day = 29 \<and> cmMonth m = 2 then \<not> leap else day > cmDays m) then Fail ()
     else
       let days = cmPast m;
           days = (if year > 0 then let year = year - 1 in
                     days + (year div 4 - year div 100 + year div 400 + 1) + (year + 1) * 365
                   else days);
           days = (if leap \<and> cmMonth m > 2 then days + 1 else days);
           days = days + (day - 1) - 719528
       in Done (days * 86400 + (hour * 3600 + minute * 60 + second)))"

text \<open>The parts of a date, in the order they are read; the new position comes with each.\<close>

definition parseDay :: "dateFormat \<Rightarrow> bytes \<Rightarrow> nat \<Rightarrow> (int \<times> nat) parsed" where
  "parseDay format date fore =
    (if format \<noteq> ASCTime then
       andThen (twoDigits date fore) (\<lambda>day. andThen (octetAt date (fore + 2)) (\<lambda>b.
       need (\<not> ((format = IMFDate \<and> b \<noteq> ch CHR '' '') \<or> (format = RFC850Date \<and> b \<noteq> ch CHR ''-'')))
         (Done (day, fore + 3))))
     else Done (0, fore))"

definition parseMonthPart :: "dateFormat \<Rightarrow> bytes \<Rightarrow> nat \<Rightarrow> (clockMonth \<times> nat) parsed" where
  "parseMonthPart format date fore =
    andThen (parseMonth date fore) (\<lambda>m. andThen (octetAt date (fore + 3)) (\<lambda>b.
    need (\<not> ((format = RFC850Date \<and> b \<noteq> ch CHR ''-'') \<or> (format \<noteq> RFC850Date \<and> b \<noteq> ch CHR '' '')))
      (Done (m, fore + 4))))"

definition parseYear :: "dateFormat \<Rightarrow> bytes \<Rightarrow> nat \<Rightarrow> int \<Rightarrow> (int \<times> int \<times> nat) parsed" where
  "parseYear format date fore day =
    (case format of
       IMFDate \<Rightarrow> andThen (fourDigits date fore) (\<lambda>y. Done (y, day, fore + 5))
     | RFC850Date \<Rightarrow> andThen (twoDigits date fore) (\<lambda>y. Done (if y < 70 then y + 2000 else y + 1900, day, fore + 3))
     | ASCTime \<Rightarrow> andThen (octetAt date fore) (\<lambda>b0. andThen (octetAt date (fore + 1)) (\<lambda>b1.
         andThen (digits2 (if b0 = ch CHR '' '' then ch CHR ''0'' else b0) b1) (\<lambda>d. Done (0, d, fore + 3)))))"

definition parseTime :: "bytes \<Rightarrow> nat \<Rightarrow> (int \<times> int \<times> int \<times> nat) parsed" where
  "parseTime date fore =
    andThen (twoDigits date fore) (\<lambda>hour.
    andThen (twoDigits date (fore + 3)) (\<lambda>minute.
    andThen (twoDigits date (fore + 6)) (\<lambda>second.
    andThen (octetAt date (fore + 8)) (\<lambda>c1. andThen (octetAt date (fore + 5)) (\<lambda>c4.
    andThen (octetAt date (fore + 2)) (\<lambda>c7. andThen (octetAt date (fore - 1)) (\<lambda>c10.
    need (\<not> (c1 \<noteq> ch CHR '' '' \<or> c4 \<noteq> ch CHR '':'' \<or> c7 \<noteq> ch CHR '':'' \<or> c10 \<noteq> ch CHR '' '' \<or>
            hour > 23 \<or> minute > 59 \<or> second > 59))
      (Done (hour, minute, second, fore + 9)))))))))"

definition parseEnd :: "dateFormat \<Rightarrow> bytes \<Rightarrow> nat \<Rightarrow> int \<Rightarrow> int parsed" where
  "parseEnd format date fore year =
    (if format = ASCTime then fourDigits date fore
     else andThen (octetAt date fore) (\<lambda>g. andThen (octetAt date (fore + 1)) (\<lambda>m. andThen (octetAt date (fore + 2)) (\<lambda>t.
       need (\<not> (g \<noteq> ch CHR ''G'' \<or> m \<noteq> ch CHR ''M'' \<or> t \<noteq> ch CHR ''T'')) (Done year)))))"

definition clockParseHTTPDate :: "bytes \<Rightarrow> int parsed" where
  "clockParseHTTPDate date =
    andThen (parseFormat date) (\<lambda>(format, fore).
    andThen (parseDay format date fore) (\<lambda>(day, fore).
    andThen (parseMonthPart format date fore) (\<lambda>(m, fore).
    andThen (parseYear format date fore day) (\<lambda>(year, day, fore).
    andThen (parseTime date fore) (\<lambda>(hour, minute, second, fore).
    andThen (parseEnd format date fore year) (\<lambda>year.
    toUnix year m day hour minute second))))))"

subsection \<open>The packed date\<close>

definition monthDays :: "bool \<Rightarrow> nat \<Rightarrow> int" where
  "monthDays leap m = [31, if leap then 29 else 28, 31, 30, 31, 30, 31, 31, 30, 31, 30, 31] ! (m - 1)"

lemma bit_nibble:
  assumes "k + 4 \<le> 64"
  shows "bit (nibble d k) i \<longleftrightarrow> i < 4 \<and> bit d (k + i)"
proof -
  have "nibble d k = signed_drop_bit k d AND mask 4"
    by (simp add: nibble_def mask_eq_exp_minus_1)
  then show ?thesis
    using assms by (auto simp: bit_simps min_def)
qed

lemma small_bits:
  fixes n :: int64
  assumes "unat n < 16" "bit n i"
  shows "i < 4"
proof -
  have "odd (unat n div 2 ^ i)"
    using assms(2) by (simp add: bit_unsigned_iff flip: bit_iff_odd)
  then have "2 ^ i \<le> unat n"
    by (metis div_less even_zero not_le)
  with assms(1) have "(2 :: nat) ^ i < 2 ^ 4" by simp
  then show ?thesis by (simp only: power_strict_increasing_iff)
qed

lemma nibble_same:
  assumes "unat n < 16" "k + 4 \<le> 64"
  shows "nibble (a OR push_bit k n) k = nibble a k OR n"
proof (rule bit_word_eqI)
  fix i
  show "bit (nibble (a OR push_bit k n) k) i \<longleftrightarrow> bit (nibble a k OR n) i"
    using small_bits [OF assms(1), of i] assms(2) by (auto simp: bit_nibble bit_simps)
qed

lemma nibble_other:
  assumes "unat n < 16" "k' + 4 \<le> k \<or> k + 4 \<le> k'" "k + 4 \<le> 64"
  shows "nibble (a OR push_bit k' n) k = nibble a k"
proof (rule bit_word_eqI)
  fix i
  show "bit (nibble (a OR push_bit k' n) k) i \<longleftrightarrow> bit (nibble a k) i"
    using small_bits [OF assms(1), of "k + i - k'"] assms(2,3) by (auto simp: bit_nibble bit_simps)
qed

lemma nibble_0: "k + 4 \<le> 64 \<Longrightarrow> nibble 0 k = 0"
  by (rule bit_word_eqI) (simp add: bit_nibble)

lemmas nibble_alone = nibble_same [of _ _ 0, simplified] nibble_other [of _ _ _ 0, simplified]

definition fits :: "datetime \<Rightarrow> bool" where
  "fits d \<longleftrightarrow> 0 \<le> dyear d \<and> dyear d \<le> 9999 \<and> 1 \<le> dmonth d \<and> dmonth d \<le> 12 \<and> 1 \<le> dday d \<and> dday d \<le> 31 \<and>
     dweekday d < 7 \<and> 0 \<le> dhour d \<and> dhour d < 24 \<and> 0 \<le> dminute d \<and> dminute d < 60 \<and> 0 \<le> dsecond d \<and> dsecond d < 60"

lemma small_int: "0 \<le> n \<Longrightarrow> n < 16 \<Longrightarrow> unat (word_of_int n :: int64) < 16"
  by (simp add: unat_eq_nat_uint take_bit_int_eq_self uint_word_of_int_eq nat_less_iff)

lemma small_nat: "n < 16 \<Longrightarrow> unat (word_of_nat n :: int64) < 16"
  by (simp add: unat_of_nat take_bit_nat_eq_self)

lemma fits_digits:
  assumes "fits d"
  shows "0 \<le> dday d div 10 \<and> dday d div 10 \<le> 9" "0 \<le> dyear d div 1000 \<and> dyear d div 1000 \<le> 9"
    "0 \<le> dhour d div 10 \<and> dhour d div 10 \<le> 9" "0 \<le> dminute d div 10 \<and> dminute d div 10 \<le> 9"
    "0 \<le> dsecond d div 10 \<and> dsecond d div 10 \<le> 9"
  using assms by (auto simp: fits_def)

lemma mod_digits: "0 \<le> x mod 10 \<and> x mod 10 \<le> 9"
  for x :: int
  by simp

lemma nibbles_packDate:
  assumes "fits d"
  shows "nibble (packDate d) 8 = word_of_nat (dweekday d)" "nibble (packDate d) 20 = word_of_nat (dmonth d)"
    "nibble (packDate d) 12 = word_of_int (dday d div 10)" "nibble (packDate d) 16 = word_of_int (dday d mod 10)"
    "nibble (packDate d) 24 = word_of_int (dyear d div 1000)" "nibble (packDate d) 28 = word_of_int (dyear d div 100 mod 10)"
    "nibble (packDate d) 32 = word_of_int (dyear d div 10 mod 10)" "nibble (packDate d) 36 = word_of_int (dyear d mod 10)"
    "nibble (packDate d) 40 = word_of_int (dhour d div 10)" "nibble (packDate d) 44 = word_of_int (dhour d mod 10)"
    "nibble (packDate d) 48 = word_of_int (dminute d div 10)" "nibble (packDate d) 52 = word_of_int (dminute d mod 10)"
    "nibble (packDate d) 56 = word_of_int (dsecond d div 10)" "nibble (packDate d) 60 = word_of_int (dsecond d mod 10)"
proof -
  have digit: "unat (word_of_int n :: int64) < 16" if "0 \<le> n \<and> n \<le> 9" for n
    using that by (intro small_int) auto
  note small = digit [OF mod_digits] and div = fits_digits [OF assms, THEN digit]
  have nat: "unat (word_of_nat (dmonth d) :: int64) < 16" "unat (word_of_nat (dweekday d) :: int64) < 16"
    using assms by (auto simp: fits_def intro: small_nat)
  show "nibble (packDate d) 8 = word_of_nat (dweekday d)" "nibble (packDate d) 20 = word_of_nat (dmonth d)"
    "nibble (packDate d) 12 = word_of_int (dday d div 10)" "nibble (packDate d) 16 = word_of_int (dday d mod 10)"
    "nibble (packDate d) 24 = word_of_int (dyear d div 1000)" "nibble (packDate d) 28 = word_of_int (dyear d div 100 mod 10)"
    "nibble (packDate d) 32 = word_of_int (dyear d div 10 mod 10)" "nibble (packDate d) 36 = word_of_int (dyear d mod 10)"
    "nibble (packDate d) 40 = word_of_int (dhour d div 10)" "nibble (packDate d) 44 = word_of_int (dhour d mod 10)"
    "nibble (packDate d) 48 = word_of_int (dminute d div 10)" "nibble (packDate d) 52 = word_of_int (dminute d mod 10)"
    "nibble (packDate d) 56 = word_of_int (dsecond d div 10)" "nibble (packDate d) 60 = word_of_int (dsecond d mod 10)"
    unfolding packDate_def Let_def
    by (simp_all add: nibble_same nibble_other nibble_alone nibble_0 small div nat)
qed

lemma monthOf_day:
  assumes "0 \<le> yd" "yd < 365 + (if leap then 1 else 0)"
  shows "yd - monthStart leap (monthOf leap yd) < monthDays leap (monthOf leap yd)"
  using assms by (simp add: monthDays_def monthOf_def monthStart_def monthStarts_def upt_rec numeral_2_eq_2 split: if_splits)

lemma unixDate_facts:
  fixes t :: int
  defines "d \<equiv> t div 86400 + 719528"
  defines "y \<equiv> yearOf d"
  defines "yd \<equiv> d - daysBeforeYear y"
  defines "m \<equiv> monthOf (leapYear y) yd"
  shows "dyear (unixDate t) = y" "dmonth (unixDate t) = m" "dday (unixDate t) = yd - monthStart (leapYear y) m + 1"
    "0 \<le> yd" "yd < 365 + (if leapYear y then 1 else 0)"
    "1 \<le> m" "m \<le> 12" "1 \<le> dday (unixDate t)" "dday (unixDate t) \<le> monthDays (leapYear y) m"
proof -
  show "dyear (unixDate t) = y" "dmonth (unixDate t) = m" and day: "dday (unixDate t) = yd - monthStart (leapYear y) m + 1"
    by (simp_all add: unixDate_def Let_def d_def y_def yd_def m_def)
  show yd: "0 \<le> yd" "yd < 365 + (if leapYear y then 1 else 0)"
    using yearOf_bounds [of d] daysBeforeYear_Suc [of y] by (auto simp: yd_def y_def)
  show "1 \<le> m" "m \<le> 12" "1 \<le> dday (unixDate t)" "dday (unixDate t) \<le> monthDays (leapYear y) m"
    using monthOf_bounds [OF yd] monthOf_day [OF yd] by (simp_all add: m_def day)
qed

lemma unixDate_fits:
  assumes "0 \<le> t" "t < 253402300800"
  shows "fits (unixDate t)"
proof -
  define d where "d = t div 86400 + 719528"
  have d: "719528 \<le> d" "d \<le> 3652424" using assms by (simp_all add: d_def)
  note y = yearOf_bounds [of d] daysBeforeYear_bounds [of "yearOf d"]
    daysBeforeYear_bounds [of "yearOf d + 1", unfolded ring_distribs]
  have "0 \<le> yearOf d" using d y by linarith
  moreover have "yearOf d \<le> 9999" using d y by linarith
  moreover have days: "monthDays l m \<le> 31" if "1 \<le> m" "m \<le> 12" for l m
    using that by (auto simp: monthDays_def nth_Cons' split: if_splits)
  note F = unixDate_facts [of t]
  have "1 \<le> dmonth (unixDate t)" "dmonth (unixDate t) \<le> 12" unfolding F(2) by (rule F)+
  moreover have "dday (unixDate t) \<le> 31" by (rule order_trans [OF F(9)], rule days) (rule F)+
  moreover have "dweekday (unixDate t) < 7" "0 \<le> dhour (unixDate t)" "dhour (unixDate t) < 24" "0 \<le> dminute (unixDate t)"
    "dminute (unixDate t) < 60" "0 \<le> dsecond (unixDate t)" "dsecond (unixDate t) < 60"
    by (simp_all add: unixDate_def Let_def nat_less_iff less_trans [OF pos_mod_bound])
  ultimately show ?thesis
    using F(1,8) by (simp add: fits_def d_def)
qed

lemma packedText_packDate:
  assumes "fits d"
  shows "packedText (packDate d) = dateText d"
proof -
  have c: "digitOf (word_of_int n) = decimal n" if "0 \<le> n \<and> n \<le> 9" for n
    using that by (simp add: digitOf_def decimal_def ucast_eq take_bit_int_eq_self uint_word_of_int_eq)
  have m: "word_of_nat (dmonth d) \<noteq> (0 :: int64)" "unat (word_of_nat (dmonth d) :: int64) = dmonth d"
    "unat (word_of_nat (dweekday d) :: int64) = dweekday d"
    using assms by (auto simp: fits_def unat_of_nat take_bit_nat_eq_self word_of_nat_eq_0_iff dest: nat_dvd_not_less)
  have "packedText (packDate d) = do {
     day \<leftarrow> letters clockDayString (3 * dweekday d);
     month \<leftarrow> letters clockMonthString (3 * (dmonth d - 1));
     Some (day @ bs '', '' @ [decimal (dday d div 10), decimal (dday d mod 10)] @ bs '' '' @ month @ bs '' '' @
       [decimal (dyear d div 1000), decimal (dyear d div 100 mod 10), decimal (dyear d div 10 mod 10), decimal (dyear d mod 10)] @
       bs '' '' @ [decimal (dhour d div 10), decimal (dhour d mod 10)] @ bs '':'' @
       [decimal (dminute d div 10), decimal (dminute d mod 10)] @ bs '':'' @
       [decimal (dsecond d div 10), decimal (dsecond d mod 10)] @ bs '' GMT'') }"
    using assms unfolding packedText_def nibbles_packDate [OF assms] m
    by (simp add: c [OF mod_digits] fits_digits [OF assms, THEN c] m fits_def)
  moreover have "dmonth d \<noteq> 0" using assms by (simp add: fits_def)
  ultimately show ?thesis by (simp add: dateText_def)
qed

subsection \<open>Parsing what was written\<close>

lemma decimal_digit:
  assumes "0 \<le> n \<and> n \<le> 9"
  shows "isDigit (decimal n)" "digit (decimal n) = n"
proof -
  obtain k where k: "n = int k" "k \<le> 9" using assms by (metis nonneg_int_cases of_nat_le_iff of_nat_numeral)
  have "unat (word_of_int n + 0x30 :: byte) = k + 48"
    using k by (simp add: unat_word_ariths unat_of_nat take_bit_nat_eq_self)
  then show "isDigit (decimal n)" by (simp add: decimal_def word_le_nat_alt k)
  show "digit (decimal n) = n"
    using k by (simp add: digit_def decimal_def unat_of_nat take_bit_nat_eq_self)
qed

lemma decimal_not_space: "0 \<le> n \<and> n \<le> 9 \<Longrightarrow> decimal n \<noteq> 0x20"
  using decimal_digit(1) [of n] by auto

interpretation clockMonths: perfect_hash clockMonthFind clockMonthTable cmHash clockMonthName
proof (rule perfect_hashI [OF _ clockMonthFind_def])
  show "perfect 5509728 cmHash clockMonthName clockMonthTable"
    by (simp add: perfect_def clockMonthTable_def monthRow_def hashFind_def upt_conv_Cons clockMonthName_def
        clockMonthString_def slice_def bytesHash_def)
qed

definition rowOf :: "nat \<Rightarrow> clockMonth" where
  "rowOf m = (case List.find (\<lambda>r. cmMonth r = m) clockMonthTable of Some r \<Rightarrow> r | None \<Rightarrow> hd clockMonthTable)"

lemma upto12:
  fixes m :: nat
  assumes "1 \<le> m" "m \<le> 12"
  shows "m = 1 \<or> m = 2 \<or> m = 3 \<or> m = 4 \<or> m = 5 \<or> m = 6 \<or> m = 7 \<or> m = 8 \<or> m = 9 \<or> m = 10 \<or> m = 11 \<or> m = 12"
  using assms by presburger

lemma rowOf_values:
  "rowOf 1 = monthRow (281, 0, 3, 1, 31, 0)" "rowOf 2 = monthRow (269, 3, 6, 2, 28, 31)"
  "rowOf 3 = monthRow (288, 6, 9, 3, 31, 59)" "rowOf 4 = monthRow (291, 9, 12, 4, 30, 90)"
  "rowOf 5 = monthRow (295, 12, 15, 5, 31, 120)" "rowOf 6 = monthRow (301, 15, 18, 6, 30, 151)"
  "rowOf 7 = monthRow (299, 18, 21, 7, 31, 181)" "rowOf 8 = monthRow (285, 21, 24, 8, 31, 212)"
  "rowOf 9 = monthRow (296, 24, 27, 9, 30, 243)" "rowOf 10 = monthRow (294, 27, 30, 10, 31, 273)"
  "rowOf 11 = monthRow (307, 30, 33, 11, 30, 304)" "rowOf 12 = monthRow (268, 33, 36, 12, 31, 334)"
  by (simp_all add: rowOf_def clockMonthTable_def monthRow_def)

lemma rowOf_facts:
  assumes "1 \<le> m" "m \<le> 12"
  shows "cmMonth (rowOf m) = m" "cmPast (rowOf m) = monthStart False m" "cmDays (rowOf m) = monthDays False m"
    "rowOf m \<in> set clockMonthTable" "letters clockMonthString (3 * (m - 1)) = Some (clockMonthName (rowOf m))"
    "\<exists>b0 b1 b2. clockMonthName (rowOf m) = [b0, b1, b2]"
proof -
  have name: "clockMonthName (monthRow (h, a, b, r)) = slice clockMonthString a b" for h a b r
    by (cases r) (simp add: clockMonthName_def monthRow_def)
  show "cmMonth (rowOf m) = m" "cmPast (rowOf m) = monthStart False m" "cmDays (rowOf m) = monthDays False m"
    using upto12 [OF assms]
    by (elim disjE; simp only: rowOf_values; simp add: monthRow_def monthStart_def monthStarts_def monthDays_def)+
  show "rowOf m \<in> set clockMonthTable"
    using upto12 [OF assms] by (elim disjE; simp only: rowOf_values clockMonthTable_def list.map list.set insert_iff simp_thms)
  show "letters clockMonthString (3 * (m - 1)) = Some (clockMonthName (rowOf m))"
    using upto12 [OF assms]
    by (elim disjE; simp only: rowOf_values name; simp add: letters_def clockMonthString_def slice_def idx_def)
  show "\<exists>b0 b1 b2. clockMonthName (rowOf m) = [b0, b1, b2]"
    using upto12 [OF assms] by (elim disjE; simp only: rowOf_values name; simp add: clockMonthString_def slice_def)
qed

lemma four_digits: "y div 1000 * 1000 + y div 100 mod 10 * 100 + y div 10 mod 10 * 10 + y mod 10 = y"
  for y :: int
proof -
  have "y = y div 10 * 10 + y mod 10" "y div 10 = y div 100 * 10 + y div 10 mod 10"
    "y div 100 = y div 1000 * 10 + y div 100 mod 10"
    using div_mult_mod_eq [of "y div 10" 10] div_mult_mod_eq [of "y div 100" 10]
    by (simp_all add: zdiv_zmult2_eq [symmetric])
  then show ?thesis by linarith
qed

lemma twoDigits_decimal:
  assumes "i + 1 < length s" "s ! i = decimal (n div 10)" "s ! (i + 1) = decimal (n mod 10)" "0 \<le> n \<and> n < 100"
  shows "twoDigits s i = Done n"
proof -
  have "0 \<le> n div 10 \<and> n div 10 \<le> 9" using assms(4) by auto
  then show ?thesis
    using assms decimal_digit [of "n div 10"] decimal_digit [OF mod_digits, of n]
    by (simp add: twoDigits_def octetAt_def panic_simps digits2_def)
qed

lemma fourDigits_decimal:
  assumes "i + 3 < length s" "s ! i = decimal (n div 1000)" "s ! (i + 1) = decimal (n div 100 mod 10)"
    "s ! (i + 2) = decimal (n div 10 mod 10)" "s ! (i + 3) = decimal (n mod 10)" "0 \<le> n \<and> n < 10000"
  shows "fourDigits s i = Done n"
proof -
  have "0 \<le> n div 1000 \<and> n div 1000 \<le> 9" using assms(6) by auto
  then show ?thesis
    using assms decimal_digit [of "n div 1000"] decimal_digit [OF mod_digits, of "n div 100"]
      decimal_digit [OF mod_digits, of "n div 10"] decimal_digit [OF mod_digits, of n] four_digits [of n]
    by (simp add: fourDigits_def octetAt_def panic_simps)
qed

lemma parseMonth_row:
  assumes "i + 2 < length s" "clockMonthName r = [s ! i, s ! (i + 1), s ! (i + 2)]" "r \<in> set clockMonthTable"
  shows "parseMonth s i = Done r"
proof -
  note entry = clockMonths.lookup_entry [OF assms(3)]
  have "ucast (s ! i) + ucast (s ! (i + 1)) + ucast (s ! (i + 2)) = cmHash r"
    using entry(2) by (simp add: assms(2) bytesHash_def add.assoc)
  then show ?thesis
    using entry(1) assms(1) by (simp add: parseMonth_def octetAt_def panic_simps assms(2))
qed

lemma dateText_written:
  assumes "fits d"
  obtains w0 w1 w2 m0 m1 m2 where "clockMonthName (rowOf (dmonth d)) = [m0, m1, m2]"
    "dateText d = Some [w0, w1, w2, 0x2C, 0x20, decimal (dday d div 10), decimal (dday d mod 10), 0x20, m0, m1, m2, 0x20,
       decimal (dyear d div 1000), decimal (dyear d div 100 mod 10), decimal (dyear d div 10 mod 10),
       decimal (dyear d mod 10), 0x20, decimal (dhour d div 10), decimal (dhour d mod 10), 0x3A,
       decimal (dminute d div 10), decimal (dminute d mod 10), 0x3A, decimal (dsecond d div 10),
       decimal (dsecond d mod 10), 0x20, 0x47, 0x4D, 0x54]"
proof -
  have m: "1 \<le> dmonth d" "dmonth d \<le> 12" and w: "dweekday d < 7" using assms by (simp_all add: fits_def)
  obtain m0 m1 m2 where ms: "clockMonthName (rowOf (dmonth d)) = [m0, m1, m2]"
    using rowOf_facts(6) [OF m] by blast
  have "3 * dweekday d + 2 < length clockDayString" using w by (simp add: clockDayString_def)
  then obtain w0 w1 w2 where ws: "letters clockDayString (3 * dweekday d) = Some [w0, w1, w2]"
    by (simp add: letters_def panic_simps)
  show ?thesis
    using rowOf_facts(5) [OF m] m by (intro that [OF ms, of w0 w1 w2]) (simp add: dateText_def ws ms)
qed

lemma parse_written:
  assumes "fits d" "dateText d = Some s"
  shows "clockParseHTTPDate s = toUnix (dyear d) (rowOf (dmonth d)) (dday d) (dhour d) (dminute d) (dsecond d)"
proof -
  obtain w0 w1 w2 m0 m1 m2 where ms: "clockMonthName (rowOf (dmonth d)) = [m0, m1, m2]"
    and s: "s = [w0, w1, w2, 0x2C, 0x20, decimal (dday d div 10), decimal (dday d mod 10), 0x20, m0, m1, m2, 0x20,
       decimal (dyear d div 1000), decimal (dyear d div 100 mod 10), decimal (dyear d div 10 mod 10),
       decimal (dyear d mod 10), 0x20, decimal (dhour d div 10), decimal (dhour d mod 10), 0x3A,
       decimal (dminute d div 10), decimal (dminute d mod 10), 0x3A, decimal (dsecond d div 10),
       decimal (dsecond d mod 10), 0x20, 0x47, 0x4D, 0x54]"
    using dateText_written [OF assms(1)] assms(2) by (metis option.inject)
  have fit: "1 \<le> dmonth d" "dmonth d \<le> 12" "0 \<le> dday d \<and> dday d < 100" "0 \<le> dyear d \<and> dyear d < 10000"
    "0 \<le> dhour d \<and> dhour d < 100" "0 \<le> dminute d \<and> dminute d < 100" "0 \<le> dsecond d \<and> dsecond d < 100"
    "dhour d \<le> 23" "dminute d \<le> 59" "dsecond d \<le> 59"
    using assms(1) by (auto simp: fits_def)
  have "twoDigits s 5 = Done (dday d)" "twoDigits s 17 = Done (dhour d)" "twoDigits s 20 = Done (dminute d)"
    "twoDigits s 23 = Done (dsecond d)"
    by (rule twoDigits_decimal; simp add: s fit)+
  moreover have "fourDigits s 12 = Done (dyear d)"
    by (rule fourDigits_decimal; simp add: s fit)
  moreover have "parseMonth s 8 = Done (rowOf (dmonth d))"
    using rowOf_facts(4) [OF fit(1,2)] by (intro parseMonth_row) (simp_all add: s ms)
  moreover have "octetAt s k = Done (s ! k)" if "k < 29" for k
    using that by (simp add: octetAt_def panic_simps s)
  moreover have "length s = 29" "s ! 7 = 0x20" "s ! 11 = 0x20" "s ! 16 = 0x20" "s ! 19 = 0x3A" "s ! 22 = 0x3A" "s ! 25 = 0x20"
    "s ! 26 = 0x47" "s ! 27 = 0x4D" "s ! 28 = 0x54"
    by (simp_all add: s)
  ultimately show ?thesis
    using fit by (simp add: clockParseHTTPDate_def parseFormat_def parseDay_def parseMonthPart_def parseYear_def
        parseTime_def parseEnd_def need_def)
qed

lemma daysBeforeYear_pred:
  "(y - 1) div 4 - (y - 1) div 100 + (y - 1) div 400 + 1 + (y - 1 + 1) * 365 = daysBeforeYear y"
proof -
  have up: "(y + (k - 1)) div k = (y - 1) div k + 1" if "k \<noteq> 0" for k
    using div_mult_self1 [OF that, of "y - 1" 1] by (simp add: algebra_simps)
  have "(y + 3) div 4 = (y - 1) div 4 + 1" "(y + 99) div 100 = (y - 1) div 100 + 1"
    "(y + 399) div 400 = (y - 1) div 400 + 1"
    using up [of 4] up [of 100] up [of 400] by simp_all
  then show ?thesis
    by (simp only: daysBeforeYear_def) (simp only: ac_simps ring_distribs diff_add_cancel, linarith?)
qed

lemma toUnix_unixDate:
  assumes "0 \<le> t" "t < 253402300800"
  shows "toUnix (dyear (unixDate t)) (rowOf (dmonth (unixDate t))) (dday (unixDate t)) (dhour (unixDate t))
     (dminute (unixDate t)) (dsecond (unixDate t)) = Done t"
proof -
  let ?d = "unixDate t"
  let ?y = "dyear ?d"
  have m: "1 \<le> dmonth ?d" "dmonth ?d \<le> 12" "0 \<le> ?y" using unixDate_fits [OF assms] by (simp_all add: fits_def)
  note F = unixDate_facts [of t]
  have days: "dday ?d \<le> monthDays (leapYear ?y) (dmonth ?d)" "1 \<le> dday ?d"
    unfolding F(1,2) by (rule F(9), rule F(8))
  have day: "t div 86400 + 719528 = daysBeforeYear ?y + monthStart (leapYear ?y) (dmonth ?d) + dday ?d - 1"
    using F(3) unfolding F(1,2) by linarith
  have ok: "\<not> (if dday ?d = 29 \<and> dmonth ?d = 2 then \<not> leapYear ?y else monthDays False (dmonth ?d) < dday ?d)"
    using upto12 [OF m(1,2)] days by (elim disjE) (auto simp: monthDays_def split: if_splits)
  have past: "(if 0 < ?y then a + ((?y - 1) div 4 - (?y - 1) div 100 + (?y - 1) div 400 + 1) + (?y - 1 + 1) * 365 else a)
      = a + daysBeforeYear ?y" for a
  proof (cases "0 < ?y")
    case False
    then have "?y = 0" using m(3) by simp
    then show ?thesis by (simp add: daysBeforeYear_def)
  qed (use daysBeforeYear_pred [of ?y] in simp)
  have start: "monthStart (leapYear ?y) (dmonth ?d) = monthStart False (dmonth ?d) + (if leapYear ?y \<and> 2 < dmonth ?d then 1 else 0)"
    by (simp add: monthStart_def)
  define r where "r = t mod 86400"
  have "r div 3600 * 3600 + r mod 3600 = r" "r mod 3600 div 60 * 60 + r mod 3600 mod 60 = r mod 3600"
    by (rule div_mult_mod_eq)+
  moreover have "r mod 3600 mod 60 = r mod 60" by (rule mod_mod_cancel) simp
  moreover have "dhour ?d = r div 3600" "dminute ?d = r mod 3600 div 60" "dsecond ?d = r mod 60"
    by (simp_all only: unixDate_def Let_def datetime.select_convs r_def)
  ultimately have time: "dhour ?d * 3600 + dminute ?d * 60 + dsecond ?d = r" by linarith
  define days where "days = monthStart False (dmonth ?d) + daysBeforeYear ?y"
  have n: "(if leapYear ?y \<and> 2 < dmonth ?d then days + 1 else days) + (dday ?d - 1) - 719528 = t div 86400"
    using day start by (simp add: days_def split: if_splits)
  have "t div 86400 * 86400 + r = t" unfolding r_def by (rule div_mult_mod_eq)
  then show ?thesis
    unfolding toUnix_def Let_def past leapYear_def [symmetric] rowOf_facts(1-3) [OF m(1,2)] days_def [symmetric] n time
    using ok by (simp only: if_False)
qed

text \<open>C36: Writing a date and parsing it gives the time back: for every second of the years 1970 to 9999,
  \<open>clockParseHTTPDate\<close> applied to what \<open>clockWriteHTTPDate\<close> writes, and to what the clock's packed
  date prints, returns that second.\<close>

theorem clockHTTPDate_roundtrip:
  assumes "0 \<le> t" "t < 253402300800"
  shows "\<exists>s. dateText (unixDate t) = Some s \<and> length s = clockHTTPDateSize \<and>
    packedText (packDate (unixDate t)) = Some s \<and> clockParseHTTPDate s = Done t"
proof -
  note fits = unixDate_fits [OF assms]
  obtain s where "dateText (unixDate t) = Some s" "length s = 29"
    using dateText_written [OF fits] by force
  with parse_written [OF fits] toUnix_unixDate [OF assms] packedText_packDate [OF fits] show ?thesis
    by simp
qed

theorem clockHTTPDate_roundtrip_witness:
  "clockParseHTTPDate (bs ''Sun, 06 Nov 1994 08:49:37 GMT'') = Done 784111777"
proof -
  have u: "unixDate 784111777 = \<lparr>dyear = 1994, dmonth = 11, dday = 6, dweekday = 0, dhour = 8, dminute = 49, dsecond = 37\<rparr>"
    by code_simp
  have "dateText (unixDate 784111777) = Some (bs ''Sun, 06 Nov 1994 08:49:37 GMT'')"
    by (simp add: u dateText_def letters_def clockDayString_def clockMonthString_def idx_def decimal_def)
  then show ?thesis using clockHTTPDate_roundtrip [of 784111777] by simp
qed

subsection \<open>Bad dates\<close>

lemma octetAt_Panic: "octetAt date i = Panic \<longleftrightarrow> length date \<le> i"
  by (simp add: octetAt_def idx_def)

lemma octetAt_Done: "octetAt date i = Done b \<longleftrightarrow> i < length date \<and> date ! i = b"
  by (auto simp: octetAt_def idx_def)

lemma need_Panic: "need c r = Panic \<longleftrightarrow> c \<and> r = Panic"
  by (simp add: need_def)

lemma need_Done: "need c r = Done x \<longleftrightarrow> c \<and> r = Done x"
  by (simp add: need_def)

lemma digits_Panic:
  "twoDigits date i = Panic \<longleftrightarrow> length date \<le> i + 1" "fourDigits date i = Panic \<longleftrightarrow> length date \<le> i + 3"
  by (auto simp: twoDigits_def fourDigits_def digits2_def andThen_Panic_iff octetAt_Panic octetAt_Done)

lemma parseMonth_Panic:
  assumes "parseMonth date i = Panic" "0 \<notin> set date"
  shows "length date \<le> i + 2"
proof (rule ccontr)
  assume len: "\<not> length date \<le> i + 2"
  let ?w = "[date ! i, date ! (i + 1), date ! (i + 2)]"
  have byte: "unat b < 256" for b :: byte using unsigned_less [of b] by simp
  have "date ! i \<in> set date" using len by simp
  then have "0 < unat (date ! i)" using assms(2) by (metis bot_nat_0.not_eq_extremum unat_eq_zero)
  define n where "n = unat (date ! i) + unat (date ! (i + 1)) + unat (date ! (i + 2))"
  have n: "n < 2 ^ 16"
    using byte [of "date ! i"] byte [of "date ! (i + 1)"] byte [of "date ! (i + 2)"] by (simp add: n_def)
  have "0 < n" using \<open>0 < unat (date ! i)\<close> by (simp add: n_def)
  with n have "(word_of_nat n :: uint16) \<noteq> 0"
    by (simp only: word_of_nat_eq_0_iff len_of_numeral_defs) (auto dest: dvd_imp_le)
  moreover have "bytesHash ?w = word_of_nat n"
    by (simp add: bytesHash_def n_def add.assoc)
  ultimately have "bytesHash ?w \<noteq> 0" by simp
  from clockMonths.lookup_exact [OF this] assms(1) len show False
    by (simp add: parseMonth_def octetAt_def panic_simps bytesHash_def add.assoc split: option.splits)
qed

lemma clockParseHTTPDate_no_panic:
  assumes "0 \<notin> set date"
  shows "clockParseHTTPDate date \<noteq> Panic"
proof
  assume p: "clockParseHTTPDate date = Panic"
  have lay: "(f = IMFDate \<and> length date = 29 \<and> i = 5) \<or> (f = RFC850Date \<and> length date = i + 22) \<or>
      (f = ASCTime \<and> length date = 24 \<and> i = 4)" if "parseFormat date = Done (f, i)" for f i
    using that by (auto simp: parseFormat_def Let_def split: if_splits)
  have "parseFormat date \<noteq> Panic" by (simp add: parseFormat_def Let_def)
  with p obtain f i where f: "parseFormat date = Done (f, i)"
    and p: "andThen (parseDay f date i) (\<lambda>(day, fore).
      andThen (parseMonthPart f date fore) (\<lambda>(m, fore).
      andThen (parseYear f date fore day) (\<lambda>(year, day, fore).
      andThen (parseTime date fore) (\<lambda>(hour, minute, second, fore).
      andThen (parseEnd f date fore year) (\<lambda>year.
      toUnix year m day hour minute second))))) = Panic"
    unfolding clockParseHTTPDate_def by (auto simp: andThen_Panic_iff)
  have total: "toUnix y m d h mi s \<noteq> Panic" for y m d h mi s
    by (simp add: toUnix_def Let_def)
  show False
    using lay [OF f] p
    by (elim disjE conjE)
      (auto simp: andThen_Panic_iff andThen_Done_iff parseDay_def parseMonthPart_def parseYear_def parseTime_def
        parseEnd_def need_Panic need_Done octetAt_Panic octetAt_Done digits_Panic digits2_def total
        dest!: parseMonth_Panic [OF _ assms] split: if_splits)
qed

text \<open>Three zero octets for a month hash to 0 and divide by zero; a day 0 is taken for a day.\<close>

lemma clockParseHTTPDate_nul: "clockParseHTTPDate (bs ''Sun, 06 '' @ [0, 0, 0] @ bs '' 1994 08:49:37 GMT'') = Panic"
  by (simp add: clockParseHTTPDate_def parseFormat_def parseDay_def parseMonthPart_def twoDigits_def octetAt_def idx_def digits2_def
      need_def parseMonth_def tableLookup_def clockMonthFind_def hashFind_def digit_def)

lemma clockParseHTTPDate_day_0:
  "clockParseHTTPDate (bs ''Sun, 00 Nov 1994 08:49:37 GMT'') = clockParseHTTPDate (bs ''Mon, 31 Oct 1994 08:49:37 GMT'')"
proof -
  have month: "parseMonth (bs ''Sun, 00 Nov 1994 08:49:37 GMT'') 8 = Done (rowOf 11)"
    "parseMonth (bs ''Mon, 31 Oct 1994 08:49:37 GMT'') 8 = Done (rowOf 10)"
    by (rule parseMonth_row;
        simp add: rowOf_values clockMonthName_def monthRow_def clockMonthString_def slice_def clockMonthTable_def)+
  show ?thesis
    using month
    by (simp add: clockParseHTTPDate_def parseFormat_def parseDay_def parseMonthPart_def parseYear_def parseTime_def
        parseEnd_def twoDigits_def fourDigits_def octetAt_def idx_def digits2_def digit_def need_def toUnix_def Let_def
        rowOf_values monthRow_def)
qed

end
