(* ===== verification/HttpOut.thy ===== *)
theory HttpOut
  imports Clock "HOL-Library.Sublist"
begin

text \<open>
  Outgoing HTTP messages: the header fields of a response (\<open>_httpOut_\<close> in \<open>hemi/web_general_http.go\<close>,
  \<open>_http1Out_\<close> in \<open>hemi/web_general_http1.go\<close>), the server's response (\<open>serverResponse_\<close> in
  \<open>hemi/web_server_http.go\<close>, \<open>server1Response\<close> in \<open>hemi/web_server_http1.go\<close>) up to the octets of a
  text that is sent.

  The buffer of a message, the edges of its lines and their counters are the state; the operations are
  those of the code, with every index checked.  The abstraction is \<open>holds r ls\<close>: the message holds
  the lines \<open>ls\<close>.  Adding refines appending a line (\<open>addLine_holds\<close>, \<open>addHeader_holds\<close>), looking up
  refines \<open>map_of\<close> (\<open>header_holds\<close>), deleting the last field refines \<open>butlast\<close> (\<open>delHeaderAt_last\<close>).
  On top of these: an application cannot split a response, and what \<open>sendText\<close> writes is the status
  line, the added lines, the final lines and the content, with nothing cut off.  The last subsection
  shows where the operations depart from the abstraction.
\<close>

subsection \<open>Buffers\<close>

text \<open>
  \<open>GetNK\<close>: a buffer of one of three sizes.  The pools are an argument: what \<open>sync.Pool\<close> has kept of a
  size, if anything; a new buffer is all zero.
\<close>

definition nkSize :: "nat \<Rightarrow> nat" where
  "nkSize n = (if n \<le> 4096 then 4096 else if n \<le> 16384 then 16384 else 65535)"

type_synonym pools = "nat \<Rightarrow> bytes option"

definition GetNK :: "pools \<Rightarrow> nat \<Rightarrow> bytes" where
  "GetNK pool n = (case pool (nkSize n) of Some p \<Rightarrow> p | None \<Rightarrow> replicate (nkSize n) 0)"

text \<open>The pool of a size holds buffers of that size, for \<open>PutNK\<close> sorts them by their capacity.\<close>

definition goodPools :: "pools \<Rightarrow> bool" where
  "goodPools pool \<longleftrightarrow> (\<forall>n p. pool n = Some p \<longrightarrow> length p = n)"

lemma length_GetNK: "goodPools pool \<Longrightarrow> length (GetNK pool n) = nkSize n"
  by (auto simp: GetNK_def goodPools_def split: option.split)

subsection \<open>Outgoing messages\<close>

text \<open>
  \<open>_httpOut_\<close>: the fields that header and trailer fields, their sizes and the content mode live in.
  The edges are 16 bits wide and the numbers of fields 8; a content size is -1 (not set), -2 (vague) or
  the size.
\<close>

record httpOut =
  outBuf :: bytes
  edges :: "nat list"
  outputEdge :: nat
  controlEdge :: nat
  numHeaderFields :: nat
  numTrailerFields :: nat
  contentSize :: int
  isSent :: bool
  forbidContent :: bool
  forbidFraming :: bool
  hasRevisers :: bool
  iContentType :: nat
  iDate :: nat

text \<open>The indexes of a field are 16 bits wide: sums and differences wrap.\<close>

definition add16 :: "nat \<Rightarrow> nat \<Rightarrow> nat" where
  "add16 a b = (a + b) mod 65536"

definition sub16 :: "nat \<Rightarrow> nat \<Rightarrow> nat" where
  "sub16 a b = (a + (65536 - b mod 65536)) mod 65536"

definition growFields :: "pools \<Rightarrow> nat \<Rightarrow> 'a httpOut_scheme \<Rightarrow> ((nat \<times> nat) option \<times> 'a httpOut_scheme) option" where
  "growFields pool k r =
    (if k = 0 \<or> k > 16384 then None
     else
       let from = outputEdge r; ceil = add16 from k; top = add16 ceil 256 in
       if ceil < from \<or> top > 16384 \<or> top < ceil then Some (None, r)
       else do {
         r \<leftarrow> (if top > length (outBuf r) then do {
                 used \<leftarrow> sub (outBuf r) 0 from;
                 Some (r\<lparr>outBuf := copyAt (GetNK pool top) 0 used\<rparr>)
               } else Some r);
         Some (Some (from, ceil), r\<lparr>outputEdge := ceil\<rparr>)
       })"

definition growHeaders :: "pools \<Rightarrow> nat \<Rightarrow> 'a httpOut_scheme \<Rightarrow> ((nat \<times> nat) option \<times> 'a httpOut_scheme) option" where
  "growHeaders pool k r = (if numHeaderFields r = 128 then Some (None, r) else growFields pool k r)"

definition growTrailers :: "pools \<Rightarrow> nat \<Rightarrow> 'a httpOut_scheme \<Rightarrow> ((nat \<times> nat) option \<times> 'a httpOut_scheme) option" where
  "growTrailers pool k r = (if numTrailerFields r = 128 then Some (None, r) else growFields pool k r)"

text \<open>\<open>from += copy(r.output[from:], src)\<close>, and two octets written by index.\<close>

definition copyFrom :: "bytes \<Rightarrow> nat \<Rightarrow> bytes \<Rightarrow> (bytes \<times> nat) option" where
  "copyFrom out from src =
    (if from \<le> length out then Some (copyAt out from src, from + min (length src) (length out - from)) else None)"

definition put2 :: "bytes \<Rightarrow> nat \<Rightarrow> byte \<Rightarrow> byte \<Rightarrow> bytes option" where
  "put2 out from a b = do { out \<leftarrow> put out from a; put out (from + 1) b }"

definition addCRLFHeader :: "nat \<Rightarrow> 'a httpOut_scheme \<Rightarrow> 'a httpOut_scheme option" where
  "addCRLFHeader from r = do {
     out \<leftarrow> put2 (outBuf r) from 0x0D 0x0A;
     es \<leftarrow> put (edges r) (numHeaderFields r) (add16 from 2);
     Some (r\<lparr>outBuf := out, edges := es, numHeaderFields := (numHeaderFields r + 1) mod 256\<rparr>)
   }"

definition addHeader :: "pools \<Rightarrow> bytes \<Rightarrow> bytes \<Rightarrow> 'a httpOut_scheme \<Rightarrow> (bool \<times> 'a httpOut_scheme) option" where
  "addHeader pool name v r =
    (if name = [] then Some (False, r)
     else do {
       (room, r) \<leftarrow> growHeaders pool (length name + 2 + length v + 2) r;
       (case room of
          None \<Rightarrow> Some (False, r)
        | Some (from, edge) \<Rightarrow> do {
            (out, from) \<leftarrow> copyFrom (outBuf r) from name;
            out \<leftarrow> put2 out from (ch CHR '':'') (ch CHR '' '');
            (out, from) \<leftarrow> copyFrom out (from + 2) v;
            r \<leftarrow> addCRLFHeader from (r\<lparr>outBuf := out\<rparr>);
            Some (True, r)
          })
     })"

definition addTrailer :: "pools \<Rightarrow> bytes \<Rightarrow> bytes \<Rightarrow> 'a httpOut_scheme \<Rightarrow> (bool \<times> 'a httpOut_scheme) option" where
  "addTrailer pool name v r =
    (if name = [] then Some (False, r)
     else do {
       (room, r) \<leftarrow> growTrailers pool (length name + 2 + length v + 2) r;
       (case room of
          None \<Rightarrow> Some (False, r)
        | Some (from, edge) \<Rightarrow> do {
            (out, from) \<leftarrow> copyFrom (outBuf r) from name;
            out \<leftarrow> put2 out from (ch CHR '':'') (ch CHR '' '');
            (out, from) \<leftarrow> copyFrom out (from + 2) v;
            out \<leftarrow> put2 out from 0x0D 0x0A;
            es \<leftarrow> put (edges r) (numTrailerFields r) (add16 from 2);
            Some (True, r\<lparr>outBuf := out, edges := es, numTrailerFields := (numTrailerFields r + 1) mod 256\<rparr>)
          })
     })"

text \<open>The loop of \<open>header\<close> and \<open>trailer\<close> over the indexes of the fields.\<close>

primrec findField :: "bytes \<Rightarrow> 'a httpOut_scheme \<Rightarrow> nat list \<Rightarrow> nat \<Rightarrow> bytes option option" where
  "findField name r [] from = Some None"
| "findField name r (i # is) from = do {
     edge \<leftarrow> idx (edges r) i;
     field \<leftarrow> sub (outBuf r) from edge;
     (case indexByte field (ch CHR '':'') of
        Some p \<Rightarrow>
          if take p field = name
          then if length field < 2 then None else do { v \<leftarrow> sub field (p + 2) (length field - 2); Some (Some v) }
          else findField name r is edge
      | None \<Rightarrow> findField name r is edge)
   }"

definition header :: "bytes \<Rightarrow> 'a httpOut_scheme \<Rightarrow> bytes option option" where
  "header name r = (if numHeaderFields r > 1 \<and> name \<noteq> [] then findField name r [1..<numHeaderFields r] 0 else Some None)"

definition trailer :: "bytes \<Rightarrow> 'a httpOut_scheme \<Rightarrow> bytes option option" where
  "trailer name r = (if numTrailerFields r > 1 \<and> name \<noteq> [] then findField name r [1..<numTrailerFields r] 0 else Some None)"

primrec hasField :: "bytes \<Rightarrow> 'a httpOut_scheme \<Rightarrow> nat list \<Rightarrow> nat \<Rightarrow> bool option" where
  "hasField name r [] from = Some False"
| "hasField name r (i # is) from = do {
     edge \<leftarrow> idx (edges r) i;
     field \<leftarrow> sub (outBuf r) from edge;
     (case indexByte field (ch CHR '':'') of
        Some p \<Rightarrow> if take p field = name then Some True else hasField name r is edge
      | None \<Rightarrow> hasField name r is edge)
   }"

definition hasHeader :: "bytes \<Rightarrow> 'a httpOut_scheme \<Rightarrow> bool option" where
  "hasHeader name r = (if numHeaderFields r > 1 \<and> name \<noteq> [] then hasField name r [1..<numHeaderFields r] 0 else Some False)"

text \<open>
  Deleting the field at index \<open>i\<close>, from \<open>from\<close> to \<open>edge\<close>: the octets behind it move forward, and every
  later edge is lowered where it stands.
\<close>

definition lowerEdges :: "nat \<Rightarrow> nat \<Rightarrow> nat \<Rightarrow> nat list \<Rightarrow> nat list" where
  "lowerEdges i n k es = map (\<lambda>(j, e). if i < j \<and> j < n then sub16 e k else e) (zip [0..<length es] es)"

definition cutField :: "nat \<Rightarrow> nat \<Rightarrow> nat \<Rightarrow> 'a httpOut_scheme \<Rightarrow> 'a httpOut_scheme option" where
  "cutField i from edge r =
    (let k = sub16 edge from in
     if from > length (outBuf r) \<or> edge > length (outBuf r) \<or> numHeaderFields r > length (edges r) then None
     else Some (r\<lparr>outBuf := copyAt (outBuf r) from (drop edge (outBuf r)),
       edges := lowerEdges i (numHeaderFields r) k (edges r),
       outputEdge := sub16 (outputEdge r) k, numHeaderFields := (if numHeaderFields r = 0 then 255 else numHeaderFields r - 1)\<rparr>))"

definition delHeaderAt :: "nat \<Rightarrow> 'a httpOut_scheme \<Rightarrow> 'a httpOut_scheme option" where
  "delHeaderAt i r =
    (if i = 0 then None
     else do { from \<leftarrow> idx (edges r) (i - 1); edge \<leftarrow> idx (edges r) i; cutField i from edge r })"

lemma cutField_fewer:
  "cutField i from edge r = Some r' \<Longrightarrow> i < numHeaderFields r \<Longrightarrow>
   numHeaderFields r' = numHeaderFields r - 1"
  by (auto simp: cutField_def Let_def split: if_splits)

text \<open>The loop of \<open>delHeader\<close>; a position -1 of the colon becomes 65535.\<close>

function delLoop :: "bytes \<Rightarrow> nat \<Rightarrow> nat \<Rightarrow> bool \<Rightarrow> 'a httpOut_scheme \<Rightarrow> (bool \<times> 'a httpOut_scheme) option" where
  "delLoop name i from deleted r =
    (if i < numHeaderFields r then do {
       edge \<leftarrow> idx (edges r) i;
       field \<leftarrow> sub (outBuf r) from edge;
       start \<leftarrow> sub (outBuf r) from (add16 from (case indexByte field (ch CHR '':'') of Some p \<Rightarrow> p | None \<Rightarrow> 65535));
       (if start = name then
          (case cutField i from edge r of None \<Rightarrow> None | Some r' \<Rightarrow> delLoop name i from True r')
        else delLoop name (i + 1) edge deleted r)
     } else Some (deleted, r))"
  by pat_completeness auto
termination
  by (relation "measure (\<lambda>(name, i, from, deleted, r). numHeaderFields r - i)") (auto dest: cutField_fewer)

declare delLoop.simps [simp del]

definition delHeader :: "bytes \<Rightarrow> 'a httpOut_scheme \<Rightarrow> (bool \<times> 'a httpOut_scheme) option" where
  "delHeader name r = delLoop name 1 0 False r"

subsection \<open>The fields a message holds\<close>

text \<open>
  The representation: the lines lie one after the other at the start of the buffer, the edges are their
  ends, and 256 octets stay free for \<open>finalizeHeaders\<close>.
\<close>

definition holds :: "'a httpOut_scheme \<Rightarrow> bytes list \<Rightarrow> bool" where
  "holds r ls \<longleftrightarrow> length (edges r) = 128 \<and> numHeaderFields r = Suc (length ls) \<and> length ls < 128 \<and>
     (\<forall>i \<le> length ls. edges r ! i = length (concat (take i ls))) \<and>
     outputEdge r = length (concat ls) \<and> take (outputEdge r) (outBuf r) = concat ls \<and>
     length (outBuf r) \<in> {1536, 4096, 16384} \<and> outputEdge r + 256 \<le> length (outBuf r)"

definition fieldLine :: "bytes \<Rightarrow> bytes \<Rightarrow> bytes" where
  "fieldLine name v = name @ bs '': '' @ v @ [0x0D, 0x0A]"

named_theorems out_simps \<open>writing into a buffer that has room\<close>

lemma copyFrom_room [out_simps]:
  "from + length src \<le> length out \<Longrightarrow> copyFrom out from src = Some (copyAt out from src, from + length src)"
  by (simp add: copyFrom_def)

lemma put2_room [out_simps]: "from + 1 < length out \<Longrightarrow> put2 out from a b = Some (copyAt out from [a, b])"
proof -
  assume r: "from + 1 < length out"
  have "out[from := a, Suc from := b] = copyAt out from [a, b]"
  proof (rule nth_equalityI)
    fix i
    assume "i < length (out[from := a, Suc from := b])"
    with r show "out[from := a, Suc from := b] ! i = copyAt out from [a, b] ! i"
      by (subst nth_copyAt) (auto simp: nth_list_update nth_Cons split: nat.split)
  qed (use r in simp)
  with r show ?thesis
    by (simp add: put2_def put_Some)
qed

lemma copyAt_copyAt [out_simps]:
  assumes "at + length a + length b \<le> length out"
  shows "copyAt (copyAt out at a) (at + length a) b = copyAt out at (a @ b)"
proof (rule nth_equalityI)
  show "length (copyAt (copyAt out at a) (at + length a) b) = length (copyAt out at (a @ b))"
    using assms by simp
  fix i
  assume "i < length (copyAt (copyAt out at a) (at + length a) b)"
  with assms have i: "i < length out" by simp
  have "copyAt (copyAt out at a) (at + length a) b ! i =
    (if i < at + length a then copyAt out at a ! i
     else if i < at + length a + length b then b ! (i - (at + length a)) else copyAt out at a ! i)"
    using assms i by (intro nth_copyAt) simp_all
  then show "copyAt (copyAt out at a) (at + length a) b ! i = copyAt out at (a @ b) ! i"
    using assms i nth_copyAt [of at a out i] nth_copyAt [of at "a @ b" out i]
    by (auto simp: nth_append)
qed

lemma take_copyAt [out_simps]: "at \<le> length out \<Longrightarrow> at + length a \<le> length out \<Longrightarrow> take (at + length a) (copyAt out at a) = take at out @ a"
  by (simp add: copyAt_def)

lemma take_copyAt_before: "b \<le> at \<Longrightarrow> at \<le> length out \<Longrightarrow> take b (copyAt out at a) = take b out"
  by (simp add: copyAt_def min_def)

text \<open>Growing: there is room unless the field would not fit into 16384 octets with 256 to spare.\<close>

lemma growFields_holds:
  assumes "holds r ls" "goodPools pool" "0 < k" "k \<le> 16384"
  shows "if outputEdge r + k + 256 \<le> 16384
     then \<exists>out. growFields pool k r = Some (Some (outputEdge r, outputEdge r + k), r\<lparr>outBuf := out, outputEdge := outputEdge r + k\<rparr>) \<and>
       take (outputEdge r) out = concat ls \<and> length out \<in> {1536, 4096, 16384} \<and> outputEdge r + k + 256 \<le> length out
     else growFields pool k r = Some (None, r)"
proof -
  define e where "e = outputEdge r"
  have r: "take e (outBuf r) = concat ls" "length (concat ls) = e" "e \<le> length (outBuf r)" "e \<le> 16384"
    "length (outBuf r) \<in> {1536, 4096, 16384}"
    using assms(1) by (auto simp: holds_def e_def)
  have top: "add16 e k = e + k" "add16 (e + k) 256 = e + k + 256"
    using r(4) assms(4) by (simp_all add: add16_def)
  have grow: "growFields pool k r = (if e + k + 256 \<le> 16384 then
     do { r \<leftarrow> (if e + k + 256 > length (outBuf r) then do {
                 used \<leftarrow> sub (outBuf r) 0 e;
                 Some (r\<lparr>outBuf := copyAt (GetNK pool (e + k + 256)) 0 used\<rparr>) } else Some r);
          Some (Some (e, e + k), r\<lparr>outputEdge := e + k\<rparr>) }
     else Some (None, r))"
    using assms(3,4) by (auto simp: growFields_def Let_def e_def [symmetric] top)
  show ?thesis
  proof (cases "e + k + 256 \<le> 16384")
    case room: True
    show ?thesis
    proof (cases "e + k + 256 > length (outBuf r)")
      case long: True
      let ?new = "GetNK pool (e + k + 256)"
      have "length ?new = nkSize (e + k + 256)" by (rule length_GetNK [OF assms(2)])
      with room have new: "length ?new \<in> {4096, 16384}" "e + k + 256 \<le> length ?new" by (auto simp: nkSize_def)
      have sub: "sub (outBuf r) 0 e = Some (concat ls)"
        using r by (simp add: sub_def slice_def)
      have "take e (copyAt ?new 0 (concat ls)) = concat ls"
        using new(2) r(2) by (simp add: copyAt_def)
      moreover have "growFields pool k r =
        Some (Some (e, e + k), r\<lparr>outBuf := copyAt ?new 0 (concat ls), outputEdge := e + k\<rparr>)"
        using room long sub by (simp add: grow)
      ultimately show ?thesis
        using room new unfolding e_def [symmetric] by (intro if_P [THEN iffD2, OF room]) auto
    next
      case False
      have "growFields pool k r = Some (Some (e, e + k), r\<lparr>outBuf := outBuf r, outputEdge := e + k\<rparr>)"
        using room False by (simp add: grow)
      with room False r show ?thesis
        unfolding e_def [symmetric] by (simp only: if_True not_less) blast
    qed
  qed (simp add: grow e_def [symmetric])
qed

lemma holds_less: "holds r ls \<Longrightarrow> length ls < 128"
  by (simp add: holds_def)

text \<open>Closing a line: the octets of the line are in place, and its end is marked.\<close>

lemma close_line:
  assumes "holds r ls" "length ls < 127"
    and out: "take (outputEdge r) out = concat ls" "length out \<in> {1536, 4096, 16384}"
      "outputEdge r + (length w + 2) + 256 \<le> length out"
  shows "\<exists>out' es. addCRLFHeader (outputEdge r + length w)
      (r\<lparr>outputEdge := outputEdge r + (length w + 2), outBuf := copyAt out (outputEdge r) w\<rparr>) =
    Some (r\<lparr>outBuf := out', edges := es, outputEdge := outputEdge r + (length w + 2), numHeaderFields := Suc (numHeaderFields r)\<rparr>) \<and>
    holds (r\<lparr>outBuf := out', edges := es, outputEdge := outputEdge r + (length w + 2), numHeaderFields := Suc (numHeaderFields r)\<rparr>)
      (ls @ [w @ [0x0D, 0x0A]])"
proof -
  define e where "e = outputEdge r"
  have r: "length (edges r) = 128" "numHeaderFields r = Suc (length ls)" "length (concat ls) = e"
    "\<forall>i \<le> length ls. edges r ! i = length (concat (take i ls))"
    using assms(1) by (auto simp: holds_def e_def)
  let ?out = "copyAt out e (w @ [0x0D, 0x0A])" and ?es = "(edges r)[Suc (length ls) := e + length w + 2]"
  have "e + length w + 2 < 65536" using out by (auto simp: e_def)
  then have edge: "add16 (e + length w) 2 = e + length w + 2" by (simp add: add16_def)
  have "addCRLFHeader (e + length w) (r\<lparr>outputEdge := e + (length w + 2), outBuf := copyAt out e w\<rparr>) =
    Some (r\<lparr>outBuf := ?out, edges := ?es, outputEdge := e + (length w + 2), numHeaderFields := Suc (numHeaderFields r)\<rparr>)"
    using out r assms(2) by (simp add: addCRLFHeader_def put2_room copyAt_copyAt e_def [symmetric] panic_simps edge)
  moreover have "holds (r\<lparr>outBuf := ?out, edges := ?es, outputEdge := e + (length w + 2), numHeaderFields := Suc (numHeaderFields r)\<rparr>)
      (ls @ [w @ [0x0D, 0x0A]])"
  proof -
    have "take (e + (length w + 2)) ?out = concat ls @ w @ [0x0D, 0x0A]"
      using take_copyAt [of e out "w @ [0x0D, 0x0A]"] out by (simp add: e_def [symmetric])
    moreover have "?es ! i = length (concat (take i (ls @ [w @ [0x0D, 0x0A]])))" if "i \<le> Suc (length ls)" for i
      using that r assms(2) by (cases "i = Suc (length ls)") simp_all
    ultimately show ?thesis
      using r out assms(2) by (auto simp: holds_def e_def [symmetric])
  qed
  ultimately show ?thesis unfolding e_def by blast
qed

text \<open>Only the lines change.\<close>

definition sameButLines :: "'a httpOut_scheme \<Rightarrow> 'a httpOut_scheme \<Rightarrow> bool" where
  "sameButLines r r' \<longleftrightarrow> (\<exists>out es e n. r' = r\<lparr>outBuf := out, edges := es, outputEdge := e, numHeaderFields := n\<rparr>)"

lemma sameButLines_refl [simp]: "sameButLines r r"
  unfolding sameButLines_def by (intro exI [of _ "outBuf r"] exI [of _ "edges r"] exI [of _ "outputEdge r"] exI [of _ "numHeaderFields r"]) simp

lemma sameButLines_trans: "sameButLines r s \<Longrightarrow> sameButLines s t \<Longrightarrow> sameButLines r t"
  unfolding sameButLines_def by (elim exE; hypsubst; simp) blast

lemma sameButLines_selects:
  assumes "sameButLines r r'"
  shows "controlEdge r' = controlEdge r" "numTrailerFields r' = numTrailerFields r" "contentSize r' = contentSize r"
    "isSent r' = isSent r" "forbidContent r' = forbidContent r" "forbidFraming r' = forbidFraming r"
    "hasRevisers r' = hasRevisers r" "iContentType r' = iContentType r" "iDate r' = iDate r" "httpOut.more r' = httpOut.more r"
  using assms by (auto simp: sameButLines_def)

text \<open>The pattern of every call that adds a line: grow by the size, copy the pieces, close the line.\<close>

primrec writePieces :: "bytes list \<Rightarrow> bytes \<Rightarrow> nat \<Rightarrow> (bytes \<times> nat) option" where
  "writePieces [] out from = Some (out, from)"
| "writePieces (p # ps) out from = do { (out, from) \<leftarrow> copyFrom out from p; writePieces ps out from }"

definition addLine :: "pools \<Rightarrow> nat \<Rightarrow> bytes list \<Rightarrow> 'a httpOut_scheme \<Rightarrow> (bool \<times> 'a httpOut_scheme) option" where
  "addLine pool k pieces r = do {
     (room, r) \<leftarrow> growHeaders pool k r;
     (case room of
        None \<Rightarrow> Some (False, r)
      | Some (from, edge) \<Rightarrow> do {
          (out, from) \<leftarrow> writePieces pieces (outBuf r) from;
          r \<leftarrow> addCRLFHeader from (r\<lparr>outBuf := out\<rparr>);
          Some (True, r)
        })
   }"

declare writePieces.simps [simp del]

lemma writePieces_room:
  assumes "i + length (concat ps) \<le> length out"
  shows "writePieces ps out i = Some (copyAt out i (concat ps), i + length (concat ps))"
  using assms
proof (induction ps arbitrary: out i)
  case Nil
  then show ?case by (simp add: copyAt_def writePieces.simps)
next
  case (Cons p ps)
  then show ?case
    by (simp add: writePieces.simps copyFrom_room copyAt_copyAt add.assoc)
qed

definition roomFor :: "nat \<Rightarrow> bytes list \<Rightarrow> 'a httpOut_scheme \<Rightarrow> bool" where
  "roomFor k ls r \<longleftrightarrow> length ls < 127 \<and> outputEdge r + k + 256 \<le> 16384"

lemma addLine_holds:
  assumes "holds r ls" "goodPools pool" "k = length (concat ps) + 2" "k \<le> 16384"
  shows "if roomFor k ls r
     then \<exists>r'. addLine pool k ps r = Some (True, r') \<and> holds r' (ls @ [concat ps @ [0x0D, 0x0A]]) \<and> sameButLines r r'
     else addLine pool k ps r = Some (False, r)"
proof (cases "length ls < 127")
  case False
  then have "numHeaderFields r = 128" using assms(1) by (auto simp: holds_def)
  then show ?thesis using False by (simp add: addLine_def growHeaders_def roomFor_def)
next
  case few: True
  then have "numHeaderFields r \<noteq> 128" using assms(1) by (auto simp: holds_def)
  then have grow: "growHeaders pool k r = growFields pool k r" by (simp add: growHeaders_def)
  have k: "0 < k" using assms(3) by simp
  show ?thesis
  proof (cases "outputEdge r + k + 256 \<le> 16384")
    case False
    then show ?thesis
      using growFields_holds [OF assms(1,2) k assms(4)] by (simp add: addLine_def grow roomFor_def)
  next
    case True
    then obtain out where g: "growFields pool k r = Some (Some (outputEdge r, outputEdge r + k), r\<lparr>outBuf := out, outputEdge := outputEdge r + k\<rparr>)"
      and out: "take (outputEdge r) out = concat ls" "length out \<in> {1536, 4096, 16384}" "outputEdge r + k + 256 \<le> length out"
      using growFields_holds [OF assms(1,2) k assms(4)] unfolding if_P [OF True] by blast
    have w: "writePieces ps out (outputEdge r) = Some (copyAt out (outputEdge r) (concat ps), outputEdge r + length (concat ps))"
      using out(3) assms(3) by (intro writePieces_room) simp
    obtain out' es where c: "addCRLFHeader (outputEdge r + length (concat ps))
        (r\<lparr>outputEdge := outputEdge r + (length (concat ps) + 2), outBuf := copyAt out (outputEdge r) (concat ps)\<rparr>) =
      Some (r\<lparr>outBuf := out', edges := es, outputEdge := outputEdge r + (length (concat ps) + 2), numHeaderFields := Suc (numHeaderFields r)\<rparr>)"
      and h: "holds (r\<lparr>outBuf := out', edges := es, outputEdge := outputEdge r + (length (concat ps) + 2), numHeaderFields := Suc (numHeaderFields r)\<rparr>)
        (ls @ [concat ps @ [0x0D, 0x0A]])"
      using close_line [OF assms(1) few out(1,2)] out(3) assms(3) by blast
    let ?r = "r\<lparr>outBuf := out', edges := es, outputEdge := outputEdge r + (length (concat ps) + 2), numHeaderFields := Suc (numHeaderFields r)\<rparr>"
    have "addLine pool k ps r = Some (True, ?r)"
      using c unfolding assms(3) [symmetric] by (simp add: addLine_def grow g w)
    moreover have "sameButLines r ?r" unfolding sameButLines_def by blast
    moreover have R: "roomFor k ls r" using True few by (simp add: roomFor_def)
    ultimately show ?thesis
      using h unfolding if_P [OF R] by blast
  qed
qed

text \<open>\<open>addHeader\<close> writes the colon and the space by index; with room this is a third piece.\<close>

lemma addHeader_addLine:
  assumes "holds r ls" "goodPools pool" "name \<noteq> []" "length (fieldLine name v) \<le> 16384"
  shows "addHeader pool name v r = addLine pool (length (fieldLine name v)) [name, bs '': '', v] r"
proof -
  have k: "length name + 2 + length v + 2 = length (fieldLine name v)" by (simp add: fieldLine_def)
  have put: "put2 (copyAt out i name) (i + length name) (ch CHR '':'') (ch CHR '' '') =
      Some (copyAt out i (name @ bs '': ''))" if "i + length (fieldLine name v) \<le> length out" for out i
    using that by (simp add: fieldLine_def put2_room copyAt_copyAt)
  have copy: "copyFrom out i name = Some (copyAt out i name, i + length name)"
    "copyFrom (copyAt out i (name @ bs '': '')) (i + length name + 2) v =
       Some (copyAt out i (name @ bs '': '' @ v), i + length name + 2 + length v)"
    if "i + length (fieldLine name v) \<le> length out" for out i
    using that copyAt_copyAt [of i "name @ bs '': ''" v out] by (simp_all add: fieldLine_def copyFrom_room add.assoc)
  show ?thesis
  proof (cases "growHeaders pool (length (fieldLine name v)) r")
    case None
    then show ?thesis using assms(3) unfolding addHeader_def addLine_def k by simp
  next
    case (Some g)
    then obtain room r' where g: "growHeaders pool (length (fieldLine name v)) r = Some (room, r')" by (cases g) auto
    show ?thesis
    proof (cases room)
      case None
      then show ?thesis using assms(3) g unfolding addHeader_def addLine_def k by simp
    next
      case (Some fe)
      then obtain i edge where fe: "room = Some (i, edge)" by (cases fe) auto
      have "i + length (fieldLine name v) \<le> length (outBuf r')"
        using g growFields_holds [OF assms(1,2) _ assms(4)] unfolding growHeaders_def fe
        by (auto simp: fieldLine_def split: if_splits)
      then show ?thesis
        using assms(3) g fe put copy writePieces_room [of i "[name, bs '': '', v]" "outBuf r'"]
        unfolding addHeader_def addLine_def k by (simp add: add.assoc) (simp add: fieldLine_def add.assoc)
    qed
  qed
qed

lemma addHeader_holds:
  assumes "holds r ls" "goodPools pool" "name \<noteq> []" "length (fieldLine name v) \<le> 16384"
  shows "if roomFor (length (fieldLine name v)) ls r
     then \<exists>r'. addHeader pool name v r = Some (True, r') \<and> holds r' (ls @ [fieldLine name v]) \<and> sameButLines r r'
     else addHeader pool name v r = Some (False, r)"
proof -
  have "length (fieldLine name v) = length (concat [name, bs '': '', v]) + 2"
    "concat [name, bs '': '', v] @ [0x0D, 0x0A] = fieldLine name v"
    by (simp_all add: fieldLine_def)
  from addLine_holds [OF assms(1,2) this(1) assms(4)] this(2) show ?thesis
    by (simp only: addHeader_addLine [OF assms])
qed

subsection \<open>Names of fields\<close>

text \<open>The two passes of \<open>_nameCheck\<close>: hash a name that is all lower case, or lower it into a buffer of 256 octets.\<close>

abbreviation lowerName :: "byte \<Rightarrow> bool" where
  "lowerName b \<equiv> ch CHR ''a'' \<le> b \<and> b \<le> ch CHR ''z'' \<or> b = ch CHR ''-''"

abbreviation upperByte :: "byte \<Rightarrow> bool" where
  "upperByte b \<equiv> ch CHR ''A'' \<le> b \<and> b \<le> ch CHR ''Z''"

primrec hashPass :: "uint16 \<Rightarrow> bytes \<Rightarrow> uint16 \<times> bool" where
  "hashPass h [] = (h, True)"
| "hashPass h (b # w) = (if lowerName b then hashPass (h + ucast b) w else (0, False))"

primrec lowerPass :: "uint16 \<Rightarrow> bytes \<Rightarrow> bytes \<Rightarrow> (uint16 \<times> bytes) option" where
  "lowerPass h acc [] = Some (h, acc)"
| "lowerPass h acc (b # w) =
    (if upperByte b then lowerPass (h + ucast (b + 0x20)) (acc @ [b + 0x20]) w
     else if \<not> lowerName b then None
     else lowerPass (h + ucast b) (acc @ [b]) w)"

definition nameCheck :: "bytes \<Rightarrow> (uint16 \<times> bytes) option" where
  "nameCheck name =
    (let nameSize = length name in
     if nameSize = 0 \<or> nameSize > 255 then None
     else (let (h, allLower) = hashPass 0 name in if allLower then Some (h, name) else lowerPass h [] name))"

definition lowerOf :: "byte \<Rightarrow> byte" where
  "lowerOf b = (if upperByte b then b + 0x20 else b)"

lemma upper_not_lower: "upperByte b \<Longrightarrow> \<not> lowerName b"
  by (auto simp: word_le_nat_alt)

lemma hashPass_eq:
  "hashPass h w = (if list_all lowerName w then (foldl (\<lambda>hash b. hash + ucast b) h w, True) else (0, False))"
  by (induction w arbitrary: h) auto

lemma lowerPass_eq:
  "lowerPass h acc w = (if list_all (\<lambda>b. upperByte b \<or> lowerName b) w
     then Some (foldl (\<lambda>hash b. hash + ucast b) h (map lowerOf w), acc @ map lowerOf w) else None)"
  by (induction w arbitrary: h acc) (auto simp: lowerOf_def dest: upper_not_lower)

text \<open>The name is checked, hashed and lowered.\<close>

lemma nameCheck_eq:
  "nameCheck name = (if name \<noteq> [] \<and> length name \<le> 255 \<and> list_all (\<lambda>b. upperByte b \<or> lowerName b) name
     then Some (bytesHash (map lowerOf name), map lowerOf name) else None)"
proof -
  have "lowerOf b = b" if "lowerName b" for b
    using that upper_not_lower [of b] unfolding lowerOf_def by argo
  then have low: "map lowerOf w = w" if "list_all lowerName w" for w
    using that by (simp add: list_all_iff map_idI)
  have "list_all lowerName w \<Longrightarrow> list_all (\<lambda>b. upperByte b \<or> lowerName b) w" for w
    by (auto simp: list_all_iff)
  with low [of name] show ?thesis
    by (simp add: nameCheck_def hashPass_eq lowerPass_eq bytesHash_def)
qed

lemma lowerOf_plain: "upperByte b \<or> lowerName b \<Longrightarrow> lowerName (lowerOf b)"
proof -
  assume b: "upperByte b \<or> lowerName b"
  show ?thesis
  proof (cases "upperByte b")
    case True
    then have "unat (b + 0x20) = unat b + 32"
      by (intro unat_add_lem [THEN iffD1, of b "0x20", simplified]) (simp add: word_le_nat_alt)
    with True show ?thesis by (simp add: lowerOf_def word_le_nat_alt)
  next
    case False
    with b have "lowerName b" by blast
    then show ?thesis unfolding lowerOf_def if_not_P [OF False] .
  qed
qed

subsection \<open>Responses\<close>

text \<open>
  \<open>serverResponse_\<close>: the status and the two times that a response keeps as numbers.  A time is -1 (not set),
  -2 (added as a field, whose index is kept) or the seconds.
\<close>

record serverResponse = httpOut +
  status :: int
  expiresTime :: int
  lastModifiedTime :: int
  iExpires :: nat
  iLastModified :: nat

definition bytesContentType :: bytes where "bytesContentType = bs ''content-type''"
definition bytesDate :: bytes where "bytesDate = bs ''date''"
definition bytesExpires :: bytes where "bytesExpires = bs ''expires''"
definition bytesLastModified :: bytes where "bytesLastModified = bs ''last-modified''"

definition StatusOK :: int where "StatusOK = 200"
definition StatusNoContent :: int where "StatusNoContent = 204"
definition StatusNotModified :: int where "StatusNotModified = 304"

text \<open>\<open>onUse\<close>: a response as it leaves the pool.\<close>

definition newResponse :: serverResponse where
  "newResponse = \<lparr>outBuf = replicate 1536 0, edges = replicate 128 0, outputEdge = 0, controlEdge = 0,
     numHeaderFields = 1, numTrailerFields = 1, contentSize = - 1, isSent = False, forbidContent = False,
     forbidFraming = False, hasRevisers = False, iContentType = 0, iDate = 0,
     status = StatusOK, expiresTime = - 1, lastModifiedTime = - 1, iExpires = 0, iLastModified = 0\<rparr>"

definition SetStatus :: "int \<Rightarrow> serverResponse \<Rightarrow> bool \<times> serverResponse" where
  "SetStatus s r =
    (if 200 \<le> s \<and> s \<le> 999 then
       (True,
        if s = StatusNoContent then r\<lparr>status := s, forbidFraming := True, forbidContent := True\<rparr>
        else if s = StatusNotModified then r\<lparr>status := s, forbidFraming := True, forbidContent := True\<rparr>
        else r\<lparr>status := s\<rparr>)
     else (False, r))"

text \<open>
  Singletons and times.  A pointer to an index or a time is a value that goes in and comes out; the
  number of fields is 8 bits wide.
\<close>

definition lastIndex :: "'a httpOut_scheme \<Rightarrow> nat" where
  "lastIndex r = (numHeaderFields r + 255) mod 256"

definition appendSingleton ::
  "pools \<Rightarrow> nat \<Rightarrow> bytes \<Rightarrow> bytes \<Rightarrow> 'a httpOut_scheme \<Rightarrow> (bool \<times> nat \<times> 'a httpOut_scheme) option" where
  "appendSingleton pool i name v r =
    (if i > 0 then Some (False, i, r)
     else do {
       (ok, r) \<leftarrow> addHeader pool name v r;
       Some (if ok then (True, lastIndex r, r) else (False, i, r))
     })"

definition deleteSingleton :: "nat \<Rightarrow> 'a httpOut_scheme \<Rightarrow> (bool \<times> nat \<times> 'a httpOut_scheme) option" where
  "deleteSingleton i r = (if i = 0 then Some (False, i, r) else do { r \<leftarrow> delHeaderAt i r; Some (True, 0, r) })"

definition setUnixTime :: "int \<Rightarrow> int \<Rightarrow> nat \<Rightarrow> 'a httpOut_scheme \<Rightarrow> (bool \<times> int \<times> nat \<times> 'a httpOut_scheme) option" where
  "setUnixTime unixTime t i r =
    (if unixTime < 0 then Some (False, t, i, r)
     else do {
       (i, r) \<leftarrow> (if t = - 2 then do { r \<leftarrow> delHeaderAt i r; Some (0, r) } else Some (i, r));
       Some (True, unixTime, i, r)
     })"

definition addUnixTime ::
  "pools \<Rightarrow> int \<Rightarrow> nat \<Rightarrow> bytes \<Rightarrow> bytes \<Rightarrow> 'a httpOut_scheme \<Rightarrow> (bool \<times> int \<times> nat \<times> 'a httpOut_scheme) option" where
  "addUnixTime pool t i name httpDate r = do {
     (t, i, r) \<leftarrow> (if t = - 2 then do { r \<leftarrow> delHeaderAt i r; Some (t, 0, r) } else Some (- 2, i, r));
     (ok, r) \<leftarrow> addHeader pool name httpDate r;
     Some (if ok then (True, t, lastIndex r, r) else (False, t, i, r))
   }"

definition delUnixTime :: "int \<Rightarrow> nat \<Rightarrow> 'a httpOut_scheme \<Rightarrow> (bool \<times> int \<times> nat \<times> 'a httpOut_scheme) option" where
  "delUnixTime t i r =
    (if t = - 1 then Some (False, t, i, r)
     else do {
       (i, r) \<leftarrow> (if t = - 2 then do { r \<leftarrow> delHeaderAt i r; Some (0, r) } else Some (i, r));
       Some (True, - 1, i, r)
     })"

definition SetExpires :: "int \<Rightarrow> serverResponse \<Rightarrow> (bool \<times> serverResponse) option" where
  "SetExpires t r = do {
     (ok, t, i, r) \<leftarrow> setUnixTime t (expiresTime r) (iExpires r) r;
     Some (ok, r\<lparr>expiresTime := t, iExpires := i\<rparr>) }"

definition SetLastModified :: "int \<Rightarrow> serverResponse \<Rightarrow> (bool \<times> serverResponse) option" where
  "SetLastModified t r = do {
     (ok, t, i, r) \<leftarrow> setUnixTime t (lastModifiedTime r) (iLastModified r) r;
     Some (ok, r\<lparr>lastModifiedTime := t, iLastModified := i\<rparr>) }"

text \<open>The functions the table of critical fields points to.\<close>

definition runInsert :: "pools \<Rightarrow> string \<Rightarrow> bytes \<Rightarrow> serverResponse \<Rightarrow> (bool \<times> serverResponse) option" where
  "runInsert pool f v r =
    (if f = ''_insertContentType'' then do {
       (ok, i, r) \<leftarrow> appendSingleton pool (iContentType r) bytesContentType v r;
       Some (ok, r\<lparr>iContentType := i\<rparr>) }
     else if f = ''_insertDate'' then do {
       (ok, i, r) \<leftarrow> appendSingleton pool (iDate r) bytesDate v r;
       Some (ok, r\<lparr>iDate := i\<rparr>) }
     else if f = ''_insertExpires'' then do {
       (ok, t, i, r) \<leftarrow> addUnixTime pool (expiresTime r) (iExpires r) bytesExpires v r;
       Some (ok, r\<lparr>expiresTime := t, iExpires := i\<rparr>) }
     else if f = ''_insertLastModified'' then do {
       (ok, t, i, r) \<leftarrow> addUnixTime pool (lastModifiedTime r) (iLastModified r) bytesLastModified v r;
       Some (ok, r\<lparr>lastModifiedTime := t, iLastModified := i\<rparr>) }
     else None)"

definition runRemove :: "string \<Rightarrow> serverResponse \<Rightarrow> (bool \<times> serverResponse) option" where
  "runRemove f r =
    (if f = ''_removeContentType'' then do {
       (ok, i, r) \<leftarrow> deleteSingleton (iContentType r) r; Some (ok, r\<lparr>iContentType := i\<rparr>) }
     else if f = ''_removeDate'' then do {
       (ok, i, r) \<leftarrow> deleteSingleton (iDate r) r; Some (ok, r\<lparr>iDate := i\<rparr>) }
     else if f = ''_removeExpires'' then do {
       (ok, t, i, r) \<leftarrow> delUnixTime (expiresTime r) (iExpires r) r;
       Some (ok, r\<lparr>expiresTime := t, iExpires := i\<rparr>) }
     else if f = ''_removeLastModified'' then do {
       (ok, t, i, r) \<leftarrow> delUnixTime (lastModifiedTime r) (iLastModified r) r;
       Some (ok, r\<lparr>lastModifiedTime := t, iLastModified := i\<rparr>) }
     else None)"

definition insertHeader :: "pools \<Rightarrow> uint16 \<Rightarrow> bytes \<Rightarrow> bytes \<Rightarrow> serverResponse \<Rightarrow> (bool \<times> serverResponse) option" where
  "insertHeader pool hash name v r = do {
     action \<leftarrow> serverResponse_insertHeader hash name;
     (case action of
        Pretend \<Rightarrow> Some (True, r)
      | Call f \<Rightarrow> runInsert pool f v r
      | Generic \<Rightarrow> addHeader pool name v r) }"

definition removeHeader :: "uint16 \<Rightarrow> bytes \<Rightarrow> serverResponse \<Rightarrow> (bool \<times> serverResponse) option" where
  "removeHeader hash name r = do {
     action \<leftarrow> serverResponse_removeHeader hash name;
     (case action of
        Pretend \<Rightarrow> Some (True, r)
      | Call f \<Rightarrow> runRemove f r
      | Generic \<Rightarrow> delHeader name r) }"

definition AddHeaderBytes :: "pools \<Rightarrow> bytes \<Rightarrow> bytes \<Rightarrow> serverResponse \<Rightarrow> (bool \<times> serverResponse) option" where
  "AddHeaderBytes pool name v r =
    (case nameCheck name of
       None \<Rightarrow> Some (False, r)
     | Some (hash, lower) \<Rightarrow>
         if \<exists>b \<in> set v. b = 0x0D \<or> b = 0x0A then Some (False, r)
         else insertHeader pool hash lower v r)"

definition DelHeaderBytes :: "bytes \<Rightarrow> serverResponse \<Rightarrow> (bool \<times> serverResponse) option" where
  "DelHeaderBytes name r =
    (case nameCheck name of None \<Rightarrow> Some (False, r) | Some (hash, lower) \<Rightarrow> removeHeader hash lower r)"

subsection \<open>Looking a field up\<close>

text \<open>The fields of a message as names and values; no name has a colon.\<close>

definition linesOf :: "(bytes \<times> bytes) list \<Rightarrow> bytes list" where
  "linesOf fs = map (\<lambda>(n, v). fieldLine n v) fs"

definition goodNames :: "(bytes \<times> bytes) list \<Rightarrow> bool" where
  "goodNames fs \<longleftrightarrow> (\<forall>(n, v) \<in> set fs. ch CHR '':'' \<notin> set n)"

lemma indexByte_append: "b \<notin> set p \<Longrightarrow> indexByte (p @ b # s) b = Some (length p)"
  by (induction p) auto

lemma slice_mid: "xs = a @ b @ c \<Longrightarrow> slice xs (length a) (length a + length b) = b"
  by (simp add: slice_def)

lemma slice_line:
  assumes "holds r ls" "i < length ls"
  shows "idx (edges r) (Suc i) = Some (length (concat (take (Suc i) ls)))"
    "sub (outBuf r) (length (concat (take i ls))) (length (concat (take (Suc i) ls))) = Some (ls ! i)"
proof -
  have r: "take (outputEdge r) (outBuf r) = concat ls" "outputEdge r = length (concat ls)" "length (concat ls) \<le> length (outBuf r)"
    "length (edges r) = 128" "length ls < 128" "\<forall>i \<le> length ls. edges r ! i = length (concat (take i ls))"
    using assms(1) by (auto simp: holds_def)
  show "idx (edges r) (Suc i) = Some (length (concat (take (Suc i) ls)))"
    using r(4-6) assms(2) by (simp add: panic_simps)
  have ls: "concat ls = concat (take i ls) @ ls ! i @ concat (drop (Suc i) ls)"
    using assms(2) by (metis append.assoc concat.simps(2) concat_append id_take_nth_drop)
  have step: "length (concat (take (Suc i) ls)) = length (concat (take i ls)) + length (ls ! i)"
    using assms(2) by (simp add: take_Suc_conv_app_nth)
  have "outBuf r = concat ls @ drop (outputEdge r) (outBuf r)"
    using r(1) by (metis append_take_drop_id)
  then have "outBuf r = concat (take i ls) @ ls ! i @ (concat (drop (Suc i) ls) @ drop (outputEdge r) (outBuf r))"
    by (subst (asm) ls) simp
  then have "slice (outBuf r) (length (concat (take i ls))) (length (concat (take (Suc i) ls))) = ls ! i"
    unfolding step by (rule slice_mid)
  moreover have "length (concat (take (Suc i) ls)) \<le> length (outBuf r)"
    using r(3) arg_cong [OF ls, of length] step by simp
  ultimately show "sub (outBuf r) (length (concat (take i ls))) (length (concat (take (Suc i) ls))) = Some (ls ! i)"
    using step by (simp add: sub_Some)
qed

lemma findField_line:
  assumes "ch CHR '':'' \<notin> set n"
  shows "indexByte (fieldLine n v) (ch CHR '':'') = Some (length n)" "take (length n) (fieldLine n v) = n"
    "sub (fieldLine n v) (length n + 2) (length (fieldLine n v) - 2) = Some v" "2 \<le> length (fieldLine n v)"
  using indexByte_append [OF assms] by (simp_all add: fieldLine_def sub_def slice_def)

lemma findField_holds:
  assumes "holds r (linesOf fs)" "goodNames fs" "i \<le> length fs"
  shows "findField name r [Suc i..<Suc (length fs)] (length (concat (take i (linesOf fs)))) = Some (map_of (drop i fs) name)"
  using assms(3)
proof (induction "length fs - i" arbitrary: i)
  case 0
  then show ?case by simp
next
  case (Suc k)
  then have i: "i < length fs" by simp
  obtain n v where nv: "fs ! i = (n, v)" by fastforce
  have "ch CHR '':'' \<notin> set n" using assms(2) nth_mem [OF i] nv by (auto simp: goodNames_def)
  note line = findField_line [OF this, of v]
  have il: "i < length (linesOf fs)" using i by (simp add: linesOf_def)
  have ln: "linesOf fs ! i = fieldLine n v" using i nv by (simp add: linesOf_def)
  have "[Suc i..<Suc (length fs)] = Suc i # [Suc (Suc i)..<Suc (length fs)]"
    using i by (simp add: upt_conv_Cons)
  moreover have "drop i fs = (n, v) # drop (Suc i) fs" using i nv by (metis Cons_nth_drop_Suc)
  ultimately show ?case
    using slice_line [OF assms(1) il] Suc.hyps(1) [of "Suc i"] Suc.hyps(2) i line
    by (cases "name = n") (simp_all add: ln not_less del: upt_Suc)
qed

lemma header_holds:
  assumes "holds r (linesOf fs)" "goodNames fs" "name \<noteq> []"
  shows "header name r = Some (map_of fs name)"
proof -
  have "numHeaderFields r = Suc (length fs)" using assms(1) by (simp add: holds_def linesOf_def)
  then show ?thesis
    using findField_holds [OF assms(1,2), of 0] assms(3) by (cases fs) (simp_all add: header_def del: upt_Suc)
qed

lemma hasField_findField:
  "(\<forall>v. findField name r is i = Some v \<longrightarrow> hasField name r is i = Some (v \<noteq> None))"
  by (induction "is" arbitrary: i) (auto split: bind_splits option.splits if_splits)

lemma hasHeader_holds:
  assumes "holds r (linesOf fs)" "goodNames fs" "name \<noteq> []"
  shows "hasHeader name r = Some (name \<in> fst ` set fs)"
proof -
  have "numHeaderFields r = Suc (length fs)" using assms(1) by (simp add: holds_def linesOf_def)
  moreover have "map_of fs name \<noteq> None \<longleftrightarrow> name \<in> fst ` set fs" by (simp add: map_of_eq_None_iff)
  ultimately show ?thesis
    using findField_holds [OF assms(1,2), of 0] assms(3) hasField_findField [of name r "[Suc 0..<Suc (length fs)]" 0]
    by (cases fs) (simp_all add: hasHeader_def del: upt_Suc)
qed

lemma newResponse_holds: "holds newResponse []"
  by (simp add: holds_def newResponse_def)

subsection \<open>Deleting a field\<close>

lemma cutField_holds:
  assumes "holds r ls" "i < length ls"
  shows "\<exists>out es. delHeaderAt (Suc i) r = Some (r\<lparr>outBuf := out, edges := es,
      outputEdge := length (concat (take i ls @ drop (Suc i) ls)), numHeaderFields := length ls\<rparr>) \<and>
    take (length (concat (take i ls @ drop (Suc i) ls))) out = concat (take i ls @ drop (Suc i) ls) \<and>
    length out = length (outBuf r) \<and> length es = 128 \<and>
    (\<forall>j. j \<le> i \<longrightarrow> es ! j = length (concat (take j ls))) \<and>
    (\<forall>j. Suc i < j \<and> j \<le> length ls \<longrightarrow> es ! j = length (concat (take j ls)) - length (ls ! i)) \<and>
    es ! Suc i = length (concat (take (Suc i) ls))"
proof -
  define a b c where "a = concat (take i ls)" and "b = ls ! i" and "c = concat (drop (Suc i) ls)"
  have ls: "concat ls = a @ b @ c"
    using assms(2) unfolding a_def b_def c_def by (metis append.assoc concat.simps(2) concat_append id_take_nth_drop)
  have r: "take (outputEdge r) (outBuf r) = a @ b @ c" "outputEdge r = length (a @ b @ c)" "outputEdge r \<le> length (outBuf r)"
    "length (edges r) = 128" "length ls < 128" "\<And>j. j \<le> length ls \<Longrightarrow> edges r ! j = length (concat (take j ls))"
    "numHeaderFields r = Suc (length ls)" "length (outBuf r) \<le> 16384"
    using assms(1) ls by (auto simp: holds_def)
  define z where "z = drop (outputEdge r) (outBuf r)"
  have out: "outBuf r = a @ b @ c @ z" using r(1) unfolding z_def by (metis append.assoc append_take_drop_id)
  have e: "edges r ! i = length a" "edges r ! Suc i = length a + length b"
    using r(6) [of i] r(6) [of "Suc i"] assms(2) by (simp_all add: a_def b_def take_Suc_conv_app_nth)
  have small: "length a + length b + length c \<le> 16384" using r(2,3,8) by simp
  have sub: "sub16 (x + y) y = x" if "x + y \<le> 16384" for x y
    using that by (simp add: sub16_def)
  have k: "sub16 (length a + length b) (length a) = length b" "sub16 (outputEdge r) (length b) = length a + length c"
    using small r(2) sub [of "length b" "length a"] sub [of "length a + length c" "length b"] by (simp_all add: add.commute add.left_commute)
  have low: "sub16 (length (concat (take j ls))) (length b) = length (concat (take j ls)) - length b"
    if "Suc i < j" "j \<le> length ls" for j
  proof -
    have "take j ls = take (Suc i) ls @ take (j - Suc i) (drop (Suc i) ls)"
      using that by (metis le_add_diff_inverse less_imp_le_nat take_add)
    then have ge: "length b \<le> length (concat (take j ls))"
      using assms(2) by (simp add: take_Suc_conv_app_nth b_def)
    have "length (concat (take j ls)) \<le> length (concat ls)"
      by (metis append_take_drop_id concat_append le_add1 length_append)
    then have le: "length (concat (take j ls)) \<le> 16384" using small by (simp add: ls)
    have "length b mod 65536 = length b" using small by simp
    then have "sub16 (length (concat (take j ls))) (length b) = (length (concat (take j ls)) - length b + 65536) mod 65536"
      using ge small by (simp add: sub16_def)
    then show ?thesis using le by simp
  qed
  let ?es = "lowerEdges (Suc i) (Suc (length ls)) (length b) (edges r)" and ?out = "copyAt (a @ b @ c @ z) (length a) (c @ z)"
  have es: "?es ! j = (if Suc i < j \<and> j < Suc (length ls) then sub16 (edges r ! j) (length b) else edges r ! j)" if "j < 128" for j
    using that r(4) by (simp add: lowerEdges_def)
  have "?out = a @ c @ z @ drop (length (c @ z)) (b @ c @ z)" by (simp add: copyAt_def)
  then have t: "take (length a + length c) ?out = a @ c" by simp
  have d: "delHeaderAt (Suc i) r = Some (r\<lparr>outBuf := ?out, edges := ?es, outputEdge := length a + length c,
      numHeaderFields := length ls\<rparr>)"
    using r(4,5,7) assms(2) k e out by (simp add: delHeaderAt_def panic_simps cutField_def Let_def)
  have cat: "concat (take i ls @ drop (Suc i) ls) = a @ c" by (simp add: a_def c_def)
  show ?thesis
    unfolding cat
    using d t es r(4,5,6) low assms(2) out e
    by (intro exI [of _ ?out] exI [of _ ?es]) (auto simp: lowerEdges_def b_def)
qed

text \<open>The last field is deleted right.\<close>

lemma delHeaderAt_last:
  assumes "holds r (ls @ [l])"
  shows "\<exists>r'. delHeaderAt (Suc (length ls)) r = Some r' \<and> holds r' ls \<and> sameButLines r r'"
proof -
  have i: "length ls < length (ls @ [l])" by simp
  obtain out es where d: "delHeaderAt (Suc (length ls)) r = Some (r\<lparr>outBuf := out, edges := es,
      outputEdge := length (concat ls), numHeaderFields := Suc (length ls)\<rparr>)"
    and out: "take (length (concat ls)) out = concat ls" "length out = length (outBuf r)" "length es = 128"
    and es: "\<forall>j \<le> length ls. es ! j = length (concat (take j ls))"
    using cutField_holds [OF assms i] by auto
  let ?r = "r\<lparr>outBuf := out, edges := es, outputEdge := length (concat ls), numHeaderFields := Suc (length ls)\<rparr>"
  have "holds ?r ls" using assms out es by (auto simp: holds_def)
  moreover have "sameButLines r ?r" unfolding sameButLines_def by blast
  ultimately show ?thesis using d by blast
qed

text \<open>
  Deleting any other field leaves the octets right and the edges wrong: the edge of the deleted field stays
  where it was, and the edges behind it are lowered but not moved forward.
\<close>

lemma delHeaderAt_octets:
  assumes "holds r ls" "i < length ls"
  shows "\<exists>r'. delHeaderAt (Suc i) r = Some r' \<and> take (outputEdge r') (outBuf r') = concat (take i ls @ drop (Suc i) ls) \<and>
    edges r' ! Suc i = length (concat (take (Suc i) ls))"
  using cutField_holds [OF assms] by force

subsection \<open>No response splitting\<close>

text \<open>The lines of a header section read back: up to each line feed, the name before the colon, the value after the space.\<close>

fun splitLF :: "bytes \<Rightarrow> bytes \<Rightarrow> bytes list" where
  "splitLF acc [] = (if acc = [] then [] else [acc])"
| "splitLF acc (b # w) = (if b = 0x0A then (acc @ [b]) # splitLF [] w else splitLF (acc @ [b]) w)"

definition lineField :: "bytes \<Rightarrow> bytes \<times> bytes" where
  "lineField l = (let n = takeWhile (\<lambda>b. b \<noteq> ch CHR '':'') l in (n, take (length l - (length n + 4)) (drop (length n + 2) l)))"

definition fieldsOf :: "bytes \<Rightarrow> (bytes \<times> bytes) list" where
  "fieldsOf w = map lineField (splitLF [] w)"

definition addedHeaders :: "'a httpOut_scheme \<Rightarrow> bytes" where
  "addedHeaders r = take (outputEdge r) (outBuf r)"

definition plainField :: "bytes \<times> bytes \<Rightarrow> bool" where
  "plainField = (\<lambda>(n, v). n \<noteq> [] \<and> list_all lowerName n \<and> 0x0D \<notin> set v \<and> 0x0A \<notin> set v)"

lemma splitLF_line: "0x0A \<notin> set l \<Longrightarrow> splitLF acc (l @ 0x0A # w) = (acc @ l @ [0x0A]) # splitLF [] w"
  by (induction l arbitrary: acc) auto

lemma lowerName_facts:
  assumes "list_all lowerName n"
  shows "ch CHR '':'' \<notin> set n" "0x0A \<notin> set n" "0x0D \<notin> set n"
  using assms by (auto simp: list_all_iff)

lemma fieldsOf_lines: "list_all plainField fs \<Longrightarrow> fieldsOf (concat (linesOf fs)) = fs"
proof (induction fs)
  case Nil
  then show ?case by (simp add: fieldsOf_def linesOf_def)
next
  case (Cons f fs)
  obtain n v where f: "f = (n, v)" by (cases f)
  have n: "list_all lowerName n" and v: "0x0A \<notin> set v" using Cons.prems by (simp_all add: f plainField_def)
  note ns = lowerName_facts [OF n]
  have line: "fieldLine n v = (n @ bs '': '' @ v @ [0x0D]) @ [0x0A]" by (simp add: fieldLine_def)
  have "0x0A \<notin> set (n @ bs '': '' @ v @ [0x0D])" using ns v by simp
  from splitLF_line [OF this, of "[]" "concat (linesOf fs)"]
  have "splitLF [] (concat (linesOf (f # fs))) = fieldLine n v # splitLF [] (concat (linesOf fs))"
    by (simp add: linesOf_def f line)
  moreover have "takeWhile (\<lambda>b. b \<noteq> ch CHR '':'') (fieldLine n v) = n"
    using ns(1) by (simp add: fieldLine_def takeWhile_append)
  then have "lineField (fieldLine n v) = f"
    by (simp add: lineField_def f) (simp add: fieldLine_def)
  ultimately show ?case using Cons by (simp add: fieldsOf_def)
qed

lemma holds_update [simp]:
  "holds (r\<lparr>iContentType := i\<rparr>) ls = holds r ls" "holds (r\<lparr>iDate := i\<rparr>) ls = holds r ls"
  "holds (q\<lparr>expiresTime := t\<rparr>) ls = holds q ls" "holds (q\<lparr>lastModifiedTime := t\<rparr>) ls = holds q ls"
  "holds (q\<lparr>iExpires := i\<rparr>) ls = holds q ls" "holds (q\<lparr>iLastModified := i\<rparr>) ls = holds q ls"
  by (simp_all add: holds_def)

text \<open>The hash of an accepted name is not 0, so the lookup does not divide by 0.\<close>

lemma bytesHash_bound:
  assumes "list_all lowerName w" "length w \<le> 255" "w \<noteq> []"
  shows "bytesHash w \<noteq> 0"
proof -
  have sum: "foldl (\<lambda>hash b. hash + ucast b) h w = h + (word_of_nat (sum_list (map unat w)) :: uint16)" for h and w :: bytes
    by (induction w arbitrary: h) (simp_all add: add.assoc)
  have le: "unat b \<le> 255" for b :: byte
  proof -
    have "unat b < 256" using unsigned_less [of b] by simp
    then show ?thesis by simp
  qed
  have "sum_list (map unat w) \<le> 255 * length w" for w :: bytes
    by (induction w) (use le in \<open>auto simp: add_le_mono\<close>)
  from this [of w] assms(2) have "sum_list (map unat w) < 2 ^ 16" by simp
  moreover have "0 < sum_list (map unat w)"
    using assms(1,3) by (cases w) (auto simp: unat_gt_0 word_le_nat_alt)
  ultimately have "(word_of_nat (sum_list (map unat w)) :: uint16) \<noteq> 0"
    by (simp only: word_of_nat_eq_0_iff len_of_numeral_defs) (auto dest: dvd_imp_le)
  then show ?thesis by (simp add: bytesHash_def sum)
qed

definition criticalCalls :: "(string \<times> bytes) list" where
  "criticalCalls = [(''_insertDate'', bytesDate), (''_insertLastModified'', bytesLastModified),
     (''_insertExpires'', bytesExpires), (''_insertContentType'', bytesContentType)]"

lemma serverResponse_calls:
  "list_all (\<lambda>e. \<forall>f. inserter e = Some f \<longrightarrow> (f, criticalName e) \<in> set criticalCalls) serverResponseCriticalHeaderFieldTable"
  by (simp add: serverResponseCriticalHeaderFieldTable_def critical_def criticalCalls_def bytesContentType_def bytesDate_def
      bytesExpires_def bytesLastModified_def)

lemma insert_actions:
  assumes "bytesHash w \<noteq> 0"
  obtains "serverResponse_insertHeader (bytesHash w) w = Some Pretend" | "serverResponse_insertHeader (bytesHash w) w = Some Generic"
  | f where "serverResponse_insertHeader (bytesHash w) w = Some (Call f)" "(f, w) \<in> set criticalCalls"
proof -
  let ?e = "List.find (\<lambda>e. criticalName e = w) serverResponseCriticalHeaderFieldTable"
  have a: "serverResponse_insertHeader (bytesHash w) w = Some (criticalAction inserter ?e)"
    by (simp add: serverResponse_insertHeader_def responseCritical.lookup_exact [OF assms])
  show ?thesis
  proof (cases ?e)
    case None
    then show ?thesis using a that by (simp add: criticalAction_def)
  next
    case (Some e)
    then have "e \<in> set serverResponseCriticalHeaderFieldTable" "criticalName e = w"
      by (auto simp: find_Some_iff)
    then show ?thesis
      using a that serverResponse_calls Some by (cases "inserter e") (auto simp: criticalAction_def list_all_iff)
  qed
qed


text \<open>
  One call of \<open>AddHeaderBytes\<close>.  The index of a time field is used only when the time was added as a field
  before; the first call with such a name does not use it.
\<close>

definition lowered :: "bytes \<times> bytes \<Rightarrow> bytes \<times> bytes" where
  "lowered = (\<lambda>(n, v). (map lowerOf n, v))"

definition smallField :: "bytes \<times> bytes \<Rightarrow> bool" where
  "smallField = (\<lambda>(n, v). length (fieldLine n v) \<le> 16384)"

lemma fieldLine_lower: "length (fieldLine (map lowerOf n) v) = length (fieldLine n v)"
  by (simp add: fieldLine_def)

lemma addHeader_extends:
  assumes "holds r (linesOf fs)" "goodPools pool" "n \<noteq> []" "smallField (n, v)"
  shows "\<exists>ok r'. addHeader pool n v r = Some (ok, r') \<and> holds r' (linesOf (if ok then fs @ [(n, v)] else fs)) \<and> sameButLines r r'"
proof (cases "roomFor (length (fieldLine n v)) (linesOf fs) r")
  case True
  with addHeader_holds [OF assms(1-3), of v] assms(4) obtain r' where
    "addHeader pool n v r = Some (True, r')" "holds r' (linesOf fs @ [fieldLine n v])" "sameButLines r r'"
    by (auto simp: smallField_def)
  then show ?thesis by (auto simp: linesOf_def)
next
  case False
  with addHeader_holds [OF assms(1-3), of v] assms(1,4) show ?thesis by (auto simp: smallField_def)
qed

definition addsNow :: "serverResponse \<Rightarrow> bytes \<Rightarrow> bool" where
  "addsNow r w \<longleftrightarrow> (w = bytesExpires \<longrightarrow> expiresTime r \<noteq> - 2) \<and> (w = bytesLastModified \<longrightarrow> lastModifiedTime r \<noteq> - 2)"

lemma appendSingleton_extends:
  assumes "holds r (linesOf fs)" "goodPools pool" "w \<noteq> []" "smallField (w, v)"
  shows "\<exists>ok i' r'. appendSingleton pool i w v r = Some (ok, i', r') \<and> holds r' (linesOf (if ok then fs @ [(w, v)] else fs)) \<and>
    sameButLines r r'"
proof (cases "i > 0")
  case True
  then have "appendSingleton pool i w v r = Some (False, i, r)" by (simp add: appendSingleton_def)
  with assms(1) show ?thesis by (intro exI [of _ False] exI [of _ i] exI [of _ r]) simp
next
  case False
  obtain ok r' where add: "addHeader pool w v r = Some (ok, r')" "holds r' (linesOf (if ok then fs @ [(w, v)] else fs))" "sameButLines r r'"
    using addHeader_extends [OF assms] by blast
  have "appendSingleton pool i w v r = Some (ok, if ok then lastIndex r' else i, r')"
    using False add(1) by (simp add: appendSingleton_def)
  with add(2,3) show ?thesis by blast
qed

lemma addUnixTime_extends:
  assumes "holds r (linesOf fs)" "goodPools pool" "w \<noteq> []" "smallField (w, v)" "t \<noteq> - 2"
  shows "\<exists>ok t' i' r'. addUnixTime pool t i w v r = Some (ok, t', i', r') \<and> holds r' (linesOf (if ok then fs @ [(w, v)] else fs)) \<and>
    sameButLines r r'"
proof -
  obtain ok r' where add: "addHeader pool w v r = Some (ok, r')" "holds r' (linesOf (if ok then fs @ [(w, v)] else fs))" "sameButLines r r'"
    using addHeader_extends [OF assms(1-4)] by blast
  have "addUnixTime pool t i w v r = Some (ok, - 2, if ok then lastIndex r' else i, r')"
    using assms(5) add(1) by (simp add: addUnixTime_def)
  with add(2,3) show ?thesis by blast
qed

lemma times_sameButLines: "sameButLines r r' \<Longrightarrow> expiresTime r' = expiresTime r \<and> lastModifiedTime r' = lastModifiedTime r"
  by (auto simp: sameButLines_def)

lemma runInsert_extends:
  assumes "holds r (linesOf fs)" "goodPools pool" "(f, w) \<in> set criticalCalls" "smallField (w, v)" "addsNow r w"
  shows "\<exists>ok r'. runInsert pool f v r = Some (ok, r') \<and> holds r' (linesOf (if ok then fs @ [(w, v)] else fs)) \<and>
    (w \<noteq> bytesExpires \<longrightarrow> expiresTime r' = expiresTime r) \<and> (w \<noteq> bytesLastModified \<longrightarrow> lastModifiedTime r' = lastModifiedTime r)"
proof -
  have w: "w \<noteq> []"
    using assms(3) by (auto simp: criticalCalls_def bytesContentType_def bytesDate_def bytesExpires_def bytesLastModified_def)
  note single = appendSingleton_extends [OF assms(1,2) w assms(4)] and time = addUnixTime_extends [OF assms(1,2) w assms(4)]
  consider "f = ''_insertDate''" "w = bytesDate" | "f = ''_insertLastModified''" "w = bytesLastModified"
    | "f = ''_insertExpires''" "w = bytesExpires" | "f = ''_insertContentType''" "w = bytesContentType"
    using assms(3) unfolding criticalCalls_def by auto
  then show ?thesis
  proof cases
    case 1
    from single [of "iDate r"] obtain ok i' r' where
      "appendSingleton pool (iDate r) w v r = Some (ok, i', r')" "holds r' (linesOf (if ok then fs @ [(w, v)] else fs))" "sameButLines r r'"
      by blast
    with 1 times_sameButLines [of r r'] show ?thesis
      by (intro exI [of _ ok] exI [of _ "r'\<lparr>iDate := i'\<rparr>"]) (simp add: runInsert_def)
  next
    case 2
    have "lastModifiedTime r \<noteq> - 2" using assms(5) 2 by (simp add: addsNow_def)
    from time [OF this, of "iLastModified r"] obtain ok t' i' r' where
      "addUnixTime pool (lastModifiedTime r) (iLastModified r) w v r = Some (ok, t', i', r')"
      "holds r' (linesOf (if ok then fs @ [(w, v)] else fs))" "sameButLines r r'"
      by blast
    with 2 times_sameButLines [of r r'] show ?thesis
      by (intro exI [of _ ok] exI [of _ "r'\<lparr>lastModifiedTime := t', iLastModified := i'\<rparr>"]) (simp add: runInsert_def)
  next
    case 3
    have "expiresTime r \<noteq> - 2" using assms(5) 3 by (simp add: addsNow_def)
    from time [OF this, of "iExpires r"] obtain ok t' i' r' where
      "addUnixTime pool (expiresTime r) (iExpires r) w v r = Some (ok, t', i', r')"
      "holds r' (linesOf (if ok then fs @ [(w, v)] else fs))" "sameButLines r r'"
      by blast
    with 3 times_sameButLines [of r r'] show ?thesis
      by (intro exI [of _ ok] exI [of _ "r'\<lparr>expiresTime := t', iExpires := i'\<rparr>"]) (simp add: runInsert_def)
  next
    case 4
    from single [of "iContentType r"] obtain ok i' r' where
      "appendSingleton pool (iContentType r) w v r = Some (ok, i', r')" "holds r' (linesOf (if ok then fs @ [(w, v)] else fs))" "sameButLines r r'"
      by blast
    with 4 times_sameButLines [of r r'] show ?thesis
      by (intro exI [of _ ok] exI [of _ "r'\<lparr>iContentType := i'\<rparr>"]) (simp add: runInsert_def)
  qed
qed

lemma AddHeaderBytes_step:
  assumes "holds r (linesOf fs)" "goodPools pool" "smallField (n, v)" "addsNow r (map lowerOf n)"
  shows "\<exists>ok r' fs'. AddHeaderBytes pool n v r = Some (ok, r') \<and> holds r' (linesOf (fs @ fs')) \<and>
    (fs' = [] \<or> fs' = [lowered (n, v)] \<and> plainField (lowered (n, v))) \<and>
    (map lowerOf n \<noteq> bytesExpires \<longrightarrow> expiresTime r' = expiresTime r) \<and>
    (map lowerOf n \<noteq> bytesLastModified \<longrightarrow> lastModifiedTime r' = lastModifiedTime r)"
proof (cases "n \<noteq> [] \<and> length n \<le> 255 \<and> list_all (\<lambda>b. upperByte b \<or> lowerName b) n \<and> 0x0D \<notin> set v \<and> 0x0A \<notin> set v")
  case False
  then have "AddHeaderBytes pool n v r = Some (False, r)" by (auto simp: AddHeaderBytes_def nameCheck_eq)
  with assms(1) show ?thesis by (intro exI [of _ False] exI [of _ r] exI [of _ "[]"]) simp
next
  case True
  let ?w = "map lowerOf n"
  have low: "list_all lowerName ?w" using True lowerOf_plain by (auto simp: list_all_iff)
  have plain: "plainField (lowered (n, v))" using True low by (simp add: plainField_def lowered_def)
  have hash: "bytesHash ?w \<noteq> 0" using True by (intro bytesHash_bound [OF low]) simp_all
  have small: "smallField (?w, v)" using assms(3) fieldLine_lower [of n v] by (simp add: smallField_def)
  have add: "AddHeaderBytes pool n v r = insertHeader pool (bytesHash ?w) ?w v r"
    using True by (auto simp: AddHeaderBytes_def nameCheck_eq)
  show ?thesis
  proof (rule insert_actions [OF hash])
    assume "serverResponse_insertHeader (bytesHash ?w) ?w = Some Pretend"
    then have "AddHeaderBytes pool n v r = Some (True, r)" by (simp add: add insertHeader_def)
    with assms(1) show ?thesis by (intro exI [of _ True] exI [of _ r] exI [of _ "[]"]) simp
  next
    assume g: "serverResponse_insertHeader (bytesHash ?w) ?w = Some Generic"
    have "?w \<noteq> []" using True by simp
    then obtain ok r' where "addHeader pool ?w v r = Some (ok, r')" "holds r' (linesOf (if ok then fs @ [(?w, v)] else fs))" "sameButLines r r'"
      using addHeader_extends [OF assms(1,2) _ small] by blast
    with g plain show ?thesis
      by (intro exI [of _ ok] exI [of _ r'] exI [of _ "if ok then [lowered (n, v)] else []"])
        (auto simp: add insertHeader_def lowered_def sameButLines_def)
  next
    fix f
    assume c: "serverResponse_insertHeader (bytesHash ?w) ?w = Some (Call f)" "(f, ?w) \<in> set criticalCalls"
    from runInsert_extends [OF assms(1,2) c(2) small assms(4)] obtain ok r' where
      "runInsert pool f v r = Some (ok, r')" "holds r' (linesOf (if ok then fs @ [(?w, v)] else fs))"
      "?w \<noteq> bytesExpires \<longrightarrow> expiresTime r' = expiresTime r" "?w \<noteq> bytesLastModified \<longrightarrow> lastModifiedTime r' = lastModifiedTime r"
      by blast
    with c(1) plain show ?thesis
      by (intro exI [of _ ok] exI [of _ r'] exI [of _ "if ok then [lowered (n, v)] else []"])
        (auto simp: add insertHeader_def lowered_def)
  qed
qed

text \<open>A sequence of calls.\<close>

primrec AddHeaders :: "pools \<Rightarrow> (bytes \<times> bytes) list \<Rightarrow> serverResponse \<Rightarrow> serverResponse option" where
  "AddHeaders pool [] r = Some r"
| "AddHeaders pool (h # hs) r = do { (ok, r) \<leftarrow> AddHeaderBytes pool (fst h) (snd h) r; AddHeaders pool hs r }"

definition onceOnly :: "bytes \<Rightarrow> (bytes \<times> bytes) list \<Rightarrow> bool" where
  "onceOnly w hs \<longleftrightarrow> length (filter (\<lambda>h. fst (lowered h) = w) hs) \<le> 1"

lemma onceOnly_Cons:
  "onceOnly w (h # hs) \<Longrightarrow> onceOnly w hs" "onceOnly w (h # hs) \<Longrightarrow> fst (lowered h) = w \<Longrightarrow> w \<notin> (\<lambda>h. fst (lowered h)) ` set hs"
  by (auto simp: onceOnly_def filter_empty_conv split: if_splits)

lemma AddHeaders_holds:
  assumes "holds r (linesOf fs)" "list_all plainField fs" "goodPools pool" "list_all smallField hs"
    and "onceOnly bytesExpires hs" "onceOnly bytesLastModified hs"
    and "bytesExpires \<in> (\<lambda>h. fst (lowered h)) ` set hs \<longrightarrow> expiresTime r \<noteq> - 2"
    and "bytesLastModified \<in> (\<lambda>h. fst (lowered h)) ` set hs \<longrightarrow> lastModifiedTime r \<noteq> - 2"
  shows "\<exists>r' fs'. AddHeaders pool hs r = Some r' \<and> holds r' (linesOf (fs @ fs')) \<and> subseq fs' (map lowered hs) \<and>
    list_all plainField (fs @ fs')"
  using assms
proof (induction hs arbitrary: r fs)
  case Nil
  then show ?case by (intro exI [of _ r] exI [of _ "[]"]) simp
next
  case (Cons h hs)
  have now: "addsNow r (map lowerOf (fst h))" "smallField (fst h, snd h)"
    using Cons.prems by (auto simp: addsNow_def lowered_def split: prod.splits)
  obtain ok r' fs' where h: "AddHeaderBytes pool (fst h) (snd h) r = Some (ok, r')" "holds r' (linesOf (fs @ fs'))"
    "fs' = [] \<or> fs' = [lowered h] \<and> plainField (lowered h)"
    "fst (lowered h) \<noteq> bytesExpires \<longrightarrow> expiresTime r' = expiresTime r"
    "fst (lowered h) \<noteq> bytesLastModified \<longrightarrow> lastModifiedTime r' = lastModifiedTime r"
    using AddHeaderBytes_step [OF Cons.prems(1,3) now(2,1)] by (auto simp: lowered_def split: prod.splits)
  have "\<exists>r'' fs''. AddHeaders pool hs r' = Some r'' \<and> holds r'' (linesOf ((fs @ fs') @ fs'')) \<and> subseq fs'' (map lowered hs) \<and>
      list_all plainField ((fs @ fs') @ fs'')"
  proof (rule Cons.IH)
    show "holds r' (linesOf (fs @ fs'))" "goodPools pool" by (fact h Cons.prems)+
    show "list_all plainField (fs @ fs')" "list_all smallField hs" using Cons.prems h(3) by auto
    show "onceOnly bytesExpires hs" "onceOnly bytesLastModified hs"
      using Cons.prems(5,6) by (blast dest: onceOnly_Cons(1))+
    show "bytesExpires \<in> (\<lambda>h. fst (lowered h)) ` set hs \<longrightarrow> expiresTime r' \<noteq> - 2"
      using Cons.prems(7) h(4) onceOnly_Cons(2) [OF Cons.prems(5)] by force
    show "bytesLastModified \<in> (\<lambda>h. fst (lowered h)) ` set hs \<longrightarrow> lastModifiedTime r' \<noteq> - 2"
      using Cons.prems(8) h(5) onceOnly_Cons(2) [OF Cons.prems(6)] by force
  qed
  then obtain r'' fs'' where rec: "AddHeaders pool hs r' = Some r''" "holds r'' (linesOf (fs @ (fs' @ fs'')))"
    "subseq fs'' (map lowered hs)" "list_all plainField (fs @ (fs' @ fs''))" by auto
  have "subseq (fs' @ fs'') (lowered h # map lowered hs)" using h(3) rec(3) by auto
  with rec h(1) show ?case by (intro exI [of _ r''] exI [of _ "fs' @ fs''"]) simp
qed


subsection \<open>The header section goes out\<close>

text \<open>\<open>http1Controls\<close>: the status lines of the known statuses.\<close>

definition http1Controls :: "(int \<times> string) list" where
  "http1Controls =
    [(100, ''HTTP/1.1 100 Continue''), (101, ''HTTP/1.1 101 Switching Protocols''),
     (102, ''HTTP/1.1 102 Processing''), (103, ''HTTP/1.1 103 Early Hints''),
     (200, ''HTTP/1.1 200 OK''), (201, ''HTTP/1.1 201 Created''), (202, ''HTTP/1.1 202 Accepted''),
     (203, ''HTTP/1.1 203 Non-Authoritative Information''), (204, ''HTTP/1.1 204 No Content''),
     (205, ''HTTP/1.1 205 Reset Content''), (206, ''HTTP/1.1 206 Partial Content''),
     (207, ''HTTP/1.1 207 Multi-Status''), (208, ''HTTP/1.1 208 Already Reported''), (226, ''HTTP/1.1 226 IM Used''),
     (300, ''HTTP/1.1 300 Multiple Choices''), (301, ''HTTP/1.1 301 Moved Permanently''), (302, ''HTTP/1.1 302 Found''),
     (303, ''HTTP/1.1 303 See Other''), (304, ''HTTP/1.1 304 Not Modified''), (305, ''HTTP/1.1 305 Use Proxy''),
     (307, ''HTTP/1.1 307 Temporary Redirect''), (308, ''HTTP/1.1 308 Permanent Redirect''),
     (400, ''HTTP/1.1 400 Bad Request''), (401, ''HTTP/1.1 401 Unauthorized''), (402, ''HTTP/1.1 402 Payment Required''),
     (403, ''HTTP/1.1 403 Forbidden''), (404, ''HTTP/1.1 404 Not Found''), (405, ''HTTP/1.1 405 Method Not Allowed''),
     (406, ''HTTP/1.1 406 Not Acceptable''), (407, ''HTTP/1.1 407 Proxy Authentication Required''),
     (408, ''HTTP/1.1 408 Request Timeout''), (409, ''HTTP/1.1 409 Conflict''), (410, ''HTTP/1.1 410 Gone''),
     (411, ''HTTP/1.1 411 Length Required''), (412, ''HTTP/1.1 412 Precondition Failed''),
     (413, ''HTTP/1.1 413 Content Too Large''), (414, ''HTTP/1.1 414 URI Too Long''),
     (415, ''HTTP/1.1 415 Unsupported Media Type''), (416, ''HTTP/1.1 416 Range Not Satisfiable''),
     (417, ''HTTP/1.1 417 Expectation Failed''), (421, ''HTTP/1.1 421 Misdirected Request''),
     (422, ''HTTP/1.1 422 Unprocessable Entity''), (423, ''HTTP/1.1 423 Locked''),
     (424, ''HTTP/1.1 424 Failed Dependency''), (425, ''HTTP/1.1 425 Too Early''),
     (426, ''HTTP/1.1 426 Upgrade Required''), (428, ''HTTP/1.1 428 Precondition Required''),
     (429, ''HTTP/1.1 429 Too Many Requests''), (431, ''HTTP/1.1 431 Request Header Fields Too Large''),
     (451, ''HTTP/1.1 451 Unavailable For Legal Reasons''), (500, ''HTTP/1.1 500 Internal Server Error''),
     (501, ''HTTP/1.1 501 Not Implemented''), (502, ''HTTP/1.1 502 Bad Gateway''),
     (503, ''HTTP/1.1 503 Service Unavailable''), (504, ''HTTP/1.1 504 Gateway Timeout''),
     (505, ''HTTP/1.1 505 HTTP Version Not Supported''), (506, ''HTTP/1.1 506 Variant Also Negotiates''),
     (507, ''HTTP/1.1 507 Insufficient Storage''), (508, ''HTTP/1.1 508 Loop Detected''),
     (510, ''HTTP/1.1 510 Not Extended''), (511, ''HTTP/1.1 511 Network Authentication Required'')]"

definition crlf :: bytes where "crlf = [0x0D, 0x0A]"

text \<open>Any other status is written into a template.\<close>

definition controlData :: "serverResponse \<Rightarrow> bytes" where
  "controlData r =
    (case map_of http1Controls (status r) of
       Some text \<Rightarrow> bs text @ crlf
     | None \<Rightarrow> bs ''HTTP/1.1 '' @ [word_of_int (status r div 100) + ch CHR ''0'',
         word_of_int (status r div 10 mod 10) + ch CHR ''0'', word_of_int (status r mod 10) + ch CHR ''0''] @ bs '' X'' @ crlf)"

definition http1BytesConnectionClose :: bytes where "http1BytesConnectionClose = bs ''connection: close'' @ crlf"
definition http1BytesConnectionKeepAlive :: bytes where "http1BytesConnectionKeepAlive = bs ''connection: keep-alive'' @ crlf"
definition http1BytesContentTypeHTML :: bytes where "http1BytesContentTypeHTML = bs ''content-type: text/html'' @ crlf"
definition http1BytesTransferChunked :: bytes where "http1BytesTransferChunked = bs ''transfer-encoding: chunked'' @ crlf"
definition http1BytesFixedResponseHeaders :: bytes where "http1BytesFixedResponseHeaders = bs ''server: gorox'' @ crlf @ crlf"
definition bytesContentLength :: bytes where "bytesContentLength = bs ''content-length''"

lemmas fixedBytes = http1BytesConnectionClose_def http1BytesConnectionKeepAlive_def http1BytesContentTypeHTML_def
  http1BytesTransferChunked_def http1BytesFixedResponseHeaders_def bytesContentLength_def crlf_def
  bytesExpires_def bytesLastModified_def

text \<open>Writing at the end of what is there: the writer gets the rest of the buffer and says how much it wrote.\<close>

definition writeTail :: "(bytes \<Rightarrow> (bytes \<times> nat) option) \<Rightarrow> 'a httpOut_scheme \<Rightarrow> 'a httpOut_scheme option" where
  "writeTail write r =
    (let e = outputEdge r in
     if e > length (outBuf r) then None
     else do { (dst, n) \<leftarrow> write (drop e (outBuf r)); Some (r\<lparr>outBuf := take e (outBuf r) @ dst, outputEdge := add16 e n\<rparr>) })"

definition copyTail :: "bytes \<Rightarrow> 'a httpOut_scheme \<Rightarrow> 'a httpOut_scheme option" where
  "copyTail w = writeTail (\<lambda>dst. Some (copyAt dst 0 w, min (length w) (length dst)))"

definition putTail :: "byte \<Rightarrow> byte \<Rightarrow> 'a httpOut_scheme \<Rightarrow> 'a httpOut_scheme option" where
  "putTail a b = writeTail (\<lambda>dst. do { dst \<leftarrow> put2 dst 0 a b; Some (dst, 2) })"

definition addFixedHeader :: "bytes \<Rightarrow> bytes \<Rightarrow> 'a httpOut_scheme \<Rightarrow> 'a httpOut_scheme option" where
  "addFixedHeader name v r = do {
     r \<leftarrow> copyTail name r; r \<leftarrow> putTail (ch CHR '':'') (ch CHR '' '') r;
     r \<leftarrow> copyTail v r; putTail 0x0D 0x0A r }"

text \<open>
  \<open>finalizeHeaders\<close> of a server's HTTP/1 response.  The clock, the version of the request and whether the
  connection stays open come from outside; the last one may change.
\<close>

definition finalizeDate :: "int64 \<Rightarrow> serverResponse \<Rightarrow> serverResponse option" where
  "finalizeDate clock r = (if iDate r = 0 then writeTail (clockWriteDate1 clock) r else Some r)"

definition finalizeTime :: "bytes \<Rightarrow> int \<Rightarrow> serverResponse \<Rightarrow> serverResponse option" where
  "finalizeTime name t r = (if t \<ge> 0 then writeTail (\<lambda>dst. clockWriteHTTPDate1 dst name t) r else Some r)"

definition finalizeFraming :: "bool \<Rightarrow> bool \<Rightarrow> serverResponse \<Rightarrow> (bool \<times> serverResponse) option" where
  "finalizeFraming http11 persistent r =
    (if forbidFraming r then Some (persistent, r)
     else if contentSize r \<noteq> - 2 then do {
       (buf, n) \<leftarrow> i64ToDec (word_of_int (contentSize r)) (replicate 256 0);
       r \<leftarrow> addFixedHeader bytesContentLength (take n buf) r; Some (persistent, r) }
     else if http11 then do { r \<leftarrow> copyTail http1BytesTransferChunked r; Some (persistent, r) }
     else Some (False, r))"

definition finalizeContent :: "bool \<Rightarrow> bool \<Rightarrow> serverResponse \<Rightarrow> (bool \<times> serverResponse) option" where
  "finalizeContent http11 persistent r =
    (if contentSize r \<noteq> - 1 then do {
       (persistent, r) \<leftarrow> finalizeFraming http11 persistent r;
       r \<leftarrow> (if iContentType r = 0 then copyTail http1BytesContentTypeHTML r else Some r);
       Some (persistent, r) }
     else Some (persistent, r))"

definition finalizeHeaders :: "int64 \<Rightarrow> bool \<Rightarrow> bool \<Rightarrow> serverResponse \<Rightarrow> (bool \<times> serverResponse) option" where
  "finalizeHeaders clock http11 persistent r = do {
     r \<leftarrow> finalizeDate clock r;
     r \<leftarrow> finalizeTime bytesExpires (expiresTime r) r;
     r \<leftarrow> finalizeTime bytesLastModified (lastModifiedTime r) r;
     (persistent, r) \<leftarrow> finalizeContent http11 persistent r;
     r \<leftarrow> copyTail (if persistent then http1BytesConnectionKeepAlive else http1BytesConnectionClose) r;
     Some (persistent, r) }"

text \<open>
  Sending a text: refused when the message was sent before.  Without revisers the pieces of the chain go
  out behind the three parts of the head, unless content is forbidden.  The network takes what it is given.
\<close>

datatype sendError = AlreadySent | UnknownStatus

definition sendText :: "int64 \<Rightarrow> bool \<Rightarrow> bool \<Rightarrow> bytes \<Rightarrow> serverResponse \<Rightarrow> (sendError, bytes \<times> bool \<times> serverResponse) outcome" where
  "sendText clock http11 persistent content r =
    (if isSent r then Fail AlreadySent
     else
       let r = r\<lparr>isSent := True, contentSize := int (length content)\<rparr> in
       andThen (checked (finalizeHeaders clock http11 persistent r)) (\<lambda>(persistent, r).
       Done (controlData r @ addedHeaders r @ http1BytesFixedResponseHeaders @ (if forbidContent r then [] else content),
             persistent, r)))"

definition sendError :: "(int \<Rightarrow> bytes) \<Rightarrow> int64 \<Rightarrow> bool \<Rightarrow> bool \<Rightarrow> int \<Rightarrow> bytes option \<Rightarrow> serverResponse \<Rightarrow>
    (sendError, bytes \<times> bool \<times> serverResponse) outcome" where
  "sendError pages clock http11 persistent s content r =
    (if isSent r then Fail AlreadySent
     else
       let (ok, r) = SetStatus s (r\<lparr>isSent := True\<rparr>) in
       if \<not> ok then Fail UnknownStatus
       else
         let content = (case content of Some c \<Rightarrow> c | None \<Rightarrow> pages s);
             r = r\<lparr>contentSize := int (length content)\<rparr> in
         andThen (checked (finalizeHeaders clock http11 persistent r)) (\<lambda>(persistent, r).
         Done (controlData r @ addedHeaders r @ http1BytesFixedResponseHeaders @ (if forbidContent r then [] else content),
               persistent, r)))"

subsection \<open>What goes out\<close>

text \<open>The reference: the lines of a final header section, one after the other.\<close>

definition dateLine :: "bytes \<Rightarrow> int \<Rightarrow> bytes" where
  "dateLine name t = fieldLine name (case dateText (unixDate t) of Some s \<Rightarrow> s | None \<Rightarrow> [])"

definition decimals :: "nat \<Rightarrow> bytes" where
  "decimals n = map ((\<lambda>d. word_of_int d + ch CHR ''0'') \<circ> int) (digitsOf 10 n)"

definition finalLines :: "int \<Rightarrow> bool \<Rightarrow> nat \<Rightarrow> serverResponse \<Rightarrow> bytes" where
  "finalLines now persistent n r =
    (if iDate r = 0 then dateLine bytesDate now else []) @
    (if expiresTime r \<ge> 0 then dateLine bytesExpires (expiresTime r) else []) @
    (if lastModifiedTime r \<ge> 0 then dateLine bytesLastModified (lastModifiedTime r) else []) @
    (if forbidFraming r then [] else fieldLine bytesContentLength (decimals n)) @
    (if iContentType r = 0 then http1BytesContentTypeHTML else []) @
    (if persistent then http1BytesConnectionKeepAlive else http1BytesConnectionClose)"

definition filled :: "'a httpOut_scheme \<Rightarrow> bytes \<Rightarrow> nat \<Rightarrow> bool" where
  "filled r w room \<longleftrightarrow> addedHeaders r = w \<and> outputEdge r = length w \<and> length w + room \<le> length (outBuf r) \<and> length (outBuf r) \<le> 16384"

definition sameButTail :: "'a httpOut_scheme \<Rightarrow> 'a httpOut_scheme \<Rightarrow> bool" where
  "sameButTail r r' \<longleftrightarrow> (\<exists>out e. r' = r\<lparr>outBuf := out, outputEdge := e\<rparr>)"

lemma sameButTail_refl [simp]: "sameButTail r r"
  unfolding sameButTail_def by (intro exI [of _ "outBuf r"] exI [of _ "outputEdge r"]) simp

lemma sameButTail_trans: "sameButTail r s \<Longrightarrow> sameButTail s t \<Longrightarrow> sameButTail r t"
  unfolding sameButTail_def by (elim exE; hypsubst; simp) blast

lemma sameButTail_selects:
  fixes r :: serverResponse
  assumes "sameButTail r r'"
  shows "contentSize r' = contentSize r" "forbidContent r' = forbidContent r" "forbidFraming r' = forbidFraming r"
    "iContentType r' = iContentType r" "iDate r' = iDate r" "status r' = status r" "expiresTime r' = expiresTime r"
    "lastModifiedTime r' = lastModifiedTime r"
  using assms by (auto simp: sameButTail_def)

text \<open>A step that appends \<open>x\<close> and spends at most \<open>k\<close> octets.\<close>

definition appends :: "('a httpOut_scheme \<Rightarrow> 'a httpOut_scheme option) \<Rightarrow> bytes \<Rightarrow> nat \<Rightarrow> bool" where
  "appends step x k \<longleftrightarrow> (\<forall>r w room. filled r w (k + room) \<longrightarrow> (\<exists>r'. step r = Some r' \<and> filled r' (w @ x) room \<and> sameButTail r r'))"

lemma appendsD:
  "appends step x k \<Longrightarrow> filled r w (k + room) \<Longrightarrow> \<exists>r'. step r = Some r' \<and> filled r' (w @ x) room \<and> sameButTail r r'"
  by (auto simp: appends_def)

lemma appends_writeTail:
  assumes "\<And>dst. k \<le> length dst \<Longrightarrow> write dst = Some (copyAt dst 0 x, length x)" "length x \<le> k"
  shows "appends (writeTail write) x k"
  unfolding appends_def
proof (intro allI impI)
  fix r :: "'a httpOut_scheme" and w room
  assume f: "filled r w (k + room)"
  define e where "e = outputEdge r"
  have "take e (outBuf r) = w \<and> e = length w \<and> length w + (k + room) \<le> length (outBuf r) \<and> length (outBuf r) \<le> 16384"
    using f unfolding filled_def addedHeaders_def e_def .
  then have e: "e = length w" "length (outBuf r) \<le> 16384" "take e (outBuf r) = w" and "length w + (k + room) \<le> length (outBuf r)"
    by blast+
  then have room: "e + (k + room) \<le> length (outBuf r)" by (simp only:)
  have "k \<le> length (drop e (outBuf r))" using room by simp
  note out = assms(1) [OF this]
  have sum: "add16 e (length x) = e + length x" using room e(2) assms(2) by (simp add: add16_def)
  let ?r = "r\<lparr>outBuf := take e (outBuf r) @ copyAt (drop e (outBuf r)) 0 x, outputEdge := e + length x\<rparr>"
  have "writeTail write r = Some ?r"
    using room out sum by (simp add: writeTail_def Let_def e_def [symmetric])
  moreover have "filled ?r (w @ x) room"
    using e room assms(2) by (simp add: filled_def addedHeaders_def) (simp add: copyAt_def)
  moreover have "sameButTail r ?r" unfolding sameButTail_def by blast
  ultimately show "\<exists>r'. writeTail write r = Some r' \<and> filled r' (w @ x) room \<and> sameButTail r r'" by blast
qed

lemma appends_copyTail: "length x \<le> k \<Longrightarrow> appends (copyTail x) x k"
  unfolding copyTail_def by (rule appends_writeTail) simp_all

lemma appends_putTail: "appends (putTail a b) [a, b] 2"
  unfolding putTail_def by (rule appends_writeTail) (simp_all add: put2_room)

lemma appends_seq:
  assumes "appends s x k" "appends t y m"
  shows "appends (\<lambda>r. do { r \<leftarrow> s r; t r }) (x @ y) (k + m)"
  unfolding appends_def
proof (intro allI impI)
  fix r :: "'a httpOut_scheme" and w room
  assume "filled r w (k + m + room)"
  then obtain r1 where r1: "s r = Some r1" "filled r1 (w @ x) (m + room)" "sameButTail r r1"
    using appendsD [OF assms(1), of r w "m + room"] by (auto simp: add.assoc)
  then obtain r2 where "t r1 = Some r2" "filled r2 ((w @ x) @ y) room" "sameButTail r1 r2"
    using appendsD [OF assms(2)] by blast
  with r1 show "\<exists>r'. (do { r \<leftarrow> s r; t r }) = Some r' \<and> filled r' (w @ x @ y) room \<and> sameButTail r r'"
    by (auto intro: sameButTail_trans)
qed

lemma filled_weaken: "filled r w (k + room) \<Longrightarrow> filled r w room"
  by (simp add: filled_def)

lemma appends_le:
  assumes "appends s x k" "k \<le> m"
  shows "appends s x m"
  unfolding appends_def
proof (intro allI impI)
  fix r :: "'a httpOut_scheme" and w room
  assume "filled r w (m + room)"
  moreover have "m + room = k + ((m - k) + room)" using assms(2) by simp
  ultimately show "\<exists>r'. s r = Some r' \<and> filled r' (w @ x) room \<and> sameButTail r r'"
    using appendsD [OF assms(1)] filled_weaken by (metis (no_types))
qed

lemma appends_skip: "appends Some [] k"
  unfolding appends_def by (auto dest: filled_weaken)

lemma appends_fixedHeader: "appends (addFixedHeader name v) (fieldLine name v) (length (fieldLine name v))"
proof -
  have "appends (\<lambda>r. do { r \<leftarrow> copyTail name r; r \<leftarrow> putTail (ch CHR '':'') (ch CHR '' '') r; r \<leftarrow> copyTail v r; putTail 0x0D 0x0A r })
    (name @ [ch CHR '':'', ch CHR '' ''] @ v @ [0x0D, 0x0A]) (length name + (2 + (length v + 2)))"
    by (intro appends_seq appends_copyTail appends_putTail) simp_all
  then show ?thesis
    by (simp add: addFixedHeader_def [abs_def] fieldLine_def)
qed

subsection \<open>The parts of the final section\<close>

lemma dateText_fits:
  assumes "fits d"
  obtains s where "dateText d = Some s" "length s = 29"
proof -
  obtain s where "dateText d = Some s \<and> length s = 29"
    using dateText_written [OF assms] by force
  with that show ?thesis by blast
qed

lemma appends_clockDate:
  assumes "fits (unixDate now)"
  shows "appends (writeTail (clockWriteDate1 (packDate (unixDate now)))) (dateLine bytesDate now) 37"
proof -
  obtain s where s: "dateText (unixDate now) = Some s" "length s = 29" by (rule dateText_fits [OF assms])
  have "dateLine bytesDate now = bs ''date: '' @ s @ [0x0D, 0x0A]"
    by (simp add: dateLine_def s bytesDate_def fieldLine_def)
  moreover have "appends (writeTail (clockWriteDate1 (packDate (unixDate now)))) (bs ''date: '' @ s @ [0x0D, 0x0A]) 37"
    using s by (intro appends_writeTail) (simp_all add: clockWriteDate1_def packedText_packDate [OF assms] writeAll_def)
  ultimately show ?thesis by simp
qed

lemma appends_HTTPDate:
  assumes "fits (unixDate t)"
  shows "appends (writeTail (\<lambda>dst. clockWriteHTTPDate1 dst name t)) (dateLine name t) (length name + 33)"
proof -
  obtain s where s: "dateText (unixDate t) = Some s" "length s = 29" by (rule dateText_fits [OF assms])
  have "dateLine name t = name @ bs '': '' @ s @ [0x0D, 0x0A]"
    by (simp add: dateLine_def s fieldLine_def)
  moreover have "appends (writeTail (\<lambda>dst. clockWriteHTTPDate1 dst name t)) (name @ bs '': '' @ s @ [0x0D, 0x0A]) (length name + 33)"
    using s by (intro appends_writeTail) (simp_all add: clockWriteHTTPDate1_def writeAll_def)
  ultimately show ?thesis by simp
qed

definition timely :: "int \<Rightarrow> bool" where
  "timely t \<longleftrightarrow> t < 253402300800"

lemma appends_finalizeTime:
  assumes "timely t"
  shows "appends (finalizeTime name t) (if t \<ge> 0 then dateLine name t else []) (length name + 33)"
proof (cases "t \<ge> 0")
  case True
  then have "finalizeTime name t = writeTail (\<lambda>dst. clockWriteHTTPDate1 dst name t)"
    by (simp add: finalizeTime_def [abs_def])
  with True appends_HTTPDate [OF unixDate_fits, of t name] assms show ?thesis by (simp add: timely_def)
next
  case False
  then have "finalizeTime name t = Some" by (simp add: finalizeTime_def [abs_def])
  with False show ?thesis by (simp add: appends_skip)
qed

lemma decimals_facts:
  assumes "n < 2 ^ 63"
  shows "i64ToDec (word_of_int (int n)) (replicate 256 0) = Some (decimals n @ drop (length (decimals n)) (replicate 256 0), length (decimals n))"
    "length (decimals n) \<le> 19"
proof -
  have small: "n < 10 ^ 19" using assms by simp
  have "unat (word_of_nat n :: int64) = n" using assms by (simp add: unat_word_of_nat_less)
  then have "uint (word_of_nat n :: int64) = int n" by (metis of_nat_unat)
  then have "sint (word_of_int (int n) :: int64) = int n"
    using assms by (simp add: sint_uint signed_take_bit_int_eq_self)
  then show "i64ToDec (word_of_int (int n)) (replicate 256 0) = Some (decimals n @ drop (length (decimals n)) (replicate 256 0), length (decimals n))"
    using intToDec_spec [OF small, of "replicate 256 0"] by (simp add: i64ToDec_def decimals_def)
  show "length (decimals n) \<le> 19" using dec.length_digitsOf [OF small] by (simp add: decimals_def)
qed

text \<open>The whole section, step by step: at most 256 octets, with nothing cut off.\<close>

lemma finalizeHeaders_appends:
  assumes "fits (unixDate now)" "timely (expiresTime r)" "timely (lastModifiedTime r)" "contentSize r = int n" "n < 2 ^ 63"
    and "filled r w 256"
  shows "\<exists>r'. finalizeHeaders (packDate (unixDate now)) http11 persistent r = Some (persistent, r') \<and>
    filled r' (w @ finalLines now persistent n r) 47 \<and> sameButTail r r'"
proof -
  let ?clock = "packDate (unixDate now)"
  define x1 where "x1 = (if iDate r = 0 then dateLine bytesDate now else [])"
  define x2 where "x2 = (if expiresTime r \<ge> 0 then dateLine bytesExpires (expiresTime r) else [])"
  define x3 where "x3 = (if lastModifiedTime r \<ge> 0 then dateLine bytesLastModified (lastModifiedTime r) else [])"
  define x4 where "x4 = (if forbidFraming r then [] else fieldLine bytesContentLength (decimals n))"
  define x5 where "x5 = (if iContentType r = 0 then http1BytesContentTypeHTML else [])"
  define x6 where "x6 = (if persistent then http1BytesConnectionKeepAlive else http1BytesConnectionClose)"
  have a1: "appends (if iDate r = 0 then writeTail (clockWriteDate1 ?clock) else Some) x1 37"
    by (simp add: x1_def appends_skip appends_clockDate [OF assms(1)])
  have a2: "appends (finalizeTime bytesExpires (expiresTime r)) x2 40"
    using appends_finalizeTime [OF assms(2), of bytesExpires] by (simp add: x2_def bytesExpires_def)
  have a3: "appends (finalizeTime bytesLastModified (lastModifiedTime r)) x3 46"
    using appends_finalizeTime [OF assms(3), of bytesLastModified] by (simp add: x3_def bytesLastModified_def)
  have line: "length (fieldLine bytesContentLength (decimals n)) \<le> 37"
    using decimals_facts(2) [OF assms(5)] by (simp add: fieldLine_def bytesContentLength_def)
  have a4: "appends (if forbidFraming r then Some else addFixedHeader bytesContentLength (decimals n)) x4 37"
    using line by (simp add: x4_def appends_skip appends_le [OF appends_fixedHeader])
  have a5: "appends (if iContentType r = 0 then copyTail http1BytesContentTypeHTML else Some) x5 25"
    by (simp add: x5_def appends_skip appends_copyTail fixedBytes)
  have a6: "appends (copyTail x6) x6 24"
    by (rule appends_copyTail) (simp add: x6_def fixedBytes)
  obtain r1 where r1: "finalizeDate ?clock r = Some r1" "filled r1 (w @ x1) 219" "sameButTail r r1"
    using appendsD [OF a1, of r w 219] assms(6) by (auto simp: finalizeDate_def split: if_splits)
  note s1 = sameButTail_selects [OF r1(3)]
  obtain r2 where r2: "finalizeTime bytesExpires (expiresTime r1) r1 = Some r2" "filled r2 ((w @ x1) @ x2) 179" "sameButTail r r2"
    using appendsD [OF a2, of r1 "w @ x1" 179] r1(2) sameButTail_trans [OF r1(3)] by (auto simp: s1)
  note s2 = sameButTail_selects [OF r2(3)]
  obtain r3 where r3: "finalizeTime bytesLastModified (lastModifiedTime r2) r2 = Some r3" "filled r3 (((w @ x1) @ x2) @ x3) 133"
    "sameButTail r r3"
    using appendsD [OF a3, of r2 "(w @ x1) @ x2" 133] r2(2) sameButTail_trans [OF r2(3)] by (auto simp: s2)
  note s3 = sameButTail_selects [OF r3(3)]
  obtain r4 where r4: "(if forbidFraming r then Some else addFixedHeader bytesContentLength (decimals n)) r3 = Some r4"
    "filled r4 ((((w @ x1) @ x2) @ x3) @ x4) 96" "sameButTail r r4"
    using appendsD [OF a4, of r3 "((w @ x1) @ x2) @ x3" 96] r3(2) sameButTail_trans [OF r3(3)] by auto
  note s4 = sameButTail_selects [OF r4(3)]
  obtain r5 where r5: "(if iContentType r = 0 then copyTail http1BytesContentTypeHTML else Some) r4 = Some r5"
    "filled r5 (((((w @ x1) @ x2) @ x3) @ x4) @ x5) 71" "sameButTail r r5"
    using appendsD [OF a5, of r4 "(((w @ x1) @ x2) @ x3) @ x4" 71] r4(2) sameButTail_trans [OF r4(3)] by auto
  obtain r6 where r6: "copyTail x6 r5 = Some r6" "filled r6 ((((((w @ x1) @ x2) @ x3) @ x4) @ x5) @ x6) 47" "sameButTail r r6"
    using appendsD [OF a6, of r5 "((((w @ x1) @ x2) @ x3) @ x4) @ x5" 47] r5(2) sameButTail_trans [OF r5(3)] by auto
  have "finalizeFraming http11 persistent r3 = Some (persistent, r4)"
    using r4(1) decimals_facts [OF assms(5)] assms(4) by (simp add: finalizeFraming_def s3 split: if_splits)
  then have "finalizeContent http11 persistent r3 = Some (persistent, r5)"
    using r5(1) assms(4) by (simp add: finalizeContent_def s3 s4 split: if_splits)
  then have "finalizeHeaders ?clock http11 persistent r = Some (persistent, r6)"
    using r1(1) r2(1) r3(1) r6(1) by (simp add: finalizeHeaders_def x6_def)
  moreover have "w @ finalLines now persistent n r = (((((w @ x1) @ x2) @ x3) @ x4) @ x5) @ x6"
    by (simp only: finalLines_def x1_def x2_def x3_def x4_def x5_def x6_def append_assoc)
  ultimately show ?thesis using r6(2,3) by auto
qed

lemma holds_filled: "holds r ls \<Longrightarrow> filled r (concat ls) 256"
  by (auto simp: holds_def filled_def addedHeaders_def)

lemma filled_update: "filled (r\<lparr>isSent := b, contentSize := c\<rparr>) w k = filled r w k"
  by (simp add: filled_def addedHeaders_def)



text \<open>Two calls of \<open>AddHeaderBytes\<close>; the second field would split the response and is refused.\<close>

definition twoHeaders :: "(bytes \<times> bytes) list" where
  "twoHeaders = [(bs ''X-Tag'', bs ''on''), (bs ''x-evil'', bs ''a'' @ [0x0D, 0x0A] @ bs ''b'')]"


subsection \<open>Where the code departs\<close>

text \<open>
  Deleting a field before the last one does not move the edges: unless two neighbours are equally long, the
  edges that remain are not the ends of the lines that remain, so that later lookups and deletions cut the
  section at wrong places.
\<close>

lemma delHeaderAt_breaks_edges:
  assumes "holds r ls" "Suc i < length ls" "length (ls ! i) \<noteq> length (ls ! Suc i)"
  shows "\<exists>r'. delHeaderAt (Suc i) r = Some r' \<and> \<not> holds r' (take i ls @ drop (Suc i) ls)"
proof -
  obtain r' where r': "delHeaderAt (Suc i) r = Some r'" "edges r' ! Suc i = length (concat (take (Suc i) ls))"
    using delHeaderAt_octets [OF assms(1), of i] assms(2) by auto
  have "drop (Suc i) ls = ls ! Suc i # drop (Suc (Suc i)) ls" using assms(2) by (rule Cons_nth_drop_Suc [symmetric])
  then have "take (Suc i) (take i ls @ drop (Suc i) ls) = take i ls @ [ls ! Suc i]" using assms(2) by simp
  moreover have "concat (take (Suc i) ls) = concat (take i ls) @ ls ! i"
    using assms(2) by (simp add: take_Suc_conv_app_nth)
  ultimately have "edges r' ! Suc i \<noteq> length (concat (take (Suc i) (take i ls @ drop (Suc i) ls)))"
    using r'(2) assms(3) by simp
  moreover have "Suc i \<le> length (take i ls @ drop (Suc i) ls)" using assms(2) by simp
  ultimately have "\<not> holds r' (take i ls @ drop (Suc i) ls)" unfolding holds_def by blast
  with r'(1) show ?thesis by blast
qed

text \<open>A field that cannot fit ends the program; it is not refused.\<close>

lemma addHeader_oversize:
  assumes "name \<noteq> []" "numHeaderFields r \<noteq> 128" "16384 < length (fieldLine name v)"
  shows "addHeader pool name v r = None"
  using assms by (simp add: addHeader_def growHeaders_def growFields_def fieldLine_def)

text \<open>A time that did not fit as a field is marked as if it had: setting it afterwards ends the program.\<close>

lemma SetExpires_after_full:
  assumes "addHeader pool bytesExpires v r = Some (False, r)" "expiresTime r = - 1" "iExpires r = 0" "0 \<le> t"
  shows "\<exists>r'. runInsert pool ''_insertExpires'' v r = Some (False, r') \<and> SetExpires t r' = None"
  using assms by (simp add: runInsert_def addUnixTime_def SetExpires_def setUnixTime_def delHeaderAt_def)

text \<open>The marks of a status without content stay when the status changes.\<close>

lemma SetStatus_keeps_forbidding:
  "forbidContent (snd (SetStatus 200 (snd (SetStatus 304 r))))"
  by (simp add: SetStatus_def StatusNoContent_def StatusNotModified_def)

end
