(* ===== verification/Webapps.thy ===== *)
theory Webapps
  imports Routing Requests HttpOut
begin

text \<open>
  Webapps: the rules of a webapp, how an exchan is dispatched over them, and how a server finds the webapp
  of a host (\<open>hemi/web.go\<close>, \<open>httpServer_\<close> in \<open>hemi/web_server_http.go\<close>).

  A rule is configured from its condition and its properties (\<open>ruleOnConfigure\<close>), matches a request
  (\<open>ruleIsMatch\<close>), and is executed on an exchan (\<open>executeExchan\<close>); \<open>dispatchExchan\<close> is the loop over the
  rules, an instance of \<open>firstMatch\<close> of \<open>Routing\<close>.  Handlets and revisers are interfaces of the program:
  they are functions in \<open>webEnv\<close>, and \<open>handletsAnswer\<close> and \<open>revisersPolite\<close> say what is expected of them.
  Responses are those of \<open>HttpOut\<close>.

  Shown: the operators of rules against the file system, remembered or not (\<open>ruleAccepts_file\<close>); that the
  lists of host names of the webapps and the search over them amount to a reference on the configured
  names; and that every exchan is answered.
\<close>

subsection \<open>Variables of a request\<close>

text \<open>
  \<open>riskyVariable\<close> of a request: a code indexes the table; without one, the name says where to look.
  The result \<open>None\<close> is a run-time panic; Go's nil slice is the empty list.
\<close>

definition afterPrefix :: "bytes \<Rightarrow> bytes \<Rightarrow> bytes" where
  "afterPrefix pre name = drop (length pre) name"

definition orNil :: "bytes option \<Rightarrow> bytes" where
  "orNil v = (case v of Some b \<Rightarrow> b | None \<Rightarrow> [])"

definition requestVariable :: "int \<Rightarrow> bytes \<Rightarrow> serverRequest \<Rightarrow> bytes option" where
  "requestVariable code name r =
    (if code \<noteq> - 1 then
       (if code < 0 then None else do { f \<leftarrow> idx serverRequestVariables (nat code); f r })
     else if hasPrefix name (bs ''header_'') then Some (orNil (headerValue r (afterPrefix (bs ''header_'') name)))
     else if hasPrefix name (bs ''cookie_'') then Some (orNil (cookieValue r (afterPrefix (bs ''cookie_'') name)))
     else if hasPrefix name (bs ''query_'') then Some (orNil (queryValue r (afterPrefix (bs ''query_'') name)))
     else Some [])"

subsection \<open>Matchers of a rule\<close>

type_synonym ruleMatcher =
  "bytes list \<Rightarrow> regexp list \<Rightarrow> bytes \<Rightarrow> serverRequest \<Rightarrow> bool \<times> serverRequest"

text \<open>The methods that only look at the value, and those that look at the file system (\<open>stat\<close>).\<close>

definition pureMatch :: "(bytes list \<Rightarrow> regexp list \<Rightarrow> bytes \<Rightarrow> bool) \<Rightarrow> ruleMatcher" where
  "pureMatch m ps res v r = (m ps res v, r)"

definition fileMatch :: "(bytes \<Rightarrow> bool option) \<Rightarrow> ruleMatcher" where
  "fileMatch stat ps res v r =
    (let (info, r) = getPathInfo stat r in (case info of None \<Rightarrow> False | Some isDir \<Rightarrow> \<not> isDir, r))"

definition dirMatchWithWebRoot :: "(bytes \<Rightarrow> bool option) \<Rightarrow> ruleMatcher" where
  "dirMatchWithWebRoot stat ps res v r =
    (let (info, r) = getPathInfo stat r in (case info of None \<Rightarrow> False | Some isDir \<Rightarrow> isDir, r))"

definition existMatchWithWebRoot :: "(bytes \<Rightarrow> bool option) \<Rightarrow> ruleMatcher" where
  "existMatchWithWebRoot stat ps res v r = (let (info, r) = getPathInfo stat r in (info \<noteq> None, r))"

definition dirMatch :: "(bytes \<Rightarrow> bool option) \<Rightarrow> ruleMatcher" where
  "dirMatch stat ps res v r = (if v = [slash] then (False, r) else dirMatchWithWebRoot stat ps res v r)"

definition existMatch :: "(bytes \<Rightarrow> bool option) \<Rightarrow> ruleMatcher" where
  "existMatch stat ps res v r = (if v = [slash] then (False, r) else existMatchWithWebRoot stat ps res v r)"

definition notFileMatch :: "(bytes \<Rightarrow> bool option) \<Rightarrow> ruleMatcher" where
  "notFileMatch stat ps res v r =
    (let (info, r) = getPathInfo stat r in (case info of None \<Rightarrow> True | Some isDir \<Rightarrow> isDir, r))"

definition notDirMatch :: "(bytes \<Rightarrow> bool option) \<Rightarrow> ruleMatcher" where
  "notDirMatch stat ps res v r =
    (let (info, r) = getPathInfo stat r in (case info of None \<Rightarrow> True | Some isDir \<Rightarrow> \<not> isDir, r))"

definition notExistMatch :: "(bytes \<Rightarrow> bool option) \<Rightarrow> ruleMatcher" where
  "notExistMatch stat ps res v r = (let (info, r) = getPathInfo stat r in (info = None, r))"

text \<open>The table, with the flag \<open>fsCheck\<close>.\<close>

definition ruleMatchers :: "(bytes \<Rightarrow> bool option) \<Rightarrow> bytes \<rightharpoonup> ruleMatcher \<times> bool" where
  "ruleMatchers stat = map_of
    [(bs ''=='', pureMatch (\<lambda>ps _ v. equalMatch v ps), False),
     (bs ''^='', pureMatch (\<lambda>ps _ v. prefixMatch v ps), False),
     (bs ''$='', pureMatch (\<lambda>ps _ v. suffixMatch v ps), False),
     (bs ''*='', pureMatch (\<lambda>ps _ v. containMatch v ps), False),
     (bs ''~='', pureMatch (\<lambda>_ res v. regexpMatch v res), False),
     (bs ''-f'', fileMatch stat, True),
     (bs ''-d'', dirMatch stat, True),
     (bs ''-e'', existMatch stat, True),
     (bs ''-D'', dirMatchWithWebRoot stat, True),
     (bs ''-E'', existMatchWithWebRoot stat, True),
     (bs ''!='', pureMatch (\<lambda>ps _ v. notEqualMatch v ps), False),
     (bs ''!^'', pureMatch (\<lambda>ps _ v. notPrefixMatch v ps), False),
     (bs ''!$'', pureMatch (\<lambda>ps _ v. notSuffixMatch v ps), False),
     (bs ''!*'', pureMatch (\<lambda>ps _ v. notContainMatch v ps), False),
     (bs ''!~'', pureMatch (\<lambda>_ res v. notRegexpMatch v res), False),
     (bs ''!f'', notFileMatch stat, True),
     (bs ''!d'', notDirMatch stat, True),
     (bs ''!e'', notExistMatch stat, True)]"

subsection \<open>Rules\<close>

record rule =
  ruleGeneral :: bool
  logAccess :: bool
  returnCode :: "16 word"
  returnText :: bytes
  ruleVar :: int
  ruleVarName :: bytes
  rulePatterns :: "bytes list"
  ruleRegexps :: "regexp list"
  ruleMatcher :: "ruleMatcher option"
  handlets :: "nat list"
  revisers :: "nat list"
  socklets :: "nat list"

definition newRule :: "component \<Rightarrow> rule" where
  "newRule x = \<lparr>ruleGeneral = False, logAccess = False, returnCode = 0, returnText = [], ruleVar = 0,
     ruleVarName = [], rulePatterns = [], ruleRegexps = [], ruleMatcher = None,
     handlets = members x compTypeHandlet, revisers = members x compTypeReviser,
     socklets = members x compTypeSocklet\<rparr>"

text \<open>\<open>OnConfigure\<close>, first part: the condition.\<close>

definition configureCond ::
  "(bytes \<Rightarrow> regexp option) \<Rightarrow> (bytes \<Rightarrow> bool option) \<Rightarrow> bytes \<Rightarrow> compInfo option \<Rightarrow> rule \<Rightarrow> (configError, rule) outcome" where
  "configureCond compile stat webRoot cond r =
    (case cond of
       None \<Rightarrow> Done (r\<lparr>ruleGeneral := True\<rparr>)
     | Some (CaseCond _) \<Rightarrow> Panic
     | Some (RuleCond c) \<Rightarrow>
         andThen (addPatterns compile (isRegexpCompare (compare c)) (patterns c) (rulePatterns r, ruleRegexps r)) (\<lambda>(ps, res).
         case ruleMatchers stat (compare c) of
           None \<Rightarrow> Fail (Exit CodeUse ''unknown compare in rule condition'')
         | Some (m, fsCheck) \<Rightarrow>
             if fsCheck \<and> webRoot = [] then Fail (Exit CodeUse ''can not do fs check since webRoot is empty'')
             else Done (r\<lparr>ruleVar := varCode c, ruleVarName := varName c, rulePatterns := ps,
                          ruleRegexps := res, ruleMatcher := Some m\<rparr>)))"

text \<open>The components named in a list property, which the webapp must have.\<close>

primrec namedComponents :: "(bytes \<rightharpoonup> nat) \<Rightarrow> bytes list \<Rightarrow> nat list \<Rightarrow> (configError, nat list) outcome" where
  "namedComponents comps [] acc = Done acc"
| "namedComponents comps (name # names) acc =
    (case comps name of
       Some a \<Rightarrow> namedComponents comps names (acc @ [a])
     | None \<Rightarrow> Fail (Exit CodeUse ''does not exist''))"

definition configureNamed ::
  "comps \<Rightarrow> nat \<Rightarrow> nat \<Rightarrow> bytes \<Rightarrow> compType \<Rightarrow> nat list \<Rightarrow> nat list \<Rightarrow> (configError, nat list) outcome" where
  "configureNamed cs a webapp prop type excluded present =
    (case findProp cs a prop of
       None \<Rightarrow> Done present
     | Some v \<Rightarrow>
         if excluded \<noteq> [] then Fail (Exit CodeUse ''cannot mix handlets and socklets in a rule'')
         else if present \<noteq> [] then Fail (Exit CodeUse ''specifying is not allowed while there are literal ones'')
         else let (names, ok) = asStringList v in
           if ok then namedComponents (dict (cs ! webapp) type) names present
           else Fail (Exit CodeUse ''invalid names''))"

text \<open>\<open>OnConfigure\<close> of the rule at address \<open>a\<close> of the webapp at address \<open>w\<close>.\<close>

definition ruleOnConfigure ::
  "(bytes \<Rightarrow> regexp option) \<Rightarrow> (bytes \<Rightarrow> bool option) \<Rightarrow> bytes \<Rightarrow> comps \<Rightarrow> nat \<Rightarrow> nat \<Rightarrow> (configError, rule) outcome" where
  "ruleOnConfigure compile stat webRoot cs w a =
    andThen (configureCond compile stat webRoot (cinfo (cs ! a)) (newRule (cs ! a))) (\<lambda>r.
    andThen (configureProp cs a (bs ''logAccess'') asBool None True) (\<lambda>access.
    andThen (configureProp cs a (bs ''returnCode'') asInt16 (Some (\<lambda>v. 200 \<le> sint v \<and> sint v \<le> 999)) 0) (\<lambda>code.
    andThen (configureProp cs a (bs ''returnText'') asBytes None []) (\<lambda>txt.
    andThen (configureNamed cs a w (bs ''handlets'') compTypeHandlet (socklets r) (handlets r)) (\<lambda>hs.
    andThen (configureNamed cs a w (bs ''revisers'') compTypeReviser [] (revisers r)) (\<lambda>rs.
    andThen (configureNamed cs a w (bs ''socklets'') compTypeSocklet hs (socklets r)) (\<lambda>ss.
    Done (r\<lparr>logAccess := access, returnCode := code, returnText := txt, handlets := hs,
            revisers := rs, socklets := ss\<rparr>))))))))"

definition ruleIsMatch :: "rule \<Rightarrow> serverRequest \<Rightarrow> (configError, bool \<times> serverRequest) outcome" where
  "ruleIsMatch r req =
    (if ruleGeneral r then Done (True, req)
     else andThen (checked (requestVariable (ruleVar r) (ruleVarName r) req)) (\<lambda>v.
          andThen (checked (ruleMatcher r)) (\<lambda>m. Done (m (rulePatterns r) (ruleRegexps r) v req))))"

subsection \<open>An exchan\<close>

text \<open>
  An exchan is a request with its response.  A response keeps the ids of its revisers by their ranks; the
  octets that went out and the log of the webapp are kept beside it.
\<close>

record webExchan =
  exRequest :: serverRequest
  exRequestRevisers :: "nat list"
  exResponse :: serverResponse
  exRevisers :: "nat list"
  exHTTP11 :: bool
  exPersistent :: bool
  exWire :: bytes
  exLog :: "(int \<times> bytes \<times> bytes) list"

text \<open>
  What comes from outside: the clock, the file system, the pages of \<open>serverErrorPages\<close>, and the interfaces
  \<open>Handlet\<close> and \<open>Reviser\<close> of the components.
\<close>

record webEnv =
  envClock :: int64
  envStat :: "bytes \<Rightarrow> bool option"
  envPages :: "int \<Rightarrow> bytes"
  envIsProxy :: "nat \<Rightarrow> bool"
  envHandle :: "nat \<Rightarrow> webExchan \<Rightarrow> bool \<times> webExchan"
  envRank :: "nat \<Rightarrow> nat"
  envID :: "nat \<Rightarrow> nat"
  envBeforeSend :: "nat \<Rightarrow> webExchan \<Rightarrow> webExchan"
  envOnOutput :: "nat \<Rightarrow> webExchan \<times> bytes list \<Rightarrow> webExchan \<times> bytes list"

definition reviserIDs :: "webExchan \<Rightarrow> nat list" where
  "reviserIDs x = filter (\<lambda>i. i \<noteq> 0) (exRevisers x)"

definition updResponse :: "(serverResponse \<Rightarrow> serverResponse) \<Rightarrow> webExchan \<Rightarrow> webExchan" where
  "updResponse f x = x\<lparr>exResponse := f (exResponse x)\<rparr>"

text \<open>\<open>_beforeSend\<close>: \<open>None\<close> when the response was sent already.\<close>

definition beforeSend :: "webEnv \<Rightarrow> webExchan \<Rightarrow> webExchan option" where
  "beforeSend env x =
    (if isSent (exResponse x) then None
     else
       let x = updResponse (\<lambda>r. r\<lparr>isSent := True\<rparr>) x in
       Some (if hasRevisers (exResponse x) then fold (envBeforeSend env) (reviserIDs x) x else x))"

text \<open>\<open>sendChain\<close>: the head, and the pieces of the chain unless content is forbidden.\<close>

definition sendChain :: "webEnv \<Rightarrow> bytes list \<Rightarrow> webExchan \<Rightarrow> (configError, webExchan) outcome" where
  "sendChain env chain x =
    andThen (checked (finalizeHeaders (envClock env) (exHTTP11 x) (exPersistent x) (exResponse x))) (\<lambda>(persistent, r).
    Done (x\<lparr>exResponse := r, exPersistent := persistent,
      exWire := exWire x @ controlData r @ addedHeaders r @ http1BytesFixedResponseHeaders @
        (if forbidContent r then [] else concat chain)\<rparr>))"

text \<open>\<open>doSend\<close>: the revisers may change the chain, whose size is then taken again.\<close>

definition doSend :: "webEnv \<Rightarrow> bytes list \<Rightarrow> webExchan \<Rightarrow> (configError, webExchan) outcome" where
  "doSend env chain x =
    (if hasRevisers (exResponse x) then
       let (x, chain) = fold (envOnOutput env) (reviserIDs x) (x, chain) in
       if length (concat chain) < 2 ^ 63
       then sendChain env chain (updResponse (\<lambda>r. r\<lparr>contentSize := int (length (concat chain))\<rparr>) x)
       else Done x
     else sendChain env chain x)"

text \<open>
  \<open>sendText\<close> and \<open>sendError\<close>; the errors that they return are ignored by the callers modelled here.
  \<open>sendError\<close> does not run the revisers on the content.
\<close>

definition exSendText :: "webEnv \<Rightarrow> bytes \<Rightarrow> webExchan \<Rightarrow> (configError, webExchan) outcome" where
  "exSendText env content x =
    (case beforeSend env x of
       None \<Rightarrow> Done x
     | Some x \<Rightarrow> doSend env [content] (updResponse (\<lambda>r. r\<lparr>contentSize := int (length content)\<rparr>) x))"

definition exSendError :: "webEnv \<Rightarrow> int \<Rightarrow> bytes option \<Rightarrow> webExchan \<Rightarrow> (configError, webExchan) outcome" where
  "exSendError env s content x =
    (case beforeSend env x of
       None \<Rightarrow> Done x
     | Some x \<Rightarrow>
         let (ok, r) = SetStatus s (exResponse x); x = x\<lparr>exResponse := r\<rparr> in
         if \<not> ok then Done x
         else
           let content = (case content of Some c \<Rightarrow> c | None \<Rightarrow> envPages env s) in
           sendChain env [content] (updResponse (\<lambda>r. r\<lparr>contentSize := int (length content)\<rparr>) x))"

definition StatusNotFound :: int where "StatusNotFound = 404"
definition StatusUnsupportedMediaType :: int where "StatusUnsupportedMediaType = 415"

definition SendNotFound :: "webEnv \<Rightarrow> bytes option \<Rightarrow> webExchan \<Rightarrow> (configError, webExchan) outcome" where
  "SendNotFound env content = exSendError env StatusNotFound content"

text \<open>\<open>SendUnsupportedMediaType("", "", nil)\<close>.\<close>

definition SendUnsupportedMediaType :: "webEnv \<Rightarrow> webExchan \<Rightarrow> (configError, webExchan) outcome" where
  "SendUnsupportedMediaType env = exSendError env StatusUnsupportedMediaType None"

subsection \<open>Executing a rule\<close>

text \<open>\<open>hookReviser\<close> of the request and of the response: arrays of 32 ids.\<close>

primrec hookRevisers :: "webEnv \<Rightarrow> nat list \<Rightarrow> webExchan \<Rightarrow> webExchan option" where
  "hookRevisers env [] x = Some x"
| "hookRevisers env (v # vs) x = do {
     req \<leftarrow> put (exRequestRevisers x) (envRank env v) (envID env v);
     resp \<leftarrow> put (exRevisers x) (envRank env v) (envID env v);
     hookRevisers env vs (updResponse (\<lambda>r. r\<lparr>hasRevisers := True\<rparr>) (x\<lparr>exRequestRevisers := req, exRevisers := resp\<rparr>))
   }"

definition executeExchan :: "webEnv \<Rightarrow> rule \<Rightarrow> webExchan \<Rightarrow> (configError, bool \<times> webExchan) outcome" where
  "executeExchan env r x =
    (if returnCode r \<noteq> 0 then
       andThen (exSendText env (if length (returnText r) = 0 then [] else returnText r)
         (updResponse (\<lambda>p. snd (SetStatus (sint (returnCode r)) p)) x)) (\<lambda>x. Done (True, x))
     else if length (handlets r) > 0 \<and> \<not> list_ex (envIsProxy env) (handlets r) \<and>
         formContent (exRequest x) \<and> encodedContent (exRequest x) then
       andThen (SendUnsupportedMediaType env x) (\<lambda>x. Done (True, x))
     else
       andThen (checked (hookRevisers env (revisers r) x)) (\<lambda>x. Done (dealLoop (envHandle env) (handlets r) x)))"

text \<open>\<open>executeSocket\<close> is not written yet in the source: it serves nothing and says that it did.\<close>

definition executeSocket :: "rule \<Rightarrow> webExchan \<Rightarrow> (configError, bool \<times> webExchan) outcome" where
  "executeSocket r x = Done (True, x)"

subsection \<open>A webapp\<close>

record webapp =
  waRules :: "rule list"
  waRoot :: bytes
  waText404 :: "bytes option"
  waIsDefault :: bool
  waHostnames :: "bytes list"
  waExact :: "bytes list"
  waSuffix :: "bytes list"
  waPrefix :: "bytes list"
  waSettings :: "bytes \<rightharpoonup> bytes"

definition ruleMatchExchan :: "rule \<Rightarrow> webExchan \<Rightarrow> (configError, bool \<times> webExchan) outcome" where
  "ruleMatchExchan r x = andThen (ruleIsMatch r (exRequest x)) (\<lambda>(m, req). Done (m, x\<lparr>exRequest := req\<rparr>))"

definition Logf :: "webExchan \<Rightarrow> webExchan option" where
  "Logf x = do {
     m \<leftarrow> riskyMethod (exRequest x); u \<leftarrow> riskyURI (exRequest x);
     Some (x\<lparr>exLog := exLog x @ [(status (exResponse x), m, u)]\<rparr>) }"

definition withAbsPath :: "webapp \<Rightarrow> webExchan \<Rightarrow> webExchan option" where
  "withAbsPath a x = do { req \<leftarrow> makeAbsPath (waRoot a) (exRequest x); Some (x\<lparr>exRequest := req\<rparr>) }"

definition dispatchExchan :: "webEnv \<Rightarrow> webapp \<Rightarrow> webExchan \<Rightarrow> (configError, webExchan) outcome" where
  "dispatchExchan env a x =
    andThen (checked (withAbsPath a x)) (\<lambda>x.
    andThen (firstMatch ruleMatchExchan (executeExchan env) (waRules a) x) (\<lambda>(by, x).
    case by of
      Some r \<Rightarrow> if logAccess r then checked (Logf x) else Done x
    | None \<Rightarrow> SendNotFound env (waText404 a) x))"

text \<open>\<open>dispatchSocket\<close> closes the socket when no rule serves it: the flag of the result.\<close>

definition dispatchSocket :: "webapp \<Rightarrow> webExchan \<Rightarrow> (configError, bool \<times> webExchan) outcome" where
  "dispatchSocket a x =
    andThen (checked (withAbsPath a x)) (\<lambda>x.
    andThen (firstMatch ruleMatchExchan executeSocket (waRules a) x) (\<lambda>(by, x). Done (by = None, x)))"

definition AddSetting :: "bytes \<Rightarrow> bytes \<Rightarrow> webapp \<Rightarrow> webapp" where
  "AddSetting name v a = a\<lparr>waSettings := (waSettings a)(name \<mapsto> v)\<rparr>"

subsection \<open>Host names\<close>

text \<open>
  The loop of \<open>OnConfigure\<close> over the host names.  The search for the wildcard stops at the first one it
  finds, so that a second one is never seen.
\<close>

definition addHostname :: "bytes \<Rightarrow> webapp \<Rightarrow> (configError, webapp) outcome" where
  "addHostname h a =
    (if h = [] then Fail (Exit CodeUse ''cannot contain empty hostname in hostnames'')
     else if h = [ch CHR ''*''] then Done (a\<lparr>waIsDefault := True\<rparr>)
     else
       let a = a\<lparr>waHostnames := waHostnames a @ [h]\<rparr> in
       case indexByte h (ch CHR ''*'') of
         None \<Rightarrow> Done (a\<lparr>waExact := waExact a @ [h]\<rparr>)
       | Some p \<Rightarrow>
           if p = 0 then Done (a\<lparr>waSuffix := waSuffix a @ [tl h]\<rparr>)
           else if p = length h - 1 then Done (a\<lparr>waPrefix := waPrefix a @ [butlast h]\<rparr>)
           else Fail (Exit CodeUse ''surrounded matching is not supported yet''))"

primrec addHostnames :: "bytes list \<Rightarrow> webapp \<Rightarrow> (configError, webapp) outcome" where
  "addHostnames [] a = Done a"
| "addHostnames (h # hs) a = andThen (addHostname h a) (addHostnames hs)"

definition configureHostnames :: "confValue option \<Rightarrow> webapp \<Rightarrow> (configError, webapp) outcome" where
  "configureHostnames prop a =
    (case prop of
       None \<Rightarrow> Fail (Exit CodeUse ''webapp.hostnames is required'')
     | Some v \<Rightarrow>
         let (hostnames, ok) = asStringList v in
         if \<not> ok \<or> length hostnames = 0 then Fail (Exit CodeUse ''empty hostnames'') else addHostnames hostnames a)"

text \<open>
  The web root, after \<open>strings.TrimRight\<close> has taken the slashes at its end away.
\<close>

definition trimSlashes :: "bytes \<Rightarrow> bytes" where
  "trimSlashes w = rev (dropWhile (\<lambda>b. b = slash) (rev w))"

subsection \<open>The webapps of a server\<close>

record webServer =
  defaultWebapp :: "nat option"
  exactWebapps :: "(bytes \<times> nat) list"
  suffixWebapps :: "(bytes \<times> nat) list"
  prefixWebapps :: "(bytes \<times> nat) list"

definition newServer :: webServer where
  "newServer = \<lparr>defaultWebapp = None, exactWebapps = [], suffixWebapps = [], prefixWebapps = []\<rparr>"

text \<open>\<open>bindWebapps\<close> over the addresses of the webapps that exist; loading certificates is left out.\<close>

definition bindWebapp :: "(nat \<Rightarrow> webapp) \<Rightarrow> nat \<Rightarrow> webServer \<Rightarrow> webServer" where
  "bindWebapp apps i s =
    (let a = apps i; s = (if waIsDefault a then s\<lparr>defaultWebapp := Some i\<rparr> else s) in
     s\<lparr>exactWebapps := exactWebapps s @ map (\<lambda>h. (h, i)) (waExact a),
       suffixWebapps := suffixWebapps s @ map (\<lambda>h. (h, i)) (waSuffix a),
       prefixWebapps := prefixWebapps s @ map (\<lambda>h. (h, i)) (waPrefix a)\<rparr>)"

definition bindWebapps :: "(nat \<Rightarrow> webapp) \<Rightarrow> nat list \<Rightarrow> webServer \<Rightarrow> webServer" where
  "bindWebapps apps is s = fold (bindWebapp apps) is s"

primrec findHost :: "(bytes \<Rightarrow> bool) \<Rightarrow> (bytes \<times> nat) list \<Rightarrow> nat option" where
  "findHost mt [] = None"
| "findHost mt (m # ms) = (if mt (fst m) then Some (snd m) else findHost mt ms)"

definition findWebapp :: "bytes \<Rightarrow> webServer \<Rightarrow> nat option" where
  "findWebapp host s =
    (case findHost (\<lambda>h. host = h) (exactWebapps s) of
       Some i \<Rightarrow> Some i
     | None \<Rightarrow>
         (case findHost (hasSuffix host) (suffixWebapps s) of
            Some i \<Rightarrow> Some i
          | None \<Rightarrow>
              (case findHost (hasPrefix host) (prefixWebapps s) of
                 Some i \<Rightarrow> Some i
               | None \<Rightarrow> defaultWebapp s)))"

subsection \<open>Which webapp gets a host\<close>

text \<open>
  The reference, on the names as they are configured: an exact name; a name that starts with a
  wildcard; a name whose only wildcard ends it.
\<close>

abbreviation star :: byte where
  "star \<equiv> ch CHR ''*''"

definition exactName :: "bytes \<Rightarrow> bool" where
  "exactName h \<longleftrightarrow> h \<noteq> [] \<and> star \<notin> set h"

definition suffixName :: "bytes \<Rightarrow> bool" where
  "suffixName h \<longleftrightarrow> length h > 1 \<and> hd h = star"

definition prefixName :: "bytes \<Rightarrow> bool" where
  "prefixName h \<longleftrightarrow> length h > 1 \<and> List.last h = star \<and> star \<notin> set (butlast h)"

definition hostReference :: "bytes \<Rightarrow> (nat \<times> bytes) list \<Rightarrow> nat option" where
  "hostReference host names = map_option fst
    (case List.find (\<lambda>(i, h). exactName h \<and> h = host) names of
       Some m \<Rightarrow> Some m
     | None \<Rightarrow>
         (case List.find (\<lambda>(i, h). suffixName h \<and> hasSuffix host (tl h)) names of
            Some m \<Rightarrow> Some m
          | None \<Rightarrow>
              (case List.find (\<lambda>(i, h). prefixName h \<and> hasPrefix host (butlast h)) names of
                 Some m \<Rightarrow> Some m
               | None \<Rightarrow> List.find (\<lambda>(i, h). h = [star]) (rev names))))"

lemma indexByte_end:
  assumes "indexByte h b = Some p" "p = length h - 1"
  shows "List.last h = b" "b \<notin> set (butlast h)"
  using assms by (cases h rule: rev_cases; auto simp: indexByte_iff nth_append)+

lemma addHostname_Done:
  assumes "addHostname h a = Done a'"
  shows "waExact a' = waExact a @ filter exactName [h] \<and> waSuffix a' = waSuffix a @ map tl (filter suffixName [h]) \<and>
    waPrefix a' = waPrefix a @ map butlast (filter prefixName [h]) \<and> waIsDefault a' = (waIsDefault a \<or> h = [star])"
proof -
  have h: "h \<noteq> []" using assms by (auto simp: addHostname_def)
  show ?thesis
  proof (cases "h = [star]")
    case True
    then show ?thesis
      using assms by (auto simp: addHostname_def exactName_def suffixName_def prefixName_def)
  next
    case ns: False
    show ?thesis
    proof (cases "indexByte h star")
      case None
      then have "star \<notin> set h" by (simp add: indexByte_None)
      moreover from this have "hd h \<noteq> star" "List.last h \<noteq> star"
        using hd_in_set [OF h] last_in_set [OF h] by metis+
      ultimately show ?thesis
        using assms None h ns by (auto simp: addHostname_def exactName_def suffixName_def prefixName_def Let_def)
    next
      case (Some p)
      then have p: "p < length h" "h ! p = star" "star \<notin> set (take p h)" by (simp_all add: indexByte_iff)
      then have s: "star \<in> set h" using nth_mem by force
      show ?thesis
      proof (cases "p = 0")
        case True
        then have "hd h = star" using p h by (simp add: hd_conv_nth)
        moreover from this h ns have "length h > 1" by (cases h) auto
        moreover from this \<open>hd h = star\<close> have "star \<in> set (butlast h)" by (cases h) auto
        ultimately show ?thesis
          using assms Some True h ns s by (auto simp: addHostname_def exactName_def suffixName_def prefixName_def Let_def)
      next
        case False
        then have e: "p = length h - 1" using assms Some h ns by (auto simp: addHostname_def Let_def split: if_splits)
        have "hd h \<noteq> star" using p(3) False h by (cases h; cases p) auto
        moreover have "length h > 1" using False e by simp
        ultimately show ?thesis
          using assms Some False e h ns s indexByte_end [OF Some e]
          by (auto simp: addHostname_def exactName_def suffixName_def prefixName_def Let_def)
      qed
    qed
  qed
qed

lemma addHostnames_Done:
  assumes "addHostnames hs a = Done a'"
  shows "waExact a' = waExact a @ filter exactName hs \<and> waSuffix a' = waSuffix a @ map tl (filter suffixName hs) \<and>
    waPrefix a' = waPrefix a @ map butlast (filter prefixName hs) \<and> waIsDefault a' = (waIsDefault a \<or> [star] \<in> set hs)"
  using assms
proof (induction hs arbitrary: a)
  case (Cons h hs)
  from Cons.prems obtain a1 where a1: "addHostname h a = Done a1" "addHostnames hs a1 = Done a'"
    by (auto simp: andThen_Done_iff)
  from Cons.IH [OF a1(2)] addHostname_Done [OF a1(1)] show ?case by auto
qed simp

definition newWebapp :: webapp where
  "newWebapp = \<lparr>waRules = [], waRoot = [], waText404 = None, waIsDefault = False, waHostnames = [],
     waExact = [], waSuffix = [], waPrefix = [], waSettings = Map.empty\<rparr>"

text \<open>The names of the bound webapps, in the order of the binding.\<close>

definition boundNames :: "(nat \<Rightarrow> bytes list) \<Rightarrow> nat list \<Rightarrow> (nat \<times> bytes) list" where
  "boundNames names is = [(i, h). i \<leftarrow> is, h \<leftarrow> names i]"

lemma bindWebapps_lists:
  assumes "\<forall>i \<in> set is. addHostnames (names i) newWebapp = Done (apps i)"
  shows "exactWebapps (bindWebapps apps is s) = exactWebapps s @ map (\<lambda>(i, h). (h, i)) (filter (exactName \<circ> snd) (boundNames names is)) \<and>
    suffixWebapps (bindWebapps apps is s) = suffixWebapps s @ map (\<lambda>(i, h). (tl h, i)) (filter (suffixName \<circ> snd) (boundNames names is)) \<and>
    prefixWebapps (bindWebapps apps is s) = prefixWebapps s @ map (\<lambda>(i, h). (butlast h, i)) (filter (prefixName \<circ> snd) (boundNames names is)) \<and>
    defaultWebapp (bindWebapps apps is s) = (case List.find (\<lambda>(i, h). h = [star]) (rev (boundNames names is)) of
      Some m \<Rightarrow> Some (fst m) | None \<Rightarrow> defaultWebapp s)"
  using assms
proof (induction "is" arbitrary: s)
  case Nil
  then show ?case by (simp add: bindWebapps_def boundNames_def)
next
  case (Cons i js)
  have a: "addHostnames (names i) newWebapp = Done (apps i)" using Cons.prems by simp
  have b: "boundNames names (i # js) = map (Pair i) (names i) @ boundNames names js" by (simp add: boundNames_def)
  have rec: "bindWebapps apps (i # js) s = bindWebapps apps js (bindWebapp apps i s)" by (simp add: bindWebapps_def)
  note IH = Cons.IH [of "bindWebapp apps i s"]
  have find: "List.find P (xs @ ys) = (case List.find P xs of Some x \<Rightarrow> Some x | None \<Rightarrow> List.find P ys)" for P :: "nat \<times> bytes \<Rightarrow> bool" and xs ys
    by (induction xs) auto
  have star: "List.find (\<lambda>(i, h). h = [star]) (rev (map (Pair i) hs)) = (if [star] \<in> set hs then Some (i, [star]) else None)" for hs
    by (induction hs) (auto simp: find)
  have f: "filter (Q \<circ> snd) (map (Pair i) hs) = map (Pair i) (filter Q hs)" for Q and hs :: "bytes list"
    by (simp add: filter_map comp_def)
  have h: "waExact (apps i) = filter exactName (names i)" "waSuffix (apps i) = map tl (filter suffixName (names i))"
    "waPrefix (apps i) = map butlast (filter prefixName (names i))" "waIsDefault (apps i) = ([star] \<in> set (names i))"
    using addHostnames_Done [OF a] by (simp_all add: newWebapp_def)
  have step: "exactWebapps (bindWebapp apps i s) = exactWebapps s @ map (\<lambda>(i, h). (h, i)) (map (Pair i) (waExact (apps i)))"
    "suffixWebapps (bindWebapp apps i s) = suffixWebapps s @ map (\<lambda>h. (h, i)) (waSuffix (apps i))"
    "prefixWebapps (bindWebapp apps i s) = prefixWebapps s @ map (\<lambda>h. (h, i)) (waPrefix (apps i))"
    "defaultWebapp (bindWebapp apps i s) = (if waIsDefault (apps i) then Some i else defaultWebapp s)"
    by (simp_all add: bindWebapp_def Let_def comp_def)
  show ?case
    using IH Cons.prems unfolding rec b step h filter_append f map_append rev_append find star
    by (simp add: comp_def split: option.split)
qed

lemma findHost_find: "findHost mt (map f (filter Q ms)) = map_option (snd \<circ> f) (List.find (\<lambda>m. Q m \<and> mt (fst (f m))) ms)"
  by (induction ms) auto

lemma find_cong: "(\<And>x. P x = Q x) \<Longrightarrow> List.find P xs = List.find Q xs"
  by presburger

text \<open>C40: A host goes to the webapp whose configuration names it best.  For webapps whose host names were
  all accepted, bound to a server in some order, \<open>findWebapp\<close> returns what the names say: the first
  that has the host as an exact name; without one the first that has a name \<open>*suffix\<close> with that suffix;
  without one the first that has a name \<open>prefix*\<close>; and else the last that has the name \<open>*\<close>, if any.\<close>

theorem findWebapp_correct:
  assumes "\<forall>i \<in> set is. addHostnames (names i) newWebapp = Done (apps i)"
  shows "findWebapp host (bindWebapps apps is newServer) = hostReference host (boundNames names is)"
proof -
  let ?s = "bindWebapps apps is newServer" and ?ns = "boundNames names is"
  note l = bindWebapps_lists [OF assms, of newServer]
  have e: "findHost (\<lambda>h. host = h) (exactWebapps ?s) = map_option fst (List.find (\<lambda>(i, h). exactName h \<and> h = host) ?ns)"
    using l by (simp add: newServer_def findHost_find split_def comp_def eq_commute)
  have s: "findHost (hasSuffix host) (suffixWebapps ?s) = map_option fst (List.find (\<lambda>(i, h). suffixName h \<and> hasSuffix host (tl h)) ?ns)"
    using l by (simp add: newServer_def findHost_find split_def comp_def)
  have p: "findHost (hasPrefix host) (prefixWebapps ?s) = map_option fst (List.find (\<lambda>(i, h). prefixName h \<and> hasPrefix host (butlast h)) ?ns)"
    using l by (simp add: newServer_def findHost_find split_def comp_def)
  have d: "defaultWebapp ?s = map_option fst (List.find (\<lambda>(i, h). h = [star]) (rev ?ns))"
    using l by (simp add: newServer_def split: option.split)
  show ?thesis
    unfolding findWebapp_def e s p d hostReference_def by (simp split: option.split)
qed

definition demoNames :: "nat \<Rightarrow> bytes list" where
  "demoNames i = (if i = 0 then [bs ''*''] else if i = 1 then [bs ''*.example.com''] else [bs ''www.example.com'', bs ''www.*''])"

definition demoApps :: "nat \<Rightarrow> webapp" where
  "demoApps i = (case addHostnames (demoNames i) newWebapp of Done a \<Rightarrow> a | _ \<Rightarrow> newWebapp)"

theorem findWebapp_correct_witness:
  "findWebapp (bs ''www.example.com'') (bindWebapps demoApps [0, 1, 2] newServer) = Some 2"
proof -
  have "addHostnames (demoNames i) newWebapp = Done (demoApps i)" for i
    by (simp add: demoApps_def demoNames_def addHostname_def newWebapp_def Let_def)
  then have "findWebapp (bs ''www.example.com'') (bindWebapps demoApps [0, 1, 2] newServer) =
    hostReference (bs ''www.example.com'') (boundNames demoNames [0, 1, 2])"
    by (intro findWebapp_correct) simp
  then show ?thesis
    by (simp add: hostReference_def boundNames_def demoNames_def exactName_def)
qed

text \<open>A second wildcard is taken as a character: the name is accepted, and only matches itself.\<close>

lemma second_wildcard_accepted:
  "star \<in> set w \<Longrightarrow> \<exists>a'. addHostname (star # w) a = Done a' \<and> waSuffix a' = waSuffix a @ [w]"
  by (auto simp: addHostname_def Let_def)

subsection \<open>Rules and the file system\<close>

text \<open>What is remembered about the path of a request is what the file system says about it.\<close>

definition coherent :: "(bytes \<Rightarrow> bool option) \<Rightarrow> serverRequest \<Rightarrow> bool" where
  "coherent stat r \<longleftrightarrow> pathInfo r = (if pathInfoGot r then stat (absPath r) else None)"

definition samePath :: "serverRequest \<Rightarrow> serverRequest \<Rightarrow> bool" where
  "samePath r r' \<longleftrightarrow> (\<exists>got info. r' = r\<lparr>pathInfoGot := got, pathInfo := info\<rparr>)"

lemma samePath_refl [simp]: "samePath r r"
  unfolding samePath_def by (intro exI [of _ "pathInfoGot r"] exI [of _ "pathInfo r"]) simp

lemma samePath_trans: "samePath r s \<Longrightarrow> samePath s t \<Longrightarrow> samePath r t"
  unfolding samePath_def by (elim exE; hypsubst; simp) blast

lemma getPathInfo_coherent:
  assumes "coherent stat r"
  shows "\<exists>r'. getPathInfo stat r = (stat (absPath r), r') \<and> coherent stat r' \<and> samePath r r'"
proof (cases "pathInfoGot r")
  case True
  with assms show ?thesis by (auto simp: getPathInfo_def coherent_def)
next
  case False
  have "getPathInfo stat r = (stat (absPath r), r\<lparr>pathInfoGot := True, pathInfo := stat (absPath r)\<rparr>)"
    using False assms by (cases "stat (absPath r)") (simp_all add: getPathInfo_def coherent_def Let_def)
  then show ?thesis by (auto simp: coherent_def samePath_def)
qed

lemma pathInfo_cases:
  assumes "coherent stat r"
  obtains r' where "getPathInfo stat r = (stat (absPath r), r')" "coherent stat r'" "samePath r r'"
  using getPathInfo_coherent [OF assms] by blast

lemmas ruleMatcher_defs = pureMatch_def fileMatch_def dirMatch_def existMatch_def dirMatchWithWebRoot_def
  existMatchWithWebRoot_def notFileMatch_def notDirMatch_def notExistMatch_def

text \<open>A matcher changes nothing but what is remembered.\<close>

definition pathOnly :: "(bytes \<Rightarrow> bool option) \<Rightarrow> ruleMatcher \<Rightarrow> bool" where
  "pathOnly stat m \<longleftrightarrow> (\<forall>ps res v r. coherent stat r \<longrightarrow> coherent stat (snd (m ps res v r)) \<and> samePath r (snd (m ps res v r)))"

lemma pathOnlyI:
  assumes "\<And>ps res v r. snd (m ps res v r) = r \<or> snd (m ps res v r) = snd (getPathInfo stat r)"
  shows "pathOnly stat m"
  unfolding pathOnly_def
proof (intro allI impI)
  fix ps res v r
  assume c: "coherent stat r"
  then obtain r' where "getPathInfo stat r = (stat (absPath r), r')" "coherent stat r'" "samePath r r'"
    by (rule pathInfo_cases)
  with assms [of ps res v r] c show "coherent stat (snd (m ps res v r)) \<and> samePath r (snd (m ps res v r))" by auto
qed

lemma pathOnly_all:
  "pathOnly stat (pureMatch f)" "pathOnly stat (fileMatch stat)" "pathOnly stat (dirMatchWithWebRoot stat)"
  "pathOnly stat (existMatchWithWebRoot stat)" "pathOnly stat (dirMatch stat)" "pathOnly stat (existMatch stat)"
  "pathOnly stat (notFileMatch stat)" "pathOnly stat (notDirMatch stat)" "pathOnly stat (notExistMatch stat)"
  by (rule pathOnlyI; auto simp: ruleMatcher_defs Let_def split: prod.split)+

lemma ruleMatchers_pathOnly:
  assumes "ruleMatchers stat op = Some (m, check)"
  shows "pathOnly stat m"
proof -
  have "list_all (\<lambda>e. pathOnly stat (fst (snd e)))
    [(bs ''=='', pureMatch (\<lambda>ps _ v. equalMatch v ps), False),
     (bs ''^='', pureMatch (\<lambda>ps _ v. prefixMatch v ps), False),
     (bs ''$='', pureMatch (\<lambda>ps _ v. suffixMatch v ps), False),
     (bs ''*='', pureMatch (\<lambda>ps _ v. containMatch v ps), False),
     (bs ''~='', pureMatch (\<lambda>_ res v. regexpMatch v res), False),
     (bs ''-f'', fileMatch stat, True),
     (bs ''-d'', dirMatch stat, True),
     (bs ''-e'', existMatch stat, True),
     (bs ''-D'', dirMatchWithWebRoot stat, True),
     (bs ''-E'', existMatchWithWebRoot stat, True),
     (bs ''!='', pureMatch (\<lambda>ps _ v. notEqualMatch v ps), False),
     (bs ''!^'', pureMatch (\<lambda>ps _ v. notPrefixMatch v ps), False),
     (bs ''!$'', pureMatch (\<lambda>ps _ v. notSuffixMatch v ps), False),
     (bs ''!*'', pureMatch (\<lambda>ps _ v. notContainMatch v ps), False),
     (bs ''!~'', pureMatch (\<lambda>_ res v. notRegexpMatch v res), False),
     (bs ''!f'', notFileMatch stat, True),
     (bs ''!d'', notDirMatch stat, True),
     (bs ''!e'', notExistMatch stat, True)]"
    by (simp only: list.pred_inject fst_conv snd_conv pathOnly_all)
  then show ?thesis
    using map_of_SomeD [OF assms [unfolded ruleMatchers_def]] unfolding list_all_iff by force
qed

text \<open>
  The operators of a rule: the ten of a case, and the eight that ask the file system.  The root of the
  web is no directory for \<open>-d\<close> and does not exist for \<open>-e\<close>.
\<close>

definition ruleAccepts :: "(bytes \<Rightarrow> bool option) \<Rightarrow> string \<Rightarrow> bytes list \<Rightarrow> regexp list \<Rightarrow> bytes \<Rightarrow> serverRequest \<Rightarrow> bool option" where
  "ruleAccepts stat op ps res v r = map_option (\<lambda>(m, check). fst (m ps res v r)) (ruleMatchers stat (bs op))"

lemma ruleAccepts_text:
  "op \<in> set [''=='', ''^='', ''$='', ''*='', ''~='', ''!='', ''!^'', ''!$'', ''!*'', ''!~''] \<Longrightarrow>
   ruleAccepts stat op ps res v r = accepts op ps res v"
  by (auto simp: ruleAccepts_def ruleMatchers_def accepts_def tcpxCaseMatchers_def pureMatch_def)

lemma ruleAccepts_file:
  assumes "coherent stat r"
  shows "ruleAccepts stat ''-f'' ps res v r = Some (stat (absPath r) = Some False)"
    "ruleAccepts stat ''-D'' ps res v r = Some (stat (absPath r) = Some True)"
    "ruleAccepts stat ''-E'' ps res v r = Some (stat (absPath r) \<noteq> None)"
    "ruleAccepts stat ''-d'' ps res v r = Some (v \<noteq> [slash] \<and> stat (absPath r) = Some True)"
    "ruleAccepts stat ''-e'' ps res v r = Some (v \<noteq> [slash] \<and> stat (absPath r) \<noteq> None)"
    "ruleAccepts stat ''!f'' ps res v r = Some (stat (absPath r) \<noteq> Some False)"
    "ruleAccepts stat ''!d'' ps res v r = Some (stat (absPath r) \<noteq> Some True)"
    "ruleAccepts stat ''!e'' ps res v r = Some (stat (absPath r) = None)"
proof -
  obtain r' where "getPathInfo stat r = (stat (absPath r), r')" using assms by (rule pathInfo_cases)
  then show "ruleAccepts stat ''-f'' ps res v r = Some (stat (absPath r) = Some False)"
    "ruleAccepts stat ''-D'' ps res v r = Some (stat (absPath r) = Some True)"
    "ruleAccepts stat ''-E'' ps res v r = Some (stat (absPath r) \<noteq> None)"
    "ruleAccepts stat ''-d'' ps res v r = Some (v \<noteq> [slash] \<and> stat (absPath r) = Some True)"
    "ruleAccepts stat ''-e'' ps res v r = Some (v \<noteq> [slash] \<and> stat (absPath r) \<noteq> None)"
    "ruleAccepts stat ''!f'' ps res v r = Some (stat (absPath r) \<noteq> Some False)"
    "ruleAccepts stat ''!d'' ps res v r = Some (stat (absPath r) \<noteq> Some True)"
    "ruleAccepts stat ''!e'' ps res v r = Some (stat (absPath r) = None)"
    by (simp_all add: ruleAccepts_def ruleMatchers_def ruleMatcher_defs split: option.split)
qed

text \<open>So \<open>!d\<close> is not the negation of \<open>-d\<close>: for the root of the web both say no.\<close>

lemma notDir_not_complement:
  assumes "coherent stat r" "stat (absPath r) = Some True"
  shows "ruleAccepts stat ''-d'' ps res [slash] r = Some False" "ruleAccepts stat ''!d'' ps res [slash] r = Some False"
  using assms by (simp_all add: ruleAccepts_file)

text \<open>A variable does not depend on what is remembered about the path.\<close>

lemma requestVariable_samePath: "samePath r r' \<Longrightarrow> requestVariable code name r' = requestVariable code name r"
proof -
  assume "samePath r r'"
  then obtain got info where r': "r' = r\<lparr>pathInfoGot := got, pathInfo := info\<rparr>" by (auto simp: samePath_def)
  have "\<forall>f \<in> set serverRequestVariables. f r' = f r"
    by (simp add: r' serverRequestVariables_def riskyMethod_def riskyScheme_def riskyAuthority_def riskyHostname_def
        riskyColonport_def riskyPath_def riskyURI_def riskyEncodedPath_def riskyQueryString_def riskyContentType_def)
  then show ?thesis
    by (auto simp: requestVariable_def r' [symmetric] idx_def) (simp_all add: r')
qed

subsection \<open>Every exchan is answered\<close>

text \<open>
  A response in good shape; an exchan that waits for an answer; and an exchan that was answered: its
  response is marked, and octets went out.
\<close>

definition shaped :: "webExchan \<Rightarrow> bool" where
  "shaped x \<longleftrightarrow> (\<exists>ls. holds (exResponse x) ls) \<and> timely (expiresTime (exResponse x)) \<and>
     timely (lastModifiedTime (exResponse x)) \<and> length (exRevisers x) = 32 \<and> length (exRequestRevisers x) = 32"

definition waiting :: "webExchan \<Rightarrow> bool" where
  "waiting x \<longleftrightarrow> shaped x \<and> \<not> isSent (exResponse x)"

definition kept :: "webExchan \<Rightarrow> webExchan \<Rightarrow> bool" where
  "kept x y \<longleftrightarrow> exWire y = exWire x \<and> exRequest y = exRequest x"

definition answered :: "webExchan \<Rightarrow> webExchan \<Rightarrow> bool" where
  "answered x y \<longleftrightarrow> isSent (exResponse y) \<and> exRequest y = exRequest x \<and> (\<exists>w. w \<noteq> [] \<and> exWire y = exWire x @ w)"

lemma kept_refl [simp]: "kept x x" and kept_trans: "kept x y \<Longrightarrow> kept y z \<Longrightarrow> kept x z"
  and kept_answered: "kept x y \<Longrightarrow> answered y z \<Longrightarrow> answered x z"
  by (auto simp: kept_def answered_def)

text \<open>
  What the interfaces promise.  A handlet that handles has answered; one that declines leaves the exchan
  waiting.  Revisers may change the response, but neither send it nor break it.
\<close>

definition handletsAnswer :: "webEnv \<Rightarrow> bool" where
  "handletsAnswer env \<longleftrightarrow> (\<forall>h x. waiting x \<longrightarrow>
     (case envHandle env h x of (handled, y) \<Rightarrow> if handled then answered x y else waiting y \<and> kept x y))"

definition polite :: "(webExchan \<Rightarrow> webExchan) \<Rightarrow> bool" where
  "polite f \<longleftrightarrow> (\<forall>x. shaped x \<longrightarrow> shaped (f x) \<and> kept x (f x) \<and> isSent (exResponse (f x)) = isSent (exResponse x))"

definition revisersPolite :: "webEnv \<Rightarrow> bool" where
  "revisersPolite env \<longleftrightarrow> (\<forall>i. envRank env i < 32 \<and> polite (envBeforeSend env i) \<and>
     (\<forall>chain. polite (\<lambda>x. fst (envOnOutput env i (x, chain)))) \<and>
     (\<forall>x chain. length (concat chain) < 2 ^ 63 \<longrightarrow> length (concat (snd (envOnOutput env i (x, chain)))) < 2 ^ 63))"

lemma fold_polite:
  assumes "\<forall>i \<in> set is. polite (f i)" "shaped x"
  shows "shaped (fold f is x) \<and> kept x (fold f is x) \<and> isSent (exResponse (fold f is x)) = isSent (exResponse x)"
  using assms
proof (induction "is" arbitrary: x)
  case (Cons i js)
  then have "shaped (f i x)" "kept x (f i x)" "isSent (exResponse (f i x)) = isSent (exResponse x)"
    by (auto simp: polite_def)
  with Cons.IH [of "f i x"] Cons.prems show ?case by (auto intro: kept_trans)
qed simp

lemma fold_output:
  assumes "revisersPolite env" "shaped x" "length (concat chain) < 2 ^ 63"
  shows "case fold (envOnOutput env) is (x, chain) of (y, chain') \<Rightarrow>
    shaped y \<and> kept x y \<and> isSent (exResponse y) = isSent (exResponse x) \<and> length (concat chain') < 2 ^ 63"
  using assms(2,3)
proof (induction "is" arbitrary: x chain)
  case (Cons i js)
  obtain y chain' where y: "envOnOutput env i (x, chain) = (y, chain')" by fastforce
  have "polite (\<lambda>x. fst (envOnOutput env i (x, chain)))" "length (concat chain') < 2 ^ 63"
    using assms(1) Cons.prems(2) y unfolding revisersPolite_def by (metis snd_conv)+
  then have "shaped y" "kept x y" "isSent (exResponse y) = isSent (exResponse x)" "length (concat chain') < 2 ^ 63"
    using Cons.prems(1) y by (auto simp: polite_def)
  with Cons.IH [of y chain'] show ?case by (auto simp: y split: prod.splits intro: kept_trans)
qed simp

lemma shaped_update:
  "shaped (updResponse (\<lambda>r. r\<lparr>isSent := b\<rparr>) x) = shaped x" "shaped (updResponse (\<lambda>r. r\<lparr>contentSize := c\<rparr>) x) = shaped x"
  "shaped (updResponse (\<lambda>r. r\<lparr>hasRevisers := b\<rparr>) x) = shaped x"
  "shaped (updResponse (\<lambda>r. snd (SetStatus s r)) x) = shaped x"
  "kept y (updResponse f x) = kept y x" "exResponse (updResponse f x) = f (exResponse x)" "kept (updResponse f y) x = kept y x"
  by (auto simp: shaped_def updResponse_def holds_def kept_def SetStatus_def)

lemma SetStatus_kept:
  "isSent (snd (SetStatus s r)) = isSent r" "contentSize (snd (SetStatus s r)) = contentSize r" "200 \<le> s \<Longrightarrow> s \<le> 999 \<Longrightarrow> fst (SetStatus s r)"
  by (simp_all add: SetStatus_def)

lemma controlData_nonempty: "controlData r \<noteq> []"
  by (auto simp: controlData_def crlf_def split: option.split)

text \<open>Sending ends, whatever the lines are.\<close>

lemma sendChain_answers:
  assumes "shaped x" "isSent (exResponse x)" "contentSize (exResponse x) = int n" "n < 2 ^ 63"
    and "envClock env = packDate (unixDate now)" "fits (unixDate now)"
  shows "\<exists>y. sendChain env chain x = Done y \<and> answered x y"
proof -
  obtain ls where ls: "holds (exResponse x) ls" using assms(1) by (auto simp: shaped_def)
  have t: "timely (expiresTime (exResponse x))" "timely (lastModifiedTime (exResponse x))"
    using assms(1) by (simp_all add: shaped_def)
  from finalizeHeaders_appends [OF assms(6) t assms(3,4) holds_filled [OF ls], of "exHTTP11 x" "exPersistent x"]
  obtain r where r: "finalizeHeaders (envClock env) (exHTTP11 x) (exPersistent x) (exResponse x) = Some (exPersistent x, r)"
    "sameButTail (exResponse x) r"
    unfolding assms(5) by blast
  then have "isSent r" using assms(2) by (auto simp: sameButTail_def)
  then show ?thesis
    using r(1) controlData_nonempty [of r] by (auto simp: sendChain_def answered_def)
qed

lemma beforeSend_waiting:
  assumes "waiting x" "revisersPolite env"
  shows "\<exists>y. beforeSend env x = Some y \<and> shaped y \<and> kept x y \<and> isSent (exResponse y)"
proof -
  let ?x = "updResponse (\<lambda>r. r\<lparr>isSent := True\<rparr>) x"
  have x: "shaped ?x" "kept x ?x" "isSent (exResponse ?x)" using assms(1) by (simp_all add: waiting_def shaped_update)
  have "\<forall>i \<in> set (reviserIDs ?x). polite (envBeforeSend env i)" using assms(2) by (auto simp: revisersPolite_def)
  from fold_polite [OF this x(1)] x show ?thesis
    using assms(1) by (auto simp: beforeSend_def Let_def waiting_def intro: kept_trans)
qed

lemma doSend_answers:
  assumes "shaped x" "isSent (exResponse x)" "contentSize (exResponse x) = int n" "n < 2 ^ 63" "length (concat chain) < 2 ^ 63"
    and "revisersPolite env" "envClock env = packDate (unixDate now)" "fits (unixDate now)"
  shows "\<exists>y. doSend env chain x = Done y \<and> answered x y"
proof (cases "hasRevisers (exResponse x)")
  case False
  with sendChain_answers [OF assms(1-4,7,8)] show ?thesis by (simp add: doSend_def)
next
  case True
  obtain y chain' where y: "fold (envOnOutput env) (reviserIDs x) (x, chain) = (y, chain')" by fastforce
  with fold_output [OF assms(6,1,5), of "reviserIDs x"] assms(2)
  have y': "shaped y" "kept x y" "isSent (exResponse y)" "length (concat chain') < 2 ^ 63" by auto
  let ?y = "updResponse (\<lambda>r. r\<lparr>contentSize := int (length (concat chain'))\<rparr>) y"
  from y' obtain z where "sendChain env chain' ?y = Done z" "answered ?y z"
    using sendChain_answers [of ?y "length (concat chain')" env now chain'] assms(7,8) by (auto simp: shaped_update)
  moreover have "kept x ?y" using y'(2) by (simp add: shaped_update)
  ultimately show ?thesis
    using True y y'(4) by (auto simp: doSend_def intro: kept_answered)
qed

lemma exSendText_answers:
  assumes "waiting x" "length content < 2 ^ 63"
    and "revisersPolite env" "envClock env = packDate (unixDate now)" "fits (unixDate now)"
  shows "\<exists>y. exSendText env content x = Done y \<and> answered x y"
proof -
  obtain y where y: "beforeSend env x = Some y" "shaped y" "kept x y" "isSent (exResponse y)"
    using beforeSend_waiting [OF assms(1,3)] by blast
  let ?y = "updResponse (\<lambda>r. r\<lparr>contentSize := int (length content)\<rparr>) y"
  have "\<exists>z. doSend env [content] ?y = Done z \<and> answered ?y z"
    using y assms(2) by (intro doSend_answers [OF _ _ _ assms(2) _ assms(3-5)]) (simp_all add: shaped_update)
  moreover have "kept x ?y" using y(3) by (simp add: shaped_update)
  ultimately show ?thesis using y(1) by (auto simp: exSendText_def intro: kept_answered)
qed

lemma exSendError_answers:
  assumes "waiting x" "200 \<le> s" "s \<le> 999" "\<forall>c. content = Some c \<longrightarrow> length c < 2 ^ 63" "length (envPages env s) < 2 ^ 63"
    and "revisersPolite env" "envClock env = packDate (unixDate now)" "fits (unixDate now)"
  shows "\<exists>y. exSendError env s content x = Done y \<and> answered x y"
proof -
  obtain y where y: "beforeSend env x = Some y" "shaped y" "kept x y" "isSent (exResponse y)"
    using beforeSend_waiting [OF assms(1,6)] by blast
  let ?c = "case content of Some c \<Rightarrow> c | None \<Rightarrow> envPages env s"
  have c: "length ?c < 2 ^ 63" using assms(4,5) by (auto split: option.split)
  let ?y = "updResponse (\<lambda>r. r\<lparr>contentSize := int (length ?c)\<rparr>) (updResponse (\<lambda>r. snd (SetStatus s r)) y)"
  have "\<exists>z. sendChain env [?c] ?y = Done z \<and> answered ?y z"
    using y c by (intro sendChain_answers [OF _ _ _ c assms(7,8)]) (simp_all add: shaped_update SetStatus_kept)
  moreover have "kept x ?y" using y(3) by (simp add: shaped_update)
  moreover have "exSendError env s content x = sendChain env [?c] ?y"
    using y(1) SetStatus_kept(3) [OF assms(2,3), of "exResponse y"]
    by (simp add: exSendError_def Let_def split_def updResponse_def)
  ultimately show ?thesis by (auto intro: kept_answered)
qed

lemma requestVariable_absPath: "requestVariable code name (r\<lparr>absPath := p\<rparr>) = requestVariable code name r"
proof -
  have "\<forall>f \<in> set serverRequestVariables. f (r\<lparr>absPath := p\<rparr>) = f r"
    by (simp add: serverRequestVariables_def riskyMethod_def riskyScheme_def riskyAuthority_def riskyHostname_def
        riskyColonport_def riskyPath_def riskyURI_def riskyEncodedPath_def riskyQueryString_def riskyContentType_def)
  then show ?thesis by (auto simp: requestVariable_def idx_def)
qed

text \<open>A rule whose condition was configured from the table and whose variable can be read.\<close>

definition goodRule :: "webEnv \<Rightarrow> serverRequest \<Rightarrow> rule \<Rightarrow> bool" where
  "goodRule env req r \<longleftrightarrow> length (returnText r) < 2 ^ 63 \<and>
     (ruleGeneral r \<or> requestVariable (ruleVar r) (ruleVarName r) req \<noteq> None \<and>
        (\<exists>m op check. ruleMatcher r = Some m \<and> ruleMatchers (envStat env) op = Some (m, check)))"

definition pending :: "webEnv \<Rightarrow> webExchan \<Rightarrow> webExchan \<Rightarrow> bool" where
  "pending env x0 x \<longleftrightarrow> waiting x \<and> exWire x = exWire x0 \<and> coherent (envStat env) (exRequest x) \<and>
     samePath (exRequest x0) (exRequest x)"

definition finished :: "webExchan \<Rightarrow> webExchan \<Rightarrow> bool" where
  "finished x0 y \<longleftrightarrow> isSent (exResponse y) \<and> samePath (exRequest x0) (exRequest y) \<and> (\<exists>w. w \<noteq> [] \<and> exWire y = exWire x0 @ w)"

lemma pending_answered: "pending env x0 x \<Longrightarrow> answered x y \<Longrightarrow> finished x0 y"
  by (auto simp: pending_def finished_def answered_def)

lemma pending_kept: "pending env x0 x \<Longrightarrow> waiting y \<Longrightarrow> kept x y \<Longrightarrow> pending env x0 y"
  by (auto simp: pending_def kept_def)

lemma waiting_request: "waiting (x\<lparr>exRequest := q\<rparr>) = waiting x"
  by (simp add: waiting_def shaped_def)

lemma ruleMatchExchan_pending:
  assumes "goodRule env (exRequest x0) r" "pending env x0 x"
  shows "\<exists>b y. ruleMatchExchan r x = Done (b, y) \<and> pending env x0 y"
proof (cases "ruleGeneral r")
  case True
  then have "ruleMatchExchan r x = Done (True, x)" by (simp add: ruleMatchExchan_def ruleIsMatch_def)
  with assms(2) show ?thesis by blast
next
  case False
  obtain v m op check where m: "requestVariable (ruleVar r) (ruleVarName r) (exRequest x0) = Some v" "ruleMatcher r = Some m"
    "ruleMatchers (envStat env) op = Some (m, check)"
    using assms(1) False by (auto simp: goodRule_def)
  have x: "samePath (exRequest x0) (exRequest x)" "coherent (envStat env) (exRequest x)"
    using assms(2) by (simp_all add: pending_def)
  obtain b q where bq: "m (rulePatterns r) (ruleRegexps r) v (exRequest x) = (b, q)" by fastforce
  have "coherent (envStat env) q" "samePath (exRequest x) q"
    using ruleMatchers_pathOnly [OF m(3)] x(2) bq unfolding pathOnly_def by (metis snd_conv)+
  then have "pending env x0 (x\<lparr>exRequest := q\<rparr>)"
    using assms(2) by (auto simp: pending_def waiting_request intro: samePath_trans)
  moreover have "ruleMatchExchan r x = Done (b, x\<lparr>exRequest := q\<rparr>)"
    using False m bq requestVariable_samePath [OF x(1)] by (simp add: ruleMatchExchan_def ruleIsMatch_def)
  ultimately show ?thesis by blast
qed

lemma hookRevisers_waiting:
  assumes "revisersPolite env" "waiting x"
  shows "\<exists>y. hookRevisers env vs x = Some y \<and> waiting y \<and> kept x y"
  using assms(2)
proof (induction vs arbitrary: x)
  case (Cons v vs)
  have v: "envRank env v < 32" using assms(1) by (simp add: revisersPolite_def)
  let ?y = "updResponse (\<lambda>r. r\<lparr>hasRevisers := True\<rparr>)
    (x\<lparr>exRequestRevisers := (exRequestRevisers x)[envRank env v := envID env v], exRevisers := (exRevisers x)[envRank env v := envID env v]\<rparr>)"
  have "waiting ?y" using Cons.prems by (simp add: waiting_def shaped_update) (simp add: shaped_def)
  from Cons.IH [OF this] obtain z where "hookRevisers env vs ?y = Some z" "waiting z" "kept ?y z" by blast
  moreover have "kept x ?y" by (simp add: kept_def updResponse_def)
  ultimately show ?case
    using v Cons.prems by (auto simp: put_def waiting_def shaped_def intro: kept_trans)
qed simp

lemma dealLoop_answers:
  assumes "handletsAnswer env" "waiting x"
  shows "case dealLoop (envHandle env) hs x of (handled, y) \<Rightarrow> if handled then answered x y else waiting y \<and> kept x y"
  using assms(2)
proof (induction hs arbitrary: x)
  case (Cons h hs)
  obtain handled y where y: "envHandle env h x = (handled, y)" by fastforce
  with assms(1) Cons.prems have *: "if handled then answered x y else waiting y \<and> kept x y"
    unfolding handletsAnswer_def by (metis (no_types, lifting) case_prod_conv)
  show ?case
  proof (cases handled)
    case True
    with y * show ?thesis by (simp add: Let_def)
  next
    case False
    with * have k: "waiting y" "kept x y" by simp_all
    with Cons.IH [OF k(1)] y False show ?thesis
      by (auto split: prod.splits if_splits intro: kept_answered kept_trans)
  qed
qed simp

lemma executeExchan_answers:
  assumes "goodRule env q r" "pending env x0 x" "\<forall>s. length (envPages env s) < 2 ^ 63"
    and "handletsAnswer env" "revisersPolite env" "envClock env = packDate (unixDate now)" "fits (unixDate now)"
  shows "\<exists>handled y. executeExchan env r x = Done (handled, y) \<and> (if handled then finished x0 y else pending env x0 y)"
proof -
  have w: "waiting x" using assms(2) by (simp add: pending_def)
  note sends = assms(5-7)
  show ?thesis
  proof (cases "returnCode r \<noteq> 0")
    case True
    let ?x = "updResponse (\<lambda>p. snd (SetStatus (sint (returnCode r)) p)) x"
      and ?c = "if length (returnText r) = 0 then [] else returnText r"
    have "waiting ?x" "kept x ?x" using w by (simp_all add: waiting_def shaped_update SetStatus_kept)
    moreover from this obtain y where "exSendText env ?c ?x = Done y" "answered ?x y"
      using exSendText_answers [OF _ _ sends, of ?x ?c] assms(1) by (auto simp: goodRule_def)
    ultimately show ?thesis
      using True pending_answered [OF assms(2) kept_answered] by (auto simp: executeExchan_def)
  next
    case False
    show ?thesis
    proof (cases "length (handlets r) > 0 \<and> \<not> list_ex (envIsProxy env) (handlets r) \<and> formContent (exRequest x) \<and> encodedContent (exRequest x)")
      case True
      have "200 \<le> StatusUnsupportedMediaType" "StatusUnsupportedMediaType \<le> 999" by (simp_all add: StatusUnsupportedMediaType_def)
      from exSendError_answers [OF w this _ _ sends, of None] assms(3) obtain y where
        "SendUnsupportedMediaType env x = Done y" "answered x y" by (auto simp: SendUnsupportedMediaType_def)
      with True False pending_answered [OF assms(2)] show ?thesis by (auto simp: executeExchan_def)
    next
      case here: False
      obtain y where y: "hookRevisers env (revisers r) x = Some y" "waiting y" "kept x y"
        using hookRevisers_waiting [OF assms(5) w] by blast
      obtain handled z where z: "dealLoop (envHandle env) (handlets r) y = (handled, z)" by fastforce
      have "if handled then answered y z else waiting z \<and> kept y z"
        using dealLoop_answers [OF assms(4) y(2), of "handlets r"] z by simp
      moreover have "executeExchan env r x = Done (handled, z)"
        using False here y(1) z by (simp only: executeExchan_def if_False checked_simps andThen.simps)
      ultimately show ?thesis
        using pending_answered [OF assms(2) kept_answered [OF y(3)]] pending_kept [OF assms(2) _ kept_trans [OF y(3)]]
        by (cases handled) auto
    qed
  qed
qed

lemma rules_answer:
  assumes "\<forall>r \<in> set rs. goodRule env (exRequest x0) r" "pending env x0 x" "\<forall>s. length (envPages env s) < 2 ^ 63"
    and "handletsAnswer env" "revisersPolite env" "envClock env = packDate (unixDate now)" "fits (unixDate now)"
  shows "\<exists>by y. firstMatch ruleMatchExchan (executeExchan env) rs x = Done (by, y) \<and>
    (if by = None then pending env x0 y else finished x0 y)"
  using assms(1,2)
proof (induction rs arbitrary: x)
  case Nil
  then show ?case by simp
next
  case (Cons r rs)
  have r: "goodRule env (exRequest x0) r" using Cons.prems by simp
  obtain b y where y: "ruleMatchExchan r x = Done (b, y)" "pending env x0 y"
    using ruleMatchExchan_pending [OF r Cons.prems(2)] by blast
  obtain handled z where z: "executeExchan env r y = Done (handled, z)" "if handled then finished x0 z else pending env x0 z"
    using executeExchan_answers [OF r y(2) assms(3-7)] by blast
  show ?case
    using y z Cons.IH [of y] Cons.IH [of z] Cons.prems(1) by (cases b; cases handled) auto
qed

text \<open>C39: Every exchan is answered, whatever the rules are.  When the handlets answer what they say that
  they handled and leave alone what they decline, and revisers neither send nor break a response, then
  dispatching a waiting exchan does not panic, marks the response as sent and adds octets to the
  connection: a rule, a handlet or the final \<open>404\<close> answers.\<close>

theorem dispatchExchan_answers:
  assumes "waiting x" "\<not> pathInfoGot (exRequest x)" "pathInfo (exRequest x) = None"
    and "riskyMethod (exRequest x) \<noteq> None" "riskyURI (exRequest x) \<noteq> None"
    and "\<forall>r \<in> set (waRules a). goodRule env (exRequest x) r"
    and "\<forall>c. waText404 a = Some c \<longrightarrow> length c < 2 ^ 63" "\<forall>s. length (envPages env s) < 2 ^ 63"
    and "handletsAnswer env" "revisersPolite env" "envClock env = packDate (unixDate now)" "fits (unixDate now)"
  shows "\<exists>y w. dispatchExchan env a x = Done y \<and> isSent (exResponse y) \<and> w \<noteq> [] \<and> exWire y = exWire x @ w"
proof -
  obtain p where p: "withAbsPath a x = Some (x\<lparr>exRequest := (exRequest x)\<lparr>absPath := p\<rparr>\<rparr>)"
  proof (cases "waRoot a = []")
    case True
    with that [of "absPath (exRequest x)"] show ?thesis by (simp add: withAbsPath_def makeAbsPath_def)
  next
    case False
    with that show ?thesis by (simp add: withAbsPath_def makeAbsPath_eq)
  qed
  let ?x = "x\<lparr>exRequest := (exRequest x)\<lparr>absPath := p\<rparr>\<rparr>"
  have "pending env ?x ?x" using assms(1-3) by (simp add: pending_def waiting_request coherent_def)
  moreover have "\<forall>r \<in> set (waRules a). goodRule env (exRequest ?x) r"
    using assms(6) by (simp add: goodRule_def requestVariable_absPath)
  ultimately obtain found y where y: "firstMatch ruleMatchExchan (executeExchan env) (waRules a) ?x = Done (found, y)"
    "if found = None then pending env ?x y else finished ?x y"
    using rules_answer [OF _ _ assms(8-12)] by blast
  show ?thesis
  proof (cases found)
    case None
    have "200 \<le> StatusNotFound" "StatusNotFound \<le> 999" by (simp_all add: StatusNotFound_def)
    from exSendError_answers [OF _ this assms(7) _ assms(10-12), of y] assms(8) y(2) None
    obtain z where z: "SendNotFound env (waText404 a) y = Done z" "answered y z"
      by (auto simp: SendNotFound_def pending_def)
    then have "finished ?x z" using y(2) None by (auto intro: pending_answered)
    with p y(1) z(1) None show ?thesis by (auto simp: dispatchExchan_def finished_def)
  next
    case (Some r)
    then have f: "finished ?x y" using y(2) by simp
    then have "samePath (exRequest ?x) (exRequest y)" by (simp add: finished_def)
    then have "riskyMethod (exRequest y) \<noteq> None" "riskyURI (exRequest y) \<noteq> None"
      using assms(4,5) by (auto simp: samePath_def riskyMethod_def riskyURI_def)
    with p y(1) Some f show ?thesis by (cases "logAccess r") (auto simp: dispatchExchan_def finished_def Logf_def)
  qed
qed

text \<open>A rule whose only handlet declines, one whose handlet answers, and none after them.\<close>

definition demoEnv0 :: webEnv where
  "demoEnv0 = \<lparr>envClock = packDate (unixDate 0), envStat = (\<lambda>p. None), envPages = (\<lambda>s. bs ''error''),
     envIsProxy = (\<lambda>h. False), envHandle = (\<lambda>h x. (False, x)), envRank = (\<lambda>i. i mod 32), envID = (\<lambda>i. i),
     envBeforeSend = (\<lambda>i x. x), envOnOutput = (\<lambda>i xc. xc)\<rparr>"

definition demoEnv :: webEnv where
  "demoEnv = demoEnv0\<lparr>envHandle := \<lambda>h x.
     if h = 1 then (case exSendText demoEnv0 (bs ''hello'') x of Done y \<Rightarrow> (True, y) | _ \<Rightarrow> (False, x)) else (False, x)\<rparr>"

definition demoRule :: "nat list \<Rightarrow> rule" where
  "demoRule hs = \<lparr>ruleGeneral = True, logAccess = True, returnCode = 0, returnText = [], ruleVar = 0,
     ruleVarName = [], rulePatterns = [], ruleRegexps = [], ruleMatcher = None, handlets = hs, revisers = [7], socklets = []\<rparr>"

definition demoExchan :: webExchan where
  "demoExchan = \<lparr>exRequest = \<lparr>input = bs ''GET / HTTP/1.1'', rmethod = \<lparr>spanFrom = 0, spanEdge = 3\<rparr>, schemeCode = 0,
       authority = \<lparr>spanFrom = 0, spanEdge = 0\<rparr>, hostname = \<lparr>spanFrom = 0, spanEdge = 0\<rparr>,
       colonport = \<lparr>spanFrom = 0, spanEdge = 0\<rparr>, uri = \<lparr>spanFrom = 4, spanEdge = 5\<rparr>,
       encodedPath = \<lparr>spanFrom = 4, spanEdge = 5\<rparr>, rpath = bs ''/'', queryString = \<lparr>spanFrom = 5, spanEdge = 5\<rparr>,
       contentType = [], headerValue = Map.empty, cookieValue = Map.empty, queryValue = Map.empty,
       formContent = False, encodedContent = False, absPath = [], pathInfoGot = False, pathInfo = None\<rparr>,
     exRequestRevisers = replicate 32 0, exResponse = newResponse, exRevisers = replicate 32 0, exHTTP11 = True,
     exPersistent = True, exWire = [], exLog = []\<rparr>"

theorem dispatchExchan_answers_witness:
  "\<exists>y w. dispatchExchan demoEnv (newWebapp\<lparr>waRules := [demoRule [0], demoRule [0, 1]]\<rparr>) demoExchan = Done y \<and>
    isSent (exResponse y) \<and> w \<noteq> [] \<and> exWire y = exWire demoExchan @ w"
proof (rule dispatchExchan_answers)
  have f: "fits (unixDate 0)" by (rule unixDate_fits) simp_all
  have polite: "revisersPolite demoEnv0" "revisersPolite demoEnv"
    by (auto simp: revisersPolite_def polite_def demoEnv_def demoEnv0_def)
  have w: "waiting demoExchan"
    using newResponse_holds by (auto simp: waiting_def shaped_def demoExchan_def) (simp_all add: newResponse_def timely_def)
  have "\<exists>y. exSendText demoEnv0 (bs ''hello'') x = Done y \<and> answered x y" if "waiting x" for x
    by (rule exSendText_answers [OF that _ polite(1) _ f]) (simp_all add: demoEnv0_def)
  then show "handletsAnswer demoEnv"
    by (auto simp: handletsAnswer_def demoEnv_def) (force simp: demoEnv0_def)+
  show "fits (unixDate 0)" "revisersPolite demoEnv" "waiting demoExchan" by (fact f polite w)+
qed (simp_all add: demoExchan_def demoEnv_def demoEnv0_def demoRule_def newWebapp_def goodRule_def riskyMethod_def riskyURI_def
    textAt_def sub_def notEmpty_def)

end
