(* ===== verification/Http1In.thy ===== *)
theory Http1In
  imports HttpOut
begin

text \<open>
  Receiving HTTP/1 messages: the window a message is received through (\<open>growHead\<close>) and the header section
  (\<open>recvHeaderLines\<close>) of \<open>_http1In_\<close> in \<open>hemi/web_general_http1.go\<close>, with the line table of
  \<open>_httpIn_\<close> (\<open>_addPrime\<close>, \<open>addHeaderLine\<close>) in \<open>hemi/web_general_http.go\<close>.

  The state is the window, a position in it, the edge of what was received, and what the network will
  bring: pieces of octets, a timeout, a failure.  The abstraction is \<open>view r c w\<close>: \<open>c\<close> was consumed, \<open>w\<close>
  was not, received or not.  The locale \<open>window_reader\<close> is the contract of the one step all loops
  take (move on, grow at the edge); its lemmas give each loop as \<open>takeWhile\<close> and \<open>dropWhile\<close> over \<open>w\<close> and
  a field line as its parts (\<open>recvLine_spec\<close>).  It is interpreted by the window of the head.  On
  top: receiving a header section never panics, and it reads back what \<open>addHeader\<close> writes.
\<close>

subsection \<open>The network and the window\<close>

text \<open>
  What the next reads of a connection meet: octets that have arrived, a timeout, or an error (the end of
  the stream among them).  A read takes at most as many octets as there is room for and leaves the rest.
\<close>

datatype netEvent = Arrived bytes | TimedOut | Failed

definition netRead :: "nat \<Rightarrow> netEvent list \<Rightarrow> (netEvent, bytes \<times> netEvent list) outcome" where
  "netRead room net =
    (case net of
       [] \<Rightarrow> Fail Failed
     | Arrived w # net \<Rightarrow> Done (take room w, if length w \<le> room then net else Arrived (drop room w) # net)
     | TimedOut # net \<Rightarrow> Fail TimedOut
     | Failed # net \<Rightarrow> Fail Failed)"

text \<open>The octets that arrive before the first event of another kind.\<close>

fun arriving :: "netEvent list \<Rightarrow> bytes" where
  "arriving (Arrived w # net) = w @ arriving net"
| "arriving net = []"

text \<open>A read never returns without octets and without an error.\<close>

primrec noEmpty :: "netEvent list \<Rightarrow> bool" where
  "noEmpty [] \<longleftrightarrow> True"
| "noEmpty (e # net) \<longleftrightarrow> e \<noteq> Arrived [] \<and> noEmpty net"

text \<open>
  The part of a message that is being received: \<open>r.input\<close> with \<open>r.elemFore\<close> and \<open>r.inputEdge\<close>, or
  \<open>r.bodyWindow\<close> with \<open>r.elemFore\<close> (\<open>r.chunkFore\<close>) and \<open>r.chunkEdge\<close>.
\<close>

record inWindow =
  window :: bytes
  fore :: nat
  winEdge :: nat
  network :: "netEvent list"

definition peek :: "'a inWindow_scheme \<Rightarrow> byte option" where
  "peek r = idx (window r) (fore r)"

definition poke :: "byte \<Rightarrow> 'a inWindow_scheme \<Rightarrow> 'a inWindow_scheme option" where
  "poke b r = do { w \<leftarrow> put (window r) (fore r) b; Some (r\<lparr>window := w\<rparr>) }"

text \<open>
  The step that every loop of the receivers takes: move on, and at the end of what was received grow.  A
  result \<open>Fail\<close> is a \<open>return false\<close>, with the state it leaves.
\<close>

type_synonym 's act = "'s \<Rightarrow> ('s, 's) outcome"

definition skipWith :: "('a inWindow_scheme \<Rightarrow> ('a inWindow_scheme, 'a inWindow_scheme) outcome) \<Rightarrow>
    'a inWindow_scheme \<Rightarrow> ('a inWindow_scheme, 'a inWindow_scheme) outcome" where
  "skipWith grow r = (let r = r\<lparr>fore := fore r + 1\<rparr> in if fore r = winEdge r then grow r else Done r)"

text \<open>
  The abstraction: \<open>c\<close> is what was consumed, and \<open>w\<close> what is not consumed, received or not.
\<close>

definition view :: "'a inWindow_scheme \<Rightarrow> bytes \<Rightarrow> bytes \<Rightarrow> bool" where
  "view r c w \<longleftrightarrow> fore r < winEdge r \<and> winEdge r \<le> length (window r) \<and> length (window r) \<le> 16384 \<and>
     c = take (fore r) (window r) \<and> w = slice (window r) (fore r) (winEdge r) @ arriving (network r) \<and> noEmpty (network r)"

lemma view_peek:
  assumes "view r c w"
  obtains b v where "w = b # v" "peek r = Some b"
proof -
  have "slice (window r) (fore r) (winEdge r) = window r ! fore r # slice (window r) (Suc (fore r)) (winEdge r)"
    using assms by (intro slice_Suc) (simp_all add: view_def)
  with assms that show ?thesis by (simp add: view_def peek_def panic_simps)
qed

lemma view_nonempty: "\<not> view r c []"
  by (auto elim: view_peek)

lemma view_poke:
  assumes "view r c (b # w)"
  shows "\<exists>r'. poke x r = Some r' \<and> view r' c (x # w) \<and> inWindow.more r' = inWindow.more r \<and> fore r' = fore r"
proof -
  let ?i = "fore r" and ?e = "winEdge r" and ?p = "window r"
  have r: "?i < ?e" "?e \<le> length ?p" "length ?p \<le> 16384" "c = take ?i ?p" "noEmpty (network r)"
    and w: "b # w = slice ?p ?i ?e @ arriving (network r)"
    using assms by (simp_all add: view_def)
  have tail: "slice (?p[?i := x]) (Suc ?i) ?e = slice ?p (Suc ?i) ?e"
    by (simp add: slice_def)
  have "slice ?p ?i ?e = ?p ! ?i # slice ?p (Suc ?i) ?e" using r by (intro slice_Suc)
  with w have "w = slice ?p (Suc ?i) ?e @ arriving (network r)" by simp
  moreover have "slice (?p[?i := x]) ?i ?e = x # slice (?p[?i := x]) (Suc ?i) ?e"
    using r by (subst slice_Suc) simp_all
  ultimately have "view (r\<lparr>window := ?p[?i := x]\<rparr>) c (x # w)"
    using r tail by (simp add: view_def)
  with r show ?thesis by (auto simp: poke_def panic_simps)
qed

subsection \<open>Growing the head\<close>

text \<open>The sections of a message, and the statuses that receiving a head can end with.\<close>

datatype httpSection = SectionControl | SectionHeaders | SectionContent | SectionTrailers

record headIn = inWindow +
  receiving :: httpSection
  headResult :: int
  failReason :: string

definition StatusBadRequest :: int where "StatusBadRequest = 400"
definition StatusRequestTimeout :: int where "StatusRequestTimeout = 408"
definition StatusURITooLong :: int where "StatusURITooLong = 414"
definition StatusRequestHeaderFieldsTooLarge :: int where "StatusRequestHeaderFieldsTooLarge = 431"
definition StatusHTTPVersionNotSupported :: int where "StatusHTTPVersionNotSupported = 505"

text \<open>
  \<open>growHead\<close>: the input is the stock of 1536 octets, one of 4K or one of 16K; it is copied into the next
  size when it is full.  The content of a buffer from the pools does not matter: it is a parameter.
\<close>

definition readHead :: "'a headIn_scheme \<Rightarrow> ('a headIn_scheme, 'a headIn_scheme) outcome" where
  "readHead r =
    (case netRead (length (window r) - winEdge r) (network r) of
       Done (data, net) \<Rightarrow> Done (r\<lparr>window := copyAt (window r) (winEdge r) data, winEdge := winEdge r + length data, network := net\<rparr>)
     | Fail TimedOut \<Rightarrow> Fail (r\<lparr>headResult := StatusRequestTimeout\<rparr>)
     | Fail e \<Rightarrow> Fail (r\<lparr>headResult := - 1\<rparr>)
     | Panic \<Rightarrow> Panic)"

definition growHead :: "pools \<Rightarrow> 'a headIn_scheme \<Rightarrow> ('a headIn_scheme, 'a headIn_scheme) outcome" where
  "growHead pool r =
    (let inputSize = length (window r) in
     if winEdge r = inputSize then
       if inputSize = 16384 then
         Fail (r\<lparr>headResult := (if receiving r = SectionControl then StatusURITooLong else StatusRequestHeaderFieldsTooLarge)\<rparr>)
       else readHead (r\<lparr>window := copyAt (GetNK pool (if inputSize = 1536 then 4096 else 16384)) 0 (window r)\<rparr>)
     else readHead r)"

definition skipHead :: "pools \<Rightarrow> 'a headIn_scheme \<Rightarrow> ('a headIn_scheme, 'a headIn_scheme) outcome" where
  "skipHead pool = skipWith (growHead pool)"

definition goodInput :: "'a inWindow_scheme \<Rightarrow> bool" where
  "goodInput r \<longleftrightarrow> length (window r) \<in> {1536, 4096, 16384}"

subsection \<open>A step over the view\<close>

text \<open>
  The contract of a reader: a step never panics; it moves one octet from the unread to the consumed
  side, and gives up only at the end of what arrives or when the window of 16K is full.
\<close>

locale window_reader =
  fixes skip :: "'a inWindow_scheme \<Rightarrow> ('a inWindow_scheme, 'a inWindow_scheme) outcome"
    and good :: "'a inWindow_scheme \<Rightarrow> bool"
  assumes step: "view r c (b # w) \<Longrightarrow> good r \<Longrightarrow>
      (case skip r of
         Panic \<Rightarrow> False
       | Fail r' \<Rightarrow> w = [] \<or> length c + 1 = 16384
       | Done r' \<Rightarrow> view r' (c @ [b]) w \<and> good r' \<and> inWindow.more r' = inWindow.more r)"
    and good_poke: "good r \<Longrightarrow> poke x r = Some r' \<Longrightarrow> good r'"

lemma netRead_cases:
  assumes "noEmpty net" "0 < room"
  shows "case netRead room net of
     Panic \<Rightarrow> False
   | Fail e \<Rightarrow> arriving net = [] \<and> e \<noteq> Arrived v
   | Done (data, net') \<Rightarrow> data \<noteq> [] \<and> length data \<le> room \<and> arriving net = data @ arriving net' \<and> noEmpty net'"
proof (cases net)
  case (Cons e es)
  show ?thesis
  proof (cases e)
    case (Arrived w)
    have "take room w \<noteq> []" "length (take room w) \<le> room" "drop room w \<noteq> []" if "room < length w"
      using that assms(2) by auto
    with Cons Arrived assms show ?thesis by (cases "length w \<le> room") (simp_all add: netRead_def)
  qed (simp_all add: netRead_def Cons)
qed (simp add: netRead_def)

text \<open>The view after a read into the room behind the edge.\<close>

lemma view_after_read:
  assumes "fore r = winEdge r" "winEdge r < length (window r)" "length (window r) \<le> 16384"
    and "data \<noteq> []" "length data \<le> length (window r) - winEdge r" "noEmpty net"
  shows "view (r\<lparr>window := copyAt (window r) (winEdge r) data, winEdge := winEdge r + length data, network := net\<rparr>)
    (take (winEdge r) (window r)) (data @ arriving net)"
proof -
  have "slice (copyAt (window r) (winEdge r) data) (winEdge r) (winEdge r + length data) = data"
    using assms by (intro slice_copyAt_same) simp
  moreover have "take (winEdge r) (copyAt (window r) (winEdge r) data) = take (winEdge r) (window r)"
    using assms by (intro take_copyAt_before) simp_all
  ultimately show ?thesis using assms by (simp add: view_def)
qed

lemma view_forward:
  assumes "view r c (b # w)" "Suc (fore r) < winEdge r"
  shows "view (r\<lparr>fore := fore r + 1\<rparr>) (c @ [b]) w"
proof -
  have "slice (window r) (fore r) (winEdge r) = window r ! fore r # slice (window r) (Suc (fore r)) (winEdge r)"
    using assms by (intro slice_Suc) (simp_all add: view_def)
  moreover have "fore r < length (window r)" using assms by (simp add: view_def)
  ultimately show ?thesis using assms by (simp add: view_def take_Suc_conv_app_nth)
qed

text \<open>At the end of what was received, the unread octets are those that are still to arrive.\<close>

lemma view_end:
  assumes "view r c (b # w)" "Suc (fore r) = winEdge r"
  shows "arriving (network r) = w" "take (winEdge r) (window r) = c @ [b]" "length c + 1 = winEdge r"
proof -
  have e: "winEdge r = Suc (fore r)" using assms(2) by simp
  have i: "fore r < length (window r)" using assms by (simp add: view_def)
  have "slice (window r) (fore r) (Suc (fore r)) = [window r ! fore r]"
    using i by (simp add: slice_def take_Suc hd_drop_conv_nth)
  then show "arriving (network r) = w" "take (winEdge r) (window r) = c @ [b]" "length c + 1 = winEdge r"
    using assms(1) i unfolding view_def e by (simp_all add: take_Suc_conv_app_nth)
qed

lemma readHead_step:
  assumes "fore r = winEdge r" "winEdge r < length (window r)" "length (window r) \<le> 16384" "noEmpty (network r)"
  shows "case readHead r of
     Panic \<Rightarrow> False
   | Fail r' \<Rightarrow> arriving (network r) = []
   | Done r' \<Rightarrow> view r' (take (winEdge r) (window r)) (arriving (network r)) \<and> length (window r') = length (window r) \<and>
       inWindow.more r' = inWindow.more r"
proof -
  have room: "0 < length (window r) - winEdge r" using assms(2) by simp
  show ?thesis
  proof (cases "netRead (length (window r) - winEdge r) (network r)")
    case (Done dn)
    obtain data net where "dn = (data, net)" by fastforce
    with Done netRead_cases [OF assms(4) room] view_after_read [OF assms(1-3)] assms(2) show ?thesis
      by (auto simp: readHead_def)
  next
    case (Fail e)
    with netRead_cases [OF assms(4) room] show ?thesis by (cases e) (auto simp: readHead_def)
  next
    case Panic
    with netRead_cases [OF assms(4) room] show ?thesis by simp
  qed
qed

lemma skipHead_step:
  assumes "goodPools pool" "view r c (b # w)" "goodInput r"
  shows "case skipHead pool r of
     Panic \<Rightarrow> False
   | Fail r' \<Rightarrow> w = [] \<or> length c + 1 = 16384
   | Done r' \<Rightarrow> view r' (c @ [b]) w \<and> goodInput r' \<and> inWindow.more r' = inWindow.more r"
proof (cases "Suc (fore r) = winEdge r")
  case False
  then have "Suc (fore r) < winEdge r" using assms(2) by (simp add: view_def)
  from view_forward [OF assms(2) this] show ?thesis
    using False assms(3) by (simp add: skipHead_def skipWith_def Let_def goodInput_def)
next
  case True
  note e = view_end [OF assms(2) True]
  have r: "winEdge r \<le> length (window r)" "length (window r) \<le> 16384" "noEmpty (network r)"
    using assms(2) by (simp_all add: view_def)
  let ?r = "r\<lparr>fore := winEdge r\<rparr>"
  have skip: "skipHead pool r = growHead pool ?r" using True by (simp add: skipHead_def skipWith_def)
  show ?thesis
  proof (cases "winEdge r = length (window r)")
    case False
    then have "growHead pool ?r = readHead ?r" by (simp add: growHead_def Let_def)
    with readHead_step [of ?r] False r e skip assms(3) show ?thesis
      by (auto simp: goodInput_def split: outcome.splits)
  next
    case full: True
    show ?thesis
    proof (cases "length (window r) = 16384")
      case True
      with full e show ?thesis by (simp add: skip growHead_def Let_def)
    next
      case False
      define n where "n = (if length (window r) = 1536 then 4096 else 16384 :: nat)"
      have n: "length (GetNK pool n) = n" "length (window r) < n" "n \<in> {4096, 16384}"
        using length_GetNK [OF assms(1), of n] assms(3) False by (auto simp: n_def nkSize_def goodInput_def)
      let ?big = "?r\<lparr>window := copyAt (GetNK pool n) 0 (window r)\<rparr>"
      have "take (winEdge r) (window ?big) = take (winEdge r) (window r)"
        using n full by (simp add: copyAt_def)
      moreover have "skipHead pool r = readHead ?big"
        using full False by (simp add: skip growHead_def Let_def n_def)
      ultimately show ?thesis
        using readHead_step [of ?big] n full r e by (auto simp: goodInput_def split: outcome.splits)
    qed
  qed
qed

lemma goodInput_poke: "goodInput r \<Longrightarrow> poke x r = Some r' \<Longrightarrow> goodInput r'"
  by (auto simp: poke_def put_def goodInput_def split: if_splits)

subsection \<open>Receiving field lines\<close>

text \<open>
  \<open>recvHeaderLines\<close> and \<open>recvTrailerLines\<close> are one text over two windows: the functions below take the step
  (\<open>skip\<close>) and what a bad octet leaves behind (\<open>bad\<close>).  Loops carry fuel; running out of it is a panic,
  and the caller gives as much as there are unread octets.
\<close>

record pair =
  pairHash :: uint16
  pairNameFrom :: nat
  pairNameSize :: nat
  pairValueFrom :: nat
  pairValueEdge :: nat
  pairUnderscore :: bool

type_synonym 'a reader = "'a inWindow_scheme \<Rightarrow> ('a inWindow_scheme, 'a inWindow_scheme) outcome"
type_synonym 'a refusal = "string \<Rightarrow> 'a inWindow_scheme \<Rightarrow> 'a inWindow_scheme"

primrec recvName :: "'a reader \<Rightarrow> 'a refusal \<Rightarrow> nat \<Rightarrow> uint16 \<Rightarrow> bool \<Rightarrow> 'a inWindow_scheme \<Rightarrow>
    ('a inWindow_scheme, uint16 \<times> bool \<times> 'a inWindow_scheme) outcome" where
  "recvName skip bad 0 h u r = Panic"
| "recvName skip bad (Suc n) h u r =
    andThen (checked (peek r)) (\<lambda>b.
    andThen (checked (idx httpTchar (unat b))) (\<lambda>t.
    if t = 0 then
      if b = ch CHR '':'' then Done (h, u, r) else Fail (bad ''header name contains bad character'' r)
    else
      let b = (if t = 2 then b + 0x20 else b) in
      andThen (if t = 2 then checked (poke b r) else Done r) (\<lambda>r.
      andThen (skip r) (recvName skip bad n (h + ucast b) (u \<or> t = 3)))))"

definition isOWS :: "byte \<Rightarrow> bool" where
  "isOWS b \<longleftrightarrow> b = 0x20 \<or> b = 0x09"

primrec skipOWS :: "'a reader \<Rightarrow> nat \<Rightarrow> 'a inWindow_scheme \<Rightarrow> ('a inWindow_scheme, 'a inWindow_scheme) outcome" where
  "skipOWS skip 0 r = Panic"
| "skipOWS skip (Suc n) r =
    andThen (checked (peek r)) (\<lambda>b. if isOWS b then andThen (skip r) (skipOWS skip n) else Done r)"

definition isValueByte :: "byte \<Rightarrow> bool" where
  "isValueByte b \<longleftrightarrow> 0x20 \<le> b \<and> b \<noteq> 0x7F \<or> b = 0x09"

text \<open>At an octet CR: skip it and expect LF.\<close>

definition skipCR :: "'a reader \<Rightarrow> 'a refusal \<Rightarrow> string \<Rightarrow> 'a inWindow_scheme \<Rightarrow> ('a inWindow_scheme, 'a inWindow_scheme) outcome" where
  "skipCR skip bad why r =
    andThen (skip r) (\<lambda>r.
    andThen (checked (peek r)) (\<lambda>b. if b \<noteq> 0x0A then Fail (bad why r) else Done r))"

primrec recvValue :: "'a reader \<Rightarrow> 'a refusal \<Rightarrow> nat \<Rightarrow> 'a inWindow_scheme \<Rightarrow> ('a inWindow_scheme, 'a inWindow_scheme) outcome" where
  "recvValue skip bad 0 r = Panic"
| "recvValue skip bad (Suc n) r =
    andThen (checked (peek r)) (\<lambda>b.
    if isValueByte b then andThen (skip r) (recvValue skip bad n)
    else if b = 0x0D then skipCR skip bad ''header value contains bad eol'' r
    else if b = 0x0A then Done r
    else Fail (bad ''header value contains bad character'' r))"

text \<open>The edge of the value: before the line end, with the white space behind the value trimmed.\<close>

primrec trimOWS :: "bytes \<Rightarrow> nat \<Rightarrow> nat option" where
  "trimOWS p 0 = None"
| "trimOWS p (Suc k) = do { b \<leftarrow> idx p k; if isOWS b then trimOWS p k else Some (Suc k) }"

definition valueEnd :: "nat \<Rightarrow> 'a inWindow_scheme \<Rightarrow> nat option" where
  "valueEnd back r =
    (if fore r = 0 then None
     else do {
       b \<leftarrow> idx (window r) (fore r - 1);
       let at = (if b = 0x0D then fore r - 1 else fore r);
       if at > back then trimOWS (window r) at else Some at
     })"

definition recvLine :: "'a reader \<Rightarrow> 'a refusal \<Rightarrow> nat \<Rightarrow> 'a inWindow_scheme \<Rightarrow>
    ('a inWindow_scheme, pair \<times> 'a inWindow_scheme) outcome" where
  "recvLine skip bad n r =
    (let back = fore r in
     andThen (recvName skip bad n 0 False r) (\<lambda>(h, u, r).
     let nameSize = fore r - back in
     if \<not> (nameSize > 0 \<and> nameSize \<le> 255) then Fail (bad ''header name out of range'' r)
     else
       andThen (skip r) (\<lambda>r.
       andThen (skipOWS skip n r) (\<lambda>r.
       let valueFrom = fore r in
       andThen (recvValue skip bad n r) (\<lambda>r.
       andThen (checked (valueEnd valueFrom r)) (\<lambda>valueEdge.
       Done (\<lparr>pairHash = h, pairNameFrom = back, pairNameSize = nameSize, pairValueFrom = valueFrom,
         pairValueEdge = valueEdge, pairUnderscore = u\<rparr>, r)))))))"

definition endOfSection :: "'a reader \<Rightarrow> 'a refusal \<Rightarrow> 'a inWindow_scheme \<Rightarrow> ('a inWindow_scheme, bool \<times> 'a inWindow_scheme) outcome" where
  "endOfSection skip bad r =
    andThen (checked (peek r)) (\<lambda>b.
    if b = 0x0D then andThen (skipCR skip bad ''bad end of header section'' r) (\<lambda>r. Done (True, r))
    else Done (b = 0x0A, r))"

primrec recvLines :: "'a reader \<Rightarrow> 'a refusal \<Rightarrow> (pair \<Rightarrow> 'a inWindow_scheme \<Rightarrow> ('a inWindow_scheme, 'a inWindow_scheme) outcome) \<Rightarrow>
    nat \<Rightarrow> nat \<Rightarrow> 'a inWindow_scheme \<Rightarrow> ('a inWindow_scheme, 'a inWindow_scheme) outcome" where
  "recvLines skip bad add N 0 r = Panic"
| "recvLines skip bad add N (Suc n) r =
    andThen (endOfSection skip bad r) (\<lambda>(end, r).
    if end then Done r
    else
      andThen (recvLine skip bad N r) (\<lambda>(line, r).
      andThen (add line r) (\<lambda>r.
      andThen (skip r) (recvLines skip bad add N n))))"

subsection \<open>What the loops consume\<close>

definition lowerTchar :: "byte \<Rightarrow> byte" where
  "lowerTchar b = (if httpTchar ! unat b = 2 then b + 0x20 else b)"

definition isTcharByte :: "byte \<Rightarrow> bool" where
  "isTcharByte b \<longleftrightarrow> httpTchar ! unat b \<noteq> 0"

lemma idx_httpTchar: "idx httpTchar (unat (b :: byte)) = Some (httpTchar ! unat b)"
proof -
  have "unat b < 256" using unsigned_less [of b] by simp
  moreover have "length httpTchar = 256" by (simp add: httpTchar_def)
  ultimately show ?thesis by (simp add: panic_simps)
qed

lemma not_tchar: "httpTchar ! 58 = 0" "httpTchar ! 13 = 0" "httpTchar ! 10 = 0" "httpTchar ! 32 = 0"
  by (simp_all add: httpTchar_def)

text \<open>
  A loop from a view of \<open>w\<close> never panics; it ends with the octets of its class consumed, or gives up because
  what follows is not what it expects or does not fit.
\<close>

text \<open>The end of a line: LF, or CR and LF.\<close>

definition lineEnd :: "bytes \<Rightarrow> bytes \<Rightarrow> bool" where
  "lineEnd w e \<longleftrightarrow> (\<exists>v. w = 0x0A # v) \<and> e = [] \<or> (\<exists>v. w = 0x0D # 0x0A # v) \<and> e = [0x0D]"

context window_reader
begin

lemma stepE:
  assumes "view r c (b # w)" "good r"
  obtains r' where "skip r = Done r'" "view r' (c @ [b]) w" "good r'" "inWindow.more r' = inWindow.more r" "w \<noteq> []"
  | r' where "skip r = Fail r'" "w = [] \<or> length c + 1 = 16384"
  using step [OF assms] view_nonempty by (cases "skip r") fastforce+

lemma recvName_spec:
  assumes "view r c w" "good r" "length w \<le> n"
  shows "case recvName skip bad n h u r of
     Panic \<Rightarrow> False
   | Fail _ \<Rightarrow> \<not> ((\<exists>v. dropWhile isTcharByte w = ch CHR '':'' # v) \<and> length c + length (takeWhile isTcharByte w) < 16384)
   | Done (h', u', r') \<Rightarrow> (\<exists>v. dropWhile isTcharByte w = ch CHR '':'' # v) \<and>
       view r' (c @ map lowerTchar (takeWhile isTcharByte w)) (dropWhile isTcharByte w) \<and> good r' \<and>
       inWindow.more r' = inWindow.more r \<and> h' = foldl (\<lambda>h b. h + ucast b) h (map lowerTchar (takeWhile isTcharByte w))"
  using assms
proof (induction n arbitrary: h u r c w)
  case 0
  then show ?case using view_nonempty by auto
next
  case (Suc n)
  obtain b v where w: "w = b # v" "peek r = Some b" using Suc.prems(1) by (rule view_peek)
  let ?t = "httpTchar ! unat b"
  show ?case
  proof (cases "?t = 0")
    case True
    then have "\<not> isTcharByte b" by (simp add: isTcharByte_def)
    with w True Suc.prems show ?thesis
      by (cases "b = ch CHR '':''") (simp_all add: idx_httpTchar)
  next
    case False
    let ?b = "lowerTchar b"
    have tb: "isTcharByte b" using False by (simp add: isTcharByte_def)
    obtain r1 where r1: "(if ?t = 2 then poke (b + 0x20) r else Some r) = Some r1"
      "view r1 c (?b # v)" "good r1" "inWindow.more r1 = inWindow.more r"
    proof (cases "?t = 2")
      case True
      obtain r' where "poke (b + 0x20) r = Some r'" "view r' c ((b + 0x20) # v)" "inWindow.more r' = inWindow.more r"
        using view_poke [of r c b v "b + 0x20"] Suc.prems(1) w(1) by blast
      with True that [of r'] Suc.prems(2) good_poke show ?thesis by (simp add: lowerTchar_def)
    next
      case False
      with that [of r] Suc.prems w(1) show ?thesis by (simp add: lowerTchar_def)
    qed
    have unfold: "recvName skip bad (Suc n) h u r = andThen (skip r1) (recvName skip bad n (h + ucast ?b) (u \<or> ?t = 3))"
      using w(2) False r1(1) by (cases "?t = 2") (simp_all add: idx_httpTchar lowerTchar_def Let_def)
    from stepE [OF r1(2,3)] show ?thesis
    proof cases
      case (1 r2)
      then show ?thesis
        using Suc.IH [OF 1(2,3), of "h + ucast ?b" "u \<or> ?t = 3"] Suc.prems(3) w(1) tb r1(4) unfolding unfold
        by (auto split: outcome.splits)
    next
      case (2 r2)
      then show ?thesis using tb w(1) unfolding unfold by auto
    qed
  qed
qed

lemma skipOWS_spec:
  assumes "view r c w" "good r" "length w \<le> n"
  shows "case skipOWS skip n r of
     Panic \<Rightarrow> False
   | Fail _ \<Rightarrow> \<not> (dropWhile isOWS w \<noteq> [] \<and> length c + length (takeWhile isOWS w) < 16384)
   | Done r' \<Rightarrow> view r' (c @ takeWhile isOWS w) (dropWhile isOWS w) \<and> good r' \<and> inWindow.more r' = inWindow.more r"
  using assms
proof (induction n arbitrary: r c w)
  case 0
  then show ?case using view_nonempty by auto
next
  case (Suc n)
  obtain b v where w: "w = b # v" "peek r = Some b" using Suc.prems(1) by (rule view_peek)
  show ?case
  proof (cases "isOWS b")
    case False
    with w Suc.prems show ?thesis by simp
  next
    case True
    have s: "view r c (b # v)" "good r" using Suc.prems(1,2) w(1) by simp_all
    show ?thesis
    proof (cases rule: stepE [OF s, case_names moved stuck])
      case (moved r1)
      then show ?thesis
        using Suc.IH [OF moved(2,3)] Suc.prems(3) w True by (auto split: outcome.splits)
    next
      case (stuck r1)
      then show ?thesis using w True by auto
    qed
  qed
qed

lemma skipCR_spec:
  assumes "view r c (0x0D # w)" "good r"
  shows "case skipCR skip bad why r of
     Panic \<Rightarrow> False
   | Fail _ \<Rightarrow> \<not> ((\<exists>v. w = 0x0A # v) \<and> length c + 1 < 16384)
   | Done r' \<Rightarrow> (\<exists>v. w = 0x0A # v) \<and> view r' (c @ [0x0D]) w \<and> good r' \<and> inWindow.more r' = inWindow.more r"
proof (cases rule: stepE [OF assms, case_names moved stuck])
  case (moved r1)
  obtain b v where "w = b # v" "peek r1 = Some b" using moved(2) by (rule view_peek)
  with moved show ?thesis by (auto simp: skipCR_def)
next
  case (stuck r1)
  then show ?thesis by (auto simp: skipCR_def)
qed

lemma recvValue_spec:
  assumes "view r c w" "good r" "length w \<le> n"
  shows "case recvValue skip bad n r of
     Panic \<Rightarrow> False
   | Fail _ \<Rightarrow> \<not> (\<exists>e. lineEnd (dropWhile isValueByte w) e \<and> length c + length (takeWhile isValueByte w @ e) < 16384)
   | Done r' \<Rightarrow> (\<exists>e. lineEnd (dropWhile isValueByte w) e \<and>
       view r' (c @ takeWhile isValueByte w @ e) (drop (length e) (dropWhile isValueByte w))) \<and>
       good r' \<and> inWindow.more r' = inWindow.more r"
  using assms
proof (induction n arbitrary: r c w)
  case 0
  then show ?case using view_nonempty by auto
next
  case (Suc n)
  obtain b v where w: "w = b # v" "peek r = Some b" using Suc.prems(1) by (rule view_peek)
  show ?case
  proof (cases "isValueByte b")
    case True
    have s: "view r c (b # v)" "good r" using Suc.prems(1,2) w(1) by simp_all
    show ?thesis
    proof (cases rule: stepE [OF s, case_names moved stuck])
      case (moved r1)
      then show ?thesis
        using Suc.IH [OF moved(2,3)] Suc.prems(3) w True by (auto split: outcome.splits)
    next
      case (stuck r1)
      then show ?thesis using w True by (auto simp: lineEnd_def)
    qed
  next
    case nv: False
    consider "b = 0x0D" | "b = 0x0A" | "b \<noteq> 0x0D" "b \<noteq> 0x0A" by blast
    then show ?thesis
    proof cases
      case 1
      with nv w Suc.prems skipCR_spec [of r c v bad "''header value contains bad eol''"] show ?thesis
        by (auto simp: lineEnd_def split: outcome.splits)
    next
      case 2
      with nv w Suc.prems show ?thesis by (auto simp: lineEnd_def)
    next
      case 3
      with nv w show ?thesis by (auto simp: lineEnd_def)
    qed
  qed
qed

end

text \<open>The parts of a field line: name, white space, value with white space behind it, line end.\<close>

definition lineParts :: "bytes \<Rightarrow> bytes \<Rightarrow> bytes \<Rightarrow> bytes \<Rightarrow> bytes \<Rightarrow> bytes \<Rightarrow> bool" where
  "lineParts w nm ows m e v \<longleftrightarrow> w = nm @ ch CHR '':'' # ows @ m @ e @ 0x0A # v \<and>
     nm \<noteq> [] \<and> length nm \<le> 255 \<and> list_all isTcharByte nm \<and> list_all isOWS ows \<and>
     (m \<noteq> [] \<longrightarrow> \<not> isOWS (hd m)) \<and> list_all isValueByte m \<and> (e = [] \<or> e = [0x0D])"

definition trimRight :: "bytes \<Rightarrow> bytes" where
  "trimRight m = rev (dropWhile isOWS (rev m))"

lemma takeWhile_stop: "list_all P xs \<Longrightarrow> ys = [] \<or> \<not> P (hd ys) \<Longrightarrow> takeWhile P (xs @ ys) = xs"
  and dropWhile_stop: "list_all P xs \<Longrightarrow> ys = [] \<or> \<not> P (hd ys) \<Longrightarrow> dropWhile P (xs @ ys) = ys"
  by (induction xs) (cases ys; auto)+

lemma class_facts:
  "\<not> isTcharByte 58" "\<not> isOWS 13" "\<not> isOWS 10" "\<not> isValueByte 13" "\<not> isValueByte 10" "\<not> isOWS 58"
  by (simp_all add: isTcharByte_def not_tchar isOWS_def isValueByte_def)

lemma lineParts_while:
  assumes "lineParts w nm ows m e v"
  shows "takeWhile isTcharByte w = nm" "dropWhile isTcharByte w = ch CHR '':'' # ows @ m @ e @ 0x0A # v"
    "takeWhile isOWS (ows @ m @ e @ 0x0A # v) = ows" "dropWhile isOWS (ows @ m @ e @ 0x0A # v) = m @ e @ 0x0A # v"
    "takeWhile isValueByte (m @ e @ 0x0A # v) = m" "dropWhile isValueByte (m @ e @ 0x0A # v) = e @ 0x0A # v"
    "lineEnd (e @ 0x0A # v) e" "lineEnd (e @ 0x0A # v) e' \<Longrightarrow> e' = e"
proof -
  have p: "w = nm @ ch CHR '':'' # ows @ m @ e @ 0x0A # v" "list_all isTcharByte nm" "list_all isOWS ows" "list_all isValueByte m"
    "m \<noteq> [] \<longrightarrow> \<not> isOWS (hd m)" "e = [] \<or> e = [0x0D]"
    using assms by (simp_all add: lineParts_def)
  have h: "\<not> isOWS (hd (m @ e @ 0x0A # v))" "\<not> isValueByte (hd (e @ 0x0A # v))"
    using p(5,6) class_facts by (cases m; auto)+
  show "takeWhile isTcharByte w = nm" "dropWhile isTcharByte w = ch CHR '':'' # ows @ m @ e @ 0x0A # v"
    unfolding p(1) using p(2) class_facts by (simp_all add: takeWhile_stop dropWhile_stop)
  show "takeWhile isOWS (ows @ m @ e @ 0x0A # v) = ows" "dropWhile isOWS (ows @ m @ e @ 0x0A # v) = m @ e @ 0x0A # v"
    using p(3) h(1) by (simp_all add: takeWhile_stop dropWhile_stop)
  show "takeWhile isValueByte (m @ e @ 0x0A # v) = m" "dropWhile isValueByte (m @ e @ 0x0A # v) = e @ 0x0A # v"
    using p(4) h(2) by (simp_all add: takeWhile_stop dropWhile_stop)
  show "lineEnd (e @ 0x0A # v) e" "lineEnd (e @ 0x0A # v) e' \<Longrightarrow> e' = e"
    using p(6) by (auto simp: lineEnd_def)
qed

lemma lineParts_size:
  assumes "lineParts w nm ows m e v"
  shows "0 < length (takeWhile isTcharByte w) \<and> length (takeWhile isTcharByte w) \<le> 255"
  using assms unfolding lineParts_while(1) [OF assms] by (simp add: lineParts_def)

lemma trimOWS_take:
  assumes "take k p = c @ m" "k = length c + length m" "k \<le> length p" "\<not> list_all isOWS m"
  shows "trimOWS p k = Some (length c + length (trimRight m))"
  using assms
proof (induction m arbitrary: k rule: rev_induct)
  case (snoc b m)
  let ?k = "length c + length m"
  have k: "k = Suc ?k" "?k < length p" using snoc.prems by simp_all
  then have "take k p = take ?k p @ [p ! ?k]" by (simp add: take_Suc_conv_app_nth)
  then have t: "take ?k p = c @ m" "p ! ?k = b" using snoc.prems(1) k by simp_all
  show ?case
  proof (cases "isOWS b")
    case True
    with snoc.prems(4) have "\<not> list_all isOWS m" by simp
    from snoc.IH [OF t(1) refl _ this] k True t(2) show ?thesis by (simp add: panic_simps trimRight_def)
  next
    case False
    with k t show ?thesis by (simp add: panic_simps trimRight_def)
  qed
qed simp

lemma view_prefix:
  assumes "view r c w"
  shows "take (length c) (window r) = c" "fore r = length c" "length c < length (window r)"
  using assms by (auto simp: view_def)

lemma valueEnd_spec:
  assumes "view r (c @ m @ e) w" "c \<noteq> []" "List.last c \<noteq> 0x0D" "list_all isValueByte m" "e = [] \<or> e = [0x0D]"
    and "m \<noteq> [] \<longrightarrow> \<not> isOWS (hd m)"
  shows "valueEnd (length c) r = Some (length c + length (trimRight m))"
proof -
  let ?all = "c @ m @ e"
  note p = view_prefix [OF assms(1)]
  have ne: "?all \<noteq> []" using assms(2) by simp
  have "window r ! (length ?all - 1) = ?all ! (length ?all - 1)"
    using p(1) ne by (metis diff_less length_greater_0_conv nth_take zero_less_one)
  also have "\<dots> = List.last ?all" using ne by (simp add: last_conv_nth)
  finally have l: "idx (window r) (fore r - 1) = Some (List.last ?all)"
    using p ne by (simp add: panic_simps)
  have "List.last ?all = 0x0D \<longleftrightarrow> e = [0x0D]"
  proof (cases e rule: rev_cases)
    case Nil
    show ?thesis
    proof (cases m rule: rev_cases)
      case Nil
      with \<open>e = []\<close> assms(3) show ?thesis by simp
    next
      case (snoc m' b)
      with \<open>e = []\<close> assms(4) class_facts show ?thesis by auto
    qed
  next
    case (snoc e' b)
    with assms(5) show ?thesis by auto
  qed
  then have at: "(if List.last ?all = 0x0D then fore r - 1 else fore r) = length (c @ m)"
    using p(2) assms(5) by auto
  have t: "take (length (c @ m)) (window r) = c @ m"
    using arg_cong [OF p(1), of "take (length (c @ m))"] by simp
  have "0 < fore r" using p(2) ne by simp
  then have v: "valueEnd (length c) r = (if length (c @ m) > length c then trimOWS (window r) (length (c @ m)) else Some (length (c @ m)))"
    using l at unfolding valueEnd_def by (simp only: bind.bind_lunit Let_def less_not_refl2 if_False)
  show ?thesis
  proof (cases m)
    case Nil
    with v show ?thesis by (simp add: trimRight_def)
  next
    case (Cons b m')
    then have "\<not> list_all isOWS m" using assms(6) by simp
    from trimOWS_take [OF t _ _ this] p(3) Cons v show ?thesis by simp
  qed
qed

context window_reader
begin

text \<open>A field line: accepted exactly when it has the parts of one and fits, and then split at them.\<close>

lemma recvLine_spec:
  assumes "view r c w" "good r" "length w \<le> n"
  shows "case recvLine skip bad n r of
     Panic \<Rightarrow> False
   | Fail _ \<Rightarrow> \<not> (\<exists>nm ows m e v. lineParts w nm ows m e v \<and> length c + length (nm @ ows @ m @ e) + 1 < 16384)
   | Done (line, r') \<Rightarrow> \<exists>nm ows m e v u. lineParts w nm ows m e v \<and>
       view r' (c @ map lowerTchar nm @ ch CHR '':'' # ows @ m @ e) (0x0A # v) \<and> good r' \<and> inWindow.more r' = inWindow.more r \<and>
       line = \<lparr>pairHash = bytesHash (map lowerTchar nm), pairNameFrom = length c, pairNameSize = length nm,
         pairValueFrom = length c + length nm + 1 + length ows,
         pairValueEdge = length c + length nm + 1 + length ows + length (trimRight m), pairUnderscore = u\<rparr>"
proof -
  let ?nm = "takeWhile isTcharByte w" and ?fits = "\<lambda>nm ows m e. length c + length (nm @ ows @ m @ e) + 1 < 16384"
  note start = view_prefix(2) [OF assms(1)]
  have len: "length w = length ?nm + length (dropWhile isTcharByte w)"
    by (metis length_append takeWhile_dropWhile_id)
  note name = recvName_spec [OF assms, where bad = bad and h = 0 and u = False]
  show ?thesis
  proof (cases "recvName skip bad n 0 False r")
    case Panic
    with name show ?thesis by simp
  next
    case (Fail r1)
    with name have "\<not> ((\<exists>v. dropWhile isTcharByte w = ch CHR '':'' # v) \<and> length c + length ?nm < 16384)" by simp
    then have "\<not> (\<exists>nm ows m e v. lineParts w nm ows m e v \<and> ?fits nm ows m e)"
      using lineParts_while(1,2) by fastforce
    with Fail show ?thesis by (simp add: recvLine_def Let_def)
  next
    case (Done x)
    obtain h u r1 where x: "x = (h, u, r1)" by (cases x)
    obtain w1 where w1: "dropWhile isTcharByte w = ch CHR '':'' # w1" and r1: "view r1 (c @ map lowerTchar ?nm) (ch CHR '':'' # w1)"
      "good r1" "inWindow.more r1 = inWindow.more r" "h = bytesHash (map lowerTchar ?nm)"
      using name Done x by (auto simp: bytesHash_def)
    have w: "w = ?nm @ ch CHR '':'' # w1" using w1 by (metis takeWhile_dropWhile_id)
    have size: "fore r1 - fore r = length ?nm" using view_prefix(2) [OF r1(1)] start by simp
    show ?thesis
    proof (cases "length ?nm > 0 \<and> length ?nm \<le> 255")
      case False
      then have "\<not> (\<exists>nm ows m e v. lineParts w nm ows m e v)"
        using lineParts_size by blast
      with Done x size False show ?thesis by (auto simp: recvLine_def Let_def)
    next
      case nameOk: True
      let ?c1 = "c @ map lowerTchar ?nm @ [ch CHR '':'']"
      have unfold: "recvLine skip bad n r =
        andThen (skip r1) (\<lambda>r2.
        andThen (skipOWS skip n r2) (\<lambda>r3.
        andThen (recvValue skip bad n r3) (\<lambda>r4.
        andThen (checked (valueEnd (fore r3) r4)) (\<lambda>edge.
        Done (\<lparr>pairHash = h, pairNameFrom = fore r, pairNameSize = length ?nm, pairValueFrom = fore r3,
          pairValueEdge = edge, pairUnderscore = u\<rparr>, r4)))))"
        unfolding recvLine_def Done x by (simp only: Let_def andThen.simps prod.case size nameOk if_False not_True_eq_False simp_thms)
      show ?thesis
      proof (cases rule: stepE [OF r1(1,2), case_names moved stuck])
        case (stuck r2)
        then have "\<not> (\<exists>nm ows m e v. lineParts w nm ows m e v \<and> ?fits nm ows m e)"
          using lineParts_while(1,2) w1 by fastforce
        with stuck(1) show ?thesis unfolding unfold by simp
      next
        case (moved r2)
        let ?ows = "takeWhile isOWS w1" and ?w2 = "dropWhile isOWS w1"
        have l1: "length w1 \<le> n" using assms(3) w by (metis (no_types) Suc_leD le_add2 le_trans length_Cons length_append)
        have v2: "view r2 ?c1 w1" using moved(2) by simp
        note ows = skipOWS_spec [OF v2 moved(3) l1]
        show ?thesis
        proof (cases "skipOWS skip n r2")
          case Panic
          with ows show ?thesis by simp
        next
          case (Fail r3)
          have "\<not> (\<exists>nm ows m e v. lineParts w nm ows m e v \<and> ?fits nm ows m e)"
          proof
            assume "\<exists>nm ows m e v. lineParts w nm ows m e v \<and> ?fits nm ows m e"
            then obtain nm ows m e v where p: "lineParts w nm ows m e v" "?fits nm ows m e" by blast
            with lineParts_while(1-4) [OF p(1)] w1 ows Fail show False by auto
          qed
          with Fail moved(1) show ?thesis unfolding unfold by simp
        next
          case (Done r3)
          with ows have r3: "view r3 (?c1 @ ?ows) ?w2" "good r3" "inWindow.more r3 = inWindow.more r2" by simp_all
          let ?m = "takeWhile isValueByte ?w2" and ?w3 = "dropWhile isValueByte ?w2"
          have l2: "length ?w2 \<le> n" using l1 length_dropWhile_le [of isOWS w1] by (rule le_trans [rotated])
          note val = recvValue_spec [OF r3(1,2) l2, where bad = bad]
          show ?thesis
          proof (cases "recvValue skip bad n r3")
            case Panic
            with val show ?thesis by simp
          next
            case (Fail r4)
            have "\<not> (\<exists>nm ows m e v. lineParts w nm ows m e v \<and> ?fits nm ows m e)"
            proof
              assume "\<exists>nm ows m e v. lineParts w nm ows m e v \<and> ?fits nm ows m e"
              then obtain nm ows m e v where p: "lineParts w nm ows m e v" "?fits nm ows m e" by blast
              note wh = lineParts_while [OF p(1)]
              have "w1 = ows @ m @ e @ 0x0A # v" "?nm = nm" using wh(1,2) w1 by simp_all
              then have "?w2 = m @ e @ 0x0A # v" "?ows = ows" using wh(3,4) by simp_all
              with wh(5-7) have "lineEnd ?w3 e" "length (?c1 @ ?ows) + length (?m @ e) < 16384"
                using p(2) \<open>?nm = nm\<close> by simp_all
              with val Fail show False by auto
            qed
            with Fail Done moved(1) show ?thesis unfolding unfold by simp
          next
            case r4: (Done r4)
            from val r4 obtain e where e: "lineEnd ?w3 e" "view r4 ((?c1 @ ?ows) @ ?m @ e) (drop (length e) ?w3)"
              "good r4" "inWindow.more r4 = inWindow.more r3" by auto
            obtain v where v: "?w3 = e @ 0x0A # v" "e = [] \<or> e = [0x0D]" using e(1) by (auto simp: lineEnd_def)
            have all: "list_all isTcharByte ?nm" "list_all isOWS ?ows" "list_all isValueByte ?m"
              by (auto simp: list_all_iff dest: set_takeWhileD)
            have "?m \<noteq> [] \<longrightarrow> \<not> isOWS (hd ?m)"
            proof
              assume "?m \<noteq> []"
              then have "?w2 \<noteq> []" by (metis takeWhile.simps(1))
              moreover from \<open>?m \<noteq> []\<close> have "hd ?m = hd ?w2" by (cases ?w2) (auto split: if_splits)
              ultimately show "\<not> isOWS (hd ?m)" using hd_dropWhile [of isOWS w1] by simp
            qed
            moreover have "w = ?nm @ ch CHR '':'' # ?ows @ ?m @ e @ 0x0A # v"
              using w v(1) by (metis takeWhile_dropWhile_id)
            ultimately have parts: "lineParts w ?nm ?ows ?m e v"
              using nameOk all v(2) by (auto simp: lineParts_def)
            have "List.last (?c1 @ ?ows) \<noteq> 0x0D"
              using all(2) class_facts by (cases ?ows rule: rev_cases) auto
            then have "valueEnd (length (?c1 @ ?ows)) r4 = Some (length (?c1 @ ?ows) + length (trimRight ?m))"
              using e(2) all(3) v(2) \<open>?m \<noteq> [] \<longrightarrow> \<not> isOWS (hd ?m)\<close> by (intro valueEnd_spec [where e = e]) simp_all
            moreover have "fore r3 = length (?c1 @ ?ows)" using view_prefix(2) [OF r3(1)] .
            ultimately have "recvLine skip bad n r =
              Done (\<lparr>pairHash = h, pairNameFrom = length c, pairNameSize = length ?nm, pairValueFrom = length c + length ?nm + 1 + length ?ows,
                pairValueEdge = length c + length ?nm + 1 + length ?ows + length (trimRight ?m), pairUnderscore = u\<rparr>, r4)"
              using moved(1) Done r4 start unfolding unfold by simp
            moreover have "view r4 (c @ map lowerTchar ?nm @ ch CHR '':'' # ?ows @ ?m @ e) (0x0A # v)"
              using e(2) v(1) by simp
            ultimately show ?thesis
              using parts e(3,4) r3(3) moved(4) r1(3,4)
              by (simp only: outcome.case prod.case)
                (intro exI [of _ ?nm] exI [of _ ?ows] exI [of _ ?m] exI [of _ e] exI [of _ v] exI [of _ u] conjI; simp)
          qed
        qed
      qed
    qed
  qed
qed

end

lemma lineParts_unique:
  assumes "lineParts w nm ows m e v" "lineParts w nm' ows' m' e' v'"
  shows "nm' = nm" "ows' = ows" "m' = m" "e' = e" "v' = v"
proof -
  note a = lineParts_while [OF assms(1)] and b = lineParts_while [OF assms(2)]
  show 1: "nm' = nm" using a(1) b(1) by simp
  have 2: "ows' @ m' @ e' @ 0x0A # v' = ows @ m @ e @ 0x0A # v" using a(2) b(2) by simp
  then show 3: "ows' = ows" using a(3) b(3) by simp
  with 2 have 4: "m' @ e' @ 0x0A # v' = m @ e @ 0x0A # v" by simp
  then show 5: "m' = m" using a(5) b(5) by simp
  with 4 have 6: "e' @ 0x0A # v' = e @ 0x0A # v" by simp
  then show 7: "e' = e" using a(7,8) b(7,8) by simp
  with 6 show "v' = v" by simp
qed

text \<open>
  The loop over the lines, for any way of keeping a line that leaves the view alone: it never panics, and
  it ends at the last octet of the section.
\<close>

definition keepsView :: "('a inWindow_scheme \<Rightarrow> bool) \<Rightarrow> (pair \<Rightarrow> 'a inWindow_scheme \<Rightarrow> ('a inWindow_scheme, 'a inWindow_scheme) outcome) \<Rightarrow> bool" where
  "keepsView good add \<longleftrightarrow> (\<forall>line r c w. view r c w \<longrightarrow> good r \<longrightarrow> pairNameFrom line + pairNameSize line \<le> length c \<longrightarrow>
     pairValueFrom line \<le> pairValueEdge line \<longrightarrow> pairValueEdge line \<le> length c \<longrightarrow>
     (case add line r of Panic \<Rightarrow> False | Fail _ \<Rightarrow> True | Done r' \<Rightarrow> view r' c w \<and> good r'))"

context window_reader
begin

lemma endOfSection_spec:
  assumes "view r c w" "good r"
  shows "case endOfSection skip bad r of
     Panic \<Rightarrow> False
   | Fail _ \<Rightarrow> \<not> ((\<exists>v. w = 0x0D # 0x0A # v) \<and> length c + 1 < 16384)
   | Done (stop, r') \<Rightarrow> (\<exists>e. view r' (c @ e) (drop (length e) w) \<and>
       (if stop then lineEnd w e else r' = r \<and> e = [] \<and> \<not> lineEnd w [])) \<and> good r' \<and> inWindow.more r' = inWindow.more r"
proof -
  obtain b v where w: "w = b # v" "peek r = Some b" using assms(1) by (rule view_peek)
  show ?thesis
  proof (cases "b = 0x0D")
    case True
    have s: "view r c (0x0D # v)" using assms(1) w(1) True by simp
    show ?thesis
      using skipCR_spec [OF s assms(2), of bad "''bad end of header section''"] w True
      by (auto simp: endOfSection_def lineEnd_def split: outcome.splits)
  next
    case False
    with assms w show ?thesis
      by (auto simp: endOfSection_def lineEnd_def intro!: exI [of _ "[]"])
  qed
qed

lemma length_trimRight: "length (trimRight m) \<le> length m"
  unfolding trimRight_def by (metis length_dropWhile_le length_rev)

lemma recvLines_spec:
  assumes "keepsView good add" "view r c w" "good r" "length w \<le> N" "length w < n"
  shows "case recvLines skip bad add N n r of
     Panic \<Rightarrow> False
   | Fail _ \<Rightarrow> True
   | Done r' \<Rightarrow> \<exists>c' v. view r' c' (0x0A # v) \<and> good r'"
  using assms(2-)
proof (induction n arbitrary: r c w)
  case (Suc n)
  show ?case
  proof (cases "endOfSection skip bad r")
    case Panic
    with endOfSection_spec [OF Suc.prems(1,2), of bad] show ?thesis by simp
  next
    case (Fail r1)
    then show ?thesis by simp
  next
    case (Done x)
    obtain stop r1 where x: "x = (stop, r1)" by (cases x)
    obtain e where e: "view r1 (c @ e) (drop (length e) w)" "if stop then lineEnd w e else r1 = r \<and> e = [] \<and> \<not> lineEnd w []" "good r1"
      using endOfSection_spec [OF Suc.prems(1,2), of bad] Done x by auto
    show ?thesis
    proof (cases stop)
      case True
      then have "\<exists>v. drop (length e) w = 0x0A # v" using e(2) by (auto simp: lineEnd_def)
      then obtain v where "drop (length e) w = 0x0A # v" by blast
      with e(1) have "view r1 (c @ e) (0x0A # v)" by simp
      with e(3) Done x True show ?thesis by auto
    next
      case False
      then have r1: "r1 = r" using e(2) by simp
      note line = recvLine_spec [OF Suc.prems(1-3), of bad]
      show ?thesis
      proof (cases "recvLine skip bad N r")
        case Panic
        with line show ?thesis by simp
      next
        case (Fail r2)
        with Done x False r1 show ?thesis by simp
      next
        case line': (Done y)
        obtain l r2 where y: "y = (l, r2)" by (cases y)
        from line line' y obtain nm ows m e v u where p: "lineParts w nm ows m e v"
          "view r2 (c @ map lowerTchar nm @ ch CHR '':'' # ows @ m @ e) (0x0A # v)" "good r2"
          "l = \<lparr>pairHash = bytesHash (map lowerTchar nm), pairNameFrom = length c, pairNameSize = length nm,
             pairValueFrom = length c + length nm + 1 + length ows,
             pairValueEdge = length c + length nm + 1 + length ows + length (trimRight m), pairUnderscore = u\<rparr>"
          by auto
        let ?c = "c @ map lowerTchar nm @ ch CHR '':'' # ows @ m @ e"
        have "length v < length w" using p(1) by (simp add: lineParts_def)
        have "case add l r2 of Panic \<Rightarrow> False | Fail _ \<Rightarrow> True | Done r' \<Rightarrow> view r' ?c (0x0A # v) \<and> good r'"
          using assms(1) p(2-4) length_trimRight [of m] unfolding keepsView_def by simp
        then show ?thesis
        proof (cases "add l r2")
          case r3: (Done r3)
          with \<open>case add l r2 of Panic \<Rightarrow> False | Fail _ \<Rightarrow> True | Done r' \<Rightarrow> view r' ?c (0x0A # v) \<and> good r'\<close>
          have v3: "view r3 ?c (0x0A # v)" "good r3" by simp_all
          show ?thesis
          proof (cases rule: stepE [OF v3, case_names moved stuck])
            case (moved r4)
            then show ?thesis
              using Suc.IH [OF moved(2,3)] Suc.prems(3,4) \<open>length v < length w\<close> Done x False r1 line' y r3
              by (simp split: outcome.splits)
          next
            case (stuck r4)
            then show ?thesis using Done x False r1 line' y r3 by simp
          qed
        qed (use Done x False r1 line' y in simp_all)
      qed
    qed
  qed
qed simp

end

subsection \<open>The header section of a message\<close>

text \<open>
  The lines that were received are kept as pairs of positions: at most 39 beside the unused first one in
  the stock, and 249 after switching to a large list.  A zone is a range of indexes.
\<close>

record httpIn = headIn +
  primes :: "pair list"
  primesCap :: nat
  headerLines :: "nat \<times> nat"
  headEdge :: nat

definition stockPrimes :: nat where "stockPrimes = 40"
definition maxPairs :: nat where "maxPairs = 250"

definition addPrime :: "pair \<Rightarrow> 'a httpIn_scheme \<Rightarrow> nat option \<times> 'a httpIn_scheme" where
  "addPrime prime r =
    (if length (primes r) = primesCap r \<and> primesCap r \<noteq> stockPrimes then (None, r)
     else
       let r = (if length (primes r) = primesCap r then r\<lparr>primesCap := maxPairs\<rparr> else r);
           r = r\<lparr>primes := primes r @ [prime]\<rparr> in
       (Some (length (primes r)), r))"

definition addHeaderLine :: "pair \<Rightarrow> 'a httpIn_scheme \<Rightarrow> ('a httpIn_scheme, 'a httpIn_scheme) outcome" where
  "addHeaderLine headerLine r =
    (case addPrime headerLine r of
       (Some e, r) \<Rightarrow> Done (r\<lparr>headerLines := (fst (headerLines r), e)\<rparr>)
     | (None, r) \<Rightarrow> Fail (r\<lparr>headResult := StatusRequestHeaderFieldsTooLarge, failReason := ''too many header lines''\<rparr>))"

definition badHead :: "string \<Rightarrow> 'a headIn_scheme \<Rightarrow> 'a headIn_scheme" where
  "badHead why r = r\<lparr>headResult := StatusBadRequest, failReason := why\<rparr>"

definition unreadSize :: "'a inWindow_scheme \<Rightarrow> nat" where
  "unreadSize r = winEdge r - fore r + length (arriving (network r))"

definition recvHeaderLines :: "pools \<Rightarrow> 'a httpIn_scheme \<Rightarrow> ('a httpIn_scheme, 'a httpIn_scheme) outcome" where
  "recvHeaderLines pool r =
    (let n = unreadSize r; r = r\<lparr>headerLines := (length (primes r), length (primes r))\<rparr> in
     andThen (recvLines (skipHead pool) badHead addHeaderLine n (n + 1) r) (\<lambda>r.
     Done (r\<lparr>receiving := SectionContent, fore := fore r + 1, headEdge := fore r + 1\<rparr>)))"

text \<open>The octets of a pair, in the input.\<close>

definition nameAt :: "bytes \<Rightarrow> pair \<Rightarrow> bytes option" where
  "nameAt p x = sub p (pairNameFrom x) (pairNameFrom x + pairNameSize x)"

definition valueAt :: "bytes \<Rightarrow> pair \<Rightarrow> bytes option" where
  "valueAt p x = sub p (pairValueFrom x) (pairValueEdge x)"

text \<open>The window of the head is a reader, for buffers of the right sizes.\<close>

lemma window_reader_skipHead: "window_reader (skipHead pool) (\<lambda>r. goodPools pool \<and> goodInput r)"
proof
  show "case skipHead pool r of
     Panic \<Rightarrow> False
   | Fail r' \<Rightarrow> w = [] \<or> length c + 1 = 16384
   | Done r' \<Rightarrow> view r' (c @ [b]) w \<and> (goodPools pool \<and> goodInput r') \<and> inWindow.more r' = inWindow.more r"
    if "view r c (b # w)" "goodPools pool \<and> goodInput r" for r :: "'a headIn_scheme" and c b w
    using skipHead_step [of pool r c b w] that by (auto split: outcome.splits)
qed (use goodInput_poke in auto)

interpretation head: window_reader "skipHead pool" "\<lambda>r. goodPools pool \<and> goodInput r" for pool
  by (rule window_reader_skipHead)

text \<open>What a line that was received says: its name, in lower case, its value, and the hash of the name.\<close>

definition fieldAt :: "bytes \<Rightarrow> pair \<Rightarrow> bytes \<times> bytes \<Rightarrow> bool" where
  "fieldAt p x f \<longleftrightarrow> nameAt p x = Some (map lowerTchar (fst f)) \<and> valueAt p x = Some (snd f) \<and>
     pairHash x = bytesHash (map lowerTchar (fst f))"

text \<open>Fields that can be written as a line and read back.\<close>

definition plainFields :: "(bytes \<times> bytes) list \<Rightarrow> bool" where
  "plainFields fs \<longleftrightarrow> list_all (\<lambda>(n, v). n \<noteq> [] \<and> length n \<le> 255 \<and> list_all isTcharByte n \<and>
     list_all isValueByte v \<and> (v \<noteq> [] \<longrightarrow> \<not> isOWS (hd v) \<and> \<not> isOWS (List.last v))) fs"

lemma fieldAt_append: "fieldAt p x f \<Longrightarrow> fieldAt (p @ q) x f"
  by (auto simp: fieldAt_def nameAt_def valueAt_def sub_def slice_def split: if_splits)

lemma fieldsAt_append: "list_all2 (fieldAt p) xs fs \<Longrightarrow> list_all2 (fieldAt (p @ q)) xs fs"
  by (erule list_all2_mono) (rule fieldAt_append)

lemma fieldAt_line:
  "fieldAt (c @ map lowerTchar n @ ch CHR '':'' # 0x20 # v @ q)
    \<lparr>pairHash = bytesHash (map lowerTchar n), pairNameFrom = length c, pairNameSize = length n,
      pairValueFrom = length c + length n + 2, pairValueEdge = length c + length n + 2 + length v, pairUnderscore = u\<rparr> (n, v)"
  by (simp add: fieldAt_def nameAt_def valueAt_def sub_def slice_def)

lemma lineParts_fieldLine:
  assumes "plainFields ((n, v) # fs)"
  shows "lineParts (fieldLine n v @ w) n [0x20] v [0x0D] w" "trimRight v = v" "n \<noteq> [] \<and> isTcharByte (hd n)"
proof -
  show "lineParts (fieldLine n v @ w) n [0x20] v [0x0D] w"
    using assms by (simp add: plainFields_def lineParts_def fieldLine_def isOWS_def)
  show "trimRight v = v"
    using assms by (cases v rule: rev_cases) (simp_all add: plainFields_def trimRight_def)
  show "n \<noteq> [] \<and> isTcharByte (hd n)"
    using assms by (cases n) (simp_all add: plainFields_def)
qed

context window_reader
begin

lemma endOfSection_line:
  assumes "view r c (b # w)" "isTcharByte b"
  shows "endOfSection skip bad r = Done (False, r)"
proof -
  obtain x v where "b # w = x # v" "peek r = Some x" using assms(1) by (rule view_peek)
  moreover have "b \<noteq> 0x0D" "b \<noteq> 0x0A" using assms(2) not_tchar by (auto simp: isTcharByte_def)
  ultimately show ?thesis by (simp add: endOfSection_def)
qed

lemma endOfSection_end:
  assumes "view r c (0x0D # 0x0A # w)" "good r" "length c + 1 < 16384"
  shows "\<exists>r'. endOfSection skip bad r = Done (True, r') \<and> view r' (c @ [0x0D]) (0x0A # w) \<and> good r' \<and>
    inWindow.more r' = inWindow.more r"
proof -
  obtain x v where "0x0D # 0x0A # w = x # v" "peek r = Some x" using assms(1) by (rule view_peek)
  with skipCR_spec [OF assms(1,2), of bad "''bad end of header section''"] assms(3) show ?thesis
    by (auto simp: endOfSection_def split: outcome.splits)
qed

lemma recvLine_field:
  assumes "view r c (fieldLine n v @ w)" "good r" "plainFields ((n, v) # fs)"
    and "length c + length (fieldLine n v) < 16384" "length (fieldLine n v @ w) \<le> N"
  shows "\<exists>x r'. recvLine skip bad N r = Done (x, r') \<and>
    view r' (c @ map lowerTchar n @ ch CHR '':'' # 0x20 # v @ [0x0D]) (0x0A # w) \<and> good r' \<and>
    inWindow.more r' = inWindow.more r \<and>
    fieldAt (c @ map lowerTchar n @ ch CHR '':'' # 0x20 # v @ [0x0D]) x (n, v)"
proof -
  note l = lineParts_fieldLine [OF assms(3)]
  note spec = recvLine_spec [OF assms(1,2,5), where bad = bad]
  show ?thesis
  proof (cases "recvLine skip bad N r")
    case Panic
    with spec show ?thesis by simp
  next
    case (Fail r')
    have "length c + length (n @ [0x20] @ v @ [0x0D]) + 1 < 16384"
      using assms(4) by (simp add: fieldLine_def)
    moreover from spec Fail have "\<not> (\<exists>nm ows m e v'. lineParts (fieldLine n v @ w) nm ows m e v' \<and> length c + length (nm @ ows @ m @ e) + 1 < 16384)"
      by simp
    ultimately show ?thesis using l(1) [of w] by blast
  next
    case (Done y)
    obtain x r' where y: "y = (x, r')" by (cases y)
    from spec Done y obtain nm ows m e v' u where p: "lineParts (fieldLine n v @ w) nm ows m e v'"
      "view r' (c @ map lowerTchar nm @ ch CHR '':'' # ows @ m @ e) (0x0A # v')" "good r'" "inWindow.more r' = inWindow.more r"
      "x = \<lparr>pairHash = bytesHash (map lowerTchar nm), pairNameFrom = length c, pairNameSize = length nm,
         pairValueFrom = length c + length nm + 1 + length ows,
         pairValueEdge = length c + length nm + 1 + length ows + length (trimRight m), pairUnderscore = u\<rparr>"
      by auto
    note q = lineParts_unique [OF l(1) p(1)]
    have "x = \<lparr>pairHash = bytesHash (map lowerTchar n), pairNameFrom = length c, pairNameSize = length n,
         pairValueFrom = length c + length n + 2, pairValueEdge = length c + length n + 2 + length v, pairUnderscore = u\<rparr>"
      using p(5) l(2) by (simp add: q)
    with fieldAt_line [of c n v "[0x0D]" u] have "fieldAt (c @ map lowerTchar n @ ch CHR '':'' # 0x20 # v @ [0x0D]) x (n, v)"
      by simp
    with p(2-4) Done y show ?thesis by (simp add: q)
  qed
qed

end

text \<open>Room for one more line, and then for the rest.\<close>

definition roomForLines :: "nat \<Rightarrow> 'a httpIn_scheme \<Rightarrow> bool" where
  "roomForLines k r \<longleftrightarrow> primesCap r \<in> {stockPrimes, maxPairs} \<and> length (primes r) \<le> primesCap r \<and> length (primes r) + k \<le> maxPairs"

lemma addHeaderLine_room:
  assumes "roomForLines (Suc k) r"
  shows "\<exists>r'. addHeaderLine x r = Done r' \<and> primes r' = primes r @ [x] \<and> roomForLines k r' \<and>
    headerLines r' = (fst (headerLines r), Suc (length (primes r))) \<and>
    window r' = window r \<and> fore r' = fore r \<and> winEdge r' = winEdge r \<and> network r' = network r \<and> receiving r' = receiving r"
  using assms by (auto simp: roomForLines_def addHeaderLine_def addPrime_def stockPrimes_def maxPairs_def Let_def)

lemma more_httpIn:
  assumes "inWindow.more r' = inWindow.more (r :: 'a httpIn_scheme)"
  shows "primes r' = primes r" "primesCap r' = primesCap r" "headerLines r' = headerLines r"
  using assms by (cases r, cases r', simp)+

lemma recvLines_fields:
  assumes "goodPools pool"
  shows "view r c (concat (linesOf fs) @ 0x0D # 0x0A # rest) \<Longrightarrow> goodInput r \<Longrightarrow> plainFields fs \<Longrightarrow>
    length c + length (concat (linesOf fs)) + 2 < 16384 \<Longrightarrow> roomForLines (length fs) r \<Longrightarrow>
    length (concat (linesOf fs) @ 0x0D # 0x0A # rest) \<le> N \<Longrightarrow> length fs < n \<Longrightarrow>
    snd (headerLines r) = length (primes r) \<Longrightarrow>
    \<exists>r' p new. recvLines (skipHead pool) badHead addHeaderLine N n r = Done r' \<and>
      view r' (c @ p) (0x0A # rest) \<and> length p = length (concat (linesOf fs)) + 1 \<and> primes r' = primes r @ new \<and>
      list_all2 (fieldAt (c @ p)) new fs \<and> headerLines r' = (fst (headerLines r), length (primes r'))"
proof (induction fs arbitrary: r c n)
  case Nil
  then obtain n' where n: "n = Suc n'" by (cases n) auto
  have g: "goodPools pool \<and> goodInput r" using assms Nil.prems(2) by simp
  have v: "view r c (0x0D # 0x0A # rest)" "length c + 1 < 16384" using Nil.prems by (simp_all add: linesOf_def)
  obtain r' where e: "endOfSection (skipHead pool) badHead r = Done (True, r')" "view r' (c @ [0x0D]) (0x0A # rest)"
    "inWindow.more r' = inWindow.more r"
    using head.endOfSection_end [OF v(1) g v(2), of badHead] by blast
  with more_httpIn [OF e(3)] Nil.prems(8) show ?case
    by (intro exI [of _ r'] exI [of _ "[0x0D]"] exI [of _ "[]"]) (simp add: n linesOf_def prod_eq_iff)
next
  case (Cons f fs)
  obtain nm v where f: "f = (nm, v)" by (cases f)
  obtain n' where n: "n = Suc n'" "length fs < n'" using Cons.prems(7) by (cases n) auto
  let ?tail = "concat (linesOf fs) @ 0x0D # 0x0A # rest"
  let ?p = "map lowerTchar nm @ ch CHR '':'' # 0x20 # v @ [0x0D]"
  have g: "goodPools pool \<and> goodInput r" using assms Cons.prems(2) by simp
  have w: "view r c (fieldLine nm v @ ?tail)" "length (fieldLine nm v @ ?tail) \<le> N" using Cons.prems by (simp_all add: linesOf_def f)
  have plain: "plainFields ((nm, v) # fs)" using Cons.prems(3) f by simp
  have fit: "length c + length (fieldLine nm v) + length (concat (linesOf fs)) + 2 < 16384" "length c + length (fieldLine nm v) < 16384"
    using Cons.prems(4) by (simp_all add: linesOf_def f)
  obtain b nm' where nm: "nm = b # nm'" "isTcharByte b"
    using lineParts_fieldLine(3) [OF plain] by (cases nm) auto
  have first: "endOfSection (skipHead pool) badHead r = Done (False, r)"
    using head.endOfSection_line [of r c b _ pool badHead] w(1) nm by (simp add: fieldLine_def)
  obtain x r1 where r1: "recvLine (skipHead pool) badHead N r = Done (x, r1)"
    "view r1 (c @ ?p) (0x0A # ?tail)" "goodPools pool \<and> goodInput r1" "inWindow.more r1 = inWindow.more r" "fieldAt (c @ ?p) x (nm, v)"
    using head.recvLine_field [OF w(1) g plain fit(2) w(2), of badHead] by blast
  note m1 = more_httpIn [OF r1(4)]
  have room: "roomForLines (Suc (length fs)) r1" using Cons.prems(5) m1 by (simp add: roomForLines_def)
  obtain r2 where r2: "addHeaderLine x r1 = Done r2" "primes r2 = primes r1 @ [x]" "roomForLines (length fs) r2"
    "headerLines r2 = (fst (headerLines r1), Suc (length (primes r1)))"
    "window r2 = window r1" "fore r2 = fore r1" "winEdge r2 = winEdge r1" "network r2 = network r1"
    using addHeaderLine_room [OF room] by blast
  have v2: "view r2 (c @ ?p) (0x0A # ?tail)" "goodPools pool \<and> goodInput r2"
    using r1(2,3) r2(5-8) by (simp_all add: view_def goodInput_def)
  show ?case
  proof (cases rule: head.stepE [OF v2, case_names moved stuck])
    case (stuck r3)
    then show ?thesis using fit by (simp add: fieldLine_def)
  next
    case (moved r3)
    note m3 = more_httpIn [OF moved(4)]
    have *: "view r3 (c @ ?p @ [0x0A]) ?tail" "goodInput r3" "plainFields fs"
      "length (c @ ?p @ [0x0A]) + length (concat (linesOf fs)) + 2 < 16384" "roomForLines (length fs) r3" "length ?tail \<le> N"
      "snd (headerLines r3) = length (primes r3)"
      using moved plain fit r2(2-4) m1 m3 w(2) by (simp_all add: plainFields_def fieldLine_def roomForLines_def)
    from Cons.IH [OF *(1-6) n(2) *(7)] obtain r' p new where ih:
      "recvLines (skipHead pool) badHead addHeaderLine N n' r3 = Done r'"
      "view r' ((c @ ?p @ [0x0A]) @ p) (0x0A # rest)" "length p = length (concat (linesOf fs)) + 1" "primes r' = primes r3 @ new"
      "list_all2 (fieldAt ((c @ ?p @ [0x0A]) @ p)) new fs" "headerLines r' = (fst (headerLines r3), length (primes r'))"
      by blast
    have "fieldAt ((c @ ?p) @ 0x0A # p) x (nm, v)" using r1(5) by (rule fieldAt_append)
    then have all: "list_all2 (fieldAt (c @ (?p @ 0x0A # p))) (x # new) (f # fs)"
      using ih(5) by (simp add: f)
    have run: "recvLines (skipHead pool) badHead addHeaderLine N n r = Done r'"
      using ih(1) moved(1) first r1(1) r2(1) by (simp add: n)
    show ?thesis
    proof (intro exI conjI)
      show "recvLines (skipHead pool) badHead addHeaderLine N n r = Done r'" by (rule run)
      show "view r' (c @ (?p @ 0x0A # p)) (0x0A # rest)" using ih(2) by simp
      show "length (?p @ 0x0A # p) = length (concat (linesOf (f # fs))) + 1"
        using ih(3) by (simp add: linesOf_def f fieldLine_def)
      show "primes r' = primes r @ (x # new)" using ih(4) r2(2) m1(1) m3(1) by simp
      show "list_all2 (fieldAt (c @ (?p @ 0x0A # p))) (x # new) (f # fs)" by (rule all)
      show "headerLines r' = (fst (headerLines r), length (primes r'))" using ih(6) r2(4) m1(3) m3(3) by simp
    qed
  qed
qed

lemma unreadSize_view: "view r c w \<Longrightarrow> unreadSize r = length w"
  by (auto simp: view_def unreadSize_def slice_def)

lemma view_at:
  assumes "view r c (b # w)"
  shows "fore r = length c" "idx (window r) (length c) = Some b" "length c < winEdge r" "winEdge r \<le> length (window r)"
    "take (length c) (window r) = c"
proof -
  obtain x v where "b # w = x # v" "peek r = Some x" using assms by (rule view_peek)
  with view_prefix [OF assms] show "fore r = length c" "idx (window r) (length c) = Some b" "take (length c) (window r) = c"
    by (simp_all add: peek_def)
  with assms show "length c < winEdge r" "winEdge r \<le> length (window r)" by (simp_all add: view_def)
qed

lemma view_cong:
  "view r c w \<Longrightarrow> window r' = window r \<Longrightarrow> fore r' = fore r \<Longrightarrow> winEdge r' = winEdge r \<Longrightarrow> network r' = network r \<Longrightarrow> view r' c w"
  by (simp add: view_def)

lemma keepsView_addHeaderLine: "keepsView (\<lambda>r. goodPools pool \<and> goodInput r) addHeaderLine"
  unfolding keepsView_def
proof (intro allI impI)
  fix x and r :: "'a httpIn_scheme" and c w
  assume "view r c w" "goodPools pool \<and> goodInput r"
  then show "case addHeaderLine x r of Panic \<Rightarrow> False | Fail _ \<Rightarrow> True | Done r' \<Rightarrow> view r' c w \<and> goodPools pool \<and> goodInput r'"
    by (auto simp: addHeaderLine_def addPrime_def Let_def view_def goodInput_def)
qed

text \<open>C5: Whatever octets a client sends as the header section of a request, and however the network cuts them
  or stops, receiving it ends without panic; when it succeeds, the section ended at a line feed inside the
  input, which was consumed.
\<close>

theorem recvHeaderLines_safe:
  assumes "goodPools pool" "goodInput r" "view r c w"
  shows "case recvHeaderLines pool r of
     Panic \<Rightarrow> False
   | Fail r' \<Rightarrow> True
   | Done r' \<Rightarrow> 0 < fore r' \<and> idx (window r') (fore r' - 1) = Some 0x0A \<and> headEdge r' = fore r' \<and>
       fore r' \<le> winEdge r' \<and> winEdge r' \<le> length (window r') \<and> receiving r' = SectionContent"
proof -
  let ?r = "r\<lparr>headerLines := (length (primes r), length (primes r))\<rparr>" and ?n = "unreadSize r"
  have "view ?r c w" "goodPools pool \<and> goodInput ?r" "length w \<le> ?n" "length w < ?n + 1"
    using assms by (simp_all add: unreadSize_view [OF assms(3)] view_def goodInput_def)
  note spec = head.recvLines_spec [OF keepsView_addHeaderLine this, of badHead]
  show ?thesis
  proof (cases "recvLines (skipHead pool) badHead addHeaderLine ?n (?n + 1) ?r")
    case (Done r')
    with spec obtain c' v where "view r' c' (0x0A # v)" by auto
    with view_at [OF this] Done show ?thesis by (simp add: recvHeaderLines_def Let_def)
  qed (use spec in \<open>simp_all add: recvHeaderLines_def Let_def\<close>)
qed

text \<open>A connection whose first read brought part of a header section.\<close>

definition sampleIn :: httpIn where
  "sampleIn = \<lparr>window = bs ''Host: a'' @ [0x0D] @ replicate 1528 0, fore = 0, winEdge = 8,
     network = [Arrived [0x0A, 0x0D], Arrived [0x0A, 0x47]],
     receiving = SectionHeaders, headResult = 200, failReason = [],
     primes = [\<lparr>pairHash = 0, pairNameFrom = 0, pairNameSize = 0, pairValueFrom = 0, pairValueEdge = 0, pairUnderscore = False\<rparr>],
     primesCap = 40, headerLines = (0, 0), headEdge = 0\<rparr>"

definition sampleUnread :: bytes where
  "sampleUnread = concat (linesOf [(bs ''Host'', bs ''a'')]) @ [0x0D, 0x0A, 0x47]"

lemma sampleIn_view: "view sampleIn [] sampleUnread" "goodInput sampleIn" "goodPools (\<lambda>_. None)"
  by (simp_all add: view_def sampleIn_def sampleUnread_def goodInput_def goodPools_def linesOf_def fieldLine_def slice_def)

theorem recvHeaderLines_safe_witness:
  "case recvHeaderLines (\<lambda>_. None) sampleIn of
     Panic \<Rightarrow> False
   | Fail r' \<Rightarrow> True
   | Done r' \<Rightarrow> 0 < fore r' \<and> idx (window r') (fore r' - 1) = Some 0x0A \<and> headEdge r' = fore r' \<and>
       fore r' \<le> winEdge r' \<and> winEdge r' \<le> length (window r') \<and> receiving r' = SectionContent"
  by (rule recvHeaderLines_safe [OF sampleIn_view(3,2,1)])

lemma fieldsAt_window:
  assumes "view r p w" "list_all2 (fieldAt p) xs fs"
  shows "list_all2 (fieldAt (window r)) xs fs"
proof -
  have "window r = p @ drop (length p) (window r)" using view_prefix(1) [OF assms(1)] by (metis append_take_drop_id)
  with fieldsAt_append [OF assms(2)] show ?thesis by metis
qed

text \<open>C4: Reading back what was written.  A header section of field lines, each as the sender of this program
  writes it, is received as exactly those fields: the new lines of the request are, in order, the names in lower
  case, the values, and the hashes of the names, and the section ends behind its empty line.  This holds however
  the network cuts the octets and through every growth of the input, as long as the head fits the
  largest input and the lines fit the table.
\<close>

theorem recvHeaderLines_reads_back:
  assumes "goodPools pool" "goodInput r" "view r c (concat (linesOf fs) @ 0x0D # 0x0A # rest)"
    and "plainFields fs" "length c + length (concat (linesOf fs)) + 2 < 16384" "roomForLines (length fs) r"
  shows "\<exists>r'. recvHeaderLines pool r = Done r' \<and> receiving r' = SectionContent \<and>
    headEdge r' = length c + length (concat (linesOf fs)) + 2 \<and>
    headerLines r' = (length (primes r), length (primes r')) \<and> take (length (primes r)) (primes r') = primes r \<and>
    list_all2 (fieldAt (window r')) (drop (length (primes r)) (primes r')) fs"
proof -
  let ?r = "r\<lparr>headerLines := (length (primes r), length (primes r))\<rparr>" and ?n = "unreadSize r"
  let ?w = "concat (linesOf fs) @ 0x0D # 0x0A # rest"
  have n: "?n = length ?w" by (rule unreadSize_view [OF assms(3)])
  have "length fs \<le> length (concat (linesOf fs))"
    by (induction fs) (auto simp: linesOf_def fieldLine_def)
  then have fuel: "length ?w \<le> ?n" "length fs < ?n + 1" by (simp_all add: n)
  have r: "view ?r c ?w" "goodInput ?r" "roomForLines (length fs) ?r" "snd (headerLines ?r) = length (primes ?r)"
    using assms(2,3,6) by (simp_all add: view_def goodInput_def roomForLines_def)
  obtain r' p new where r': "recvLines (skipHead pool) badHead addHeaderLine ?n (?n + 1) ?r = Done r'"
    "view r' (c @ p) (0x0A # rest)" "length p = length (concat (linesOf fs)) + 1" "primes r' = primes ?r @ new"
    "list_all2 (fieldAt (c @ p)) new fs" "headerLines r' = (fst (headerLines ?r), length (primes r'))"
    using recvLines_fields [OF assms(1) r(1,2) assms(4,5) r(3) fuel r(4)] by blast
  with fieldsAt_window [OF r'(2,5)] view_at(1) [OF r'(2)] show ?thesis
    by (simp add: recvHeaderLines_def Let_def)
qed

theorem recvHeaderLines_reads_back_witness:
  "\<exists>r'. recvHeaderLines (\<lambda>_. None) sampleIn = Done r' \<and> receiving r' = SectionContent \<and>
    headEdge r' = length ([] :: bytes) + length (concat (linesOf [(bs ''Host'', bs ''a'')])) + 2 \<and>
    headerLines r' = (length (primes sampleIn), length (primes r')) \<and>
    take (length (primes sampleIn)) (primes r') = primes sampleIn \<and>
    list_all2 (fieldAt (window r')) (drop (length (primes sampleIn)) (primes r')) [(bs ''Host'', bs ''a'')]"
proof (rule recvHeaderLines_reads_back [where rest = "[0x47]"])
  show "view sampleIn [] (concat (linesOf [(bs ''Host'', bs ''a'')]) @ 0x0D # 0x0A # [0x47])"
    using sampleIn_view(1) by (simp add: sampleUnread_def)
  show "plainFields [(bs ''Host'', bs ''a'')]"
    by (simp add: plainFields_def isTcharByte_def httpTchar_def isValueByte_def isOWS_def)
  show "roomForLines (length [(bs ''Host'', bs ''a'')]) sampleIn"
    by (simp add: roomForLines_def sampleIn_def maxPairs_def stockPrimes_def)
qed (simp_all add: sampleIn_view linesOf_def fieldLine_def)

end
