(* ===== verification/Http1Body.thy ===== *)
theory Http1Body
  imports Http1In
begin

text \<open>
  Receiving the content of HTTP/1 messages: vague (chunked) content (\<open>_readVagueContent\<close>, \<open>growChunked\<close>,
  \<open>recvTrailerLines\<close>) and sized content (\<open>_readSizedContent\<close>) of \<open>_http1In_\<close> in \<open>hemi/web_general_http1.go\<close>,
  the array of a message (\<open>_growArray\<close>, \<open>arrayCopy\<close>, \<open>arrayPush\<close>) and \<open>_loadContent\<close> with \<open>_recvContent\<close> of
  \<open>_httpIn_\<close> in \<open>hemi/web_general_http.go\<close>, \<open>tidyInput\<close> in \<open>hemi/web_server_http1.go\<close>, and the chunks a
  sender writes (\<open>_writeTextPiece\<close>, \<open>echoChain\<close>, \<open>finalizeVague\<close> of \<open>_http1Out_\<close>).

  A state \<open>bodyIn\<close> extends the state of the head by the body window, the chunk that is being read, and the
  input that the next message begins in.  \<open>bodyAt r w\<close> abstracts it to the octets that were not consumed.
  The window of a trailer section is a second \<open>window_reader\<close>, so the lemmas on field lines serve it
  too.  On top: reading content never panics, keeps within the limit and ends; chunks that were
  written are read back; and the octets of a message are framed, so that the next one starts behind them.
\<close>

subsection \<open>The array of a message\<close>

text \<open>
  Decoded and copied data of a message is kept in \<open>r.array\<close>: the stock, a buffer from the pools, or one
  that is made, of up to 1G.  Positions are \<open>int32\<close>; sums of them are compared before they can wrap.
\<close>

datatype arrayKind = ArrayKindStock | ArrayKindPool | ArrayKindMake

record arrayIn = httpIn +
  inArray :: bytes
  arrayEdge :: nat
  arrayKind :: arrayKind
  maxMemoryContentSize :: nat

definition makeSizes :: "nat list" where
  "makeSizes = map (\<lambda>k. 2 ^ k) [17..<31]"

definition growArray :: "pools \<Rightarrow> nat \<Rightarrow> 'a arrayIn_scheme \<Rightarrow> (bool \<times> 'a arrayIn_scheme) option" where
  "growArray pool k r =
    (let edge = arrayEdge r + k in
     if edge > 2 ^ 30 then Some (False, r)
     else if edge \<le> length (inArray r) then Some (True, r)
     else do {
       let (kind, big) = (if edge \<le> 65535 then (ArrayKindPool, GetNK pool edge)
         else (ArrayKindMake, replicate (hd (filter (\<lambda>s. edge \<le> s) makeSizes)) 0));
       used \<leftarrow> sub (inArray r) 0 (arrayEdge r);
       Some (True, r\<lparr>inArray := copyAt big 0 used, arrayKind := kind\<rparr>)
     })"

definition arrayCopy :: "pools \<Rightarrow> bytes \<Rightarrow> 'a arrayIn_scheme \<Rightarrow> (bool \<times> 'a arrayIn_scheme) option" where
  "arrayCopy pool src r =
    (if src = [] then Some (True, r)
     else
       let edge = arrayEdge r + length src in
       if 2 ^ 31 \<le> edge then Some (False, r)
       else if edge > maxMemoryContentSize r then Some (False, r)
       else do {
         (room, r) \<leftarrow> growArray pool (length src) r;
         if \<not> room then Some (False, r)
         else do {
           (a, i) \<leftarrow> copyFrom (inArray r) (arrayEdge r) src;
           Some (True, r\<lparr>inArray := a, arrayEdge := i\<rparr>)
         }
       })"

definition arrayPush :: "pools \<Rightarrow> byte \<Rightarrow> 'a arrayIn_scheme \<Rightarrow> 'a arrayIn_scheme option" where
  "arrayPush pool b r = do {
     a \<leftarrow> put (inArray r) (arrayEdge r) b;
     let r = r\<lparr>inArray := a, arrayEdge := arrayEdge r + 1\<rparr>;
     if arrayEdge r = length (inArray r) then do { (room, r) \<leftarrow> growArray pool 1 r; Some r } else Some r
   }"

text \<open>What the array holds.  There is room behind it for the next octet (\<open>arrayPush\<close> writes first).\<close>

definition arrayHolds :: "'a arrayIn_scheme \<Rightarrow> bytes \<Rightarrow> bool" where
  "arrayHolds r p \<longleftrightarrow> arrayEdge r \<le> length (inArray r) \<and> p = take (arrayEdge r) (inArray r)"

text \<open>The fields that the array operations leave alone.\<close>

definition sameHead :: "'a arrayIn_scheme \<Rightarrow> 'a arrayIn_scheme \<Rightarrow> bool" where
  "sameHead r r' \<longleftrightarrow> (\<exists>a e k. r' = r\<lparr>inArray := a, arrayEdge := e, arrayKind := k\<rparr>)"

lemma sameHead_refl [simp]: "sameHead r r"
  unfolding sameHead_def by (rule exI [of _ "inArray r"], rule exI [of _ "arrayEdge r"], rule exI [of _ "arrayKind r"]) simp

lemma sameHead_trans: "sameHead r r' \<Longrightarrow> sameHead r' r'' \<Longrightarrow> sameHead r r''"
  unfolding sameHead_def by fastforce

lemma makeSizes_room:
  assumes "k \<le> 2 ^ 30"
  shows "k \<le> hd (filter (\<lambda>s. k \<le> s) makeSizes)"
proof -
  have "2 ^ 30 \<in> set (filter (\<lambda>s. k \<le> s) makeSizes)" using assms by (auto simp: makeSizes_def)
  then have "filter (\<lambda>s. k \<le> s) makeSizes \<noteq> []" by (metis empty_iff empty_set)
  then have "hd (filter (\<lambda>s. k \<le> s) makeSizes) \<in> set (filter (\<lambda>s. k \<le> s) makeSizes)" by (rule hd_in_set)
  then show ?thesis by simp
qed

lemma growArray_holds:
  assumes "goodPools pool" "arrayHolds r p"
  shows "if length p + k > 2 ^ 30 then growArray pool k r = Some (False, r)
    else \<exists>r'. growArray pool k r = Some (True, r') \<and> arrayHolds r' p \<and> arrayEdge r' = length p \<and>
      length p + k \<le> length (inArray r') \<and> sameHead r r'"
proof -
  have p: "arrayEdge r = length p" "take (length p) (inArray r) = p" "length p \<le> length (inArray r)"
    using assms(2) by (auto simp: arrayHolds_def)
  consider "length p + k > 2 ^ 30" | "length p + k \<le> length (inArray r)" "length p + k \<le> 2 ^ 30"
    | "length (inArray r) < length p + k" "length p + k \<le> 2 ^ 30" by linarith
  then show ?thesis
  proof cases
    case 3
    define b where "b = (if length p + k \<le> 65535 then GetNK pool (length p + k)
      else replicate (hd (filter (\<lambda>s. length p + k \<le> s) makeSizes)) 0)"
    have len: "length p + k \<le> length b"
      using length_GetNK [OF assms(1), of "length p + k"] makeSizes_room [OF 3(2)] by (simp add: b_def nkSize_def)
    let ?kind = "if length p + k \<le> 65535 then ArrayKindPool else ArrayKindMake"
    have "growArray pool k r = Some (True, r\<lparr>inArray := copyAt b 0 p, arrayKind := ?kind\<rparr>)"
      using 3 p by (simp add: growArray_def b_def panic_simps slice_def Let_def)
    moreover have "arrayHolds (r\<lparr>inArray := copyAt b 0 p, arrayKind := ?kind\<rparr>) p"
      using p len by (simp add: arrayHolds_def copyAt_def)
    moreover have "sameHead r (r\<lparr>inArray := copyAt b 0 p, arrayKind := ?kind\<rparr>)"
      unfolding sameHead_def
      by (rule exI [of _ "copyAt b 0 p"], rule exI [of _ "arrayEdge r"], rule exI [of _ ?kind]) simp
    ultimately show ?thesis using 3 p(1) len by auto
  qed (use p assms(2) in \<open>auto simp: growArray_def\<close>)
qed

text \<open>Copying into the array appends, or is refused.\<close>

lemma arrayCopy_holds:
  assumes "goodPools pool" "arrayHolds r p"
  shows "\<exists>ok r'. arrayCopy pool src r = Some (ok, r') \<and> sameHead r r' \<and>
    (if ok then arrayHolds r' (p @ src) else arrayHolds r' p \<and> src \<noteq> []) \<and>
    (length p + length src \<le> maxMemoryContentSize r \<and> length p + length src \<le> 2 ^ 30 \<longrightarrow> ok)"
proof -
  have e: "arrayEdge r = length p" using assms(2) by (auto simp: arrayHolds_def)
  consider "src = []" | "src \<noteq> []" "length p + length src > maxMemoryContentSize r \<or> 2 ^ 31 \<le> length p + length src"
    | "src \<noteq> []" "length p + length src \<le> maxMemoryContentSize r" "length p + length src < 2 ^ 31" by linarith
  then show ?thesis
  proof cases
    case 1
    with assms(2) show ?thesis by (auto simp: arrayCopy_def)
  next
    case 2
    then show ?thesis using e assms(2) by (auto simp: arrayCopy_def Let_def)
  next
    case 3
    have copy: "arrayCopy pool src r = do {
         (room, r) \<leftarrow> growArray pool (length src) r;
         if \<not> room then Some (False, r)
         else do {
           (a, i) \<leftarrow> copyFrom (inArray r) (arrayEdge r) src;
           Some (True, r\<lparr>inArray := a, arrayEdge := i\<rparr>)
         }
       }"
      using 3 e by (simp add: arrayCopy_def Let_def)
    show ?thesis
    proof (cases "length p + length src > 2 ^ 30")
      case True
      then have "growArray pool (length src) r = Some (False, r)"
        using growArray_holds [OF assms, of "length src"] by simp
      with True 3(1) assms(2) show ?thesis by (intro exI [of _ False] exI [of _ r]) (simp add: copy)
    next
      case False
      then obtain r1 where r1: "growArray pool (length src) r = Some (True, r1)" "arrayHolds r1 p" "arrayEdge r1 = length p"
        "length p + length src \<le> length (inArray r1)" "sameHead r r1"
        using growArray_holds [OF assms, of "length src"] by auto
      let ?r = "r1\<lparr>inArray := copyAt (inArray r1) (length p) src, arrayEdge := length p + length src\<rparr>"
      have "arrayCopy pool src r = Some (True, ?r)" using r1 by (simp add: copy copyFrom_room)
      moreover have "sameHead r1 ?r"
        unfolding sameHead_def by (rule exI [of _ "inArray ?r"], rule exI [of _ "arrayEdge ?r"], rule exI [of _ "arrayKind r1"]) simp
      moreover have "arrayHolds ?r (p @ src)" using r1 by (auto simp: arrayHolds_def copyAt_def)
      ultimately show ?thesis using sameHead_trans [OF r1(5)] by auto
    qed
  qed
qed

text \<open>Pushing an octet appends it, as long as the array is below its largest size.\<close>

definition arrayReady :: "'a arrayIn_scheme \<Rightarrow> bytes \<Rightarrow> bool" where
  "arrayReady r p \<longleftrightarrow> arrayHolds r p \<and> arrayEdge r < length (inArray r)"

lemma arrayPush_ready:
  assumes "goodPools pool" "arrayReady r p" "length p + 2 \<le> 2 ^ 30"
  shows "\<exists>r'. arrayPush pool b r = Some r' \<and> arrayReady r' (p @ [b]) \<and> sameHead r r'"
proof -
  have p: "arrayEdge r = length p" "take (length p) (inArray r) = p" "length p < length (inArray r)"
    using assms(2) by (auto simp: arrayReady_def arrayHolds_def)
  let ?r = "r\<lparr>inArray := (inArray r)[length p := b], arrayEdge := length p + 1\<rparr>"
  have holds: "arrayHolds ?r (p @ [b])"
    using p by (simp add: arrayHolds_def take_Suc_conv_app_nth)
  have same: "sameHead r ?r"
    unfolding sameHead_def by (rule exI [of _ "inArray ?r"], rule exI [of _ "arrayEdge ?r"], rule exI [of _ "arrayKind r"]) simp
  show ?thesis
  proof (cases "length p + 1 = length (inArray r)")
    case False
    with p holds same show ?thesis by (simp add: arrayPush_def arrayReady_def panic_simps Let_def)
  next
    case True
    obtain r' where r': "growArray pool 1 ?r = Some (True, r')" "arrayHolds r' (p @ [b])" "arrayEdge r' = length (p @ [b])"
      "length (p @ [b]) + 1 \<le> length (inArray r')" "sameHead ?r r'"
      using growArray_holds [OF assms(1) holds, of 1] assms(3) by auto
    then have "arrayPush pool b r = Some r'" using True p by (simp add: arrayPush_def panic_simps Let_def)
    with r' sameHead_trans [OF same r'(5)] show ?thesis by (auto simp: arrayReady_def)
  qed
qed

subsection \<open>The content of a message\<close>

text \<open>
  From here on the window is \<open>r.bodyWindow\<close>: \<open>fore\<close> is \<open>r.chunkFore\<close> (\<open>r.elemFore\<close> in a trailer section),
  \<open>winEdge\<close> is \<open>r.chunkEdge\<close>, and \<open>r.input\<close> with \<open>r.inputEdge\<close> are \<open>headInput\<close> and \<open>inputEdge\<close>.  A
  body window that is \<open>nil\<close> is \<open>bodyOpen = False\<close>.  Octets that arrive when \<open>recvTimeout\<close> has passed
  (\<open>_isLongTime\<close>) are refused with the message: they are an event \<open>TimedOut\<close> of the network.
\<close>

record bodyIn = arrayIn +
  headInput :: bytes
  inputNext :: nat
  inputEdge :: nat
  imme :: "nat \<times> nat"
  inContentSize :: int
  receivedSize :: int
  maxContentSize :: int
  contentReceived :: bool
  contentText :: "bytes"
  bodyResult :: int
  bodyOpen :: bool
  chunkBack :: nat
  chunkSize :: int
  overChunked :: bool
  trailerLines :: "nat \<times> nat"

definition i64 :: "int \<Rightarrow> int" where
  "i64 x = signed_take_bit 63 x"

definition growChunked :: "'a bodyIn_scheme \<Rightarrow> ('a bodyIn_scheme, 'a bodyIn_scheme) outcome" where
  "growChunked r =
    (if winEdge r = length (window r) \<and> chunkBack r = 0 then Fail r
     else
       andThen (if chunkBack r > 0 then
            andThen (checked (sub (window r) (chunkBack r) (winEdge r))) (\<lambda>used.
            Done (r\<lparr>window := copyAt (window r) 0 used, fore := fore r - chunkBack r, winEdge := winEdge r - chunkBack r,
              chunkBack := 0\<rparr>))
          else Done r) (\<lambda>r.
       case netRead (length (window r) - winEdge r) (network r) of
         Done (data, net) \<Rightarrow> Done (r\<lparr>window := copyAt (window r) (winEdge r) data, winEdge := winEdge r + length data, network := net\<rparr>)
       | Fail e \<Rightarrow> Fail r
       | Panic \<Rightarrow> Panic))"

definition skipChunked :: "'a bodyIn_scheme \<Rightarrow> ('a bodyIn_scheme, 'a bodyIn_scheme) outcome" where
  "skipChunked = skipWith growChunked"

subsection \<open>The trailer section\<close>

definition addTrailerLine :: "pair \<Rightarrow> 'a bodyIn_scheme \<Rightarrow> ('a bodyIn_scheme, 'a bodyIn_scheme) outcome" where
  "addTrailerLine trailerLine r =
    (case addPrime trailerLine r of
       (Some e, r) \<Rightarrow> Done (r\<lparr>trailerLines := (fst (trailerLines r), e)\<rparr>)
     | (None, r) \<Rightarrow> Fail (r\<lparr>bodyResult := StatusRequestHeaderFieldsTooLarge, failReason := ''too many trailer lines''\<rparr>))"

text \<open>A trailer line is moved to the array: its name, then its value.\<close>

definition keepTrailerLine :: "pools \<Rightarrow> pair \<Rightarrow> 'a bodyIn_scheme \<Rightarrow> ('a bodyIn_scheme, 'a bodyIn_scheme) outcome" where
  "keepTrailerLine pool x r =
    (let from = arrayEdge r in
     andThen (checked (nameAt (window r) x)) (\<lambda>name.
     andThen (checked (arrayCopy pool name r)) (\<lambda>(ok, r).
     if \<not> ok then Fail r
     else
       let x = x\<lparr>pairNameFrom := from\<rparr>; from = arrayEdge r in
       andThen (checked (valueAt (window r) x)) (\<lambda>v.
       andThen (checked (arrayCopy pool v r)) (\<lambda>(ok, r).
       if \<not> ok then Fail r
       else addTrailerLine (x\<lparr>pairValueFrom := from, pairValueEdge := arrayEdge r\<rparr>) r)))))"

definition badTrailer :: "string \<Rightarrow> 'a bodyIn_scheme \<Rightarrow> 'a bodyIn_scheme" where
  "badTrailer why r = r"

definition recvTrailerLines :: "pools \<Rightarrow> 'a bodyIn_scheme \<Rightarrow> ('a bodyIn_scheme, 'a bodyIn_scheme) outcome" where
  "recvTrailerLines pool r =
    andThen (checked (sub (window r) (fore r) (winEdge r))) (\<lambda>used.
    let r = r\<lparr>window := copyAt (window r) 0 used, fore := 0, winEdge := winEdge r - fore r, chunkBack := 0,
          trailerLines := (length (primes r), length (primes r))\<rparr>;
        n = unreadSize r in
    recvLines skipChunked badTrailer (keepTrailerLine pool) n (n + 1) r)"

definition applyTrailerLine :: "nat \<Rightarrow> 'a bodyIn_scheme \<Rightarrow> bool" where
  "applyTrailerLine lineIndex r = True"

definition examineTail :: "'a bodyIn_scheme \<Rightarrow> bool" where
  "examineTail r = list_all (\<lambda>i. applyTrailerLine i r) [fst (trailerLines r)..<snd (trailerLines r)]"

subsection \<open>Vague content\<close>

definition chunkNibble :: "byte \<Rightarrow> byte option" where
  "chunkNibble b =
    (if ch CHR ''0'' \<le> b \<and> b \<le> ch CHR ''9'' then Some (b - ch CHR ''0'')
     else if ch CHR ''a'' \<le> b \<and> b \<le> ch CHR ''f'' then Some (b - ch CHR ''a'' + 10)
     else if ch CHR ''A'' \<le> b \<and> b \<le> ch CHR ''F'' then Some (b - ch CHR ''A'' + 10)
     else None)"

text \<open>The digits of a chunk size; 17 rounds are enough, since the sixteenth digit is refused.\<close>

primrec recvChunkSize :: "nat \<Rightarrow> int \<Rightarrow> 'a bodyIn_scheme \<Rightarrow> ('a bodyIn_scheme, int \<times> 'a bodyIn_scheme) outcome" where
  "recvChunkSize 0 k r = Panic"
| "recvChunkSize (Suc n) k r =
    andThen (checked (peek r)) (\<lambda>b.
    case chunkNibble b of
      None \<Rightarrow> Done (k, r)
    | Some d \<Rightarrow>
        let k = i64 (i64 (k * 16) + uint d) in
        if fore r + 1 - chunkBack r \<ge> 16 then Fail (r\<lparr>fore := fore r + 1\<rparr>)
        else andThen (skipChunked r) (recvChunkSize n k))"

primrec skipChunkExt :: "nat \<Rightarrow> 'a bodyIn_scheme \<Rightarrow> ('a bodyIn_scheme, 'a bodyIn_scheme) outcome" where
  "skipChunkExt 0 r = Panic"
| "skipChunkExt (Suc n) r =
    andThen (checked (peek r)) (\<lambda>b. if b = 0x0A then Done r else andThen (skipChunked r) (skipChunkExt n))"

definition expectLF :: "'a bodyIn_scheme \<Rightarrow> ('a bodyIn_scheme, 'a bodyIn_scheme) outcome" where
  "expectLF r = andThen (checked (peek r)) (\<lambda>b. if b \<noteq> 0x0A then Fail r else Done r)"

text \<open>The line of a chunk: \<open>chunk-size [chunk-ext] CRLF\<close>, and the check of the target size.\<close>

definition recvChunkLine :: "'a bodyIn_scheme \<Rightarrow> ('a bodyIn_scheme, 'a bodyIn_scheme) outcome" where
  "recvChunkLine r =
    andThen (recvChunkSize 17 0 (r\<lparr>chunkBack := fore r\<rparr>)) (\<lambda>(k, r).
    if k < 0 then Fail r
    else
      andThen (checked (peek r)) (\<lambda>b.
      andThen (if b = ch CHR '';'' then skipChunkExt (unreadSize r) r
        else if b = 0x0D then skipChunked r
        else Done r) (\<lambda>r.
      andThen (expectLF r) (\<lambda>r.
      let targetSize = i64 (receivedSize r + k) in
      if \<not> (targetSize \<ge> 0 \<and> targetSize \<le> maxContentSize r) then Fail r
      else skipChunked (r\<lparr>chunkSize := k\<rparr>)))))"

text \<open>What ends a message: the empty line, or a trailer section.\<close>

definition recvLastChunk :: "pools \<Rightarrow> 'a bodyIn_scheme \<Rightarrow> ('a bodyIn_scheme, 'a bodyIn_scheme) outcome" where
  "recvLastChunk pool r =
    andThen (checked (peek r)) (\<lambda>b.
    andThen
      (if b = 0x0D then andThen (skipChunked r) expectLF
       else if b \<noteq> 0x0A then
         andThen (recvTrailerLines pool (r\<lparr>receiving := SectionTrailers\<rparr>)) (\<lambda>r. if \<not> examineTail r then Fail r else Done r)
       else Done r) (\<lambda>r.
    let r = r\<lparr>fore := fore r + 1\<rparr> in
    if fore r < winEdge r then Done (r\<lparr>overChunked := True, inputNext := fore r, inputEdge := winEdge r\<rparr>)
    else Done (r\<lparr>inputNext := 0, inputEdge := 0, window := [], bodyOpen := False\<rparr>)))"

text \<open>The octets of a chunk that were received.\<close>

definition takeChunkData :: "'a bodyIn_scheme \<Rightarrow> ('a bodyIn_scheme, bytes \<times> 'a bodyIn_scheme) outcome" where
  "takeChunkData r =
    (let r = r\<lparr>chunkBack := 0\<rparr>; from = fore r; have = int (winEdge r) - int (fore r) in
     if have \<le> chunkSize r then
       andThen (checked (sub (window r) from (winEdge r))) (\<lambda>data.
       Done (data, r\<lparr>receivedSize := receivedSize r + have, chunkSize := (if have = chunkSize r then - 2 else chunkSize r - have),
         fore := 0, winEdge := 0\<rparr>))
     else
       let edge = from + nat (chunkSize r); r = r\<lparr>receivedSize := receivedSize r + chunkSize r\<rparr>; sizeLeft = winEdge r - edge in
       andThen (checked (idx (window r) edge)) (\<lambda>b.
       andThen
         (if sizeLeft = 1 then
            if b = 0x0D then Done (r\<lparr>chunkSize := - 1, fore := 0, winEdge := 0\<rparr>)
            else if b = 0x0A then Done (r\<lparr>chunkSize := 0, fore := 0, winEdge := 0\<rparr>)
            else Fail r
          else
            andThen (checked (if b = 0x0D then idx (window r) (edge + 1) else Some 0)) (\<lambda>b'.
            if b = 0x0D \<and> b' = 0x0A then
              if sizeLeft = 2 then Done (r\<lparr>chunkSize := 0, fore := 0, winEdge := 0\<rparr>)
              else Done (r\<lparr>chunkSize := 0, fore := edge + 2\<rparr>)
            else if b = 0x0A then Done (r\<lparr>chunkSize := 0, fore := edge + 1\<rparr>)
            else Fail r)) (\<lambda>r.
       andThen (checked (sub (window r) from edge)) (\<lambda>data.
       Done (data, r)))))"

definition startChunk :: "pools \<Rightarrow> 'a bodyIn_scheme \<Rightarrow> ('a bodyIn_scheme, bytes \<times> bool \<times> 'a bodyIn_scheme) outcome" where
  "startChunk pool r =
    andThen (recvChunkLine r) (\<lambda>r.
    if chunkSize r = 0 then andThen (recvLastChunk pool r) (\<lambda>r. Done ([], True, r))
    else andThen (takeChunkData r) (\<lambda>(data, r). Done (data, False, r)))"

text \<open>The window at the start of a read: it is made, takes what came with the head, and is not empty.\<close>

definition fillBody :: "pools \<Rightarrow> 'a bodyIn_scheme \<Rightarrow> ('a bodyIn_scheme, 'a bodyIn_scheme) outcome" where
  "fillBody pool r =
    (let r = (if \<not> bodyOpen r then r\<lparr>window := GetNK pool 16384, bodyOpen := True\<rparr> else r) in
     andThen (if fst (imme r) \<noteq> snd (imme r) then
          andThen (checked (sub (headInput r) (fst (imme r)) (snd (imme r)))) (\<lambda>data.
          Done (r\<lparr>window := copyAt (window r) 0 data, winEdge := min (length data) (length (window r)), imme := (0, 0)\<rparr>))
        else Done r) (\<lambda>r.
     if winEdge r = 0 then growChunked r else Done r))"

text \<open>\<open>_readVagueContent\<close>: the data, and whether the end (\<open>io.EOF\<close>) was reached.  \<open>Fail\<close> is \<open>httpInBadChunk\<close>.\<close>

definition readVagueContent :: "pools \<Rightarrow> 'a bodyIn_scheme \<Rightarrow> ('a bodyIn_scheme, bytes \<times> bool \<times> 'a bodyIn_scheme) outcome" where
  "readVagueContent pool r =
    andThen (fillBody pool r) (\<lambda>r.
    if chunkSize r = - 2 \<or> chunkSize r = - 1 then
      andThen (checked (peek r)) (\<lambda>b.
      andThen (if chunkSize r = - 2 \<and> b = 0x0D then skipChunked r else Done r) (\<lambda>r.
      andThen (expectLF r) (\<lambda>r.
      andThen (skipChunked r) (startChunk pool))))
    else if chunkSize r = 0 then startChunk pool r
    else andThen (takeChunkData r) (\<lambda>(data, r). Done (data, False, r)))"

subsection \<open>Sized content\<close>

text \<open>\<open>io.ReadFull\<close>: reads until there are \<open>k\<close> octets.\<close>

fun readFull :: "nat \<Rightarrow> netEvent list \<Rightarrow> (netEvent, bytes \<times> netEvent list) outcome" where
  "readFull k [] = (if k = 0 then Done ([], []) else Fail Failed)"
| "readFull k (Arrived w # net) =
    (if k = 0 then Done ([], Arrived w # net)
     else if k < length w then Done (take k w, Arrived (drop k w) # net)
     else andThen (readFull (k - length w) net) (\<lambda>(data, net). Done (w @ data, net)))"
| "readFull k (e # net) = (if k = 0 then Done ([], e # net) else Fail e)"

text \<open>\<open>_readSizedContent\<close>: content of more than 64K-1 octets is read through the body window.\<close>

definition readSizedContent :: "pools \<Rightarrow> 'a bodyIn_scheme \<Rightarrow> ('a bodyIn_scheme, bytes \<times> bool \<times> 'a bodyIn_scheme) outcome" where
  "readSizedContent pool r =
    (if receivedSize r = inContentSize r then
       if \<not> bodyOpen r then
         andThen (checked (sub (contentText r) 0 (nat (receivedSize r)))) (\<lambda>data. Done (data, True, r))
       else Done ([], True, r\<lparr>window := [], bodyOpen := False\<rparr>)
     else
       let r = (if \<not> bodyOpen r then r\<lparr>window := GetNK pool 16384, bodyOpen := True\<rparr> else r) in
       if fst (imme r) \<noteq> snd (imme r) then
         andThen (checked (sub (headInput r) (fst (imme r)) (snd (imme r)))) (\<lambda>data.
         let immeSize = min (length data) (length (window r));
             r = r\<lparr>window := copyAt (window r) 0 data, imme := (0, 0), receivedSize := int immeSize\<rparr> in
         Done (take immeSize (window r), False, r))
       else
         let readSize = min (int (length (window r))) (inContentSize r - receivedSize r) in
         case readFull (nat readSize) (network r) of
           Done (data, net) \<Rightarrow>
             let r = r\<lparr>window := copyAt (window r) 0 data, network := net, receivedSize := receivedSize r + int (length data)\<rparr> in
             Done (take (length data) (window r), False, r)
         | Fail e \<Rightarrow> Fail r
         | Panic \<Rightarrow> Panic)"

definition readContent :: "pools \<Rightarrow> 'a bodyIn_scheme \<Rightarrow> ('a bodyIn_scheme, bytes \<times> bool \<times> 'a bodyIn_scheme) outcome" where
  "readContent pool r = (if inContentSize r \<ge> 0 then readSizedContent pool r else readVagueContent pool r)"

text \<open>
  \<open>_recvContent\<close>: sized content of up to 64K-1 octets goes to a buffer; other content is read to its end
  and written to a file, which is the octets that were written.
\<close>

primrec recvToEnd :: "pools \<Rightarrow> nat \<Rightarrow> bytes \<Rightarrow> 'a bodyIn_scheme \<Rightarrow> ('a bodyIn_scheme, bytes \<times> 'a bodyIn_scheme) outcome" where
  "recvToEnd pool 0 all r = Panic"
| "recvToEnd pool (Suc n) all r =
    andThen (readContent pool r) (\<lambda>(data, eof, r).
    if eof then Done (all @ data, r) else recvToEnd pool n (all @ data) r)"

definition recvRest :: "bytes \<Rightarrow> nat \<Rightarrow> nat \<Rightarrow> 'a bodyIn_scheme \<Rightarrow> ('a bodyIn_scheme, bytes \<times> 'a bodyIn_scheme) outcome" where
  "recvRest text have k r =
    andThen (checked (sub text have k)) (\<lambda>room.
    case readFull (length room) (network r) of
      Done (data, net) \<Rightarrow>
        let r = r\<lparr>network := net, receivedSize := receivedSize r + int (length data)\<rparr> in
        Done (take (nat (receivedSize r)) (copyAt text have data), r)
    | Fail e \<Rightarrow> Fail r
    | Panic \<Rightarrow> Panic)"

definition recvContent :: "pools \<Rightarrow> nat \<Rightarrow> 'a bodyIn_scheme \<Rightarrow> ('a bodyIn_scheme, bytes \<times> 'a bodyIn_scheme) outcome" where
  "recvContent pool n r =
    (if inContentSize r > 0 \<and> inContentSize r \<le> 65535 then
       let k = nat (inContentSize r); text = GetNK pool k; have = snd (imme r) - fst (imme r);
           r = r\<lparr>receivedSize := int have\<rparr> in
       if have > 0 then
         andThen (checked (sub (headInput r) (fst (imme r)) (snd (imme r)))) (\<lambda>data.
         recvRest (copyAt text 0 data) have k (r\<lparr>imme := (0, 0)\<rparr>))
       else recvRest text have k r
     else recvToEnd pool n [] r)"

text \<open>The content of a message as an application gets it (\<open>_loadContent\<close>, \<open>riskyContent\<close>).\<close>

definition loadContent :: "pools \<Rightarrow> nat \<Rightarrow> 'a bodyIn_scheme \<Rightarrow> ('a bodyIn_scheme, bytes \<times> 'a bodyIn_scheme) outcome" where
  "loadContent pool n r =
    (if contentReceived r then
       andThen (checked (sub (contentText r) 0 (nat (receivedSize r)))) (\<lambda>data. Done (data, r))
     else recvContent pool n (r\<lparr>contentReceived := True\<rparr>))"

subsection \<open>The next message\<close>

text \<open>
  What is left for the next message on the connection when the stream ends: \<open>r.input\<close> and \<open>r.inputEdge\<close>
  after \<open>_httpIn_.onEnd\<close>.
\<close>

definition nextInput :: "'a bodyIn_scheme \<Rightarrow> (bytes \<times> nat) option" where
  "nextInput r =
    (if inputNext r \<noteq> 0 then do {
       let input = (if overChunked r then window r else headInput r);
       left \<leftarrow> sub input (inputNext r) (inputEdge r);
       Some (copyAt input 0 left, inputEdge r - inputNext r)
     } else Some (headInput r, inputEdge r))"

text \<open>\<open>tidyInput\<close>, when the head has been received up to \<open>headEdge\<close>.\<close>

definition tidyInput :: "'a bodyIn_scheme \<Rightarrow> 'a bodyIn_scheme" where
  "tidyInput r =
    (if inContentSize r = - 1 then
       let r = r\<lparr>contentReceived := True\<rparr> in
       if headEdge r < inputEdge r then r\<lparr>inputNext := headEdge r\<rparr> else r\<lparr>inputNext := 0, inputEdge := 0\<rparr>
     else
       let immeEdge = inputEdge r; r = r\<lparr>imme := (headEdge r, immeEdge)\<rparr> in
       if inContentSize r \<ge> 0 then
         let immeSize = int immeEdge - int (headEdge r);
             r = (if immeSize = 0 \<or> immeSize \<le> inContentSize r then r\<lparr>inputNext := 0, inputEdge := 0\<rparr> else r) in
         if immeSize \<ge> inContentSize r then
           let edge = headEdge r + nat (inContentSize r);
               r = r\<lparr>contentReceived := True\<rparr>;
               r = (if immeSize > inContentSize r then r\<lparr>inputNext := edge, imme := (headEdge r, edge)\<rparr> else r) in
           r\<lparr>receivedSize := inContentSize r, contentText := slice (headInput r) (headEdge r) edge\<rparr>
         else r
       else r)"

subsection \<open>Steps over the body window\<close>

text \<open>The octets that were not consumed, and the shape of the window between two reads.\<close>

definition unread :: "'a inWindow_scheme \<Rightarrow> bytes" where
  "unread r = slice (window r) (fore r) (winEdge r) @ arriving (network r)"

definition bodyReady :: "'a bodyIn_scheme \<Rightarrow> bool" where
  "bodyReady r \<longleftrightarrow> length (window r) = 16384 \<and> winEdge r \<le> 16384 \<and> chunkBack r \<le> fore r \<and> noEmpty (network r) \<and>
     (fore r < winEdge r \<or> fore r = 0 \<and> winEdge r = 0)"

definition bodyAt :: "'a bodyIn_scheme \<Rightarrow> bytes \<Rightarrow> bool" where
  "bodyAt r w \<longleftrightarrow> bodyReady r \<and> fore r < winEdge r \<and> unread r = w"

text \<open>A step changes only the window.\<close>

definition sameBody :: "'a bodyIn_scheme \<Rightarrow> 'a bodyIn_scheme \<Rightarrow> bool" where
  "sameBody r r' \<longleftrightarrow> (\<exists>p f e n c. r' = r\<lparr>window := p, fore := f, winEdge := e, network := n, chunkBack := c\<rparr>)"

lemma sameBody_refl [simp]: "sameBody r r"
  unfolding sameBody_def
  by (rule exI [of _ "window r"], rule exI [of _ "fore r"], rule exI [of _ "winEdge r"], rule exI [of _ "network r"],
    rule exI [of _ "chunkBack r"]) simp

lemma sameBody_trans: "sameBody r r' \<Longrightarrow> sameBody r' r'' \<Longrightarrow> sameBody r r''"
  unfolding sameBody_def by fastforce

lemma sameBody_fields:
  assumes "sameBody r r'"
  shows "chunkSize r' = chunkSize r" "receivedSize r' = receivedSize r" "maxContentSize r' = maxContentSize r"
    "bodyOpen r' = bodyOpen r" "imme r' = imme r" "arrayEdge r' = arrayEdge r" "inArray r' = inArray r" "primes r' = primes r"
    "headInput r' = headInput r" "inputNext r' = inputNext r" "inputEdge r' = inputEdge r" "overChunked r' = overChunked r"
    "inContentSize r' = inContentSize r"
  using assms by (auto simp: sameBody_def)

lemma bodyAt_peek:
  assumes "bodyAt r w"
  obtains b v where "w = b # v" "peek r = Some b" "slice (window r) (fore r) (winEdge r) = b # slice (window r) (Suc (fore r)) (winEdge r)"
proof -
  have r: "fore r < winEdge r" "winEdge r \<le> length (window r)" using assms by (simp_all add: bodyAt_def bodyReady_def)
  then have "slice (window r) (fore r) (winEdge r) = window r ! fore r # slice (window r) (Suc (fore r)) (winEdge r)"
    by (rule slice_Suc)
  with assms r that show ?thesis by (auto simp: bodyAt_def unread_def peek_def panic_simps)
qed

text \<open>Reading more: at the edge of the window, with room or something to slide away.\<close>

lemma growChunked_step:
  assumes "fore r = winEdge r" "winEdge r \<le> length (window r)" "length (window r) = 16384" "noEmpty (network r)"
    and "chunkBack r \<le> fore r"
  shows "case growChunked r of
     Panic \<Rightarrow> False
   | Fail r' \<Rightarrow> arriving (network r) = [] \<or> chunkBack r = 0 \<and> fore r = 16384
   | Done r' \<Rightarrow> bodyAt r' (arriving (network r)) \<and> sameBody r r' \<and> chunkBack r' = 0 \<and> fore r' = fore r - chunkBack r \<and>
       (chunkBack r = 0 \<longrightarrow> inWindow.more r' = inWindow.more r \<and> take (winEdge r) (window r') = take (winEdge r) (window r))"
proof (cases "winEdge r = length (window r) \<and> chunkBack r = 0")
  case True
  with assms show ?thesis by (simp add: growChunked_def)
next
  case False
  define p where "p = (if chunkBack r > 0 then copyAt (window r) 0 (slice (window r) (chunkBack r) (winEdge r)) else window r)"
  define e where "e = winEdge r - chunkBack r"
  have p: "length p = 16384" "e < 16384" using False assms by (auto simp: p_def e_def)
  let ?r = "r\<lparr>window := p, fore := e, winEdge := e, chunkBack := 0\<rparr>"
  have grow: "growChunked r = (case netRead (16384 - e) (network r) of
         Done (data, net) \<Rightarrow> Done (?r\<lparr>window := copyAt p e data, winEdge := e + length data, network := net\<rparr>)
       | Fail e \<Rightarrow> Fail ?r
       | Panic \<Rightarrow> Panic)"
  proof (cases "chunkBack r > 0")
    case True
    then have "sub (window r) (chunkBack r) (winEdge r) = Some (slice (window r) (chunkBack r) (winEdge r))"
      using assms by (simp add: panic_simps)
    with True False p(1) assms(1) show ?thesis
      unfolding growChunked_def by (auto simp: p_def e_def split: outcome.split)
  next
    case F: False
    then have same: "?r = r" "p = window r" "e = winEdge r" using assms(1) by (simp_all add: p_def e_def)
    show ?thesis
      using F False assms(3) unfolding same(1) unfolding growChunked_def same(2,3) by simp
  qed
  have room: "0 < 16384 - e" using p by simp
  show ?thesis
  proof (cases "netRead (16384 - e) (network r)")
    case Panic
    with netRead_cases [OF assms(4) room] show ?thesis by simp
  next
    case (Fail ev)
    with netRead_cases [OF assms(4) room] have "arriving (network r) = []" by simp
    with Fail show ?thesis unfolding grow by simp
  next
    case (Done dn)
    obtain data net where dn: "dn = (data, net)" by fastforce
    from Done dn netRead_cases [OF assms(4) room] have d: "data \<noteq> []" "length data \<le> 16384 - e"
      "arriving (network r) = data @ arriving net" "noEmpty net" by auto
    let ?s = "?r\<lparr>window := copyAt p e data, winEdge := e + length data, network := net\<rparr>"
    have "slice (copyAt p e data) e (e + length data) = data" using d p by (intro slice_copyAt_same) simp
    then have "bodyAt ?s (arriving (network r))" using d p by (simp add: bodyAt_def bodyReady_def unread_def)
    moreover have "sameBody r ?s"
      unfolding sameBody_def
      by (rule exI [of _ "copyAt p e data"], rule exI [of _ e], rule exI [of _ "e + length data"], rule exI [of _ net],
        rule exI [of _ 0]) simp
    moreover have "take (winEdge r) (copyAt p e data) = take (winEdge r) (window r)" if "chunkBack r = 0"
      using that assms(2) by (simp add: p_def e_def copyAt_def)
    moreover have "inWindow.more ?s = inWindow.more r" if "chunkBack r = 0"
      using that by (cases r) simp
    moreover have "growChunked r = Done ?s" using Done dn unfolding grow by simp
    ultimately show ?thesis using assms(1) by (simp add: e_def)
  qed
qed

lemma skipChunked_step:
  assumes "bodyAt r (b # w)"
  shows "case skipChunked r of
     Panic \<Rightarrow> False
   | Fail r' \<Rightarrow> w = [] \<or> chunkBack r = 0 \<and> fore r = 16383
   | Done r' \<Rightarrow> bodyAt r' w \<and> sameBody r r' \<and> fore r' - chunkBack r' = Suc (fore r) - chunkBack r \<and> w \<noteq> []"
proof -
  obtain b' w' where s: "b # w = b' # w'" "slice (window r) (fore r) (winEdge r) = b' # slice (window r) (Suc (fore r)) (winEdge r)"
    using assms by (rule bodyAt_peek)
  have r: "bodyReady r" "fore r < winEdge r" "b # w = slice (window r) (fore r) (winEdge r) @ arriving (network r)"
    using assms by (simp_all add: bodyAt_def unread_def)
  then have w: "w = slice (window r) (Suc (fore r)) (winEdge r) @ arriving (network r)" using s by simp
  let ?r = "r\<lparr>fore := Suc (fore r)\<rparr>"
  have same: "sameBody r ?r"
    unfolding sameBody_def
    by (rule exI [of _ "window r"], rule exI [of _ "Suc (fore r)"], rule exI [of _ "winEdge r"], rule exI [of _ "network r"],
      rule exI [of _ "chunkBack r"]) simp
  show ?thesis
  proof (cases "Suc (fore r) = winEdge r")
    case False
    with r have "bodyAt ?r w" by (simp add: bodyAt_def bodyReady_def unread_def w)
    moreover have "w \<noteq> []" using calculation by (auto elim: bodyAt_peek)
    ultimately show ?thesis using False same by (simp add: skipChunked_def skipWith_def Let_def)
  next
    case True
    then have "w = arriving (network r)" unfolding w by simp
    moreover have "skipChunked r = growChunked ?r" using True by (simp add: skipChunked_def skipWith_def)
    moreover have "w \<noteq> []" if "bodyAt r' w" for r' :: "'a bodyIn_scheme" using that by (auto elim: bodyAt_peek)
    ultimately show ?thesis
      using growChunked_step [of ?r] r(1) True sameBody_trans [OF same] by (auto simp: bodyReady_def split: outcome.splits)
  qed
qed

lemma skipE:
  assumes "bodyAt r (b # w)"
  obtains r' where "skipChunked r = Done r'" "bodyAt r' w" "sameBody r r'" "fore r' - chunkBack r' = Suc (fore r) - chunkBack r" "w \<noteq> []"
  | r' where "skipChunked r = Fail r'" "w = [] \<or> chunkBack r = 0 \<and> fore r = 16383"
  using skipChunked_step [OF assms] by (cases "skipChunked r") auto

subsection \<open>Receiving trailers\<close>

definition trailerGood :: "pools \<Rightarrow> int \<Rightarrow> 'a bodyIn_scheme \<Rightarrow> bool" where
  "trailerGood pool s r \<longleftrightarrow> goodPools pool \<and> receivedSize r = s \<and> length (window r) = 16384 \<and> chunkBack r = 0 \<and> arrayEdge r \<le> length (inArray r)"

lemma more_bodyIn:
  assumes "inWindow.more r' = inWindow.more (r :: 'a bodyIn_scheme)"
  shows "chunkBack r' = chunkBack r" "arrayEdge r' = arrayEdge r" "inArray r' = inArray r" "receivedSize r' = receivedSize r"
  using assms by (cases r, cases r', simp)+

lemma trailer_step:
  assumes "view r c (b # w)" "trailerGood pool s r"
  shows "case skipChunked r of
     Panic \<Rightarrow> False
   | Fail r' \<Rightarrow> w = [] \<or> length c + 1 = 16384
   | Done r' \<Rightarrow> view r' (c @ [b]) w \<and> trailerGood pool s r' \<and> inWindow.more r' = inWindow.more r"
proof (cases "Suc (fore r) = winEdge r")
  case False
  then have "Suc (fore r) < winEdge r" using assms(1) by (simp add: view_def)
  from view_forward [OF assms(1) this] show ?thesis
    using False assms(2) by (simp add: skipChunked_def skipWith_def Let_def trailerGood_def)
next
  case True
  note e = view_end [OF assms(1) True]
  have r: "length (window r) = 16384" "chunkBack r = 0" "winEdge r \<le> 16384" "noEmpty (network r)"
    using assms by (simp_all add: trailerGood_def view_def)
  let ?r = "r\<lparr>fore := Suc (fore r)\<rparr>"
  have skip: "skipChunked r = growChunked ?r" using True by (simp add: skipChunked_def skipWith_def)
  note step = growChunked_step [of ?r]
  show ?thesis
  proof (cases "growChunked ?r")
    case Panic
    with step r True show ?thesis by simp
  next
    case (Fail r')
    with step r True e show ?thesis by (auto simp: skip)
  next
    case (Done r')
    with step r True have g: "bodyAt r' (arriving (network r))" "fore r' = winEdge r" "inWindow.more r' = inWindow.more r"
      "take (winEdge r) (window r') = take (winEdge r) (window r)" by simp_all
    have "view r' (c @ [b]) w"
      using g e by (simp add: bodyAt_def bodyReady_def unread_def view_def)
    with Done g more_bodyIn [OF g(3)] assms(2) show ?thesis
      by (simp add: skip trailerGood_def bodyAt_def bodyReady_def)
  qed
qed

interpretation trailer: window_reader skipChunked "trailerGood pool s" for pool s
proof
  show "trailerGood pool s r \<Longrightarrow> poke x r = Some r' \<Longrightarrow> trailerGood pool s r'" for r r' :: "'a bodyIn_scheme" and x
    by (auto simp: trailerGood_def poke_def put_def split: if_splits)
qed (rule trailer_step)

lemma view_sub: "view r c w \<Longrightarrow> b \<le> length c \<Longrightarrow> a \<le> b \<Longrightarrow> sub (window r) a b \<noteq> None"
  by (auto simp: view_def sub_def)

lemma sameHead_view:
  assumes "sameHead r r'" "view r c w"
  shows "view r' c w" "window r' = window r"
  using assms by (auto simp: sameHead_def view_def)

lemma sameHead_body:
  assumes "sameHead r (r' :: 'a bodyIn_scheme)"
  shows "chunkBack r' = chunkBack r" "receivedSize r' = receivedSize r"
  using assms by (auto simp: sameHead_def)

lemma arrayHolds_ex: "arrayEdge r \<le> length (inArray r) \<Longrightarrow> arrayHolds r (take (arrayEdge r) (inArray r))"
  by (simp add: arrayHolds_def)

lemma arrayCopy_trailer:
  assumes "view r c w" "trailerGood pool s r"
  shows "\<exists>ok r'. arrayCopy pool src r = Some (ok, r') \<and> view r' c w \<and> trailerGood pool s r' \<and> window r' = window r"
proof -
  have r: "goodPools pool" "arrayEdge r \<le> length (inArray r)" using assms(2) by (simp_all add: trailerGood_def)
  obtain ok r' where r': "arrayCopy pool src r = Some (ok, r')" "sameHead r r'" "\<exists>p. arrayHolds r' p"
    using arrayCopy_holds [OF r(1) arrayHolds_ex [OF r(2)], of src] by (metis (full_types))
  have "arrayEdge r' \<le> length (inArray r')" using r'(3) by (auto simp: arrayHolds_def)
  with r'(1) sameHead_view [OF r'(2) assms(1)] sameHead_body [OF r'(2)] assms(2) show ?thesis
    by (auto simp: trailerGood_def)
qed

lemma keepsView_keepTrailerLine: "keepsView (trailerGood pool s) (keepTrailerLine pool)"
  unfolding keepsView_def
proof (intro allI impI)
  fix x :: pair and r :: "'a bodyIn_scheme" and c w
  assume v: "view r c w" "trailerGood pool s r"
    and x: "pairNameFrom x + pairNameSize x \<le> length c" "pairValueFrom x \<le> pairValueEdge x" "pairValueEdge x \<le> length c"
  obtain name where name: "nameAt (window r) x = Some name"
    using view_sub [OF v(1) x(1), of "pairNameFrom x"] by (auto simp: nameAt_def)
  obtain val where val: "valueAt (window r) x = Some val"
    using view_sub [OF v(1) x(3,2)] by (auto simp: valueAt_def)
  obtain ok r1 where r1: "arrayCopy pool name r = Some (ok, r1)" "view r1 c w" "trailerGood pool s r1" "window r1 = window r"
    using arrayCopy_trailer [OF v] by blast
  obtain ok' r2 where r2: "arrayCopy pool val r1 = Some (ok', r2)" "view r2 c w" "trailerGood pool s r2"
    using arrayCopy_trailer [OF r1(2,3)] by blast
  have v': "valueAt (window r1) (x\<lparr>pairNameFrom := i\<rparr>) = Some val" for i using val r1(4) by (simp add: valueAt_def)
  have add: "case addTrailerLine y r2 of Panic \<Rightarrow> False | Fail _ \<Rightarrow> True | Done r' \<Rightarrow> view r' c w \<and> trailerGood pool s r'" for y
    using r2(2,3) by (auto simp: addTrailerLine_def addPrime_def Let_def view_def trailerGood_def)
  show "case keepTrailerLine pool x r of Panic \<Rightarrow> False | Fail _ \<Rightarrow> True | Done r' \<Rightarrow> view r' c w \<and> trailerGood pool s r'"
    using name r1(1) v' r2(1) add by (simp add: keepTrailerLine_def Let_def)
qed

lemma recvTrailerLines_spec:
  assumes "bodyAt r w" "goodPools pool" "arrayEdge r \<le> length (inArray r)"
  shows "case recvTrailerLines pool r of
     Panic \<Rightarrow> False
   | Fail _ \<Rightarrow> True
   | Done r' \<Rightarrow> \<exists>v. bodyAt r' (0x0A # v) \<and> arrayEdge r' \<le> length (inArray r') \<and> receivedSize r' = receivedSize r"
proof -
  let ?used = "slice (window r) (fore r) (winEdge r)"
  have r: "length (window r) = 16384" "fore r < winEdge r" "winEdge r \<le> 16384" "noEmpty (network r)"
    using assms(1) by (simp_all add: bodyAt_def bodyReady_def)
  have w: "w = ?used @ arriving (network r)" using assms(1) by (simp add: bodyAt_def unread_def)
  let ?r = "r\<lparr>window := copyAt (window r) 0 ?used, fore := 0, winEdge := winEdge r - fore r, chunkBack := 0,
          trailerLines := (length (primes r), length (primes r))\<rparr>"
  have len: "length ?used = winEdge r - fore r" using r by simp
  have "slice (copyAt (window r) 0 ?used) 0 (0 + length ?used) = ?used" using r by (intro slice_copyAt_same) simp
  then have v: "view ?r [] w" "trailerGood pool (receivedSize r) ?r"
    using r assms(2,3) by (simp_all add: view_def trailerGood_def w len)
  let ?n = "unreadSize ?r"
  have n: "length w \<le> ?n" "length w < ?n + 1" using unreadSize_view [OF v(1)] by simp_all
  note spec = trailer.recvLines_spec [OF keepsView_keepTrailerLine v n, of badTrailer]
  have unfold: "recvTrailerLines pool r = recvLines skipChunked badTrailer (keepTrailerLine pool) ?n (?n + 1) ?r"
    using r by (simp add: recvTrailerLines_def panic_simps Let_def)
  show ?thesis
  proof (cases "recvLines skipChunked badTrailer (keepTrailerLine pool) ?n (?n + 1) ?r")
    case (Done r')
    with spec obtain c v where "view r' c (0x0A # v)" "trailerGood pool (receivedSize r) r'" by auto
    then have "bodyAt r' (0x0A # v)" "arrayEdge r' \<le> length (inArray r')" "receivedSize r' = receivedSize r"
      by (auto simp: bodyAt_def bodyReady_def unread_def view_def trailerGood_def)
    with Done show ?thesis unfolding unfold by auto
  qed (use spec in \<open>simp_all add: unfold\<close>)
qed

subsection \<open>The line of a chunk\<close>

definition posAt :: "'a bodyIn_scheme \<Rightarrow> nat" where
  "posAt r = fore r - chunkBack r"

lemma skipPosE:
  assumes "bodyAt r (b # w)"
  obtains r' where "skipChunked r = Done r'" "bodyAt r' w" "sameBody r r'" "posAt r' = Suc (posAt r)" "w \<noteq> []"
  | r' where "skipChunked r = Fail r'" "w = [] \<or> posAt r = 16383"
proof -
  have "chunkBack r \<le> fore r" using assms by (simp add: bodyAt_def bodyReady_def)
  then show ?thesis using skipE [OF assms] that by (metis Suc_diff_le diff_zero posAt_def)
qed

lemma bodyAt_nonempty: "\<not> bodyAt r []"
  by (auto elim: bodyAt_peek)

lemma bodyAt_at: "bodyAt r (b # w) \<Longrightarrow> peek r = Some b"
  by (auto elim: bodyAt_peek)

lemma i64_id: "0 \<le> k \<Longrightarrow> k < 2 ^ 63 \<Longrightarrow> i64 k = k"
  by (simp add: i64_def signed_take_bit_int_eq_self)

lemma hexVal_chunkNibble: "hexVal b = map_option unat (chunkNibble b)"
  by (auto simp: hexVal_def byteFromHex_def chunkNibble_def word_le_nat_alt)

definition isHex :: "byte \<Rightarrow> bool" where
  "isHex b \<longleftrightarrow> hexVal b \<noteq> None"

lemma not_isHex: "\<not> isHex 13" "\<not> isHex 10" "\<not> isHex 59"
  by (simp_all add: isHex_def hexVal_def byteFromHex_def)

lemma recvChunkSize_spec:
  assumes "bodyAt r w" "posAt r < 16" "17 \<le> n + posAt r" "m < 16 ^ posAt r"
  shows "case recvChunkSize n (int m) r of
     Panic \<Rightarrow> False
   | Fail _ \<Rightarrow> dropWhile isHex w = [] \<or> 16 \<le> posAt r + length (takeWhile isHex w)
   | Done (k, r') \<Rightarrow> (\<exists>m'. k = int m' \<and> m' < 16 ^ posAt r' \<and> valueOf hexVal 16 m (takeWhile isHex w) = Some m') \<and>
       bodyAt r' (dropWhile isHex w) \<and> sameBody r r' \<and> posAt r' = posAt r + length (takeWhile isHex w) \<and> posAt r' < 16"
  using assms
proof (induction n arbitrary: r w m)
  case (Suc n)
  obtain b v where w: "w = b # v" "peek r = Some b" using Suc.prems(1) by (rule bodyAt_peek)
  show ?case
  proof (cases "chunkNibble b")
    case None
    then have "\<not> isHex b" by (simp add: isHex_def hexVal_chunkNibble)
    with w None Suc.prems show ?thesis by simp
  next
    case (Some d)
    then have hex: "isHex b" "hexVal b = Some (unat d)" by (simp_all add: isHex_def hexVal_chunkNibble)
    then have d: "unat d < 16" by (metis hexVal_less)
    show ?thesis
    proof (cases "posAt r = 15")
      case True
      then have "fore r + 1 - chunkBack r \<ge> 16" using Suc.prems(1) by (simp add: posAt_def bodyAt_def bodyReady_def)
      then show ?thesis using w Some hex True by simp
    next
      case False
      then have p: "posAt r < 15" using Suc.prems(2) by simp
      then have near: "\<not> fore r + 1 - chunkBack r \<ge> 16" using Suc.prems(1) by (simp add: posAt_def bodyAt_def bodyReady_def)
      have "16 * (m + 1) \<le> 16 * 16 ^ posAt r" using Suc.prems(4) by (intro mult_left_mono) simp_all
      then have m: "16 * m + unat d < 16 ^ Suc (posAt r)" using d by simp
      also have "(16 :: nat) ^ Suc (posAt r) \<le> 16 ^ 15" using p by (intro power_increasing) simp_all
      finally have "int (16 * m + unat d) < int (16 ^ 15)" by (simp only: of_nat_less_iff)
      then have "int (16 * m + unat d) < 2 ^ 60" by simp
      then have k: "i64 (i64 (int m * 16) + uint d) = int (16 * m + unat d)"
      proof -
        have "int m * 16 + uint d < 1152921504606846976" "0 \<le> uint d" using \<open>int (16 * m + unat d) < 2 ^ 60\<close> by simp_all
        then have "int m * 16 < 9223372036854775808" "int m * 16 + uint d < 9223372036854775808" by linarith+
        then have a: "int m * 16 < 2 ^ 63" "int m * 16 + uint d < 2 ^ 63" by simp_all
        have "i64 (int m * 16) = int m * 16" by (rule i64_id [OF _ a(1)]) simp
        moreover have "i64 (int m * 16 + uint d) = int m * 16 + uint d" by (rule i64_id [OF _ a(2)]) simp
        ultimately show ?thesis by simp
      qed
      have s: "bodyAt r (b # v)" using Suc.prems(1) w(1) by simp
      have unfold: "recvChunkSize (Suc n) (int m) r = andThen (skipChunked r) (recvChunkSize n (int (16 * m + unat d)))"
        using w(2) Some near by (simp add: k Let_def)
      show ?thesis
      proof (cases rule: skipPosE [OF s, case_names moved stuck])
        case (moved r1)
        have "posAt r1 < 16" "17 \<le> n + posAt r1" "16 * m + unat d < 16 ^ posAt r1" using moved(4) p m Suc.prems(3) by simp_all
        from Suc.IH [OF moved(2) this] show ?thesis
          unfolding unfold using moved(1,4) w(1) hex sameBody_trans [OF moved(3)]
          by (auto simp: mult.commute split: outcome.splits)
      next
        case (stuck r1)
        then show ?thesis unfolding unfold using w(1) hex p by auto
      qed
    qed
  qed
qed simp

lemma skipChunkExt_spec:
  assumes "bodyAt r w" "length w \<le> n"
  shows "case skipChunkExt n r of
     Panic \<Rightarrow> False
   | Fail _ \<Rightarrow> True
   | Done r' \<Rightarrow> \<exists>v. bodyAt r' v \<and> length v \<le> length w \<and> sameBody r r'"
  using assms
proof (induction n arbitrary: r w)
  case 0
  then show ?case using bodyAt_nonempty by auto
next
  case (Suc n)
  obtain b v where w: "w = b # v" "peek r = Some b" using Suc.prems(1) by (rule bodyAt_peek)
  have s: "bodyAt r (b # v)" using Suc.prems(1) w(1) by simp
  show ?case
  proof (cases "b = 0x0A")
    case True
    with w Suc.prems(1) show ?thesis by auto
  next
    case False
    show ?thesis
    proof (cases rule: skipPosE [OF s, case_names moved stuck])
      case (moved r1)
      have "length v \<le> n" using Suc.prems(2) w(1) by simp
      from Suc.IH [OF moved(2) this] show ?thesis
        using moved(1) w False sameBody_trans [OF moved(3)] by (fastforce split: outcome.splits)
    next
      case (stuck r1)
      then show ?thesis using w False by simp
    qed
  qed
qed

lemma expectLF_spec:
  assumes "bodyAt r (b # w)"
  shows "expectLF r = (if b = 0x0A then Done r else Fail r)"
  using bodyAt_at [OF assms] by (simp add: expectLF_def)

lemma unread_size: "bodyAt r w \<Longrightarrow> unreadSize r = length w"
  by (auto simp: bodyAt_def bodyReady_def unreadSize_def unread_def)

lemma target_fits:
  assumes "0 \<le> a" "a \<le> most" "most < 2 ^ 63" "0 \<le> k" "k < 2 ^ 60"
  shows "0 \<le> i64 (a + k) \<and> i64 (a + k) \<le> most \<longleftrightarrow> a + k \<le> most"
proof (cases "a + k < 2 ^ 63")
  case True
  with assms show ?thesis by (simp add: i64_id)
next
  case False
  then have r: "2 ^ 63 \<le> a + k" "a + k - 2 ^ 64 < 0" "- (2 ^ 63) \<le> a + k - 2 ^ 64" using assms by simp_all
  have "i64 (a + k) = i64 (a + k - 2 ^ 64)"
    unfolding i64_def by (rule signed_take_bit_eq_iff_take_bit_eq [THEN iffD2]) (simp add: take_bit_eq_mod)
  also have "\<dots> = a + k - 2 ^ 64" using r unfolding i64_def by (intro signed_take_bit_int_eq_self) simp_all
  finally show ?thesis using r assms by simp
qed

definition sizesOk :: "'a bodyIn_scheme \<Rightarrow> bool" where
  "sizesOk r \<longleftrightarrow> 0 \<le> receivedSize r \<and> receivedSize r \<le> maxContentSize r \<and> maxContentSize r < 2 ^ 63"

lemma sameBody_back: "sameBody r (r\<lparr>chunkBack := c\<rparr>)"
  unfolding sameBody_def
  by (rule exI [of _ "window r"], rule exI [of _ "fore r"], rule exI [of _ "winEdge r"], rule exI [of _ "network r"],
    rule exI [of _ c]) simp

lemma posAt_start: "bodyAt r w \<Longrightarrow> bodyAt (r\<lparr>chunkBack := fore r\<rparr>) w \<and> posAt (r\<lparr>chunkBack := fore r\<rparr>) = 0 \<and> sameBody r (r\<lparr>chunkBack := fore r\<rparr>)"
  by (simp add: bodyAt_def bodyReady_def unread_def posAt_def sameBody_back)

lemma recvChunkLine_safe:
  assumes "bodyAt r w" "sizesOk r"
  shows "case recvChunkLine r of
     Panic \<Rightarrow> False
   | Fail _ \<Rightarrow> True
   | Done r' \<Rightarrow> \<exists>v k r1. bodyAt r' v \<and> length v < length w \<and> sameBody r r1 \<and> sameBody (r1\<lparr>chunkSize := k\<rparr>) r' \<and>
       0 \<le> k \<and> receivedSize r + k \<le> maxContentSize r"
proof -
  let ?r = "r\<lparr>chunkBack := fore r\<rparr>"
  note s = posAt_start [OF assms(1)]
  have "case recvChunkSize 17 (int 0) ?r of
     Panic \<Rightarrow> False
   | Fail _ \<Rightarrow> dropWhile isHex w = [] \<or> 16 \<le> posAt ?r + length (takeWhile isHex w)
   | Done (k, r') \<Rightarrow> (\<exists>m'. k = int m' \<and> m' < 16 ^ posAt r' \<and> valueOf hexVal 16 0 (takeWhile isHex w) = Some m') \<and>
       bodyAt r' (dropWhile isHex w) \<and> sameBody ?r r' \<and> posAt r' = posAt ?r + length (takeWhile isHex w) \<and> posAt r' < 16"
    by (rule recvChunkSize_spec) (use s in simp_all)
  note size = this
  show ?thesis
  proof (cases "recvChunkSize 17 0 ?r")
    case Panic
    with size show ?thesis by simp
  next
    case (Fail r1)
    then show ?thesis by (simp add: recvChunkLine_def)
  next
    case (Done x)
    obtain k r1 where x: "x = (k, r1)" by (cases x)
    from size Done x obtain m where m: "k = int m" "m < 16 ^ posAt r1" "bodyAt r1 (dropWhile isHex w)" "sameBody ?r r1" "posAt r1 < 16"
      by auto
    have "(16 :: nat) ^ posAt r1 \<le> 16 ^ 15" using m(5) by (intro power_increasing) simp_all
    with m(2) have "m < 16 ^ 15" by (rule less_le_trans)
    then have "int m < int (16 ^ 15)" by (simp only: of_nat_less_iff)
    then have k: "0 \<le> k" "k < 2 ^ 60" using m(1) by simp_all
    obtain b v where v: "dropWhile isHex w = b # v" "peek r1 = Some b" using m(3) by (rule bodyAt_peek)
    have lv: "length (b # v) \<le> length w" using v(1) length_dropWhile_le [of isHex w] by simp
    have at1: "bodyAt r1 (b # v)" using m(3) v(1) by simp
    have same1: "sameBody r r1" using s m(4) sameBody_trans by blast
    define mid where "mid = (if b = ch CHR '';'' then skipChunkExt (unreadSize r1) r1 else if b = 0x0D then skipChunked r1 else Done r1)"
    have unfold: "recvChunkLine r = andThen mid (\<lambda>r.
      andThen (expectLF r) (\<lambda>r.
      let targetSize = i64 (receivedSize r + k) in
      if \<not> (targetSize \<ge> 0 \<and> targetSize \<le> maxContentSize r) then Fail r
      else skipChunked (r\<lparr>chunkSize := k\<rparr>)))"
      using Done x k(1) v(2) by (simp add: recvChunkLine_def mid_def)
    have "case mid of Panic \<Rightarrow> False | Fail _ \<Rightarrow> True | Done r2 \<Rightarrow> \<exists>v'. bodyAt r2 v' \<and> length v' \<le> length w \<and> sameBody r1 r2"
    proof (cases "b = ch CHR '';''")
      case True
      with skipChunkExt_spec [OF at1, of "unreadSize r1"] unread_size [OF at1] lv show ?thesis
        by (fastforce simp: mid_def split: outcome.splits)
    next
      case F: False
      show ?thesis
      proof (cases "b = 0x0D")
        case True
        show ?thesis
        proof (cases rule: skipPosE [OF at1, case_names moved stuck])
          case (moved r2)
          then show ?thesis using F True lv by (auto simp: mid_def)
        next
          case (stuck r2)
          then show ?thesis using F True by (simp add: mid_def)
        qed
      next
        case False
        with F at1 lv show ?thesis by (auto simp: mid_def)
      qed
    qed
    note mid = this
    show ?thesis
    proof (cases mid)
      case Panic
      with mid show ?thesis by simp
    next
      case (Fail r2)
      then show ?thesis by (simp add: unfold)
    next
      case (Done r2)
      with mid obtain v' where v': "bodyAt r2 v'" "length v' \<le> length w" "sameBody r1 r2" by auto
      obtain b' v'' where v'': "v' = b' # v''" "peek r2 = Some b'" using v'(1) by (rule bodyAt_peek)
      have same2: "sameBody r r2" using same1 v'(3) by (rule sameBody_trans)
      have at2: "bodyAt (r2\<lparr>chunkSize := k\<rparr>) (b' # v'')"
        using v'(1) v''(1) by (simp add: bodyAt_def bodyReady_def unread_def)
      show ?thesis
      proof (cases "b' = 0x0A \<and> receivedSize r + k \<le> maxContentSize r")
        case False
        then show ?thesis
          using Done expectLF_spec [of r2 b' v''] v'(1) v''(1) target_fits [of "receivedSize r" "maxContentSize r" k] k assms(2)
          by (auto simp: unfold sizesOk_def sameBody_fields [OF same2] Let_def)
      next
        case True
        then have run: "recvChunkLine r = skipChunked (r2\<lparr>chunkSize := k\<rparr>)"
          using Done expectLF_spec [of r2 b' v''] v'(1) v''(1) target_fits [of "receivedSize r" "maxContentSize r" k] k assms(2)
          by (auto simp: unfold sizesOk_def sameBody_fields [OF same2] Let_def)
        show ?thesis
        proof (cases rule: skipPosE [OF at2, case_names moved stuck])
          case (moved r3)
          have "length v'' < length w" using v'(2) v''(1) by simp
          with moved same2 True k(1) show ?thesis unfolding run by auto
        next
          case (stuck r3)
          then show ?thesis unfolding run by simp
        qed
      qed
    qed
  qed
qed

text \<open>The line as the sender of this program writes it.\<close>

lemma recvChunkLine_reads:
  assumes "bodyAt r (ds @ 0x0D # 0x0A # v)" "v \<noteq> []" "sizesOk r" "list_all isHex ds" "length ds < 16"
    and "valueOf hexVal 16 0 ds = Some k" "receivedSize r + int k \<le> maxContentSize r"
  shows "\<exists>r' r1. recvChunkLine r = Done r' \<and> bodyAt r' v \<and> sameBody r r1 \<and> sameBody (r1\<lparr>chunkSize := int k\<rparr>) r' \<and> posAt r' < 18"
proof -
  let ?r = "r\<lparr>chunkBack := fore r\<rparr>" and ?w = "ds @ 0x0D # 0x0A # v"
  note s = posAt_start [OF assms(1)]
  have tw: "takeWhile isHex ?w = ds" "dropWhile isHex ?w = 0x0D # 0x0A # v"
    using assms(4) not_isHex by (simp_all add: takeWhile_stop dropWhile_stop)
  have "case recvChunkSize 17 (int 0) ?r of
     Panic \<Rightarrow> False
   | Fail _ \<Rightarrow> dropWhile isHex ?w = [] \<or> 16 \<le> posAt ?r + length (takeWhile isHex ?w)
   | Done (k, r') \<Rightarrow> (\<exists>m'. k = int m' \<and> m' < 16 ^ posAt r' \<and> valueOf hexVal 16 0 (takeWhile isHex ?w) = Some m') \<and>
       bodyAt r' (dropWhile isHex ?w) \<and> sameBody ?r r' \<and> posAt r' = posAt ?r + length (takeWhile isHex ?w) \<and> posAt r' < 16"
    by (rule recvChunkSize_spec) (use s in simp_all)
  then obtain r1 where r1: "recvChunkSize 17 0 ?r = Done (int k, r1)" "bodyAt r1 (0x0D # 0x0A # v)" "sameBody ?r r1" "posAt r1 < 16"
    "k < 16 ^ posAt r1"
    using assms(5,6) s unfolding tw by (cases "recvChunkSize 17 0 ?r") auto
  have same1: "sameBody r r1" using s r1(3) sameBody_trans by blast
  have "(16 :: nat) ^ posAt r1 \<le> 16 ^ 15" using r1(4) by (intro power_increasing) simp_all
  with r1(5) have "k < 16 ^ 15" by (rule less_le_trans)
  then have "int k < int (16 ^ 15)" by (simp only: of_nat_less_iff)
  then have k: "int k < 2 ^ 60" by simp
  obtain r2 where r2: "skipChunked r1 = Done r2" "bodyAt r2 (0x0A # v)" "sameBody r1 r2" "posAt r2 = Suc (posAt r1)"
  proof (cases rule: skipPosE [OF r1(2), case_names moved stuck])
    case (moved r2)
    then show thesis by (intro that)
  next
    case (stuck r2)
    then show thesis using r1(4) by simp
  qed
  have same2: "sameBody r r2" using same1 r2(3) by (rule sameBody_trans)
  have at2: "bodyAt (r2\<lparr>chunkSize := int k\<rparr>) (0x0A # v)" using r2(2) by (simp add: bodyAt_def bodyReady_def unread_def)
  have run: "recvChunkLine r = skipChunked (r2\<lparr>chunkSize := int k\<rparr>)"
    using r1(1) bodyAt_at [OF r1(2)] r2(1) expectLF_spec [OF r2(2)] target_fits [of "receivedSize r" "maxContentSize r" "int k"] k assms(3,7)
    by (simp add: recvChunkLine_def sizesOk_def sameBody_fields [OF same2] Let_def)
  show ?thesis
  proof (cases rule: skipPosE [OF at2, case_names moved stuck])
    case (moved r3)
    moreover have "posAt r3 < 18" using moved(4) r2(4) r1(4) by (simp add: posAt_def)
    ultimately show ?thesis using same2 unfolding run by auto
  next
    case (stuck r3)
    then show ?thesis using assms(2) r2(4) r1(4) by (simp add: posAt_def)
  qed
qed

subsection \<open>The data of a chunk\<close>

text \<open>What reading content changes beside the window.\<close>

definition sameChunk :: "'a bodyIn_scheme \<Rightarrow> 'a bodyIn_scheme \<Rightarrow> bool" where
  "sameChunk r r' \<longleftrightarrow> (\<exists>p f e n s c k. r' = r\<lparr>window := p, fore := f, winEdge := e, network := n, receivedSize := s,
     chunkBack := c, chunkSize := k\<rparr>)"

lemma sameChunkI:
  "sameChunk r (r\<lparr>window := p, fore := f, winEdge := e, network := n, receivedSize := s, chunkBack := c, chunkSize := k\<rparr>)"
  unfolding sameChunk_def by blast

lemma sameBody_sameChunk: "sameBody r r' \<Longrightarrow> sameChunk r (r'\<lparr>chunkSize := k\<rparr>)"
proof -
  assume "sameBody r r'"
  then obtain p f e n c where "r' = r\<lparr>window := p, fore := f, winEdge := e, network := n, chunkBack := c\<rparr>"
    unfolding sameBody_def by blast
  then have "r'\<lparr>chunkSize := k\<rparr> = r\<lparr>window := p, fore := f, winEdge := e, network := n, receivedSize := receivedSize r,
     chunkBack := c, chunkSize := k\<rparr>" by (cases r) simp
  then show ?thesis using sameChunkI [where r = r and p = p and f = f and e = e and n = n and s = "receivedSize r" and c = c and k = k] by simp
qed

lemma sameChunk_refl [simp]: "sameChunk r r"
  using sameBody_sameChunk [OF sameBody_refl, of r "chunkSize r"] by simp

lemma sameChunk_trans: "sameChunk r r' \<Longrightarrow> sameChunk r' r'' \<Longrightarrow> sameChunk r r''"
  unfolding sameChunk_def by fastforce

lemma sameBody_chunk: "sameBody r r' \<Longrightarrow> sameChunk r r'"
  using sameBody_sameChunk [of r r' "chunkSize r'"] by simp

lemma sameChunk_fields:
  assumes "sameChunk r r'"
  shows "maxContentSize r' = maxContentSize r" "bodyOpen r' = bodyOpen r" "imme r' = imme r" "arrayEdge r' = arrayEdge r"
    "inArray r' = inArray r" "headInput r' = headInput r" "inputNext r' = inputNext r" "inputEdge r' = inputEdge r"
    "overChunked r' = overChunked r" "primes r' = primes r" "inContentSize r' = inContentSize r"
  using assms by (auto simp: sameChunk_def)

lemma slice_cut: "a \<le> b \<Longrightarrow> b \<le> c \<Longrightarrow> c \<le> length xs \<Longrightarrow> slice xs a c = slice xs a b @ slice xs b c"
proof -
  assume "a \<le> b" "b \<le> c"
  then have split: "c - a = (b - a) + (c - b)" and "b - a + a = b" by simp_all
  show ?thesis unfolding slice_def split take_add using \<open>b - a + a = b\<close> by simp
qed

text \<open>
  How far a chunk is read: \<open>k\<close> is \<open>chunkSize\<close>, \<open>w\<close> the octets that were not consumed, \<open>d\<close> the data still to come,
  and \<open>tail\<close> what follows the chunk and its line end.
\<close>

definition pendingChunk :: "int \<Rightarrow> bytes \<Rightarrow> bytes \<Rightarrow> bytes \<Rightarrow> bool" where
  "pendingChunk k w d tail \<longleftrightarrow>
     k = int (length d) \<and> d \<noteq> [] \<and> w = d @ 0x0D # 0x0A # tail \<or>
     d = [] \<and> (k = - 2 \<and> w = 0x0D # 0x0A # tail \<or> k = - 1 \<and> w = 0x0A # tail \<or> k = 0 \<and> w = tail)"

lemma takeChunkData_safe:
  assumes "bodyAt r w" "0 < chunkSize r"
  shows "case takeChunkData r of
     Panic \<Rightarrow> False
   | Fail _ \<Rightarrow> True
   | Done (data, r') \<Rightarrow> data \<noteq> [] \<and> int (length data) + max 0 (chunkSize r') \<le> chunkSize r \<and> - 2 \<le> chunkSize r' \<and> bodyReady r' \<and>
       receivedSize r' = receivedSize r + int (length data) \<and> sameChunk r r' \<and> length (unread r') < length w \<and>
       (chunkSize r' < 0 \<longrightarrow> winEdge r' = 0)"
proof -
  have r: "length (window r) = 16384" "fore r < winEdge r" "winEdge r \<le> 16384" "noEmpty (network r)"
    using assms(1) by (simp_all add: bodyAt_def bodyReady_def)
  have w: "w = slice (window r) (fore r) (winEdge r) @ arriving (network r)" using assms(1) by (simp add: bodyAt_def unread_def)
  let ?have = "int (winEdge r) - int (fore r)"
  show ?thesis
  proof (cases "?have \<le> chunkSize r")
    case True
    let ?k = "if ?have = chunkSize r then - 2 else chunkSize r - ?have"
    let ?r = "r\<lparr>window := window r, fore := 0, winEdge := 0, network := network r, receivedSize := receivedSize r + ?have, chunkBack := 0, chunkSize := ?k\<rparr>"
    have "takeChunkData r = Done (slice (window r) (fore r) (winEdge r), ?r)"
      using True r by (simp add: takeChunkData_def Let_def panic_simps)
    moreover have "sameChunk r ?r" by (rule sameChunkI)
    moreover have "slice (window r) (fore r) (winEdge r) \<noteq> []" using r by (simp flip: length_greater_0_conv)
    ultimately show ?thesis using True r assms(2) by (simp add: bodyReady_def unread_def w)
  next
    case False
    define k where "k = nat (chunkSize r)"
    define edge where "edge = fore r + k"
    have k: "0 < k" "chunkSize r = int k" using assms(2) by (simp_all add: k_def)
    have edge: "edge < winEdge r" "fore r < edge" using False k by (simp_all add: edge_def)
    define d where "d = slice (window r) (fore r) edge"
    have d: "length d = k" "sub (window r) (fore r) edge = Some d" using r edge by (simp_all add: d_def panic_simps edge_def)
    then have ne: "d \<noteq> []" using k by auto
    have b: "idx (window r) edge = Some (window r ! edge)" using r edge by (simp add: panic_simps)
    let ?r = "\<lambda>f e c. r\<lparr>window := window r, fore := f, winEdge := e, network := network r, receivedSize := receivedSize r + int k,
      chunkBack := 0, chunkSize := c\<rparr>"
    have same: "sameChunk r (?r f e c)" for f e c by (rule sameChunkI)
    have same': "sameChunk r (r\<lparr>fore := f, receivedSize := receivedSize r + int k, chunkBack := 0, chunkSize := c\<rparr>)" for f c
      using same [where f = f and e = "winEdge r" and c = c] by simp
    have len: "length w = winEdge r - fore r + length (arriving (network r))" using r by (simp add: w)
    show ?thesis
    proof (cases "winEdge r - edge = 1")
      case True
      have "takeChunkData r = (if window r ! edge = 0x0D then Done (d, ?r 0 0 (- 1))
          else if window r ! edge = 0x0A then Done (d, ?r 0 0 0) else Fail (?r (fore r) (winEdge r) (chunkSize r)))"
        using False b d(2) True r k by (simp add: takeChunkData_def Let_def flip: edge_def k_def)
      then show ?thesis
        using r k d(1) ne same len by (auto simp: bodyReady_def unread_def)
    next
      case F: False
      then have two: "edge + 2 \<le> winEdge r" using edge by linarith
      then have b': "idx (window r) (Suc edge) = Some (window r ! Suc edge)" using r by (simp add: panic_simps)
      let ?b = "window r ! edge" and ?b' = "window r ! Suc edge"
      have run: "takeChunkData r = (if ?b = 0x0D \<and> ?b' = 0x0A then
            if winEdge r - edge = 2 then Done (d, ?r 0 0 0) else Done (d, ?r (edge + 2) (winEdge r) 0)
          else if ?b = 0x0A then Done (d, ?r (edge + 1) (winEdge r) 0)
          else Fail (?r (fore r) (winEdge r) (chunkSize r)))"
        using False b b' d(2) F r k by (simp add: takeChunkData_def Let_def flip: edge_def k_def)
      consider "?b = 0x0D \<and> ?b' = 0x0A" "winEdge r - edge = 2" | "?b = 0x0D \<and> ?b' = 0x0A" "edge + 2 < winEdge r"
        | "?b = 0x0A" | "\<not> (?b = 0x0D \<and> ?b' = 0x0A)" "?b \<noteq> 0x0A" using two by fastforce
      then show ?thesis
      proof cases
        case 1
        then show ?thesis using r k d(1) ne same len run by (auto simp: bodyReady_def unread_def)
      next
        case 2
        then show ?thesis using r k d(1) ne same same' len run edge by (auto simp: bodyReady_def unread_def)
      next
        case 3
        then show ?thesis using r k d(1) ne same same' len run edge two by (auto simp: bodyReady_def unread_def)
      next
        case 4
        then show ?thesis using run by auto
      qed
    qed
  qed
qed

lemma takeChunkData_reads:
  assumes "bodyAt r w" "pendingChunk (chunkSize r) w d tail" "d \<noteq> []"
  shows "\<exists>d1 d2 r'. takeChunkData r = Done (d1, r') \<and> d = d1 @ d2 \<and> pendingChunk (chunkSize r') (unread r') d2 tail"
proof -
  have r: "length (window r) = 16384" "fore r < winEdge r" "winEdge r \<le> 16384" "noEmpty (network r)"
    using assms(1) by (simp_all add: bodyAt_def bodyReady_def)
  let ?u = "slice (window r) (fore r) (winEdge r)" and ?a = "arriving (network r)"
  have k: "chunkSize r = int (length d)" and w: "d @ 0x0D # 0x0A # tail = ?u @ ?a"
    using assms by (auto simp: bodyAt_def unread_def pendingChunk_def)
  have lu: "length ?u = winEdge r - fore r" using r by simp
  show ?thesis
  proof (cases "winEdge r - fore r \<le> length d")
    case True
    then have "take (length ?u) d = ?u" "?a = drop (length ?u) d @ 0x0D # 0x0A # tail"
      using w lu by (auto simp: append_eq_append_conv_if split: if_splits)
    then obtain d2 where d2: "d = ?u @ d2" "?a = d2 @ 0x0D # 0x0A # tail"
      by (metis append_take_drop_id)
    let ?r = "r\<lparr>fore := 0, winEdge := 0, receivedSize := receivedSize r + (int (winEdge r) - int (fore r)), chunkBack := 0,
      chunkSize := (if int (winEdge r) - int (fore r) = chunkSize r then - 2 else chunkSize r - (int (winEdge r) - int (fore r)))\<rparr>"
    have "takeChunkData r = Done (?u, ?r)"
    proof -
      have "int (winEdge r) - int (fore r) \<le> chunkSize r" using True r k by simp
      then show ?thesis using r by (simp add: takeChunkData_def Let_def panic_simps)
    qed
    moreover have "pendingChunk (chunkSize ?r) (unread ?r) d2 tail"
      using d2 k lu r arg_cong [OF d2(1), of length] by (auto simp: pendingChunk_def unread_def)
    ultimately show ?thesis using d2(1) by blast
  next
    case False
    define edge where "edge = fore r + length d"
    have edge: "edge < winEdge r" "fore r \<le> edge" using False by (simp_all add: edge_def)
    have split: "?u = slice (window r) (fore r) edge @ slice (window r) edge (winEdge r)"
      using r edge by (intro slice_cut) simp_all
    have ld: "length (slice (window r) (fore r) edge) = length d" using r edge by (simp add: edge_def)
    have d: "d = slice (window r) (fore r) edge" and rest: "0x0D # 0x0A # tail = slice (window r) edge (winEdge r) @ ?a"
      using w ld unfolding split by (auto simp: append_eq_append_conv)
    have s1: "slice (window r) edge (winEdge r) = window r ! edge # slice (window r) (Suc edge) (winEdge r)"
      using r edge by (intro slice_Suc) simp_all
    have cr: "window r ! edge = 0x0D" and rest1: "0x0A # tail = slice (window r) (Suc edge) (winEdge r) @ ?a"
      using rest unfolding s1 by simp_all
    have b: "idx (window r) edge = Some 0x0D" "sub (window r) (fore r) edge = Some d"
      using r edge cr d by (simp_all add: panic_simps)
    let ?r = "\<lambda>f e c. r\<lparr>fore := f, winEdge := e, receivedSize := receivedSize r + int (length d), chunkBack := 0, chunkSize := c\<rparr>"
    have k': "nat (chunkSize r) = length d" "\<not> int (winEdge r) - int (fore r) \<le> chunkSize r" using k False by simp_all
    show ?thesis
    proof (cases "winEdge r - edge = 1")
      case True
      then have "slice (window r) (Suc edge) (winEdge r) = []" by (simp add: slice_def)
      then have "pendingChunk (chunkSize (?r 0 0 (- 1))) (unread (?r 0 0 (- 1))) [] tail"
        using rest1 by (simp add: pendingChunk_def unread_def)
      moreover have "takeChunkData r = Done (d, ?r 0 0 (- 1))"
        using True b k' k by (simp add: takeChunkData_def Let_def flip: edge_def)
      ultimately show ?thesis by (metis append_Nil2)
    next
      case F: False
      then have two: "edge + 2 \<le> winEdge r" using edge by linarith
      have s2: "slice (window r) (Suc edge) (winEdge r) = window r ! Suc edge # slice (window r) (Suc (Suc edge)) (winEdge r)"
        using r two by (intro slice_Suc) simp_all
      have lf: "window r ! Suc edge = 0x0A" and rest2: "tail = slice (window r) (Suc (Suc edge)) (winEdge r) @ ?a"
        using rest1 unfolding s2 by simp_all
      have b': "idx (window r) (Suc edge) = Some 0x0A" using r two lf by (simp add: panic_simps)
      show ?thesis
      proof (cases "winEdge r - edge = 2")
        case True
        then have "slice (window r) (Suc (Suc edge)) (winEdge r) = []" by (simp add: slice_def)
        then have "pendingChunk (chunkSize (?r 0 0 0)) (unread (?r 0 0 0)) [] tail"
          using rest2 by (simp add: pendingChunk_def unread_def)
        moreover have "takeChunkData r = Done (d, ?r 0 0 0)"
          using True b b' k' k by (simp add: takeChunkData_def Let_def flip: edge_def)
        ultimately show ?thesis by (metis append_Nil2)
      next
        case False
        have "pendingChunk (chunkSize (?r (edge + 2) (winEdge r) 0)) (unread (?r (edge + 2) (winEdge r) 0)) [] tail"
          using rest2 by (simp add: pendingChunk_def unread_def)
        moreover have "takeChunkData r = Done (d, ?r (edge + 2) (winEdge r) 0)"
          using False F b b' k' k by (simp add: takeChunkData_def Let_def flip: edge_def)
        ultimately show ?thesis by (metis append_Nil2)
      qed
    qed
  qed
qed

subsection \<open>Reading vague content is safe\<close>

text \<open>The invariant between two reads, while the body window is in use and before.\<close>

definition openInv :: "'a bodyIn_scheme \<Rightarrow> bool" where
  "openInv r \<longleftrightarrow> sizesOk r \<and> arrayEdge r \<le> length (inArray r) \<and> bodyOpen r \<and> fst (imme r) = snd (imme r)"

definition bodyInv :: "'a bodyIn_scheme \<Rightarrow> bool" where
  "bodyInv r \<longleftrightarrow> sizesOk r \<and> arrayEdge r \<le> length (inArray r) \<and> - 2 \<le> chunkSize r \<and>
     receivedSize r + max 0 (chunkSize r) \<le> maxContentSize r \<and> (chunkSize r < 0 \<longrightarrow> winEdge r = 0) \<and>
     (if bodyOpen r then fst (imme r) = snd (imme r) \<and> bodyReady r
      else fore r = 0 \<and> winEdge r = 0 \<and> chunkBack r = 0 \<and> noEmpty (network r) \<and>
        fst (imme r) \<le> snd (imme r) \<and> snd (imme r) \<le> length (headInput r) \<and> length (headInput r) \<le> 16384)"

text \<open>The octets behind the head that were not consumed.\<close>

definition contents :: "'a bodyIn_scheme \<Rightarrow> bytes" where
  "contents r = (if bodyOpen r then unread r
     else slice (headInput r) (fst (imme r)) (snd (imme r)) @ arriving (network r))"

definition filledBody :: "'a bodyIn_scheme \<Rightarrow> 'a bodyIn_scheme \<Rightarrow> bool" where
  "filledBody r r' \<longleftrightarrow> chunkSize r' = chunkSize r \<and> receivedSize r' = receivedSize r \<and> maxContentSize r' = maxContentSize r \<and>
     arrayEdge r' = arrayEdge r \<and> inArray r' = inArray r \<and> bodyOpen r' \<and> fst (imme r') = snd (imme r') \<and>
     headInput r' = headInput r \<and> overChunked r' = overChunked r \<and> inContentSize r' = inContentSize r"

lemma bodyInv_openInv: "bodyInv r \<Longrightarrow> filledBody r r' \<Longrightarrow> openInv r'"
  by (simp add: bodyInv_def openInv_def filledBody_def sizesOk_def)

lemma growChunked_empty:
  assumes "winEdge r = 0" "bodyReady r" "bodyOpen r" "fst (imme r) = snd (imme r)"
  shows "case growChunked r of
     Panic \<Rightarrow> False
   | Fail r' \<Rightarrow> arriving (network r) = []
   | Done r' \<Rightarrow> bodyAt r' (arriving (network r)) \<and> filledBody r r' \<and> posAt r' = 0"
proof -
  have "fore r = 0" "length (window r) = 16384" "chunkBack r = 0" "noEmpty (network r)" using assms by (auto simp: bodyReady_def)
  note r = this
  note step = growChunked_step [of r]
  show ?thesis
  proof (cases "growChunked r")
    case (Done r')
    with step r assms(1) have d: "bodyAt r' (arriving (network r))" "sameBody r r'" "fore r' = 0" by simp_all
    with Done sameBody_fields [OF d(2)] assms(3,4) show ?thesis by (simp add: filledBody_def posAt_def)
  qed (use step r assms(1) in simp_all)
qed

lemma fillBody_spec:
  assumes "goodPools pool" "bodyInv r"
  shows "case fillBody pool r of
     Panic \<Rightarrow> False
   | Fail _ \<Rightarrow> contents r = []
   | Done r' \<Rightarrow> bodyAt r' (contents r) \<and> filledBody r r' \<and> (winEdge r = 0 \<longrightarrow> posAt r' = 0)"
proof (cases "bodyOpen r")
  case True
  then have i: "fst (imme r) = snd (imme r)" "bodyReady r" "contents r = unread r"
    using assms(2) by (simp_all add: bodyInv_def contents_def)
  show ?thesis
  proof (cases "winEdge r = 0")
    case empty: True
    then have "unread r = arriving (network r)" by (simp add: unread_def slice_def)
    then show ?thesis
      using growChunked_empty [OF empty i(2) True i(1)] i(1,3) True empty by (simp add: fillBody_def split: outcome.splits)
  next
    case False
    then have "bodyAt r (unread r)" using i(2) by (auto simp: bodyAt_def bodyReady_def)
    with False i True show ?thesis by (simp add: fillBody_def filledBody_def)
  qed
next
  case False
  let ?r = "r\<lparr>window := GetNK pool 16384, bodyOpen := True\<rparr>"
  have len: "length (GetNK pool 16384) = 16384" using length_GetNK [OF assms(1)] by (simp add: nkSize_def)
  have r: "fore r = 0" "winEdge r = 0" "chunkBack r = 0" "noEmpty (network r)" "fst (imme r) \<le> snd (imme r)"
    "snd (imme r) \<le> length (headInput r)" "length (headInput r) \<le> 16384"
    using assms(2) False by (simp_all add: bodyInv_def)
  then have ready: "bodyReady ?r" "unread ?r = arriving (network r)" by (simp_all add: bodyReady_def len unread_def slice_def)
  show ?thesis
  proof (cases "fst (imme r) = snd (imme r)")
    case True
    then have "contents r = arriving (network r)" using False by (simp add: contents_def)
    then show ?thesis
      using growChunked_empty [of ?r] ready r True False by (simp add: fillBody_def filledBody_def split: outcome.splits)
  next
    case imme: False
    define data where "data = slice (headInput r) (fst (imme r)) (snd (imme r))"
    have d: "0 < length data" "length data \<le> 16384" using imme r by (simp_all add: data_def)
    let ?s = "r\<lparr>window := copyAt (GetNK pool 16384) 0 data, winEdge := length data, imme := (0, 0), bodyOpen := True\<rparr>"
    have "slice (copyAt (GetNK pool 16384) 0 data) 0 (0 + length data) = data" using d len by (intro slice_copyAt_same) simp
    then have "bodyAt ?s (data @ arriving (network r))" using d r len by (simp add: bodyAt_def bodyReady_def unread_def)
    moreover have "contents r = data @ arriving (network r)" using False by (simp add: contents_def data_def)
    moreover have "fillBody pool r = Done ?s"
      using imme False r d len by (simp add: fillBody_def panic_simps data_def [symmetric] Let_def)
    ultimately show ?thesis using r by (simp add: filledBody_def posAt_def)
  qed
qed

lemma takeChunkData_inv:
  assumes "bodyAt r w" "openInv r" "0 < chunkSize r" "receivedSize r + chunkSize r \<le> maxContentSize r"
  shows "case takeChunkData r of
     Panic \<Rightarrow> False
   | Fail _ \<Rightarrow> True
   | Done (data, r') \<Rightarrow> data \<noteq> [] \<and> bodyInv r' \<and> receivedSize r' = receivedSize r + int (length data) \<and>
       maxContentSize r' = maxContentSize r \<and> inContentSize r' = inContentSize r \<and> length (contents r') < length w"
proof (cases "takeChunkData r")
  case (Done x)
  obtain data r' where x: "x = (data, r')" by (cases x)
  note safe = takeChunkData_safe [OF assms(1,3)]
  from safe Done x have d: "data \<noteq> []" "int (length data) + max 0 (chunkSize r') \<le> chunkSize r" "- 2 \<le> chunkSize r'" "bodyReady r'"
    "receivedSize r' = receivedSize r + int (length data)" "sameChunk r r'" "length (unread r') < length w"
    "chunkSize r' < 0 \<longrightarrow> winEdge r' = 0" by auto
  with assms(2,4) Done x show ?thesis
    by (simp add: bodyInv_def openInv_def sizesOk_def sameChunk_fields [OF d(6)] contents_def)
qed (use takeChunkData_safe [OF assms(1,3)] in simp_all)

lemma bodyAt_section: "bodyAt (r\<lparr>receiving := s\<rparr>) w = bodyAt r w"
  by (simp add: bodyAt_def bodyReady_def unread_def)

lemma recvLastChunk_safe:
  assumes "bodyAt r w" "goodPools pool" "arrayEdge r \<le> length (inArray r)"
  shows "case recvLastChunk pool r of Panic \<Rightarrow> False | Fail _ \<Rightarrow> True | Done r' \<Rightarrow> receivedSize r' = receivedSize r"
proof -
  obtain b v where w: "w = b # v" "peek r = Some b" using assms(1) by (rule bodyAt_peek)
  have at1: "bodyAt r (b # v)" using assms(1) w(1) by simp
  let ?r = "r\<lparr>receiving := SectionTrailers\<rparr>"
  have at2: "bodyAt ?r w" "arrayEdge ?r \<le> length (inArray ?r)" using assms(1,3) by (simp_all add: bodyAt_section)
  consider "b = 0x0D" | "b = 0x0A" | "b \<noteq> 0x0D" "b \<noteq> 0x0A" by blast
  then show ?thesis
  proof cases
    case 1
    show ?thesis
    proof (cases rule: skipPosE [OF at1, case_names moved stuck])
      case (moved r1)
      obtain b1 v1 where "v = b1 # v1" "peek r1 = Some b1" using moved(2) by (rule bodyAt_peek)
      then show ?thesis using 1 w(2) moved(1) sameBody_fields(2) [OF moved(3)]
        by (simp add: recvLastChunk_def expectLF_def Let_def)
    next
      case (stuck r1)
      then show ?thesis using 1 w(2) by (simp add: recvLastChunk_def)
    qed
  next
    case 2
    with w(2) show ?thesis by (simp add: recvLastChunk_def Let_def)
  next
    case 3
    then show ?thesis
      using w(2) recvTrailerLines_spec [OF at2(1) assms(2) at2(2)]
      by (cases "recvTrailerLines pool ?r") (auto simp: recvLastChunk_def Let_def)
  qed
qed

text \<open>What a read promises: no panic, octets counted and within the limit, and progress.\<close>

definition readOk :: "'a bodyIn_scheme \<Rightarrow> nat \<Rightarrow> ('a bodyIn_scheme, bytes \<times> bool \<times> 'a bodyIn_scheme) outcome \<Rightarrow> bool" where
  "readOk r n m \<longleftrightarrow> (case m of
     Panic \<Rightarrow> False
   | Fail _ \<Rightarrow> True
   | Done (data, eof, r') \<Rightarrow> receivedSize r' = receivedSize r + int (length data) \<and>
       (if eof then data = [] else data \<noteq> [] \<and> bodyInv r' \<and> maxContentSize r' = maxContentSize r \<and> inContentSize r' = inContentSize r \<and>
          length (contents r') < n))"

lemma startChunk_safe:
  assumes "bodyAt r w" "openInv r" "goodPools pool"
  shows "readOk r (length w) (startChunk pool r)"
proof -
  note line = recvChunkLine_safe [OF assms(1)]
  have sizes: "sizesOk r" using assms(2) by (simp add: openInv_def)
  show ?thesis
  proof (cases "recvChunkLine r")
    case Panic
    with line sizes show ?thesis by simp
  next
    case (Fail r1)
    then show ?thesis by (simp add: startChunk_def readOk_def)
  next
    case (Done r1)
    with line sizes obtain v k r0 where r1: "bodyAt r1 v" "length v < length w" "sameBody r r0" "sameBody (r0\<lparr>chunkSize := k\<rparr>) r1"
      "0 \<le> k" "receivedSize r + k \<le> maxContentSize r" by auto
    note f0 = sameBody_fields [OF r1(3)] and f1 = sameBody_fields [OF r1(4)]
    have "chunkSize r1 = k" "receivedSize r1 = receivedSize r" "maxContentSize r1 = maxContentSize r" "inContentSize r1 = inContentSize r" "openInv r1"
      using f0 f1 assms(2) by (simp_all add: openInv_def sizesOk_def)
    note r1' = this
    show ?thesis
    proof (cases "k = 0")
      case True
      have "arrayEdge r1 \<le> length (inArray r1)" using r1'(5) by (simp add: openInv_def)
      from recvLastChunk_safe [OF r1(1) assms(3) this] True Done r1' show ?thesis
        by (cases "recvLastChunk pool r1") (simp_all add: startChunk_def readOk_def)
    next
      case False
      then have "0 < chunkSize r1" using r1(5) r1'(1) by simp
      from takeChunkData_inv [OF r1(1) r1'(5) this] r1(2,6) r1' False Done show ?thesis
        by (cases "takeChunkData r1") (auto simp: startChunk_def readOk_def)
    qed
  qed
qed

lemma readOk_shift: "readOk r' n m \<Longrightarrow> receivedSize r' = receivedSize r \<Longrightarrow> maxContentSize r' = maxContentSize r \<Longrightarrow>
   inContentSize r' = inContentSize r \<Longrightarrow> n \<le> n' \<Longrightarrow> readOk r n' m"
  by (auto simp: readOk_def split: outcome.splits)

lemma openInv_same: "openInv r \<Longrightarrow> sameBody r r' \<Longrightarrow> openInv r'"
  using sameBody_fields [of r r'] by (simp add: openInv_def sizesOk_def)

text \<open>The end of the line behind the data of a chunk, and then the next chunk.\<close>

lemma chunkEnd_safe:
  assumes "bodyAt r w" "openInv r" "goodPools pool" "length w \<le> n"
  shows "readOk r n (andThen (expectLF r) (\<lambda>r. andThen (skipChunked r) (startChunk pool)))"
proof -
  obtain b v where w: "w = b # v" using assms(1) by (rule bodyAt_peek)
  have at1: "bodyAt r (b # v)" using assms(1) w by simp
  show ?thesis
  proof (cases "b = 0x0A")
    case False
    then show ?thesis using expectLF_spec [OF at1] by (simp add: readOk_def)
  next
    case True
    then have lf: "expectLF r = Done r" using expectLF_spec [OF at1] by simp
    show ?thesis
    proof (cases rule: skipPosE [OF at1, case_names moved stuck])
      case (moved r1)
      have "readOk r n (startChunk pool r1)"
        using startChunk_safe [OF moved(2) openInv_same [OF assms(2) moved(3)] assms(3)] sameBody_fields [OF moved(3)] w assms(4)
        by (auto intro: readOk_shift)
      with lf moved(1) show ?thesis by simp
    next
      case (stuck r1)
      with lf show ?thesis by (simp add: readOk_def)
    qed
  qed
qed

lemma readVagueContent_ok:
  assumes "goodPools pool" "bodyInv r"
  shows "readOk r (length (contents r)) (readVagueContent pool r)"
proof -
  note fill = fillBody_spec [OF assms]
  show ?thesis
  proof (cases "fillBody pool r")
    case Panic
    with fill show ?thesis by simp
  next
    case (Fail r1)
    then show ?thesis by (simp add: readVagueContent_def readOk_def)
  next
    case (Done r1)
    with fill have r1: "bodyAt r1 (contents r)" "filledBody r r1" by simp_all
    have open1: "openInv r1" by (rule bodyInv_openInv [OF assms(2) r1(2)])
    have eq: "receivedSize r1 = receivedSize r" "maxContentSize r1 = maxContentSize r" "chunkSize r1 = chunkSize r" "inContentSize r1 = inContentSize r"
      using r1(2) by (simp_all add: filledBody_def)
    obtain b v where w: "contents r = b # v" "peek r1 = Some b" using r1(1) by (rule bodyAt_peek)
    consider "chunkSize r = - 2 \<and> b = 0x0D" | "chunkSize r = - 2 \<and> b \<noteq> 0x0D \<or> chunkSize r = - 1"
      | "chunkSize r = 0" | "0 < chunkSize r"
      using assms(2) unfolding bodyInv_def by linarith
    then show ?thesis
    proof cases
      case 1
      have at1: "bodyAt r1 (b # v)" using r1(1) w(1) by simp
      show ?thesis
      proof (cases rule: skipPosE [OF at1, case_names moved stuck])
        case (moved r2)
        have len: "length v \<le> length (contents r)" using w(1) by simp
        have "readOk r2 (length (contents r)) (andThen (expectLF r2) (\<lambda>r. andThen (skipChunked r) (startChunk pool)))"
          by (rule chunkEnd_safe [OF moved(2) openInv_same [OF open1 moved(3)] assms(1) len])
        then have "readOk r (length (contents r)) (andThen (expectLF r2) (\<lambda>r. andThen (skipChunked r) (startChunk pool)))"
          by (rule readOk_shift) (use sameBody_fields [OF moved(3)] eq in simp_all)
        with 1 Done eq w(2) moved(1) show ?thesis by (simp add: readVagueContent_def)
      next
        case (stuck r2)
        with 1 Done eq w(2) show ?thesis by (simp add: readVagueContent_def readOk_def)
      qed
    next
      case 2
      have "readOk r1 (length (contents r)) (andThen (expectLF r1) (\<lambda>r. andThen (skipChunked r) (startChunk pool)))"
        by (rule chunkEnd_safe [OF r1(1) open1 assms(1)]) simp
      then have "readOk r (length (contents r)) (andThen (expectLF r1) (\<lambda>r. andThen (skipChunked r) (startChunk pool)))"
        by (rule readOk_shift) (use eq in simp_all)
      with 2 Done eq w(2) show ?thesis by (auto simp: readVagueContent_def)
    next
      case 3
      have "readOk r (length (contents r)) (startChunk pool r1)"
        by (rule readOk_shift [OF startChunk_safe [OF r1(1) open1 assms(1)]]) (use eq in simp_all)
      with 3 Done eq show ?thesis by (simp add: readVagueContent_def)
    next
      case 4
      then have "0 < chunkSize r1" "receivedSize r1 + chunkSize r1 \<le> maxContentSize r1"
        using eq assms(2) by (simp_all add: bodyInv_def)
      from takeChunkData_inv [OF r1(1) open1 this] 4 Done eq show ?thesis
        by (cases "takeChunkData r1") (auto simp: readVagueContent_def readOk_def)
    qed
  qed
qed

subsection \<open>Reading back chunks\<close>

text \<open>What the connection holds for the next message when the stream ends.\<close>

definition nextOctets :: "'a bodyIn_scheme \<Rightarrow> bytes option" where
  "nextOctets r = map_option (\<lambda>(p, e). take e p @ arriving (network r)) (nextInput r)"

lemma lastChunk_end:
  assumes "bodyAt r (0x0A # rest)"
  shows "nextOctets (let r = r\<lparr>fore := fore r + 1\<rparr> in
    if fore r < winEdge r then r\<lparr>overChunked := True, inputNext := fore r, inputEdge := winEdge r\<rparr>
    else r\<lparr>inputNext := 0, inputEdge := 0, window := [], bodyOpen := False\<rparr>) = Some rest"
proof -
  have r: "length (window r) = 16384" "fore r < winEdge r" "winEdge r \<le> 16384"
    "0x0A # rest = slice (window r) (fore r) (winEdge r) @ arriving (network r)"
    using assms by (simp_all add: bodyAt_def bodyReady_def unread_def)
  have "slice (window r) (fore r) (winEdge r) = window r ! fore r # slice (window r) (Suc (fore r)) (winEdge r)"
    using r by (intro slice_Suc) simp_all
  with r(4) have rest: "rest = slice (window r) (Suc (fore r)) (winEdge r) @ arriving (network r)" by simp
  let ?left = "slice (window r) (Suc (fore r)) (winEdge r)"
  have len: "length ?left = winEdge r - Suc (fore r)" using r by simp
  have "take (winEdge r - Suc (fore r)) (copyAt (window r) 0 ?left) = ?left"
    using r len by (simp add: copyAt_def)
  with rest r show ?thesis
    by (cases "Suc (fore r) < winEdge r") (simp_all add: nextOctets_def nextInput_def Let_def panic_simps slice_def)
qed

lemma recvLastChunk_reads:
  assumes "bodyAt r (0x0D # 0x0A # rest)" "posAt r < 18"
  shows "\<exists>r'. recvLastChunk pool r = Done r' \<and> nextOctets r' = Some rest"
proof (cases rule: skipPosE [OF assms(1), case_names moved stuck])
  case (moved r1)
  have "recvLastChunk pool r = Done (let r = r1\<lparr>fore := fore r1 + 1\<rparr> in
    if fore r < winEdge r then r\<lparr>overChunked := True, inputNext := fore r, inputEdge := winEdge r\<rparr>
    else r\<lparr>inputNext := 0, inputEdge := 0, window := [], bodyOpen := False\<rparr>)"
    using bodyAt_at [OF assms(1)] moved(1) expectLF_spec [OF moved(2)] by (simp add: recvLastChunk_def Let_def)
  with lastChunk_end [OF moved(2)] show ?thesis by blast
next
  case (stuck r1)
  with assms(2) show ?thesis by simp
qed

text \<open>The octets of one chunk: a size in hexadecimal digits, and the data.\<close>

definition isChunk :: "bytes \<Rightarrow> bytes \<Rightarrow> bool" where
  "isChunk w d \<longleftrightarrow> (\<exists>ds. w = ds @ 0x0D # 0x0A # d @ [0x0D, 0x0A] \<and> list_all isHex ds \<and> length ds < 16 \<and>
     valueOf hexVal 16 0 ds = Some (length d))"

definition lastWire :: "bytes \<Rightarrow> bytes" where
  "lastWire rest = bs ''0'' @ 0x0D # 0x0A # 0x0D # 0x0A # rest"

lemma startChunk_reads:
  assumes "bodyAt r (w @ tail)" "isChunk w d" "d \<noteq> []" "sizesOk r" "receivedSize r + int (length d) \<le> maxContentSize r" "bodyOpen r"
  shows "\<exists>d1 d2 r'. startChunk pool r = Done (d1, False, r') \<and> d = d1 @ d2 \<and> pendingChunk (chunkSize r') (contents r') d2 tail"
proof -
  obtain ds where ds: "w = ds @ 0x0D # 0x0A # d @ [0x0D, 0x0A]" "list_all isHex ds" "length ds < 16" "valueOf hexVal 16 0 ds = Some (length d)"
    using assms(2) unfolding isChunk_def by blast
  have at1: "bodyAt r (ds @ 0x0D # 0x0A # d @ 0x0D # 0x0A # tail)" using assms(1) ds(1) by simp
  obtain r1 r0 where r1: "recvChunkLine r = Done r1" "bodyAt r1 (d @ 0x0D # 0x0A # tail)" "sameBody r r0"
    "sameBody (r0\<lparr>chunkSize := int (length d)\<rparr>) r1"
    using recvChunkLine_reads [OF at1 _ assms(4) ds(2-4) assms(5)] assms(3) by blast
  have k: "chunkSize r1 = int (length d)" "bodyOpen r1"
    using sameBody_fields [OF r1(4)] sameBody_fields [OF r1(3)] assms(6) by simp_all
  then have "pendingChunk (chunkSize r1) (d @ 0x0D # 0x0A # tail) d tail" using assms(3) by (simp add: pendingChunk_def)
  from takeChunkData_reads [OF r1(2) this assms(3)] obtain d1 d2 r' where r': "takeChunkData r1 = Done (d1, r')" "d = d1 @ d2"
    "pendingChunk (chunkSize r') (unread r') d2 tail" by blast
  have "0 < chunkSize r1" using k(1) assms(3) by simp
  from takeChunkData_safe [OF r1(2) this] r'(1) have "sameChunk r1 r'" by simp
  then have "contents r' = unread r'" using k(2) sameChunk_fields [of r1 r'] by (simp add: contents_def)
  moreover have "chunkSize r1 \<noteq> 0" using \<open>0 < chunkSize r1\<close> by simp
  then have "startChunk pool r = Done (d1, False, r')" using r1(1) r'(1) by (simp add: startChunk_def)
  ultimately show ?thesis using r'(2,3) by metis
qed

lemma startChunk_ends:
  assumes "bodyAt r (lastWire rest)" "sizesOk r"
  shows "\<exists>r'. startChunk pool r = Done ([], True, r') \<and> nextOctets r' = Some rest"
proof -
  have at1: "bodyAt r (bs ''0'' @ 0x0D # 0x0A # 0x0D # 0x0A # rest)" using assms(1) unfolding lastWire_def .
  have zero: "list_all isHex (bs ''0'')" "length (bs ''0'') < 16" "valueOf hexVal 16 0 (bs ''0'') = Some 0"
    by (simp_all add: isHex_def hexVal_def byteFromHex_def)
  obtain r1 r0 where r1: "recvChunkLine r = Done r1" "bodyAt r1 (0x0D # 0x0A # rest)" "sameBody r r0"
    "sameBody (r0\<lparr>chunkSize := 0\<rparr>) r1" "posAt r1 < 18"
    using recvChunkLine_reads [OF at1 _ assms(2) zero] assms(2) by (auto simp: sizesOk_def)
  obtain r' where "recvLastChunk pool r1 = Done r'" "nextOctets r' = Some rest"
    using recvLastChunk_reads [OF r1(2,5)] by blast
  with r1(1) sameBody_fields(1) [OF r1(4)] show ?thesis by (simp add: startChunk_def)
qed

text \<open>A read whose chunk is over goes on to the next one.\<close>

lemma readVagueContent_start:
  assumes "goodPools pool" "bodyInv r" "pendingChunk (chunkSize r) (contents r) [] tail" "tail \<noteq> []"
  shows "\<exists>r1. readVagueContent pool r = startChunk pool r1 \<and> bodyAt r1 tail \<and> sizesOk r1 \<and> bodyOpen r1 \<and>
    receivedSize r1 = receivedSize r \<and> maxContentSize r1 = maxContentSize r"
proof -
  note fill = fillBody_spec [OF assms(1,2)]
  have ne: "contents r \<noteq> []" using assms(3,4) by (auto simp: pendingChunk_def)
  then obtain r1 where r1: "fillBody pool r = Done r1" "bodyAt r1 (contents r)" "filledBody r r1" "winEdge r = 0 \<longrightarrow> posAt r1 = 0"
    using fill by (cases "fillBody pool r") auto
  have f1: "receivedSize r1 = receivedSize r" "maxContentSize r1 = maxContentSize r" "chunkSize r1 = chunkSize r" "bodyOpen r1" "sizesOk r1"
    using r1(3) assms(2) by (simp_all add: filledBody_def bodyInv_def sizesOk_def)
  have pos: "posAt r1 = 0" if "chunkSize r < 0" using that assms(2) r1(4) by (simp add: bodyInv_def)
  have lf: "\<exists>r3. andThen (expectLF r2) (\<lambda>r. andThen (skipChunked r) (startChunk pool)) = startChunk pool r3 \<and> bodyAt r3 tail \<and> sameBody r2 r3"
    if r2: "bodyAt r2 (0x0A # tail)" "posAt r2 < 2" for r2 :: "'a bodyIn_scheme"
  proof (cases rule: skipPosE [OF r2(1), case_names moved stuck])
    case (moved r3)
    then show ?thesis using expectLF_spec [OF r2(1)] by auto
  next
    case (stuck r3)
    then show ?thesis using r2(2) assms(4) by simp
  qed
  have final: "?thesis" if "readVagueContent pool r = startChunk pool r3" "bodyAt r3 tail" "sameBody r1 r3" for r3
    using that sameBody_fields [OF that(3)] f1 by (auto simp: sizesOk_def)
  from assms(3) consider "chunkSize r = - 2" "contents r = 0x0D # 0x0A # tail" | "chunkSize r = - 1" "contents r = 0x0A # tail"
    | "chunkSize r = 0" "contents r = tail" by (auto simp: pendingChunk_def)
  then show ?thesis
  proof cases
    case 1
    have at1: "bodyAt r1 (0x0D # 0x0A # tail)" using r1(2) 1 by simp
    show ?thesis
    proof (cases rule: skipPosE [OF at1, case_names moved stuck])
      case (moved r2)
      have "posAt r2 < 2" using moved(4) pos 1 by simp
      from lf [OF moved(2) this] obtain r3 where r3:
        "andThen (expectLF r2) (\<lambda>r. andThen (skipChunked r) (startChunk pool)) = startChunk pool r3" "bodyAt r3 tail" "sameBody r2 r3" by blast
      have "readVagueContent pool r = startChunk pool r3"
        using r1(1) f1(3) 1 bodyAt_at [OF at1] moved(1) r3(1) by (simp add: readVagueContent_def)
      from final [OF this r3(2) sameBody_trans [OF moved(3) r3(3)]] show ?thesis .
    next
      case (stuck r2)
      then show ?thesis using pos 1 by simp
    qed
  next
    case 2
    have at1: "bodyAt r1 (0x0A # tail)" "posAt r1 < 2" using r1(2) 2 pos by simp_all
    from lf [OF at1] obtain r3 where r3:
      "andThen (expectLF r1) (\<lambda>r. andThen (skipChunked r) (startChunk pool)) = startChunk pool r3" "bodyAt r3 tail" "sameBody r1 r3" by blast
    have "readVagueContent pool r = startChunk pool r3"
      using r1(1) f1(3) 2 bodyAt_at [OF at1(1)] r3(1) by (simp add: readVagueContent_def)
    from final [OF this r3(2,3)] show ?thesis .
  next
    case 3
    have "readVagueContent pool r = startChunk pool r1" using r1(1) f1(3) 3 by (simp add: readVagueContent_def)
    from final [OF this _ sameBody_refl] r1(2) 3 show ?thesis by simp
  qed
qed

lemma readVagueContent_more:
  assumes "goodPools pool" "bodyInv r" "pendingChunk (chunkSize r) (contents r) d tail" "d \<noteq> []"
  shows "\<exists>d1 d2 r'. readVagueContent pool r = Done (d1, False, r') \<and> d = d1 @ d2 \<and> pendingChunk (chunkSize r') (contents r') d2 tail"
proof -
  note fill = fillBody_spec [OF assms(1,2)]
  have "contents r \<noteq> []" using assms(3,4) by (auto simp: pendingChunk_def)
  then obtain r1 where r1: "fillBody pool r = Done r1" "bodyAt r1 (contents r)" "filledBody r r1"
    using fill by (cases "fillBody pool r") auto
  have f1: "chunkSize r1 = chunkSize r" "bodyOpen r1" using r1(3) by (simp_all add: filledBody_def)
  have k: "0 < chunkSize r" using assms(3,4) by (auto simp: pendingChunk_def)
  have "pendingChunk (chunkSize r1) (contents r) d tail" using assms(3) f1 by simp
  from takeChunkData_reads [OF r1(2) this assms(4)] obtain d1 d2 r' where r': "takeChunkData r1 = Done (d1, r')" "d = d1 @ d2"
    "pendingChunk (chunkSize r') (unread r') d2 tail" by blast
  have "0 < chunkSize r1" using k f1 by simp
  from takeChunkData_safe [OF r1(2) this] r'(1) have "sameChunk r1 r'" by simp
  then have "contents r' = unread r'" using f1(2) sameChunk_fields [of r1 r'] by (simp add: contents_def)
  moreover have "readVagueContent pool r = Done (d1, False, r')"
    using r1(1) f1(1) k r'(1) by (simp add: readVagueContent_def)
  ultimately show ?thesis using r'(2,3) by metis
qed

text \<open>The whole content: chunk after chunk, whatever the pieces the network brings.\<close>

lemma recvToEnd_vague:
  assumes "goodPools pool" "list_all2 isChunk ws ds" "[] \<notin> set ds"
  shows "bodyInv r \<Longrightarrow> inContentSize r < 0 \<Longrightarrow> pendingChunk (chunkSize r) (contents r) d (concat ws @ lastWire rest) \<Longrightarrow>
    receivedSize r + int (length d + length (concat ds)) \<le> maxContentSize r \<Longrightarrow> length (contents r) < n \<Longrightarrow>
    \<exists>r'. recvToEnd pool n all r = Done (all @ d @ concat ds, r') \<and> nextOctets r' = Some rest"
  using assms(2,3)
proof (induction n arbitrary: r d ws ds all)
  case (Suc n)
  note ok = readVagueContent_ok [OF assms(1) Suc.prems(1)]
  have vague: "readContent pool r = readVagueContent pool r" using Suc.prems(2) by (simp add: readContent_def)
  have step: "?case"
    if run: "readVagueContent pool r = Done (d1, False, r')" and p: "pendingChunk (chunkSize r') (contents r') d2 (concat ws' @ lastWire rest)"
      and all: "d @ concat ds = d1 @ d2 @ concat ds'" "list_all2 isChunk ws' ds'" "[] \<notin> set ds'" for d1 d2 r' ws' ds'
  proof -
    have r': "receivedSize r' = receivedSize r + int (length d1)" "bodyInv r'" "maxContentSize r' = maxContentSize r"
      "inContentSize r' = inContentSize r" "length (contents r') < n"
      using ok Suc.prems(5) by (simp_all add: run readOk_def)
    have "length d + length (concat ds) = length d1 + length d2 + length (concat ds')"
      using arg_cong [OF all(1), of length] by (simp del: length_concat)
    then have "receivedSize r' + int (length d2 + length (concat ds')) \<le> maxContentSize r'"
      using Suc.prems(4) r'(1,3) by linarith
    moreover have "inContentSize r' < 0" using r'(4) Suc.prems(2) by simp
    ultimately obtain r'' where "recvToEnd pool n (all @ d1) r' = Done ((all @ d1) @ d2 @ concat ds', r'')" "nextOctets r'' = Some rest"
      using Suc.IH [OF r'(2) _ p _ r'(5) all(2,3)] by blast
    with run vague all(1) show ?thesis by auto
  qed
  show ?case
  proof (cases d)
    case (Cons b d')
    then obtain d1 d2 r' where "readVagueContent pool r = Done (d1, False, r')" "d = d1 @ d2"
      "pendingChunk (chunkSize r') (contents r') d2 (concat ws @ lastWire rest)"
      using readVagueContent_more [OF assms(1) Suc.prems(1,3)] by blast
    then show ?thesis using step [of d1 r' d2 ws ds] Suc.prems(6,7) by simp
  next
    case Nil
    have "concat ws @ lastWire rest \<noteq> []" by (simp add: lastWire_def)
    then obtain r1 where r1: "readVagueContent pool r = startChunk pool r1" "bodyAt r1 (concat ws @ lastWire rest)" "sizesOk r1"
      "bodyOpen r1" "receivedSize r1 = receivedSize r" "maxContentSize r1 = maxContentSize r"
      using readVagueContent_start [OF assms(1) Suc.prems(1)] Suc.prems(3) Nil by blast
    show ?thesis
    proof (cases ds)
      case Nil
      then have "ws = []" using Suc.prems(6) by simp
      then obtain r' where "startChunk pool r1 = Done ([], True, r')" "nextOctets r' = Some rest"
        using startChunk_ends [of r1 rest pool] r1(2,3) by auto
      with r1(1) vague \<open>d = []\<close> \<open>ds = []\<close> show ?thesis by simp
    next
      case (Cons c cs)
      then obtain w ws' where ws: "ws = w # ws'" "isChunk w c" "list_all2 isChunk ws' cs"
        using Suc.prems(6) by (auto simp: list_all2_Cons2)
      have c: "c \<noteq> []" "[] \<notin> set cs" using Suc.prems(7) Cons by auto
      have at1: "bodyAt r1 (w @ concat ws' @ lastWire rest)" using r1(2) ws(1) by simp
      have fit: "receivedSize r1 + int (length c) \<le> maxContentSize r1"
        using Suc.prems(4) r1(5,6) Cons by simp
      obtain d1 d2 r' where "startChunk pool r1 = Done (d1, False, r')" "c = d1 @ d2"
        "pendingChunk (chunkSize r') (contents r') d2 (concat ws' @ lastWire rest)"
        using startChunk_reads [OF at1 ws(2) c(1) r1(3) fit r1(4)] by blast
      then show ?thesis using step [of d1 r' d2 ws' cs] r1(1) ws(3) c(2) Cons \<open>d = []\<close> by simp
    qed
  qed
qed simp

subsection \<open>Writing chunks\<close>

text \<open>
  \<open>_writeTextPiece\<close>, \<open>echoChain\<close> and \<open>finalizeVague\<close> of a sender: the octets that are written.  The buffer of
  256 octets that the size is written to belongs to the stream and is used again for the next piece.
\<close>

definition writeTextPiece :: "bytes \<Rightarrow> bool \<Rightarrow> bytes \<Rightarrow> (bytes \<times> bytes) option" where
  "writeTextPiece buffer inChunked text =
    (if inChunked then do {
       (sizeBuffer, n) \<leftarrow> i64ToHex (word_of_nat (length text)) buffer;
       sizeBuffer \<leftarrow> put2 sizeBuffer n 0x0D 0x0A;
       line \<leftarrow> sub sizeBuffer 0 (n + 2);
       Some (line @ text @ [0x0D, 0x0A], sizeBuffer)
     } else Some (text, buffer))"

primrec echoChain :: "bytes \<Rightarrow> bool \<Rightarrow> bytes list \<Rightarrow> (bytes \<times> bytes) option" where
  "echoChain buffer inChunked [] = Some ([], buffer)"
| "echoChain buffer inChunked (text # chain) = do {
     (w, buffer) \<leftarrow> writeTextPiece buffer inChunked text;
     (ws, buffer) \<leftarrow> echoChain buffer inChunked chain;
     Some (w @ ws, buffer)
   }"

definition http1BytesZeroCRLF :: bytes where "http1BytesZeroCRLF = bs ''0'' @ [0x0D, 0x0A]"
definition http1BytesZeroCRLFCRLF :: bytes where "http1BytesZeroCRLFCRLF = bs ''0'' @ [0x0D, 0x0A, 0x0D, 0x0A]"

definition finalizeVague :: "'a httpOut_scheme \<Rightarrow> bytes option" where
  "finalizeVague r =
    (if numTrailerFields r = 1 then Some http1BytesZeroCRLFCRLF
     else do { trailers \<leftarrow> sub (outBuf r) 0 (outputEdge r); Some (http1BytesZeroCRLF @ trailers @ [0x0D, 0x0A]) })"

lemma valueOf_all: "valueOf u base acc p = Some v \<Longrightarrow> list_all (\<lambda>b. u b \<noteq> None) p"
  by (induction p arbitrary: acc) (auto split: option.splits)

lemma writeTextPiece_isChunk:
  assumes "18 \<le> length buffer" "length text < 2 ^ 60"
  shows "\<exists>w b. writeTextPiece buffer True text = Some (w, b) \<and> isChunk w text \<and> length b = length buffer"
proof -
  define ds where "ds = map ((\<lambda>d. hexDigits ! nat d) \<circ> int) (digitsOf 16 (length text))"
  have "length (digitsOf 16 (length text)) \<le> 15" using hex.length_digitsOf [of "length text" 15] assms(2) by simp
  then have len: "length ds < 16" by (simp add: ds_def)
  have val: "valueOf hexVal 16 0 ds = Some (length text)" unfolding ds_def by (rule hex.valueOf_digits)
  then have hex: "list_all isHex ds" unfolding isHex_def by (rule valueOf_all)
  have "length text < 2 ^ 63" using assms(2) by (rule less_trans) simp
  then have "sint (word_of_nat (length text) :: int64) = int (length text)"
    by (simp add: signed_of_nat signed_take_bit_int_eq_self)
  moreover have "length text < 16 ^ 16" using assms(2) by (rule less_trans) simp
  ultimately have size: "i64ToHex (word_of_nat (length text)) buffer = Some (ds @ drop (length ds) buffer, length ds)"
    using intToHex_spec [of "length text" 16 buffer] assms(1) by (simp add: i64ToHex_def ds_def)
  have split: "drop (length ds) buffer = buffer ! length ds # buffer ! Suc (length ds) # drop (length ds + 2) buffer"
    using len assms(1) by (simp add: Cons_nth_drop_Suc)
  let ?b = "ds @ 0x0D # 0x0A # drop (length ds + 2) buffer"
  have "put2 (ds @ drop (length ds) buffer) (length ds) 0x0D 0x0A = Some ?b"
    unfolding split by (simp add: put2_def panic_simps list_update_append)
  moreover have "sub ?b 0 (length ds + 2) = Some (ds @ [0x0D, 0x0A])" by (simp add: sub_def slice_def)
  ultimately have "writeTextPiece buffer True text = Some (ds @ 0x0D # 0x0A # text @ [0x0D, 0x0A], ?b)"
    using size by (simp add: writeTextPiece_def)
  then show ?thesis using hex len val assms(1) by (auto simp: isChunk_def)
qed

lemma echoChain_isChunk:
  assumes "18 \<le> length buffer" "list_all (\<lambda>d. length d < 2 ^ 60) ds" "echoChain buffer True ds = Some (wire, b)"
  shows "\<exists>ws. wire = concat ws \<and> list_all2 isChunk ws ds"
  using assms
proof (induction ds arbitrary: buffer wire b)
  case Nil
  then show ?case by (intro exI [of _ "[]"]) simp
next
  case (Cons d ds)
  obtain w b1 where w: "writeTextPiece buffer True d = Some (w, b1)" "isChunk w d" "length b1 = length buffer"
    using writeTextPiece_isChunk [OF Cons.prems(1), of d] Cons.prems(2) by auto
  with Cons.prems(3) obtain v where v: "echoChain b1 True ds = Some (v, b)" "wire = w @ v" by (auto simp: bind_eq_Some_conv)
  obtain ws where "v = concat ws" "list_all2 isChunk ws ds"
    using Cons.IH [OF _ _ v(1)] Cons.prems(1,2) w(3) by auto
  with w(2) v(2) show ?case by (intro exI [of _ "w # ws"]) simp
qed

text \<open>C1: Content that one side sends in chunks is read back by the other side: whatever pieces an
  application writes, and however the network cuts the octets, the receiver's content is the pieces put
  together, and the octets behind the message are left for the next one.\<close>

theorem chunked_roundtrip:
  assumes "goodPools pool" "18 \<le> length buffer" "[] \<notin> set pieces" "list_all (\<lambda>d. length d < 2 ^ 60) pieces"
    and "echoChain buffer True pieces = Some (wire, b)" "numTrailerFields out = 1" "finalizeVague out = Some end'"
    and "bodyInv r" "\<not> contentReceived r" "inContentSize r = - 2" "chunkSize r = 0" "contents r = wire @ end' @ rest"
    and "receivedSize r + int (length (concat pieces)) \<le> maxContentSize r" "length (contents r) < n"
  shows "\<exists>r'. loadContent pool n r = Done (concat pieces, r') \<and> nextOctets r' = Some rest"
proof -
  obtain ws where ws: "wire = concat ws" "list_all2 isChunk ws pieces"
    using echoChain_isChunk [OF assms(2,4,5)] by blast
  have "end' @ rest = lastWire rest" using assms(6,7) by (simp add: finalizeVague_def http1BytesZeroCRLFCRLF_def lastWire_def)
  then have p: "contents r = concat ws @ lastWire rest" using assms(12) ws(1) by simp
  let ?r = "r\<lparr>contentReceived := True\<rparr>"
  have same: "contents ?r = contents r" by (simp add: contents_def unread_def)
  have "pendingChunk (chunkSize ?r) (contents ?r) [] (concat ws @ lastWire rest)" using assms(11) p same by (simp add: pendingChunk_def)
  moreover have "bodyInv ?r" using assms(8) by (auto simp: bodyInv_def sizesOk_def bodyReady_def)
  ultimately have "\<exists>r'. recvToEnd pool n [] ?r = Done ([] @ [] @ concat pieces, r') \<and> nextOctets r' = Some rest"
    using recvToEnd_vague [OF assms(1) ws(2) assms(3), of ?r "[]" rest n "[]"] assms(10,13,14) same by simp
  then show ?thesis using assms(9,10) by (simp add: loadContent_def recvContent_def)
qed

text \<open>C3: A read of chunked content never panics and never goes beyond the limit, whatever arrives: it counts what it
  returns, a read that is not the last one returns octets, and repeating it comes to an end.\<close>

theorem readVagueContent_safe:
  assumes "goodPools pool" "bodyInv r"
  shows "case readVagueContent pool r of
     Panic \<Rightarrow> False
   | Fail _ \<Rightarrow> True
   | Done (data, eof, r') \<Rightarrow> receivedSize r' = receivedSize r + int (length data) \<and>
       (if eof then data = [] else data \<noteq> [] \<and> receivedSize r' \<le> maxContentSize r \<and> bodyInv r' \<and>
          length (contents r') < length (contents r))"
proof (cases "readVagueContent pool r")
  case (Done x)
  obtain data eof r' where x: "x = (data, eof, r')" by (cases x) auto
  with Done readVagueContent_ok [OF assms] show ?thesis
    by (auto simp: readOk_def bodyInv_def)
qed (use readVagueContent_ok [OF assms] in \<open>simp_all add: readOk_def\<close>)

subsection \<open>Framing of sized content\<close>

lemma readFull_spec:
  assumes "noEmpty net"
  shows "case readFull k net of
     Panic \<Rightarrow> False
   | Fail _ \<Rightarrow> length (arriving net) < k
   | Done (data, net') \<Rightarrow> data = take k (arriving net) \<and> arriving net' = drop k (arriving net) \<and> noEmpty net' \<and> k \<le> length (arriving net)"
  using assms
proof (induction k net rule: readFull.induct)
  case (2 k w net)
  consider "k = 0" | "0 < k" "k < length w" | "0 < k" "length w \<le> k" by linarith
  then show ?case
  proof cases
    case 3
    have "noEmpty net" using 2 by simp
    note ih = 2(1) [OF _ _ this]
    have k: "\<not> k < length w" "k \<noteq> 0" using 3 by simp_all
    show ?thesis using ih k by (cases "readFull (k - length w) net") auto
  qed (use 2(2) in auto)
qed auto

lemma readFull_enough:
  assumes "noEmpty net" "k \<le> length (arriving net)"
  obtains net' where "readFull k net = Done (take k (arriving net), net')" "arriving net' = drop k (arriving net)" "noEmpty net'"
  using readFull_spec [OF assms(1), of k] assms(2) by (cases "readFull k net") auto

text \<open>What the connection keeps for the next message, where all the rest is still to arrive.\<close>

lemma nextOctets_reset: "inputNext r = 0 \<Longrightarrow> inputEdge r = 0 \<Longrightarrow> nextOctets r = Some (arriving (network r))"
  by (simp add: nextOctets_def nextInput_def)

lemma recvToEnd_sized:
  assumes "goodPools pool"
  shows "inContentSize r = int k \<Longrightarrow> receivedSize r = int j \<Longrightarrow> j \<le> k \<Longrightarrow> j = k \<longrightarrow> bodyOpen r \<Longrightarrow>
    bodyOpen r \<longrightarrow> length (window r) = 16384 \<Longrightarrow> fst (imme r) = snd (imme r) \<Longrightarrow> noEmpty (network r) \<Longrightarrow>
    k - j \<le> length (arriving (network r)) \<Longrightarrow> k - j < n \<Longrightarrow> inputNext r = 0 \<Longrightarrow> inputEdge r = 0 \<Longrightarrow>
    \<exists>r'. recvToEnd pool n all r = Done (all @ take (k - j) (arriving (network r)), r') \<and>
      nextOctets r' = Some (drop (k - j) (arriving (network r)))"
proof (induction n arbitrary: r j all)
  case (Suc n)
  have sized: "readContent pool r = readSizedContent pool r" using Suc.prems(1) by (simp add: readContent_def)
  show ?case
  proof (cases "j = k")
    case True
    then have "readSizedContent pool r = Done ([], True, r\<lparr>window := [], bodyOpen := False\<rparr>)"
      using Suc.prems(1,2,4) by (simp add: readSizedContent_def)
    then show ?thesis using True sized nextOctets_reset [of "r\<lparr>window := [], bodyOpen := False\<rparr>"] Suc.prems(10,11) by simp
  next
    case False
    then have lt: "j < k" using Suc.prems(3) by simp
    define p where "p = (if bodyOpen r then window r else GetNK pool 16384)"
    define m where "m = min 16384 (k - j)"
    have p: "length p = 16384" using Suc.prems(5) length_GetNK [OF assms] by (simp add: p_def nkSize_def)
    have m: "0 < m" "m \<le> k - j" "m \<le> 16384" using lt by (simp_all add: m_def)
    have "m \<le> length (arriving (network r))" using m(2) Suc.prems(8) by simp
    then obtain net where net: "readFull m (network r) = Done (take m (arriving (network r)), net)"
      "arriving net = drop m (arriving (network r))" "noEmpty net"
      using readFull_enough [OF Suc.prems(7)] by blast
    let ?data = "take m (arriving (network r))"
    have ld: "length ?data = m" using m(2) Suc.prems(8) by simp
    let ?r = "r\<lparr>window := copyAt p 0 ?data, network := net, receivedSize := int (j + m), bodyOpen := True\<rparr>"
    have size: "nat (min (int 16384) (int k - int j)) = m" using lt by (simp add: m_def min_def) linarith
    have "take m (copyAt p 0 ?data) = ?data" using ld p m(3) by (simp add: copyAt_def)
    moreover have "readSizedContent pool r = (case readFull m (network r) of
           Done (data, net) \<Rightarrow> Done (take (length data) (copyAt p 0 data), False,
             r\<lparr>window := copyAt p 0 data, network := net, receivedSize := int j + int (length data), bodyOpen := True\<rparr>)
         | Fail e \<Rightarrow> Fail (r\<lparr>window := p, bodyOpen := True\<rparr>)
         | Panic \<Rightarrow> Panic)"
    proof (cases "bodyOpen r")
      case True
      then have eq: "r\<lparr>bodyOpen := True\<rparr> = r" "p = window r" by (simp_all add: p_def)
      have "r\<lparr>window := q, network := net, receivedSize := s, bodyOpen := True\<rparr> = r\<lparr>window := q, network := net, receivedSize := s\<rparr>" for q net s
        using True by (cases r) simp
      then show ?thesis
        using True p False Suc.prems(1,2,6) size eq by (simp add: readSizedContent_def Let_def split: outcome.split)
    next
      case F: False
      then have eq: "p = GetNK pool 16384" by (simp add: p_def)
      then show ?thesis
        using F p False Suc.prems(1,2,6) size by (simp add: readSizedContent_def Let_def split: outcome.split)
    qed
    ultimately have run: "readSizedContent pool r = Done (?data, False, ?r)" using net(1) ld by simp
    have "j + m \<le> k" "k - (j + m) \<le> length (arriving net)" "k - (j + m) < n" "length (copyAt p 0 ?data) = 16384"
      using Suc.prems(8,9) m net(2) p lt by simp_all
    then obtain r' where r': "recvToEnd pool n (all @ ?data) ?r = Done ((all @ ?data) @ take (k - (j + m)) (arriving net), r')"
      "nextOctets r' = Some (drop (k - (j + m)) (arriving net))"
      using Suc.IH [of ?r "j + m" "all @ ?data"] Suc.prems net(3) m(2) lt by auto
    have "k - j = m + (k - (j + m))" using m(2) lt by simp
    then have "take (k - j) (arriving (network r)) = ?data @ take (k - (j + m)) (arriving net)"
      "drop (k - j) (arriving (network r)) = drop (k - (j + m)) (arriving net)"
      by (simp_all add: net(2) take_add drop_drop add.commute)
    with r' run sized show ?thesis by simp
  qed
qed simp

text \<open>A message whose head was received up to \<open>headEdge\<close>, and the octets behind the head.\<close>

definition headDone :: "'a bodyIn_scheme \<Rightarrow> bool" where
  "headDone r \<longleftrightarrow> 0 < headEdge r \<and> headEdge r \<le> inputEdge r \<and> inputEdge r \<le> length (headInput r) \<and> length (headInput r) \<le> 16384 \<and>
     noEmpty (network r) \<and> \<not> bodyOpen r \<and> \<not> contentReceived r \<and> receivedSize r = 0 \<and> inputNext r = 0 \<and> \<not> overChunked r \<and>
     imme r = (0, 0)"

definition behindHead :: "'a bodyIn_scheme \<Rightarrow> bytes" where
  "behindHead r = slice (headInput r) (headEdge r) (inputEdge r) @ arriving (network r)"

lemma nextOctets_input:
  assumes "inputNext r \<noteq> 0" "\<not> overChunked r" "inputNext r \<le> inputEdge r" "inputEdge r \<le> length (headInput r)"
  shows "nextOctets r = Some (slice (headInput r) (inputNext r) (inputEdge r) @ arriving (network r))"
proof -
  let ?left = "slice (headInput r) (inputNext r) (inputEdge r)"
  have "length ?left = inputEdge r - inputNext r" using assms by simp
  then have "take (inputEdge r - inputNext r) (copyAt (headInput r) 0 ?left) = ?left"
    using assms(4) by (simp add: copyAt_def)
  with assms show ?thesis by (simp add: nextOctets_def nextInput_def panic_simps Let_def)
qed

lemma slice_at: "a \<le> b \<Longrightarrow> b \<le> length xs \<Longrightarrow> k \<le> b - a \<Longrightarrow> take k (slice xs a b) = slice xs a (a + k) \<and> drop k (slice xs a b) = slice xs (a + k) b"
  by (auto simp: slice_def drop_take add.commute)

text \<open>Content that came with the head entirely, or no content.\<close>

lemma loadContent_immediate:
  assumes "headDone r" "- 1 \<le> inContentSize r" "k = nat (inContentSize r)" "k \<le> inputEdge r - headEdge r"
    and "inContentSize r = - 1 \<longrightarrow> contentText r = []"
  shows "\<exists>r'. loadContent pool n (tidyInput r) = Done (take k (behindHead r), r') \<and> nextOctets r' = Some (drop k (behindHead r))"
proof -
  let ?a = "headEdge r" and ?e = "inputEdge r" and ?p = "headInput r"
  have r: "0 < ?a" "?a \<le> ?e" "?e \<le> length ?p" "\<not> overChunked r" "receivedSize r = 0" "inputNext r = 0"
    using assms(1) by (simp_all add: headDone_def)
  have cut: "take k (behindHead r) = slice ?p ?a (?a + k)" "drop k (behindHead r) = slice ?p (?a + k) ?e @ arriving (network r)"
    using slice_at [OF r(2,3) assms(4)] r assms(4) by (simp_all add: behindHead_def)
  have sub: "sub (slice ?p ?a (?a + k)) 0 k = Some (slice ?p ?a (?a + k))"
    using r assms(4) by (simp add: sub_def) (simp add: slice_def)
  show ?thesis
  proof (cases "inContentSize r = - 1")
    case True
    then have k: "k = 0" using assms(3) by simp
    show ?thesis
    proof (cases "?a < ?e")
      case True
      have "nextOctets (r\<lparr>contentReceived := True, inputNext := ?a\<rparr>) = Some (behindHead r)"
        using nextOctets_input [of "r\<lparr>contentReceived := True, inputNext := ?a\<rparr>"] r by (simp add: behindHead_def)
      with True \<open>inContentSize r = - 1\<close> k r assms(5) show ?thesis
        by (simp add: loadContent_def tidyInput_def sub_def Let_def slice_def)
    next
      case False
      have "nextOctets (r\<lparr>contentReceived := True, inputNext := 0, inputEdge := 0\<rparr>) = Some (arriving (network r))"
        using nextOctets_reset [of "r\<lparr>contentReceived := True, inputNext := 0, inputEdge := 0\<rparr>"] by simp
      with False \<open>inContentSize r = - 1\<close> k r assms(5) show ?thesis
        by (simp add: loadContent_def tidyInput_def sub_def Let_def slice_def behindHead_def)
    qed
  next
    case False
    then have size: "inContentSize r = int k" using assms(2,3) by simp
    have imm: "int ?e - int ?a \<ge> int k" using assms(4) r(2) by simp
    show ?thesis
    proof (cases "?e - ?a = k")
      case True
      let ?r = "r\<lparr>inputNext := 0, inputEdge := 0, imme := (?a, ?e), receivedSize := int k, contentReceived := True,
        contentText := slice ?p ?a (?a + k)\<rparr>"
      have eq: "int ?e - int ?a = int k" using True r(2) by simp
      have "nextOctets ?r = Some (arriving (network r))" using nextOctets_reset [of ?r] by simp
      moreover have "tidyInput r = ?r" using size eq by (cases r) (simp add: tidyInput_def Let_def)
      moreover have "?a + k = ?e" using True r(2) by simp
      ultimately show ?thesis using sub cut size by (simp add: loadContent_def)
    next
      case F: False
      let ?r = "r\<lparr>inputNext := ?a + k, imme := (?a, ?a + k), receivedSize := int k, contentReceived := True,
        contentText := slice ?p ?a (?a + k)\<rparr>"
      have more: "int ?e - int ?a > int k" "\<not> (int ?e - int ?a = 0 \<or> int ?e - int ?a \<le> int k)" using imm F by linarith+
      have "nextOctets ?r = Some (slice ?p (?a + k) ?e @ arriving (network r))"
        using nextOctets_input [of ?r] r assms(4) by simp
      moreover have "tidyInput r = ?r" using size more by (cases r) (simp add: tidyInput_def Let_def)
      ultimately show ?thesis using sub cut size by (simp add: loadContent_def)
    qed
  qed
qed

text \<open>Content of which a part is still to arrive.\<close>

lemma loadContent_arriving:
  assumes "goodPools pool" "headDone r" "inContentSize r = int k" "inputEdge r - headEdge r < k" "k \<le> length (behindHead r)" "k + 2 \<le> n"
  shows "\<exists>r'. loadContent pool n (tidyInput r) = Done (take k (behindHead r), r') \<and> nextOctets r' = Some (drop k (behindHead r))"
proof -
  let ?a = "headEdge r" and ?e = "inputEdge r" and ?p = "headInput r" and ?net = "arriving (network r)"
  have r: "0 < ?a" "?a \<le> ?e" "?e \<le> length ?p" "length ?p \<le> 16384" "noEmpty (network r)" "\<not> bodyOpen r"
    "receivedSize r = 0" "\<not> contentReceived r"
    using assms(2) by (simp_all add: headDone_def)
  define h where "h = ?e - ?a"
  define d where "d = slice ?p ?a ?e"
  have d: "length d = h" "sub ?p ?a ?e = Some d" using r by (simp_all add: d_def h_def panic_simps)
  have h: "h < k" "k - h \<le> length ?net" "h \<le> 16384"
    using assms(4,5) d(1) r by (simp_all add: h_def behindHead_def d_def)
  have cut: "take k (behindHead r) = d @ take (k - h) ?net" "drop k (behindHead r) = drop (k - h) ?net"
    using h d(1) by (simp_all add: behindHead_def flip: d_def)
  let ?r = "r\<lparr>inputNext := 0, inputEdge := 0, imme := (?a, ?e), contentReceived := True\<rparr>"
  have "int ?e - int ?a < int k" using h(1) r(2) by (simp add: h_def)
  then have "(tidyInput r)\<lparr>contentReceived := True\<rparr> = ?r" "\<not> contentReceived (tidyInput r)"
    using assms(3) r(8) by (cases r; simp add: tidyInput_def Let_def)+
  then have tidy: "loadContent pool n (tidyInput r) = recvContent pool n ?r"
    by (simp add: loadContent_def)
  show ?thesis
  proof (cases "k \<le> 65535")
    case True
    have long: "k \<le> length (GetNK pool k)" using length_GetNK [OF assms(1), of k] True by (simp add: nkSize_def)
    obtain net where net: "readFull (k - h) (network r) = Done (take (k - h) ?net, net)" "arriving net = drop (k - h) ?net"
      using readFull_enough [OF r(5) h(2)] by blast
    have fst_part: "copyAt (if h > 0 then copyAt (GetNK pool k) 0 d else GetNK pool k) h (take (k - h) ?net) = d @ take (k - h) ?net @ drop k (GetNK pool k)"
    proof -
      have "(if h > 0 then copyAt (GetNK pool k) 0 d else GetNK pool k) = d @ drop h (GetNK pool k)"
        using d(1) h long by (auto simp: copyAt_def)
      moreover have "copyAt (d @ drop h (GetNK pool k)) h (take (k - h) ?net) = d @ take (k - h) ?net @ drop k (GetNK pool k)"
      proof -
        have "min (length (GetNK pool k) - h) (k - h) = k - h" using long by (intro min_absorb2) simp
        then show ?thesis
          using copyAt_at_end [of d "drop h (GetNK pool k)" "take (k - h) ?net"] d(1) h by (simp add: drop_drop)
      qed
      ultimately show ?thesis by simp
    qed
    let ?text = "if h > 0 then copyAt (GetNK pool k) 0 d else GetNK pool k"
    have room: "sub ?text h k \<noteq> None" "length (slice ?text h k) = k - h"
      using d(1) h long by (auto simp: sub_def copyAt_def)
    then have sub: "sub ?text h k = Some (slice ?text h k)" by (simp add: sub_def split: if_splits)
    have out: "take k (d @ take (k - h) ?net @ drop k (GetNK pool k)) = d @ take (k - h) ?net"
      using d(1) h by simp
    define s where "s = (if h > 0 then ?r\<lparr>receivedSize := int h, imme := (0, 0)\<rparr> else ?r\<lparr>receivedSize := int h\<rparr>)"
    have s: "network s = network r" "receivedSize s = int h" "inputNext s = 0" "inputEdge s = 0"
      by (simp_all add: s_def)
    let ?s = "s\<lparr>network := net, receivedSize := int k\<rparr>"
    have "recvRest ?text h k s = Done (take k (copyAt ?text h (take (k - h) ?net)), ?s)"
      using sub room(2) net(1) s(1,2) h(1,2) by (simp add: recvRest_def Let_def)
    moreover have "recvContent pool n ?r = recvRest ?text h k s"
      using assms(3) h(1) True d(2) by (simp add: recvContent_def s_def Let_def flip: h_def)
    ultimately have "recvContent pool n ?r = Done (take k (copyAt ?text h (take (k - h) ?net)), ?s)" by simp
    moreover have "nextOctets ?s = Some (drop (k - h) ?net)" using nextOctets_reset [of ?s] s net(2) by simp
    ultimately show ?thesis using tidy cut fst_part out by metis
  next
    case False
    then have big: "recvContent pool n ?r = recvToEnd pool n [] ?r" using assms(3) by (simp add: recvContent_def)
    show ?thesis
    proof (cases "h = 0")
      case True
      then have eq: "?a = ?e" "d = []" using r(2) d(1) by (simp_all add: h_def)
      obtain r' where "recvToEnd pool n [] ?r = Done ([] @ take (k - 0) (arriving (network ?r)), r')"
        "nextOctets r' = Some (drop (k - 0) (arriving (network ?r)))"
        using recvToEnd_sized [OF assms(1), of ?r k 0 n "[]"] assms(3,6) r h True eq by auto
      with tidy big cut eq True show ?thesis by auto
    next
      case F: False
      have imm: "?a \<noteq> ?e" using F r(2) by (auto simp: h_def)
      let ?s = "r\<lparr>window := copyAt (GetNK pool 16384) 0 d, inputNext := 0, inputEdge := 0, imme := (0, 0), receivedSize := int h,
        contentReceived := True, bodyOpen := True\<rparr>"
      have len: "length (GetNK pool 16384) = 16384" using length_GetNK [OF assms(1)] by (simp add: nkSize_def)
      have "take h (copyAt (GetNK pool 16384) 0 d) = d" using d(1) h(3) len by (simp add: copyAt_def)
      then have first: "readContent pool ?r = Done (d, False, ?s)"
        using assms(3) h r imm d len F by (simp add: readContent_def readSizedContent_def Let_def)
      obtain m where m: "n = Suc m" "k + 1 \<le> m" using assms(6) by (cases n) auto
      have "\<exists>r'. recvToEnd pool m ([] @ d) ?s = Done (([] @ d) @ take (k - h) (arriving (network ?s)), r') \<and>
          nextOctets r' = Some (drop (k - h) (arriving (network ?s)))"
        by (rule recvToEnd_sized [OF assms(1)]) (use assms(3) h r len m in \<open>auto simp: copyAt_def d\<close>)
      then obtain r' where "recvToEnd pool m d ?s = Done (d @ take (k - h) ?net, r')" "nextOctets r' = Some (drop (k - h) ?net)"
        by auto
      with first tidy big cut m(1) show ?thesis by auto
    qed
  qed
qed

text \<open>C2: Framing.  A message without content or with content of a known size takes exactly its octets from the
  connection: the application gets the first octets behind the head, as many as the size says, and the octets
  after them are what the next message on the connection starts with, whether they came with the head or
  are still to arrive.\<close>

theorem loadContent_framed:
  assumes "goodPools pool" "headDone r" "- 1 \<le> inContentSize r" "inContentSize r = - 1 \<longrightarrow> contentText r = []"
    and "nat (inContentSize r) \<le> length (behindHead r)" "nat (inContentSize r) + 2 \<le> n"
  shows "\<exists>r'. loadContent pool n (tidyInput r) = Done (take (nat (inContentSize r)) (behindHead r), r') \<and>
    nextOctets r' = Some (drop (nat (inContentSize r)) (behindHead r))"
proof (cases "nat (inContentSize r) \<le> inputEdge r - headEdge r")
  case True
  show ?thesis by (rule loadContent_immediate [OF assms(2,3) refl True assms(4)])
next
  case False
  then have "inContentSize r = int (nat (inContentSize r))" by simp
  from loadContent_arriving [OF assms(1,2) this _ assms(5,6)] False show ?thesis by simp
qed

subsection \<open>Examples\<close>

text \<open>A message whose head ended at octet 10, with the pieces that are still to arrive.\<close>

definition sampleBody :: "int \<Rightarrow> bytes list \<Rightarrow> bodyIn" where
  "sampleBody k ws = \<lparr>window = [], fore = 0, winEdge = 0, network = map Arrived ws,
     receiving = SectionContent, headResult = 200, failReason = [],
     primes = [], primesCap = 40, headerLines = (0, 0), headEdge = 10,
     inArray = replicate 768 0, arrayEdge = 0, arrayKind = ArrayKindStock, maxMemoryContentSize = 16384,
     headInput = replicate 1536 0, inputNext = 0, inputEdge = 10, imme = (0, 0), inContentSize = k, receivedSize = 0,
     maxContentSize = 1000, contentReceived = False, contentText = [], bodyResult = 200, bodyOpen = False, chunkBack = 0,
     chunkSize = 0, overChunked = False, trailerLines = (0, 0)\<rparr>"

definition sampleTrailers :: httpOut where
  "sampleTrailers = \<lparr>outBuf = [], edges = [], outputEdge = 0, controlEdge = 0, numHeaderFields = 1, numTrailerFields = 1,
     contentSize = - 2, isSent = True, forbidContent = False, forbidFraming = False, hasRevisers = False, iContentType = 0, iDate = 0\<rparr>"

lemma arriving_pieces: "arriving (map Arrived ws) = concat ws"
  by (induction ws) auto

lemma noEmpty_pieces: "[] \<notin> set ws \<Longrightarrow> noEmpty (map Arrived ws)"
  by (induction ws) auto

lemma sampleBody_facts:
  assumes "[] \<notin> set ws"
  shows "bodyInv (sampleBody k ws)" "headDone (sampleBody k ws)" "contents (sampleBody k ws) = concat ws"
    "behindHead (sampleBody k ws) = concat ws" "inContentSize (sampleBody k ws) = k"
  using assms
  by (simp_all add: bodyInv_def headDone_def contents_def behindHead_def sampleBody_def sizesOk_def arriving_pieces noEmpty_pieces)

lemma samplePools: "goodPools (\<lambda>_. None)"
  by (simp add: goodPools_def)

lemma sampleChunk:
  "echoChain (replicate 18 0) True [bs ''abc''] =
     Some (bs ''3'' @ [0x0D, 0x0A] @ bs ''abc'' @ [0x0D, 0x0A], [0x33, 0x0D, 0x0A] @ replicate 15 0)"
proof -
  have "i64ToHex (word_of_nat (length (bs ''abc''))) (replicate 18 0) = Some (0x33 # replicate 17 0, 1)"
    by (simp add: i64ToHex_def intToHex_def countDigits.simps fillDigits.simps hexDigits_eq put_def numeral_eq_Suc)
  then show ?thesis
    by (simp add: writeTextPiece_def put2_def put_def sub_def slice_def numeral_eq_Suc)
qed

theorem chunked_roundtrip_witness:
  "\<exists>r'. loadContent (\<lambda>_. None) 100 (sampleBody (- 2) [bs ''3'' @ [0x0D], [0x0A] @ bs ''ab'', bs ''c'' @ [0x0D, 0x0A] @ bs ''0'' @ [0x0D, 0x0A, 0x0D, 0x0A, 0x47]]) =
     Done (concat [bs ''abc''], r') \<and> nextOctets r' = Some [0x47]"
proof (rule chunked_roundtrip [OF samplePools _ _ _ sampleChunk])
  show "numTrailerFields sampleTrailers = 1" by (simp add: sampleTrailers_def)
  show "finalizeVague sampleTrailers = Some http1BytesZeroCRLFCRLF" by (simp add: finalizeVague_def sampleTrailers_def)
qed (simp_all add: sampleBody_facts http1BytesZeroCRLFCRLF_def, simp_all add: sampleBody_def)

theorem readVagueContent_safe_witness:
  "case readVagueContent (\<lambda>_. None) (sampleBody (- 2) [bs ''fffffffffffffffff'']) of
     Panic \<Rightarrow> False
   | Fail _ \<Rightarrow> True
   | Done (data, eof, r') \<Rightarrow> receivedSize r' = receivedSize (sampleBody (- 2) [bs ''fffffffffffffffff'']) + int (length data) \<and>
       (if eof then data = []
        else data \<noteq> [] \<and> receivedSize r' \<le> maxContentSize (sampleBody (- 2) [bs ''fffffffffffffffff'']) \<and> bodyInv r' \<and>
          length (contents r') < length (contents (sampleBody (- 2) [bs ''fffffffffffffffff''])))"
  by (rule readVagueContent_safe [OF samplePools]) (simp add: sampleBody_facts)

theorem loadContent_framed_witness:
  "\<exists>r'. loadContent (\<lambda>_. None) 100 (tidyInput (sampleBody 3 [bs ''ab'', bs ''cGET''])) = Done (bs ''abc'', r') \<and>
     nextOctets r' = Some (bs ''GET'')"
  using loadContent_framed [OF samplePools, of "sampleBody 3 [bs ''ab'', bs ''cGET'']" 100]
  by (simp add: sampleBody_facts)

text \<open>
  A chunk line without a digit is taken as size 0: an empty line, where a chunk was to begin, ends the
  content as the last chunk does.
\<close>

lemma empty_line_ends_content:
  assumes "bodyAt r (0x0D # 0x0A # 0x0D # 0x0A # rest)" "sizesOk r"
  shows "\<exists>r'. startChunk pool r = Done ([], True, r') \<and> nextOctets r' = Some rest"
proof -
  obtain r1 r0 where r1: "recvChunkLine r = Done r1" "bodyAt r1 (0x0D # 0x0A # rest)" "sameBody (r0\<lparr>chunkSize := 0\<rparr>) r1" "posAt r1 < 18"
    using recvChunkLine_reads [of r "[]" "0x0D # 0x0A # rest" 0] assms by (auto simp: sizesOk_def)
  obtain r' where "recvLastChunk pool r1 = Done r'" "nextOctets r' = Some rest"
    using recvLastChunk_reads [OF r1(2,4)] by blast
  with r1(1) sameBody_fields(1) [OF r1(3)] show ?thesis by (simp add: startChunk_def)
qed

end
