(* ===== verification/Spec2Isabelle.thy ===== *)
theory Spec2Isabelle
  imports Http2Server Configurator Gates Webapps Http1Body
begin

text \<open>
  A verification library for gorox, an HTTP server, application server and proxy written in Go.  The program is
  the package \<open>hemi\<close> (\<open>hemi/*.go\<close>); the paths below are relative to the root of the repository.

  The parts of the program and how they interact.  A process reads a configuration file: a lexer makes
  tokens, a recursive-descent parser makes a tree of components with properties, and the stage that holds them
  is prepared and started.  Routers (QUIX, TCPX, UDPX) accept connections through gates, and pass each one to the
  dealets of the first case that matches.  HTTP servers accept connections too; a connection of HTTP/1 or of HTTP/2
  is cut into streams, a stream receives a request, the server finds the webapp of its host, the
  webapp runs the request through its rules, and a handlet of a rule, or the webapp, answers through the
  response of the stream.  Backends send the same kinds of messages the other way round.

  The theories, from the bottom:

    \<^item> \<open>Prelude\<close>: octets, checked slices, copying into buffers, searching, results of calls.  A Go panic is \<open>None\<close> or
      \<open>Panic\<close>; an error or an early \<open>return false\<close> is \<open>Fail\<close> with what it leaves.
    \<^item> \<open>Utilities\<close> (\<open>hemi/hemi_utilities.go\<close>): numbers to text and back, hashing, sorting and searching.  The
      locale \<open>positional\<close> is the numeral system of a base, with two interpretations.
    \<^item> \<open>Lexer\<close>, \<open>Components\<close>, \<open>Configurator\<close> (\<open>hemi/hemi_configurator.go\<close>, \<open>hemi/hemi_components.go\<close>): tokens,
      included files, property values and the component tree, and the parser from tokens to a stage.
    \<^item> \<open>Routing\<close>, \<open>Gates\<close> (\<open>hemi/net.go\<close>, \<open>hemi/net_*_router.go\<close>): matching and dispatching connections; the
      admission of connections at a gate as a step relation.
    \<^item> \<open>HttpTables\<close>, \<open>Clock\<close>, \<open>Requests\<close> (\<open>hemi/web_element_http.go\<close>, \<open>hemi/web_server_http.go\<close>,
      \<open>hemi/web_backend_http.go\<close>, \<open>hemi/hemi_fixtures.go\<close>): the perfect hash tables of field names and methods
      (locale \<open>perfect_hash\<close>), HTTP dates, cleaning paths and the accessors of a request.
    \<^item> \<open>Hpack\<close>, \<open>Http2Frames\<close>, \<open>Http2Conn\<close>, \<open>Http2Server\<close> (\<open>hemi/web_element_http2.go\<close>,
      \<open>hemi/web_general_http2.go\<close>, \<open>hemi/web_server_http2.go\<close>): field compression, frames, the receiving side of
      a connection with its buffers, and the serving side with seats, settings and the frame processors.
    \<^item> \<open>HttpOut\<close> (\<open>_httpOut_\<close>, \<open>_http1Out_\<close>, \<open>serverResponse_\<close>, \<open>server1Response\<close>): header sections that are
      written, the fields the server adds itself, and the octets of a response.
    \<^item> \<open>Http1In\<close>, \<open>Http1Body\<close> (\<open>_httpIn_\<close>, \<open>_http1In_\<close>, \<open>server1Request\<close>): the window an HTTP/1 message is received
      through, header and trailer sections, sized and chunked content, and the start of the next message.
    \<^item> \<open>Webapps\<close> (\<open>hemi/web.go\<close>): rules, the dispatch of an exchan, host names and the webapps of a server.

  How states correspond.  A Go struct is a record with the fields its operations use; embedded structs
  are record extensions (\<open>inWindow\<close>, \<open>headIn\<close>, \<open>httpIn\<close>, \<open>arrayIn\<close>, \<open>bodyIn\<close> are parts of \<open>_httpIn_\<close>).  Methods are functions
  that return the changed record.  Machine integers are words where they can wrap (\<open>uint16\<close>, \<open>int64\<close>), or
  numbers with the wrap-around written out (\<open>add16\<close>, \<open>i64\<close>), or natural numbers where a guard
  keeps them small.  Octets of pooled buffers that were not written are arguments.  What is outside of the program
  is an argument or an event: the network as a list of pieces, timeouts and failures; files and
  URLs that are read, the file system, regular expressions, the applications, handlets and dealets that
  are called, the contents of \<open>sync.Pool\<close>.

  What the groups of lemmas show:

    \<^item> safety: no panic in the lexer, in the parser (beyond the lookahead defect below), in receiving header sections
      and content, and in receiving frames; an application cannot split a response; paths stay
      below the root; a gate keeps its limit; a connection of HTTP/2 keeps its seats.
    \<^item> exactness: hash tables agree with a search by name, cleaning agrees with a reference
      normalisation, decoders accept the numerals of their range, dispatch takes the first match.
    \<^item> refinement: the dynamic table of HPACK is a list of entries, the buffers of a connection are its
      stream of octets, a buffer of fields is a list of lines, a window is what was consumed and what was not.
    \<^item> round trips: tokens, literals, numbers, dates, prefixed integers and strings, header sections and chunked
      content are read back as they were written, however the network cuts them.
    \<^item> progress and termination: scanning included files ends without a cycle, parsing ends, shutting
      streams down ends, every exchan gets an answer, reading content ends.

  Bounds and fuel.  Loops whose end depends on input run on fuel, and running out of it is a panic, so the theorems
  on safety show that it is enough: the parser takes twice the number of tokens plus three, the included
  files of the lexer their depth, the loop of \<open>cleanPath\<close> the length of the path, the loops of a header section the
  number of octets that were not consumed, the digits of a chunk size 17, the reads of content one more than the octets
  that are left.  The sizes of the source are kept: heads of 1536, 4096 and 16384 octets, 40 and 250 lines, names of
  255 octets, frames of 16384 octets, 127 streams, limits on content below \<open>2 ^ 63\<close>.

  What modelling showed.  Theorems on defects are kept next to the code they are about:
  \<open>recognizeMethod_divides_by_zero\<close> (a request line that ends the process), \<open>hpackTable_add_overruns\<close>,
  \<open>checkAsData_refuses_full_padding\<close>, \<open>peek_past_end\<close>, \<open>scanFile_cycle\<close>, \<open>rule_number_clash\<close>,
  \<open>conditional_case_panics\<close>, \<open>gate_leak\<close>, \<open>delHeaderAt_breaks_edges\<close>, \<open>addHeader_oversize\<close>,
  \<open>SetExpires_after_full\<close>, \<open>SetStatus_keeps_forbidding\<close>, \<open>second_wildcard_accepted\<close>, \<open>notDir_not_complement\<close>,
  \<open>clockParseHTTPDate_day_0\<close>, \<open>empty_line_ends_content\<close>.

  Not modelled, and why.  HTTP/3 and QUIC (\<open>hemi/web_*_http3.go\<close>, \<open>hemi/library/gotcp2\<close>) and RPC (\<open>hemi/rpc*.go\<close>) are
  skeletons whose operations are not written yet.  Listening, dialing, TLS, signals, the leader
  and worker processes (\<open>hemi/process\<close>), loggers, the system calls (\<open>hemi/library/system\<close>) and the other fixtures
  are input and output with no logic of their own.  The goroutines of streams and connections are the environment of the
  step relations.  The connectors, the built-in and contributed components (\<open>hemi/builtin\<close>, \<open>hemi/contrib\<close>), the
  examples and \<open>hemi/goroxio\<close>, \<open>hemi/hemicar\<close>, \<open>hemi/rockman\<close> are applications and glue on top of the package; most
  of them are empty frames.  The backends and proxies of FCGI, SCGI and uWSGI, the pooled connections
  of backends and their balancers, the forms, cookies, ranges and preconditions of requests, static files and the
  content of files in a response are logic that is left for later work.
\<close>

end
